(* ===== verification/Prelude.thy ===== *)
theory Prelude
  imports Main "HOL-Library.Word"
begin

text \<open>
  Shared vocabulary of the development: what can go wrong in the service (\<open>failure\<close>), the
  sequencing of operations that can go wrong (\<open>bind_outcome\<close>, \<open>fold_outcome\<close>), the machine
  arithmetic the components use (conversions between \<open>int\<close> and \<open>size_t\<close>, checked signed
  addition), and list lemmas used by more than one component.

  The integer widths are those of the LP64 data model the README names as the target platform
  (Linux): \<open>int\<close> has 32 bits, \<open>long\<close> and \<open>size_t\<close> have 64, bytes are stored little endian.
\<close>

section \<open>Outcomes\<close>

text \<open>
  An operation either yields a value or fails. A failure is a C++ exception, named as the handlers
  of the service distinguish it, or a fault: a failed \<open>assert\<close> (the build does not define NDEBUG)
  or an operation whose behaviour the language leaves undefined.
\<close>

type_synonym byte = "8 word"
type_synonym buffer_t = "byte list"

datatype fault =
    Assertion_Failed
  | Null_Dereference
  | Dangling_Pointer
  | Index_Out_Of_Range
  | Signed_Overflow
  | Missing_Return
  | Precondition_Violated

datatype exn =
    Transport_Error_Recoverable
  | Storage_Underflow
  | Message_Code_Unrecognized byte
  | Std_Exception
  | Other_Exception

datatype failure = Throw exn | Fault fault

type_synonym 'a outcome = "failure + 'a"

definition bind_outcome :: "'a outcome \<Rightarrow> ('a \<Rightarrow> 'b outcome) \<Rightarrow> 'b outcome" where
  "bind_outcome m f = (case m of Inl e \<Rightarrow> Inl e | Inr a \<Rightarrow> f a)"

definition guard :: "bool \<Rightarrow> failure \<Rightarrow> unit outcome" where
  "guard b e = (if b then Inr () else Inl e)"

fun fold_outcome :: "('x \<Rightarrow> 's \<Rightarrow> 's outcome) \<Rightarrow> 'x list \<Rightarrow> 's \<Rightarrow> 's outcome" where
  "fold_outcome f [] s = Inr s"
| "fold_outcome f (x # xs) s = bind_outcome (f x s) (fold_outcome f xs)"

lemma bind_outcome_simps [simp]:
  "bind_outcome (Inl e) f = Inl e"
  "bind_outcome (Inr a) f = f a"
  by (simp_all add: bind_outcome_def)

lemma bind_outcome_Inr_iff:
  "bind_outcome m f = Inr b \<longleftrightarrow> (\<exists>a. m = Inr a \<and> f a = Inr b)"
  by (cases m) auto

lemma bind_outcome_Inl_iff:
  "bind_outcome m f = Inl e \<longleftrightarrow> m = Inl e \<or> (\<exists>a. m = Inr a \<and> f a = Inl e)"
  by (cases m) auto

lemma bind_outcome_assoc:
  "bind_outcome (bind_outcome m f) g = bind_outcome m (\<lambda>a. bind_outcome (f a) g)"
  by (cases m) auto

lemma bind_outcome_cong [fundef_cong]:
  "m = m' \<Longrightarrow> (\<And>a. m' = Inr a \<Longrightarrow> f a = f' a) \<Longrightarrow> bind_outcome m f = bind_outcome m' f'"
  by (cases m') auto

lemma guard_simps [simp]:
  "guard True e = Inr ()"
  "guard False e = Inl e"
  by (simp_all add: guard_def)

lemma guard_Inr_iff: "guard b e = Inr u \<longleftrightarrow> b"
  by (simp add: guard_def)

lemma fold_outcome_append:
  "fold_outcome f (xs @ ys) s = bind_outcome (fold_outcome f xs s) (fold_outcome f ys)"
  by (induction xs arbitrary: s) (simp_all add: bind_outcome_def split: sum.splits)

subsection \<open>The contract of a step that keeps an invariant\<close>

text \<open>
  The loops of the service run a step over the entries of a container. A step that, on an entry
  that satisfies \<open>ok\<close> and a state that satisfies \<open>inv\<close>, neither throws nor faults and keeps
  \<open>inv\<close> gives a loop with the same contract. A \<open>simulated_step\<close> moreover tracks an abstract
  step under an abstraction function.
\<close>

locale safe_step =
  fixes step :: "'x \<Rightarrow> 's \<Rightarrow> 's outcome"
    and ok :: "'x \<Rightarrow> bool"
    and inv :: "'s \<Rightarrow> bool"
  assumes step_safe: "inv s \<Longrightarrow> ok x \<Longrightarrow> \<exists>s'. step x s = Inr s' \<and> inv s'"
begin

lemma fold_safe:
  "inv s \<Longrightarrow> (\<And>x. x \<in> set xs \<Longrightarrow> ok x) \<Longrightarrow> \<exists>s'. fold_outcome step xs s = Inr s' \<and> inv s'"
proof (induction xs arbitrary: s)
  case Nil
  then show ?case by simp
next
  case (Cons x xs)
  then obtain s1 where "step x s = Inr s1" and "inv s1"
    using step_safe by (metis list.set_intros(1))
  then show ?case using Cons by simp
qed

end

locale simulated_step = safe_step step ok inv
  for step :: "'x \<Rightarrow> 's \<Rightarrow> 's outcome" and ok :: "'x \<Rightarrow> bool" and inv :: "'s \<Rightarrow> bool" +
  fixes abstraction :: "'s \<Rightarrow> 'a"
    and spec :: "'x \<Rightarrow> 'a \<Rightarrow> 'a"
  assumes step_simulates:
    "inv s \<Longrightarrow> ok x \<Longrightarrow> step x s = Inr s' \<Longrightarrow> abstraction s' = spec x (abstraction s)"
begin

lemma fold_simulates:
  assumes "inv s" and "\<And>x. x \<in> set xs \<Longrightarrow> ok x"
  shows "\<exists>s'. fold_outcome step xs s = Inr s' \<and> inv s' \<and> abstraction s' = fold spec xs (abstraction s)"
  using assms
proof (induction xs arbitrary: s)
  case Nil
  then show ?case by simp
next
  case (Cons x xs)
  then obtain s1 where s1: "step x s = Inr s1" "inv s1"
    using step_safe by (metis list.set_intros(1))
  moreover have "abstraction s1 = spec x (abstraction s)"
    using Cons.prems s1 step_simulates by simp
  ultimately show ?case using Cons.IH [of s1] Cons.prems by auto
qed

end

section \<open>Machine integers\<close>

definition INT_MAX :: int where "INT_MAX = 2 ^ 31 - 1"
definition UCHAR_MAX :: nat where "UCHAR_MAX = 255"
definition USHRT_MAX :: int where "USHRT_MAX = 65535"

text \<open>The implicit conversion of an \<open>int\<close> to \<open>size_t\<close> in a comparison with a container's size.\<close>

definition size_t_of :: "int \<Rightarrow> int" where
  "size_t_of i = i mod 2 ^ 64"

text \<open>\<open>static_cast<int>\<close> of a container's size.\<close>

definition int_of_size :: "nat \<Rightarrow> int" where
  "int_of_size n = (int n + 2 ^ 31) mod 2 ^ 32 - 2 ^ 31"

text \<open>\<open>long\<close> addition; a sum outside the range is undefined behaviour.\<close>

definition in_long :: "int \<Rightarrow> bool" where
  "in_long a \<longleftrightarrow> - (2 ^ 63) \<le> a \<and> a < 2 ^ 63"

definition long_add :: "int \<Rightarrow> int \<Rightarrow> int outcome" where
  "long_add a b = (if in_long (a + b) then Inr (a + b) else Inl (Fault Signed_Overflow))"

lemma size_t_of_nonneg [simp]: "0 \<le> i \<Longrightarrow> i < 2 ^ 64 \<Longrightarrow> size_t_of i = i"
  by (simp add: size_t_of_def)

lemma size_t_of_small: "0 \<le> i \<Longrightarrow> i \<le> INT_MAX \<Longrightarrow> size_t_of i = i"
  by (simp add: size_t_of_def INT_MAX_def)

lemma int_of_size_small [simp]: "int n \<le> INT_MAX \<Longrightarrow> int_of_size n = int n"
  by (simp add: int_of_size_def INT_MAX_def)

lemma long_add_Inr_iff: "long_add a b = Inr c \<longleftrightarrow> in_long (a + b) \<and> c = a + b"
  by (auto simp: long_add_def)

lemma long_add_ok [simp]: "in_long (a + b) \<Longrightarrow> long_add a b = Inr (a + b)"
  by (simp add: long_add_def)

section \<open>Lists\<close>

lemma take_drop_split:
  "i \<le> j \<Longrightarrow> take j xs = take i xs @ drop i (take j xs)"
  by (metis append_take_drop_id min_absorb1 take_take)

lemma drop_take_Suc:
  "i < length xs \<Longrightarrow> i < j \<Longrightarrow> drop i (take j xs) = xs ! i # drop (Suc i) (take j xs)"
  by (simp add: Cons_nth_drop_Suc [symmetric])

lemma sorted_wrt_nth_mono:
  "sorted_wrt P xs \<Longrightarrow> i < j \<Longrightarrow> j < length xs \<Longrightarrow> P (xs ! i) (xs ! j)"
  by (simp add: sorted_wrt_iff_nth_less)

lemma in_set_drop_take:
  assumes "x \<in> set (drop i (take j xs))"
  obtains k where "i \<le> k" and "k < length xs" and "x = xs ! k"
proof -
  obtain m where "m < length (drop i (take j xs))" and "x = drop i (take j xs) ! m"
    using assms by (metis in_set_conv_nth)
  moreover from this have "i \<le> length (take j xs)"
    by (metis drop_all length_drop less_zeroE linear list.size(3))
  ultimately show thesis by (intro that [of "i + m"]) auto
qed

lemma in_set_take_nth: "x \<in> set (take n xs) \<Longrightarrow> \<exists>i < n. i < length xs \<and> x = xs ! i"
  by (auto simp: in_set_conv_nth)

section \<open>Decimal numerals\<close>

text \<open>How a stream prints a number.\<close>

fun decimal :: "nat \<Rightarrow> string" where
  "decimal n = (if n < 10 then [char_of (48 + n)] else decimal (n div 10) @ [char_of (48 + n mod 10)])"

declare decimal.simps [simp del]

end
