(* ===== verification/Binary_Storage.thy ===== *)
theory Binary_Storage
  imports Prelude
begin

text \<open>
  \<open>utils/binary_storage.h\<close>: the streams that serialise plain data and short byte strings.
  \<open>BinaryOStream\<close> is a byte vector with a write position, \<open>BinaryIStream\<close> a byte vector with a
  read position; \<open>memcpy\<close> of an integer of \<open>n\<close> bytes is its little endian encoding.

  The locale \<open>codec\<close> is the contract of a pair of a writer and a reader: the writer appends an
  encoding at the end of the output, the reader, positioned on that encoding, returns the value
  and stops behind it. It is interpreted on both overloads of \<open>operator<<\<close> and \<open>operator>>\<close>
  here and on the protocol's messages later; writing two values in a row, or a list of them, keeps
  the contract.
\<close>

section \<open>Integers in memory\<close>

definition bytes_of_word :: "'a::len word \<Rightarrow> byte list" where
  "bytes_of_word w = map (\<lambda>i. ucast (drop_bit (8 * i) w)) [0..<LENGTH('a) div 8]"

definition word_of_bytes :: "byte list \<Rightarrow> 'a::len word" where
  "word_of_bytes bs = word_of_int (horner_sum uint (2 ^ 8) bs)"

text \<open>\<open>sizeof\<close> of an integer type.\<close>

definition sizeof :: "'a::len word itself \<Rightarrow> nat" where
  "sizeof _ = LENGTH('a) div 8"

lemma length_bytes_of_word [simp]: "length (bytes_of_word (w :: 'a::len word)) = LENGTH('a) div 8"
  by (simp add: bytes_of_word_def)

lemma bit_word_of_bytes:
  "bit (word_of_bytes bs :: 'a::len word) n \<longleftrightarrow>
    n < LENGTH('a) \<and> n div 8 < length bs \<and> bit (bs ! (n div 8)) (n mod 8)"
  using bit_horner_sum_uint_exp_iff [where 'a = 8, of bs n]
  by (simp add: word_of_bytes_def bit_word_of_int_iff)

lemma word_of_bytes_of_word:
  assumes "8 dvd LENGTH('a)"
  shows "word_of_bytes (bytes_of_word w) = (w :: 'a::len word)"
proof (rule bit_word_eqI)
  fix n assume n: "n < LENGTH('a)"
  with assms have "n div 8 < LENGTH('a) div 8" by (auto elim!: dvdE)
  moreover have "8 * (n div 8) + n mod 8 = n" by simp
  ultimately show "bit (word_of_bytes (bytes_of_word w) :: 'a word) n = bit w n"
    using n by (simp add: bit_word_of_bytes bytes_of_word_def bit_ucast_iff bit_drop_bit_eq)
qed

section \<open>BinaryIStream\<close>

record istream =
  i_curPos :: nat
  i_storage :: buffer_t

text \<open>\<open>BinaryIStream (buffer_t& storage)\<close>\<close>

definition istream_of :: "buffer_t \<Rightarrow> istream" where
  "istream_of storage = \<lparr> i_curPos = 0, i_storage = storage \<rparr>"

definition get_pod :: "istream \<Rightarrow> ('a::len word \<times> istream) outcome" where
  "get_pod s =
    (let n = sizeof TYPE('a word) in
     if length (i_storage s) - i_curPos s < n then Inl (Throw Storage_Underflow)
     else Inr (word_of_bytes (take n (drop (i_curPos s) (i_storage s))),
               s\<lparr>i_curPos := i_curPos s + n\<rparr>))"

definition get_buffer :: "istream \<Rightarrow> (buffer_t \<times> istream) outcome" where
  "get_buffer s =
    bind_outcome (get_pod s) (\<lambda>(size_byte :: byte, s1).
      let n = unat size_byte in
      if length (i_storage s1) - i_curPos s1 < n then Inl (Throw Storage_Underflow)
      else Inr (take n (drop (i_curPos s1) (i_storage s1)), s1\<lparr>i_curPos := i_curPos s1 + n\<rparr>))"

definition istream_wf :: "istream \<Rightarrow> bool" where
  "istream_wf s \<longleftrightarrow> i_curPos s \<le> length (i_storage s)"

lemma istream_wf_init: "istream_wf (istream_of b)"
  by (simp add: istream_wf_def istream_of_def)

lemma get_pod_wf: "istream_wf s \<Longrightarrow> get_pod s = Inr (w, s') \<Longrightarrow> istream_wf s'"
  by (auto simp: get_pod_def istream_wf_def Let_def split: if_splits)

lemma get_buffer_wf:
  assumes "istream_wf s" and "get_buffer s = Inr (b, s')"
  shows "istream_wf s'"
proof -
  from assms(2) obtain n s1 where "get_pod s = Inr (n :: byte, s1)"
    and "\<not> length (i_storage s1) - i_curPos s1 < unat n" and "s' = s1\<lparr>i_curPos := i_curPos s1 + unat n\<rparr>"
    by (auto simp: get_buffer_def bind_outcome_Inr_iff Let_def split: if_splits)
  moreover from this have "istream_wf s1" using assms(1) get_pod_wf by blast
  ultimately show ?thesis by (auto simp: istream_wf_def)
qed

section \<open>BinaryOStream\<close>

record ostream =
  o_curPos :: nat
  o_storage :: buffer_t

definition ostream_new :: ostream where
  "ostream_new = \<lparr> o_curPos = 0, o_storage = [] \<rparr>"

text \<open>\<open>std::vector::resize\<close> and \<open>memcpy\<close> into a vector.\<close>

definition vector_resize :: "nat \<Rightarrow> 'a \<Rightarrow> 'a list \<Rightarrow> 'a list" where
  "vector_resize n d xs = take n xs @ replicate (n - length xs) d"

definition memcpy_at :: "nat \<Rightarrow> 'a list \<Rightarrow> 'a list \<Rightarrow> 'a list" where
  "memcpy_at p src dst = take p dst @ src @ drop (p + length src) dst"

definition getPos :: "ostream \<Rightarrow> nat" where
  "getPos s = o_curPos s"

definition setPos :: "nat \<Rightarrow> ostream \<Rightarrow> bool \<times> ostream" where
  "setPos newPos s =
    (if newPos > length (o_storage s) then (False, s) else (True, s\<lparr>o_curPos := newPos\<rparr>))"

definition rewind :: "nat \<Rightarrow> ostream \<Rightarrow> bool \<times> ostream" where
  "rewind pos s =
    (if pos > length (o_storage s) then (False, s)
     else (True, s\<lparr>o_storage := vector_resize pos 0 (o_storage s), o_curPos := pos\<rparr>))"

definition put_pod :: "'a::len word \<Rightarrow> ostream \<Rightarrow> ostream" where
  "put_pod w s =
    (let n = sizeof TYPE('a word);
         st = (if length (o_storage s) - o_curPos s < n
               then vector_resize (o_curPos s + n) 0 (o_storage s) else o_storage s)
     in s\<lparr>o_storage := memcpy_at (o_curPos s) (bytes_of_word w) st, o_curPos := o_curPos s + n\<rparr>)"

definition put_buffer :: "buffer_t \<Rightarrow> ostream \<Rightarrow> ostream outcome" where
  "put_buffer b s =
    bind_outcome (guard (length b \<le> UCHAR_MAX) (Fault Assertion_Failed)) (\<lambda>_.
      let n = (of_nat (length b) :: byte);
          s1 = (if length (o_storage s) - o_curPos s < unat n + 1
                then s\<lparr>o_storage := vector_resize (o_curPos s + unat n + 1) 0 (o_storage s)\<rparr> else s);
          s2 = put_pod n s1
      in Inr (s2\<lparr>o_storage := memcpy_at (o_curPos s2) (take (unat n) b) (o_storage s2),
                 o_curPos := o_curPos s2 + unat n\<rparr>))"

definition ostream_wf :: "ostream \<Rightarrow> bool" where
  "ostream_wf s \<longleftrightarrow> o_curPos s \<le> length (o_storage s)"

definition at_end :: "ostream \<Rightarrow> bool" where
  "at_end s \<longleftrightarrow> o_curPos s = length (o_storage s)"

definition append_bytes :: "buffer_t \<Rightarrow> ostream \<Rightarrow> ostream" where
  "append_bytes b s =
    \<lparr> o_curPos = length (o_storage s) + length b, o_storage = o_storage s @ b \<rparr>"

lemma length_vector_resize [simp]: "length (vector_resize n d xs) = n"
  by (simp add: vector_resize_def)

lemma at_end_append [simp]: "at_end (append_bytes b s)"
  by (simp add: at_end_def append_bytes_def)

lemma append_bytes_append [simp]:
  "append_bytes b (append_bytes a s) = append_bytes (a @ b) s"
  by (simp add: append_bytes_def)

lemma append_bytes_Nil: "at_end s \<Longrightarrow> append_bytes [] s = s"
  by (simp add: append_bytes_def at_end_def)

lemma at_end_new [simp]: "at_end ostream_new"
  by (simp add: at_end_def ostream_new_def)

lemma storage_append_new [simp]: "o_storage (append_bytes b ostream_new) = b"
  by (simp add: append_bytes_def ostream_new_def)

lemma at_end_wf: "at_end s \<Longrightarrow> ostream_wf s"
  by (simp add: at_end_def ostream_wf_def)

lemma put_pod_at_end: "at_end s \<Longrightarrow> put_pod w s = append_bytes (bytes_of_word w) s"
  by (cases s) (auto simp: put_pod_def at_end_def append_bytes_def memcpy_at_def vector_resize_def
      sizeof_def Let_def)

text \<open>Inside the buffer \<open>operator<<\<close> overwrites and leaves the rest as it was.\<close>

lemma put_pod_overwrite:
  fixes w :: "'a::len word"
  assumes "o_curPos s + LENGTH('a) div 8 \<le> length (o_storage s)"
  shows "put_pod w s =
    s\<lparr>o_storage := memcpy_at (o_curPos s) (bytes_of_word w) (o_storage s),
      o_curPos := o_curPos s + LENGTH('a) div 8\<rparr>"
  using assms by (auto simp: put_pod_def sizeof_def Let_def)

lemma length_memcpy_at [simp]:
  "p + length src \<le> length dst \<Longrightarrow> length (memcpy_at p src dst) = length dst"
  by (simp add: memcpy_at_def)

lemma memcpy_at_adjacent:
  assumes "p + length a + length b \<le> length dst" and "q = p + length a"
  shows "memcpy_at q b (memcpy_at p a dst) = memcpy_at p (a @ b) dst"
proof -
  have "p \<le> length dst" using assms(1) by simp
  then show ?thesis using assms by (simp add: memcpy_at_def add.commute add.left_commute)
qed

lemma put_buffer_at_end:
  assumes "at_end s" and "length b \<le> UCHAR_MAX"
  shows "put_buffer b s = Inr (append_bytes (of_nat (length b) # b) s)"
proof -
  let ?n = "of_nat (length b) :: byte"
  have n: "unat ?n = length b"
    using assms(2) by (simp add: unat_of_nat UCHAR_MAX_def)
  have one: "bytes_of_word ?n = [?n]"
    by (simp add: bytes_of_word_def)
  show ?thesis
    using assms n one
    by (cases s) (auto simp: put_buffer_def at_end_def append_bytes_def put_pod_def memcpy_at_def
        vector_resize_def sizeof_def Let_def)
qed

lemma put_buffer_too_long:
  "length b > UCHAR_MAX \<Longrightarrow> put_buffer b s = Inl (Fault Assertion_Failed)"
  by (simp add: put_buffer_def)

lemma put_pod_wf: "ostream_wf s \<Longrightarrow> ostream_wf (put_pod w s)"
  by (auto simp: put_pod_def ostream_wf_def memcpy_at_def sizeof_def Let_def)

lemma rewind_wf: "ostream_wf s \<Longrightarrow> ostream_wf (snd (rewind p s))"
  by (auto simp: rewind_def ostream_wf_def)

lemma setPos_wf: "ostream_wf s \<Longrightarrow> ostream_wf (snd (setPos p s))"
  by (auto simp: setPos_def ostream_wf_def)

lemma rewind_append:
  "at_end s \<Longrightarrow> rewind (length (o_storage s)) (append_bytes b s) = (True, s)"
  by (cases s) (simp add: rewind_def append_bytes_def vector_resize_def at_end_def)

section \<open>The contract of a writer and a reader\<close>

text \<open>The input stream positioned behind \<open>pre\<close> in a buffer that goes on with \<open>rest\<close>.\<close>

definition reading :: "buffer_t \<Rightarrow> buffer_t \<Rightarrow> istream" where
  "reading pre rest = \<lparr> i_curPos = length pre, i_storage = pre @ rest \<rparr>"

lemma istream_of_reading: "istream_of b = reading [] b"
  by (simp add: istream_of_def reading_def)

locale codec =
  fixes put :: "'a \<Rightarrow> ostream \<Rightarrow> ostream outcome"
    and get :: "istream \<Rightarrow> ('a \<times> istream) outcome"
    and enc :: "'a \<Rightarrow> buffer_t"
    and valid :: "'a \<Rightarrow> bool"
  assumes put_appends: "valid x \<Longrightarrow> at_end s \<Longrightarrow> put x s = Inr (append_bytes (enc x) s)"
    and get_encoded: "valid x \<Longrightarrow> get (reading pre (enc x @ rest)) = Inr (x, reading (pre @ enc x) rest)"
begin

lemma put_new: "valid x \<Longrightarrow> put x ostream_new = Inr (append_bytes (enc x) ostream_new)"
  by (simp add: put_appends)

text \<open>What is written into a fresh stream is read back, and nothing is left.\<close>

lemma roundtrip:
  "valid x \<Longrightarrow>
    bind_outcome (put x ostream_new) (\<lambda>s. get (istream_of (o_storage s))) = Inr (x, reading (enc x) [])"
  using get_encoded [of x "[]" "[]"]
  by (simp add: put_new istream_of_reading)

lemma enc_injective: "valid x \<Longrightarrow> valid y \<Longrightarrow> enc x = enc y \<Longrightarrow> x = y"
  using get_encoded [of x "[]" "[]"] get_encoded [of y "[]" "[]"] by simp

text \<open>A run of values written one after the other is read back by as many reads.\<close>

lemma put_list:
  "(\<And>x. x \<in> set xs \<Longrightarrow> valid x) \<Longrightarrow> at_end s \<Longrightarrow>
    fold_outcome put xs s = Inr (append_bytes (concat (map enc xs)) s)"
  by (induction xs arbitrary: s) (simp_all add: append_bytes_Nil put_appends)

end

fun get_many :: "(istream \<Rightarrow> ('a \<times> istream) outcome) \<Rightarrow> nat \<Rightarrow> istream \<Rightarrow> ('a list \<times> istream) outcome" where
  "get_many get 0 s = Inr ([], s)"
| "get_many get (Suc n) s =
    bind_outcome (get s) (\<lambda>(x, s1). bind_outcome (get_many get n s1) (\<lambda>(xs, s2). Inr (x # xs, s2)))"

context codec
begin

lemma get_list:
  "(\<And>x. x \<in> set xs \<Longrightarrow> valid x) \<Longrightarrow>
    get_many get (length xs) (reading pre (concat (map enc xs) @ rest)) =
      Inr (xs, reading (pre @ concat (map enc xs)) rest)"
  by (induction xs arbitrary: pre) (simp_all add: get_encoded)

end

section \<open>Both overloads are codecs\<close>

abbreviation put_pod_outcome :: "'a::len word \<Rightarrow> ostream \<Rightarrow> ostream outcome" where
  "put_pod_outcome w s \<equiv> Inr (put_pod w s)"

lemma get_pod_bytes:
  fixes w :: "'a::len word"
  assumes "8 dvd LENGTH('a)"
  shows "get_pod (reading pre (bytes_of_word w @ rest)) = Inr (w, reading (pre @ bytes_of_word w) rest)"
  using assms by (simp add: get_pod_def reading_def sizeof_def Let_def word_of_bytes_of_word)

lemma get_pod_underflow:
  "length rest < LENGTH('a) div 8 \<Longrightarrow>
    (get_pod (reading pre rest) :: ('a::len word \<times> istream) outcome) = Inl (Throw Storage_Underflow)"
  by (simp add: get_pod_def reading_def sizeof_def Let_def)

lemma get_pod_underflow_iff:
  "(get_pod (reading pre rest) :: ('a::len word \<times> istream) outcome) = Inl e \<longleftrightarrow>
    e = Throw Storage_Underflow \<and> length rest < LENGTH('a) div 8"
  by (auto simp: get_pod_def reading_def sizeof_def Let_def)

interpretation pod8: codec "put_pod_outcome :: 8 word \<Rightarrow> _" get_pod bytes_of_word "\<lambda>_. True"
  by unfold_locales (simp_all add: put_pod_at_end get_pod_bytes)

interpretation pod16: codec "put_pod_outcome :: 16 word \<Rightarrow> _" get_pod bytes_of_word "\<lambda>_. True"
  by unfold_locales (simp_all add: put_pod_at_end get_pod_bytes)

interpretation pod32: codec "put_pod_outcome :: 32 word \<Rightarrow> _" get_pod bytes_of_word "\<lambda>_. True"
  by unfold_locales (simp_all add: put_pod_at_end get_pod_bytes)

interpretation pod64: codec "put_pod_outcome :: 64 word \<Rightarrow> _" get_pod bytes_of_word "\<lambda>_. True"
  by unfold_locales (simp_all add: put_pod_at_end get_pod_bytes)

definition enc_buffer :: "buffer_t \<Rightarrow> buffer_t" where
  "enc_buffer b = of_nat (length b) # b"

lemma get_buffer_encoded:
  assumes "length b \<le> UCHAR_MAX"
  shows "get_buffer (reading pre (enc_buffer b @ rest)) = Inr (b, reading (pre @ enc_buffer b) rest)"
proof -
  let ?n = "of_nat (length b) :: byte"
  have n: "unat ?n = length b"
    using assms by (simp add: unat_of_nat UCHAR_MAX_def)
  have "enc_buffer b @ rest = bytes_of_word ?n @ b @ rest"
    by (simp add: enc_buffer_def bytes_of_word_def)
  then have "get_pod (reading pre (enc_buffer b @ rest)) =
      (Inr (?n, reading (pre @ bytes_of_word ?n) (b @ rest)) :: (byte \<times> istream) outcome)"
    using get_pod_bytes [of pre ?n "b @ rest"] by simp
  then show ?thesis
    using n by (simp add: get_buffer_def Let_def reading_def enc_buffer_def bytes_of_word_def)
qed

interpretation buffers: codec put_buffer get_buffer enc_buffer "\<lambda>b. length b \<le> UCHAR_MAX"
  by unfold_locales (simp_all add: put_buffer_at_end get_buffer_encoded flip: enc_buffer_def)

end
