(* ===== verification/Protocol.thy ===== *)
theory Protocol
  imports Binary_Storage
begin

text \<open>
  \<open>ipc/protocol.h\<close>: the numeric constants, the client's messages, the service's error messages
  and the rating message, each with the \<open>init\<close> that reads it from a stream and the \<open>store\<close> that
  writes it. The build defines PASS_NAMES_AROUND, so messages carry names. Identifiers and amounts
  are \<open>int\<close> and \<open>long\<close>, here HOL integers in the range of the type; the streams carry their two's
  complement bytes.
\<close>

section \<open>Constants and codes\<close>

type_synonym message_code_t = "8 word"
type_synonym error_code_t = "32 word"
type_synonym protocol_version_t = "32 word"
type_synonym message_size_t = "16 word"

definition proto_version :: protocol_version_t where "proto_version = 1"
definition invalidVersion :: protocol_version_t where "invalidVersion = 0"
definition invalidUserId :: int where "invalidUserId = -1"
definition invalidMessageCode :: message_code_t where "invalidMessageCode = -1"

datatype client_message_code =
    HANDSHAKE | USER_REGISTERED | USER_RENAMED | USER_DEAL_WON | USER_CONNECTED | USER_DISCONNECTED

fun client_code :: "client_message_code \<Rightarrow> message_code_t" where
  "client_code HANDSHAKE = 111"
| "client_code USER_REGISTERED = 1"
| "client_code USER_RENAMED = 2"
| "client_code USER_DEAL_WON = 3"
| "client_code USER_CONNECTED = 4"
| "client_code USER_DISCONNECTED = 5"

datatype service_message_code = PROTOCOL_ERROR | USER_RATING

fun service_code :: "service_message_code \<Rightarrow> message_code_t" where
  "service_code PROTOCOL_ERROR = 1"
| "service_code USER_RATING = 2"

datatype protocol_error_code =
    PROTOCOL_VERSION_UNSUPPORTED | USER_UNRECOGNIZED | MULTIPLE_REGISTRATION

fun protocol_error_number :: "protocol_error_code \<Rightarrow> error_code_t" where
  "protocol_error_number PROTOCOL_VERSION_UNSUPPORTED = 1"
| "protocol_error_number USER_UNRECOGNIZED = 2"
| "protocol_error_number MULTIPLE_REGISTRATION = 3"

definition topPositions :: int where "topPositions = 10"
definition competitionDistance :: int where "competitionDistance = 10"

section \<open>Signed values on the wire\<close>

definition in_int :: "int \<Rightarrow> bool" where
  "in_int i \<longleftrightarrow> - (2 ^ 31) \<le> i \<and> i < 2 ^ 31"

definition enc_int :: "int \<Rightarrow> buffer_t" where
  "enc_int i = bytes_of_word (word_of_int i :: 32 word)"

definition put_int :: "int \<Rightarrow> ostream \<Rightarrow> ostream" where
  "put_int i = put_pod (word_of_int i :: 32 word)"

definition get_int :: "istream \<Rightarrow> (int \<times> istream) outcome" where
  "get_int s = bind_outcome (get_pod s) (\<lambda>(w :: 32 word, s1). Inr (sint w, s1))"

definition enc_long :: "int \<Rightarrow> buffer_t" where
  "enc_long i = bytes_of_word (word_of_int i :: 64 word)"

definition put_long :: "int \<Rightarrow> ostream \<Rightarrow> ostream" where
  "put_long i = put_pod (word_of_int i :: 64 word)"

definition get_long :: "istream \<Rightarrow> (int \<times> istream) outcome" where
  "get_long s = bind_outcome (get_pod s) (\<lambda>(w :: 64 word, s1). Inr (sint w, s1))"

lemma sint_word32: "in_int i \<Longrightarrow> sint (word_of_int i :: 32 word) = i"
  by (simp add: in_int_def signed_of_int signed_take_bit_int_eq_self)

lemma sint_word64: "in_long i \<Longrightarrow> sint (word_of_int i :: 64 word) = i"
  by (simp add: in_long_def signed_of_int signed_take_bit_int_eq_self)

lemma in_int_sint: "in_int (sint (w :: 32 word))"
  using sint_greater_eq [of w] sint_less [of w] by (simp add: in_int_def)

lemma in_long_sint: "in_long (sint (w :: 64 word))"
  using sint_greater_eq [of w] sint_less [of w] by (simp add: in_long_def)

interpretation ints: codec "\<lambda>i s. Inr (put_int i s)" get_int enc_int in_int
  by unfold_locales (simp_all add: put_int_def enc_int_def get_int_def put_pod_at_end get_pod_bytes sint_word32)

interpretation longs: codec "\<lambda>i s. Inr (put_long i s)" get_long enc_long in_long
  by unfold_locales (simp_all add: put_long_def enc_long_def get_long_def put_pod_at_end get_pod_bytes sint_word64)

lemma length_enc_int [simp]: "length (enc_int i) = 4"
  by (simp add: enc_int_def)

lemma length_enc_long [simp]: "length (enc_long i) = 8"
  by (simp add: enc_long_def)

lemma length_enc_buffer [simp]: "length (enc_buffer b) = Suc (length b)"
  by (simp add: enc_buffer_def)

lemma put_int_at_end: "at_end s \<Longrightarrow> put_int i s = append_bytes (enc_int i) s"
  by (simp add: put_int_def enc_int_def put_pod_at_end)

lemma put_long_at_end: "at_end s \<Longrightarrow> put_long i s = append_bytes (enc_long i) s"
  by (simp add: put_long_def enc_long_def put_pod_at_end)

lemma put_int_overwrite:
  "o_curPos s + 4 \<le> length (o_storage s) \<Longrightarrow>
    put_int i s = s\<lparr>o_storage := memcpy_at (o_curPos s) (enc_int i) (o_storage s),
                    o_curPos := o_curPos s + 4\<rparr>"
  by (simp add: put_int_def enc_int_def put_pod_overwrite)

section \<open>Incoming messages\<close>

subsection \<open>HandshakeMsg\<close>

record handshake_msg =
  m_protoVersion :: protocol_version_t

definition handshake_init :: "istream \<Rightarrow> (handshake_msg \<times> istream) outcome" where
  "handshake_init buffer =
    bind_outcome (get_pod buffer) (\<lambda>(v, b1). Inr (\<lparr> m_protoVersion = v \<rparr>, b1))"

definition handshake_store :: "handshake_msg \<Rightarrow> ostream \<Rightarrow> ostream" where
  "handshake_store m buffer = put_pod (m_protoVersion m) buffer"

subsection \<open>GenericIdMsg and its subclasses\<close>

record generic_id_msg =
  m_userId :: int

record generic_id_name_msg = generic_id_msg +
  m_userName :: buffer_t

record user_deal_won_msg = generic_id_msg +
  m_winnings :: int

definition generic_id_default :: generic_id_msg where
  "generic_id_default = \<lparr> m_userId = invalidUserId \<rparr>"

definition generic_id_name_default :: generic_id_name_msg where
  "generic_id_name_default = \<lparr> m_userId = invalidUserId, m_userName = [] \<rparr>"

definition user_deal_won_default :: user_deal_won_msg where
  "user_deal_won_default = \<lparr> m_userId = invalidUserId, m_winnings = 0 \<rparr>"

text \<open>The constructor of a message with a name asserts that the length of the name fits a byte.\<close>

definition generic_id_name_make :: "int \<Rightarrow> buffer_t \<Rightarrow> generic_id_name_msg outcome" where
  "generic_id_name_make userId userName =
    bind_outcome (guard (length userName \<le> UCHAR_MAX) (Fault Assertion_Failed))
      (\<lambda>_. Inr \<lparr> m_userId = userId, m_userName = userName \<rparr>)"

definition generic_id_init ::
    "istream \<Rightarrow> 'a generic_id_msg_scheme \<Rightarrow> ('a generic_id_msg_scheme \<times> istream) outcome" where
  "generic_id_init buffer m =
    bind_outcome (get_int buffer) (\<lambda>(i, b1). Inr (m\<lparr>m_userId := i\<rparr>, b1))"

definition generic_id_store :: "'a generic_id_msg_scheme \<Rightarrow> ostream \<Rightarrow> ostream" where
  "generic_id_store m buffer = put_int (m_userId m) buffer"

definition generic_id_name_init ::
    "istream \<Rightarrow> generic_id_name_msg \<Rightarrow> (generic_id_name_msg \<times> istream) outcome" where
  "generic_id_name_init buffer m =
    bind_outcome (generic_id_init buffer m) (\<lambda>(m1, b1).
    bind_outcome (get_buffer b1) (\<lambda>(n, b2). Inr (m1\<lparr>m_userName := n\<rparr>, b2)))"

definition generic_id_name_store :: "generic_id_name_msg \<Rightarrow> ostream \<Rightarrow> ostream outcome" where
  "generic_id_name_store m buffer = put_buffer (m_userName m) (generic_id_store m buffer)"

definition user_deal_won_init ::
    "istream \<Rightarrow> user_deal_won_msg \<Rightarrow> (user_deal_won_msg \<times> istream) outcome" where
  "user_deal_won_init buffer m =
    bind_outcome (generic_id_init buffer m) (\<lambda>(m1, b1).
    bind_outcome (get_long b1) (\<lambda>(w, b2). Inr (m1\<lparr>m_winnings := w\<rparr>, b2)))"

definition user_deal_won_store :: "user_deal_won_msg \<Rightarrow> ostream \<Rightarrow> ostream" where
  "user_deal_won_store m buffer = put_long (m_winnings m) (generic_id_store m buffer)"

text \<open>\<open>UserMsgCodePrefixer\<close>: the code that precedes each message class.\<close>

definition msg_code_prefix :: "client_message_code \<Rightarrow> ostream \<Rightarrow> ostream" where
  "msg_code_prefix c buffer = put_pod (client_code c) buffer"

text \<open>The message bodies are codecs: \<open>init\<close> into any message object reads what \<open>store\<close> wrote.\<close>

interpretation handshakes: codec "\<lambda>m s. Inr (handshake_store m s)" handshake_init
    "\<lambda>m. bytes_of_word (m_protoVersion m)" "\<lambda>_. True"
  by unfold_locales (simp_all add: handshake_store_def handshake_init_def put_pod_at_end get_pod_bytes)

interpretation id_msgs: codec "\<lambda>m s. Inr (generic_id_store m s)" "\<lambda>b. generic_id_init b (m0 :: generic_id_msg)"
    "\<lambda>m. enc_int (m_userId m)" "\<lambda>m. in_int (m_userId m)"
  by unfold_locales
     (simp_all add: generic_id_store_def generic_id_init_def put_int_at_end ints.get_encoded)

interpretation id_name_msgs: codec generic_id_name_store "\<lambda>b. generic_id_name_init b m0"
    "\<lambda>m. enc_int (m_userId m) @ enc_buffer (m_userName m)"
    "\<lambda>m. in_int (m_userId m) \<and> length (m_userName m) \<le> UCHAR_MAX"
  by unfold_locales
     (simp_all add: generic_id_name_store_def generic_id_name_init_def generic_id_store_def
       generic_id_init_def put_int_at_end ints.get_encoded buffers.put_appends buffers.get_encoded)

interpretation deal_won_msgs: codec "\<lambda>m s. Inr (user_deal_won_store m s)" "\<lambda>b. user_deal_won_init b m0"
    "\<lambda>m. enc_int (m_userId m) @ enc_long (m_winnings m)"
    "\<lambda>m. in_int (m_userId m) \<and> in_long (m_winnings m)"
  by unfold_locales
     (simp_all add: user_deal_won_store_def user_deal_won_init_def generic_id_store_def
       generic_id_init_def put_int_at_end put_long_at_end ints.get_encoded longs.get_encoded)

section \<open>Protocol error messages\<close>

text \<open>
  The class hierarchy below \<open>GenericProtocolError\<close>, one constructor per concrete class with the
  payload the class keeps.
\<close>

datatype protocol_error =
    UserUnrecognizedError int
  | MultipleRegistrationError int
  | UnsupportedProtocolVersionError protocol_version_t

fun getErrorCode :: "protocol_error \<Rightarrow> protocol_error_code" where
  "getErrorCode (UserUnrecognizedError _) = USER_UNRECOGNIZED"
| "getErrorCode (MultipleRegistrationError _) = MULTIPLE_REGISTRATION"
| "getErrorCode (UnsupportedProtocolVersionError _) = PROTOCOL_VERSION_UNSUPPORTED"

text \<open>The objects the default constructors make, before \<open>init\<close>.\<close>

fun error_default :: "protocol_error_code \<Rightarrow> protocol_error" where
  "error_default USER_UNRECOGNIZED = UserUnrecognizedError invalidUserId"
| "error_default MULTIPLE_REGISTRATION = MultipleRegistrationError invalidUserId"
| "error_default PROTOCOL_VERSION_UNSUPPORTED = UnsupportedProtocolVersionError invalidVersion"

text \<open>
  The virtual \<open>store\<close>: the two user errors write their identifier, the version error writes the
  version of the service whatever the object holds.
\<close>

fun error_store :: "protocol_error \<Rightarrow> ostream \<Rightarrow> ostream" where
  "error_store (UserUnrecognizedError i) buffer =
    put_int i (put_pod (protocol_error_number USER_UNRECOGNIZED) buffer)"
| "error_store (MultipleRegistrationError i) buffer =
    put_int i (put_pod (protocol_error_number MULTIPLE_REGISTRATION) buffer)"
| "error_store (UnsupportedProtocolVersionError v) buffer =
    put_pod proto_version (put_pod (protocol_error_number PROTOCOL_VERSION_UNSUPPORTED) buffer)"

fun error_init :: "istream \<Rightarrow> protocol_error \<Rightarrow> (protocol_error \<times> istream) outcome" where
  "error_init buffer (UserUnrecognizedError _) =
    bind_outcome (get_int buffer) (\<lambda>(i, b1). Inr (UserUnrecognizedError i, b1))"
| "error_init buffer (MultipleRegistrationError _) =
    bind_outcome (get_int buffer) (\<lambda>(i, b1). Inr (MultipleRegistrationError i, b1))"
| "error_init buffer (UnsupportedProtocolVersionError _) =
    bind_outcome (get_pod buffer) (\<lambda>(v, b1). Inr (UnsupportedProtocolVersionError v, b1))"

fun error_payload :: "protocol_error \<Rightarrow> buffer_t" where
  "error_payload (UserUnrecognizedError i) = enc_int i"
| "error_payload (MultipleRegistrationError i) = enc_int i"
| "error_payload (UnsupportedProtocolVersionError v) = bytes_of_word v"

definition enc_error :: "protocol_error \<Rightarrow> buffer_t" where
  "enc_error e = bytes_of_word (protocol_error_number (getErrorCode e)) @ error_payload e"

fun valid_error :: "protocol_error \<Rightarrow> bool" where
  "valid_error (UserUnrecognizedError i) = in_int i"
| "valid_error (MultipleRegistrationError i) = in_int i"
| "valid_error (UnsupportedProtocolVersionError v) = (v = proto_version)"

lemma error_store_at_end:
  "valid_error e \<Longrightarrow> at_end s \<Longrightarrow> error_store e s = append_bytes (enc_error e) s"
  by (cases e) (simp_all add: enc_error_def put_pod_at_end put_int_at_end)

lemma length_enc_error [simp]: "length (enc_error e) = 8"
  by (cases e) (simp_all add: enc_error_def)

end
