(* ===== verification/Containers.thy ===== *)
theory Containers
  imports Prelude "HOL-Library.AList"
begin

text \<open>
  The standard containers the service keeps its data in. A \<open>std::unordered_map\<close> is a list of
  entries with distinct keys, in some iteration order; a \<open>std::map\<close> is a list of entries with
  strictly increasing keys, which is its iteration order; a \<open>std::unordered_set\<close> is a list
  without duplicates. Every operation is written out as the standard specifies it.

  The locale \<open>dictionary\<close> is the interface both maps offer to the components: what a lookup
  returns after \<open>emplace\<close> (which keeps the entry that is there) and after assignment through
  \<open>operator[]\<close> (which replaces it). Its lemmas say what a run of either leaves behind.
\<close>

section \<open>The interface of a map\<close>

locale dictionary =
  fixes find :: "'k \<Rightarrow> 'm \<Rightarrow> 'v option"
    and emplace :: "'k \<Rightarrow> 'v \<Rightarrow> 'm \<Rightarrow> 'm"
    and assign :: "'k \<Rightarrow> 'v \<Rightarrow> 'm \<Rightarrow> 'm"
    and entries :: "'m \<Rightarrow> ('k \<times> 'v) list"
    and wf :: "'m \<Rightarrow> bool"
  assumes find_entries: "wf m \<Longrightarrow> find k m = map_of (entries m) k"
    and entries_distinct: "wf m \<Longrightarrow> distinct (map fst (entries m))"
    and emplace_find: "wf m \<Longrightarrow>
      find k' (emplace k v m) = (if k' = k \<and> find k m = None then Some v else find k' m)"
    and emplace_wf: "wf m \<Longrightarrow> wf (emplace k v m)"
    and assign_find: "wf m \<Longrightarrow> find k' (assign k v m) = (if k' = k then Some v else find k' m)"
    and assign_wf: "wf m \<Longrightarrow> wf (assign k v m)"
begin

lemma emplace_all_wf: "wf m \<Longrightarrow> wf (fold (\<lambda>(k, v). emplace k v) kvs m)"
  by (induction kvs arbitrary: m) (auto simp: emplace_wf)

lemma assign_all_wf: "wf m \<Longrightarrow> wf (fold (\<lambda>(k, v). assign k v) kvs m)"
  by (induction kvs arbitrary: m) (auto simp: assign_wf)

text \<open>After a run of \<open>emplace\<close> a key has the value it was first given.\<close>

lemma emplace_all_first:
  "wf m \<Longrightarrow> find k (fold (\<lambda>(k, v). emplace k v) kvs m) =
    (case find k m of None \<Rightarrow> map_of kvs k | Some v \<Rightarrow> Some v)"
  by (induction kvs arbitrary: m)
     (auto simp: emplace_wf emplace_find split: option.splits)

text \<open>After a run of assignments a key has the value it was last given.\<close>

lemma assign_all_last:
  "wf m \<Longrightarrow> find k (fold (\<lambda>(k, v). assign k v) kvs m) =
    (case map_of (rev kvs) k of None \<Rightarrow> find k m | Some v \<Rightarrow> Some v)"
  by (induction kvs arbitrary: m)
     (auto simp: assign_wf assign_find map_add_def split: option.splits)

lemma entry_iff_find: "wf m \<Longrightarrow> (k, v) \<in> set (entries m) \<longleftrightarrow> find k m = Some v"
  by (simp add: find_entries entries_distinct)

end

locale erasable_dictionary = dictionary +
  fixes erase :: "'a \<Rightarrow> 'b \<Rightarrow> 'b"
  assumes erase_find: "wf m \<Longrightarrow> find k' (erase k m) = (if k' = k then None else find k' m)"
    and erase_wf: "wf m \<Longrightarrow> wf (erase k m)"
begin

lemma erase_absent: "wf m \<Longrightarrow> find k m = None \<Longrightarrow> find k' (erase k m) = find k' m"
  by (simp add: erase_find)

lemma emplace_erase_find: "wf m \<Longrightarrow> find k (emplace k v (erase k m)) = Some v"
  by (simp add: emplace_find erase_find erase_wf)

end

section \<open>std::unordered_map\<close>

type_synonym ('k, 'v) hash_map = "('k \<times> 'v) list"

definition hmap_wf :: "('k, 'v) hash_map \<Rightarrow> bool" where
  "hmap_wf m \<longleftrightarrow> distinct (map fst m)"

definition hmap_find :: "'k \<Rightarrow> ('k, 'v) hash_map \<Rightarrow> 'v option" where
  "hmap_find k m = map_of m k"

definition hmap_emplace :: "'k \<Rightarrow> 'v \<Rightarrow> ('k, 'v) hash_map \<Rightarrow> ('k, 'v) hash_map" where
  "hmap_emplace k v m = (case map_of m k of None \<Rightarrow> (k, v) # m | Some _ \<Rightarrow> m)"

definition hmap_assign :: "'k \<Rightarrow> 'v \<Rightarrow> ('k, 'v) hash_map \<Rightarrow> ('k, 'v) hash_map" where
  "hmap_assign k v m = AList.update k v m"

definition hmap_erase :: "'k \<Rightarrow> ('k, 'v) hash_map \<Rightarrow> ('k, 'v) hash_map" where
  "hmap_erase k m = AList.delete k m"

interpretation hmap: erasable_dictionary hmap_find hmap_emplace hmap_assign "\<lambda>m. m" hmap_wf hmap_erase
proof unfold_locales
  fix m :: "('k, 'v) hash_map" and k k' :: 'k and v :: 'v
  assume wf: "hmap_wf m"
  show "hmap_find k m = map_of m k" and "distinct (map fst m)"
    using wf by (simp_all add: hmap_find_def hmap_wf_def)
  show "hmap_find k' (hmap_emplace k v m) = (if k' = k \<and> hmap_find k m = None then Some v else hmap_find k' m)"
    by (auto simp: hmap_find_def hmap_emplace_def split: option.splits)
  show "hmap_wf (hmap_emplace k v m)"
    using wf by (auto simp: hmap_wf_def hmap_emplace_def map_of_eq_None_iff split: option.splits)
  show "hmap_find k' (hmap_assign k v m) = (if k' = k then Some v else hmap_find k' m)"
    by (simp add: hmap_find_def hmap_assign_def update_conv')
  show "hmap_wf (hmap_assign k v m)"
    using wf by (simp add: hmap_wf_def hmap_assign_def distinct_update)
  show "hmap_find k' (hmap_erase k m) = (if k' = k then None else hmap_find k' m)"
    by (simp add: hmap_find_def hmap_erase_def delete_conv')
  show "hmap_wf (hmap_erase k m)"
    using wf by (simp add: hmap_wf_def hmap_erase_def distinct_delete)
qed

lemma hmap_wf_Nil [simp]: "hmap_wf []"
  by (simp add: hmap_wf_def)

lemma hmap_find_Nil [simp]: "hmap_find k [] = None"
  by (simp add: hmap_find_def)

lemma hmap_find_in_set: "hmap_find k m = Some v \<Longrightarrow> (k, v) \<in> set m"
  by (simp add: hmap_find_def map_of_SomeD)

section \<open>std::map\<close>

type_synonym ('k, 'v) tree_map = "('k \<times> 'v) list"

definition tmap_wf :: "('k::linorder, 'v) tree_map \<Rightarrow> bool" where
  "tmap_wf m \<longleftrightarrow> sorted_wrt (<) (map fst m)"

definition tmap_find :: "'k \<Rightarrow> ('k, 'v) tree_map \<Rightarrow> 'v option" where
  "tmap_find k m = map_of m k"

fun tmap_emplace :: "'k::linorder \<Rightarrow> 'v \<Rightarrow> ('k, 'v) tree_map \<Rightarrow> ('k, 'v) tree_map" where
  "tmap_emplace k v [] = [(k, v)]"
| "tmap_emplace k v ((k', v') # m) =
    (if k < k' then (k, v) # (k', v') # m
     else if k' < k then (k', v') # tmap_emplace k v m
     else (k', v') # m)"

fun tmap_assign :: "'k::linorder \<Rightarrow> 'v \<Rightarrow> ('k, 'v) tree_map \<Rightarrow> ('k, 'v) tree_map" where
  "tmap_assign k v [] = [(k, v)]"
| "tmap_assign k v ((k', v') # m) =
    (if k < k' then (k, v) # (k', v') # m
     else if k' < k then (k', v') # tmap_assign k v m
     else (k', v) # m)"

text \<open>The value \<open>operator[]\<close> refers to: the entry's, or a value-initialised one.\<close>

definition tmap_at :: "'v \<Rightarrow> 'k \<Rightarrow> ('k, 'v) tree_map \<Rightarrow> 'v" where
  "tmap_at d k m = (case map_of m k of None \<Rightarrow> d | Some v \<Rightarrow> v)"

lemma ball_tmap_emplace:
  "(\<forall>p \<in> set (tmap_emplace k v m). P (fst p)) \<longleftrightarrow> P k \<and> (\<forall>p \<in> set m. P (fst p))"
  by (induction k v m rule: tmap_emplace.induct) auto

lemma ball_tmap_assign:
  "(\<forall>p \<in> set (tmap_assign k v m). P (fst p)) \<longleftrightarrow> P k \<and> (\<forall>p \<in> set m. P (fst p))"
  by (induction k v m rule: tmap_assign.induct) auto

lemma tmap_wf_Nil [simp]: "tmap_wf []"
  by (simp add: tmap_wf_def)

lemma tmap_wf_distinct: "tmap_wf m \<Longrightarrow> distinct (map fst m)"
  by (simp add: tmap_wf_def strict_sorted_iff)

lemma tmap_wf_Cons: "tmap_wf (p # m) \<longleftrightarrow> (\<forall>q \<in> set m. fst p < fst q) \<and> tmap_wf m"
  by (auto simp: tmap_wf_def)

lemma tmap_absent: "\<forall>q \<in> set m. (k::'k::linorder) < fst q \<Longrightarrow> map_of m k = None"
  by (auto simp: map_of_eq_None_iff)

lemma tmap_wf_emplace: "tmap_wf m \<Longrightarrow> tmap_wf (tmap_emplace k v m)"
  by (induction k v m rule: tmap_emplace.induct)
     (auto simp: tmap_wf_Cons tmap_wf_Nil ball_tmap_emplace dest: less_trans)

lemma tmap_wf_assign: "tmap_wf m \<Longrightarrow> tmap_wf (tmap_assign k v m)"
  by (induction k v m rule: tmap_assign.induct)
     (auto simp: tmap_wf_Cons tmap_wf_Nil ball_tmap_assign dest: less_trans)

lemma map_of_tmap_emplace:
  "tmap_wf m \<Longrightarrow>
    map_of (tmap_emplace k v m) k' = (if k' = k \<and> map_of m k = None then Some v else map_of m k')"
proof (induction k v m rule: tmap_emplace.induct)
  case (2 k v k1 v1 m)
  then have "k < k1 \<Longrightarrow> map_of m k = None"
    by (intro tmap_absent) (auto simp: tmap_wf_Cons)
  with 2 show ?case by (auto simp: tmap_wf_Cons)
qed simp

lemma map_of_tmap_assign:
  "map_of (tmap_assign k v m) k' = (if k' = k then Some v else map_of m k')"
  by (induction k v m rule: tmap_assign.induct) auto

interpretation tmap: dictionary tmap_find tmap_emplace tmap_assign "\<lambda>m. m" tmap_wf
  by unfold_locales
     (auto simp: tmap_find_def tmap_wf_emplace tmap_wf_assign map_of_tmap_emplace map_of_tmap_assign
        tmap_wf_distinct)

lemma tmap_find_Nil [simp]: "tmap_find k [] = None"
  by (simp add: tmap_find_def)

section \<open>std::unordered_set\<close>

type_synonym 'a hash_set = "'a list"

definition hset_emplace :: "'a \<Rightarrow> 'a hash_set \<Rightarrow> 'a hash_set" where
  "hset_emplace x s = (if x \<in> set s then s else x # s)"

definition hset_erase :: "'a \<Rightarrow> 'a hash_set \<Rightarrow> 'a hash_set" where
  "hset_erase x s = filter (\<lambda>y. y \<noteq> x) s"

lemma set_hset_emplace [simp]: "set (hset_emplace x s) = insert x (set s)"
  by (auto simp: hset_emplace_def)

lemma set_hset_erase [simp]: "set (hset_erase x s) = set s - {x}"
  by (auto simp: hset_erase_def)

lemma distinct_hset_emplace [simp]: "distinct s \<Longrightarrow> distinct (hset_emplace x s)"
  by (simp add: hset_emplace_def)

lemma distinct_hset_erase [simp]: "distinct s \<Longrightarrow> distinct (hset_erase x s)"
  by (simp add: hset_erase_def)

end
