(* ===== verification/Core_Data.thy ===== *)
theory Core_Data
  imports Protocol Containers
begin

text \<open>
  \<open>service/core_data.h\<close>: the data the service keeps. The rating vector, the map of active users
  and the sets of users on line all hold pointers to the same \<open>FullUserData\<close> objects, so the
  objects live in an explicit store (\<open>objects\<close>) and the containers hold addresses. An address is a
  natural number, \<open>nullptr\<close> is 0; \<open>new\<close> takes the next unused address, so an address freed once
  never comes back and a use after free is always seen. Dereferencing (\<open>deref\<close>) a null or a dangling
  pointer is a fault.
\<close>

section \<open>Users\<close>

type_synonym connect_time_t = nat

definition invalidSecond :: connect_time_t where "invalidSecond = 60"
definition invalidId :: int where "invalidId = invalidUserId"
definition invalidRating :: int where "invalidRating = -1"

record basic_user_data =
  secondConnected :: connect_time_t
  user_name :: buffer_t

record full_user_data = basic_user_data +
  user_id :: int
  amountWon :: int
  user_rating :: int

definition basic_user_default :: basic_user_data where
  "basic_user_default = \<lparr> secondConnected = invalidSecond, user_name = [] \<rparr>"

definition full_user_make :: "int \<Rightarrow> int \<Rightarrow> basic_user_data \<Rightarrow> full_user_data" where
  "full_user_make userId winnings basicData =
    \<lparr> secondConnected = secondConnected basicData, user_name = user_name basicData,
      user_id = userId, amountWon = winnings, user_rating = invalidRating \<rparr>"

text \<open>\<open>BasicUserData(std::move(\<dots>))\<close> of a full record: the base class part.\<close>

definition basic_part :: "full_user_data \<Rightarrow> basic_user_data" where
  "basic_part u = \<lparr> secondConnected = secondConnected u, user_name = user_name u \<rparr>"

lemma full_user_make_sel [simp]:
  "secondConnected (full_user_make i w b) = secondConnected b"
  "user_name (full_user_make i w b) = user_name b"
  "user_id (full_user_make i w b) = i"
  "amountWon (full_user_make i w b) = w"
  "user_rating (full_user_make i w b) = invalidRating"
  by (simp_all add: full_user_make_def)

lemma basic_part_sel [simp]:
  "secondConnected (basic_part u) = secondConnected u"
  "user_name (basic_part u) = user_name u"
  by (simp_all add: basic_part_def)

lemma basic_part_make [simp]: "basic_part (full_user_make i w b) = b"
  by (simp add: basic_part_def)

section \<open>The object store\<close>

type_synonym addr = nat
type_synonym user_store = "addr \<rightharpoonup> full_user_data"

definition nullptr :: addr where "nullptr = 0"

definition deref :: "(addr \<rightharpoonup> 'o) \<Rightarrow> addr \<Rightarrow> 'o outcome" where
  "deref h a =
    (if a = nullptr then Inl (Fault Null_Dereference)
     else case h a of None \<Rightarrow> Inl (Fault Dangling_Pointer) | Some x \<Rightarrow> Inr x)"

lemma deref_Inr_iff: "deref h a = Inr x \<longleftrightarrow> a \<noteq> nullptr \<and> h a = Some x"
  by (auto simp: deref_def split: option.splits)

lemma deref_ok [simp]: "a \<noteq> nullptr \<Longrightarrow> h a = Some x \<Longrightarrow> deref h a = Inr x"
  by (simp add: deref_def)

section \<open>The rating data\<close>

record core_rating_data =
  objects :: user_store
  next_addr :: addr
  silentUsers :: "(int, basic_user_data) hash_map"
  activeUsers :: "(int, addr) hash_map"
  rating_vector :: "addr list"

definition core_rating_data_new :: core_rating_data where
  "core_rating_data_new =
    \<lparr> objects = Map.empty, next_addr = 1, silentUsers = [], activeUsers = [], rating_vector = [] \<rparr>"

text \<open>\<open>IterationData::usersOnline\<close>, one set of users per second of the minute.\<close>

type_synonym iteration_data = "addr hash_set list"

definition iteration_data_new :: iteration_data where
  "iteration_data_new = replicate 60 []"

section \<open>The incoming data\<close>

record incoming_data_buffer =
  usersRegistered :: "(int, buffer_t) tree_map"
  usersRenamed :: "(int, buffer_t) tree_map"
  connectionChanges :: "(int, connect_time_t) tree_map"
  dealsWon :: "(int, int) tree_map"
  bufferWriterCount :: int

definition incoming_data_buffer_new :: incoming_data_buffer where
  "incoming_data_buffer_new =
    \<lparr> usersRegistered = [], usersRenamed = [], connectionChanges = [], dealsWon = [],
      bufferWriterCount = 0 \<rparr>"

section \<open>Stop signals\<close>

record system_stop_signals =
  unrecoverableError :: bool
  badFlag :: bool

definition stop_signals_new :: system_stop_signals where
  "stop_signals_new = \<lparr> unrecoverableError = False, badFlag = False \<rparr>"

definition signalError :: "bool \<Rightarrow> system_stop_signals \<Rightarrow> system_stop_signals" where
  "signalError unrecoverable s =
    (let s1 = (if unrecoverable then s\<lparr>unrecoverableError := True\<rparr> else s) in s1\<lparr>badFlag := True\<rparr>)"

definition reset_signals :: "system_stop_signals \<Rightarrow> system_stop_signals" where
  "reset_signals s = s\<lparr>unrecoverableError := False, badFlag := False\<rparr>"

end
