(* ===== verification/Rating_Rebuild.thy ===== *)
theory Rating_Rebuild
  imports Core_Data "HOL-Library.Product_Lexorder" "HOL-Library.Multiset"
begin

text \<open>
  The rebuilding of the rating vector in \<open>service/rating_calculator.cpp\<close>. The processing of the deals
  leaves a multiset of patches: for a user who is in the rating one patch that frees his old position
  and one that gives him a new one, for a user who is not a patch for the new position only. The
  patches are ordered by the number of elements behind the position; the loop walks the vector from
  its end, moves the block behind each position to its final place and drops or inserts one element.

  This theory holds the patches and their order, the search for a position, the loop with its
  \<open>memmove\<close> and its assertions, and the search's correctness; the theory \<open>Rating_Merge\<close> proves the loop against a reference.
\<close>

section \<open>Patches and their order\<close>

datatype rating_change_type = NewPosition | OldPosition

instantiation rating_change_type :: linorder
begin

definition less_eq_rating_change_type :: "rating_change_type \<Rightarrow> rating_change_type \<Rightarrow> bool" where
  "less_eq_rating_change_type a b \<longleftrightarrow> a = NewPosition \<or> b = OldPosition"

definition less_rating_change_type :: "rating_change_type \<Rightarrow> rating_change_type \<Rightarrow> bool" where
  "less_rating_change_type a b \<longleftrightarrow> a = NewPosition \<and> b = OldPosition"

instance
  by standard
     (auto simp: less_eq_rating_change_type_def less_rating_change_type_def intro: rating_change_type.exhaust)

end

record rating_patch_entry =
  userData :: addr
  elementsAfter :: int
  changeType :: rating_change_type
  patchAmount :: int

text \<open>The two constructors: a freed position, and a position for a user.\<close>

definition old_patch :: "int \<Rightarrow> rating_patch_entry" where
  "old_patch ea =
    \<lparr> userData = nullptr, elementsAfter = ea, changeType = OldPosition, patchAmount = 0 \<rparr>"

definition new_patch :: "addr \<Rightarrow> int \<Rightarrow> rating_change_type \<Rightarrow> int \<Rightarrow> rating_patch_entry" where
  "new_patch ud ea ct aw =
    \<lparr> userData = ud, elementsAfter = ea, changeType = ct, patchAmount = aw \<rparr>"

text \<open>\<open>RatingPatchEntry::operator<\<close>\<close>

definition patch_less :: "rating_patch_entry \<Rightarrow> rating_patch_entry \<Rightarrow> bool" where
  "patch_less l r =
    (if elementsAfter l \<noteq> elementsAfter r then elementsAfter l < elementsAfter r
     else if changeType l \<noteq> changeType r then changeType l < changeType r
     else patchAmount l < patchAmount r)"

text \<open>\<open>std::multiset::emplace\<close>: behind the last entry that is not greater.\<close>

fun patch_emplace :: "rating_patch_entry \<Rightarrow> rating_patch_entry list \<Rightarrow> rating_patch_entry list" where
  "patch_emplace p [] = [p]"
| "patch_emplace p (q # qs) = (if patch_less p q then p # q # qs else q # patch_emplace p qs)"

definition patch_key :: "rating_patch_entry \<Rightarrow> int \<times> rating_change_type \<times> int" where
  "patch_key p = (elementsAfter p, changeType p, patchAmount p)"

lemma patch_less_key: "patch_less p q \<longleftrightarrow> patch_key p < patch_key q"
  by (auto simp: patch_less_def patch_key_def less_prod_def)

definition patches_sorted :: "rating_patch_entry list \<Rightarrow> bool" where
  "patches_sorted ps \<longleftrightarrow> sorted (map patch_key ps)"

lemma mset_patch_emplace [simp]: "mset (patch_emplace p ps) = add_mset p (mset ps)"
  by (induction p ps rule: patch_emplace.induct) auto

lemma set_patch_emplace [simp]: "set (patch_emplace p ps) = insert p (set ps)"
  by (metis mset_patch_emplace set_mset_add_mset_insert set_mset_mset)

lemma patches_sorted_emplace: "patches_sorted ps \<Longrightarrow> patches_sorted (patch_emplace p ps)"
  by (induction p ps rule: patch_emplace.induct) (auto simp: patches_sorted_def patch_less_key)

text \<open>Entries that compare equal keep the order in which they were put in.\<close>

lemma filter_patch_emplace:
  "patches_sorted ps \<Longrightarrow>
    (\<And>q. q \<in> set ps \<Longrightarrow> P q \<Longrightarrow> P p \<Longrightarrow> \<not> patch_less p q) \<Longrightarrow>
    filter P (patch_emplace p ps) = (if P p then filter P ps @ [p] else filter P ps)"
proof (induction p ps rule: patch_emplace.induct)
  case (2 p q qs)
  show ?case
  proof (cases "patch_less p q")
    case True
    have "\<not> P p" if "r \<in> set (q # qs)" "P r" for r
    proof -
      have "patch_key q \<le> patch_key r" using 2(2) that by (auto simp: patches_sorted_def)
      then have "patch_less p r" using True by (auto simp: patch_less_key)
      then show ?thesis using 2(3) that by blast
    qed
    then have "P p \<Longrightarrow> filter P (q # qs) = []" by (auto simp: filter_empty_conv)
    then show ?thesis using True by auto
  next
    case False
    then show ?thesis using 2 by (auto simp: patches_sorted_def)
  qed
qed simp

section \<open>The position of an amount\<close>

text \<open>
  \<open>std::upper_bound\<close> with the comparison \<open>winnings > element->amountWon\<close>: the halving search of the
  standard library, on the \<open>len\<close> elements from \<open>first\<close>.
\<close>

fun upper_bound_from :: "user_store \<Rightarrow> addr list \<Rightarrow> int \<Rightarrow> nat \<Rightarrow> nat \<Rightarrow> nat outcome" where
  "upper_bound_from h v winnings first len =
    (if len = 0 then Inr first
     else let half = len div 2; middle = first + half in
       bind_outcome (deref h (v ! middle)) (\<lambda>u.
         if winnings > amountWon u then upper_bound_from h v winnings first half
         else upper_bound_from h v winnings (middle + 1) (len - half - 1)))"

declare upper_bound_from.simps [simp del]

definition ratingElementsAfter :: "user_store \<Rightarrow> addr list \<Rightarrow> int \<Rightarrow> int outcome" where
  "ratingElementsAfter h v winnings =
    bind_outcome (upper_bound_from h v winnings 0 (length v)) (\<lambda>pos.
      Inr (int_of_size (length v - pos)))"

text \<open>\<open>amounts_of h v amt\<close>: every element of the vector is an object, \<open>amt\<close> is its amount.\<close>

definition amounts_of :: "user_store \<Rightarrow> addr list \<Rightarrow> (addr \<Rightarrow> int) \<Rightarrow> bool" where
  "amounts_of h v amt \<longleftrightarrow>
    (\<forall>a \<in> set v. a \<noteq> nullptr \<and> (\<exists>u. h a = Some u \<and> amountWon u = amt a))"

definition ranked :: "('a \<Rightarrow> int) \<Rightarrow> 'a list \<Rightarrow> bool" where
  "ranked amt v \<longleftrightarrow> sorted_wrt (\<lambda>a b. amt a \<ge> amt b) v"

text \<open>\<open>p\<close> is the place of the amount \<open>w\<close>: behind every element that is at least \<open>w\<close>.\<close>

definition is_place :: "('a \<Rightarrow> int) \<Rightarrow> 'a list \<Rightarrow> int \<Rightarrow> nat \<Rightarrow> bool" where
  "is_place amt v w p \<longleftrightarrow>
    p \<le> length v \<and> (\<forall>j < p. amt (v ! j) \<ge> w) \<and> (\<forall>j \<ge> p. j < length v \<longrightarrow> amt (v ! j) < w)"

lemma upper_bound_from_correct:
  assumes "amounts_of h v amt" and "ranked amt v" and "first + len \<le> length v"
    and "\<forall>j < first. amt (v ! j) \<ge> w" and "\<forall>j \<ge> first + len. j < length v \<longrightarrow> amt (v ! j) < w"
  shows "\<exists>p. upper_bound_from h v w first len = Inr p \<and> is_place amt v w p"
  using assms(3-)
proof (induction len arbitrary: first rule: less_induct)
  case (less len)
  show ?case
  proof (cases "len = 0")
    case True
    then show ?thesis using less.prems by (simp add: upper_bound_from.simps is_place_def)
  next
    case False
    define mid where "mid = first + len div 2"
    have mid: "mid < length v" "first \<le> mid" "len div 2 < len" "len - len div 2 - 1 < len"
      using False less.prems(1) by (auto simp: mid_def)
    then have "v ! mid \<in> set v" by simp
    then obtain u where u: "deref h (v ! mid) = Inr u" "amountWon u = amt (v ! mid)"
      using assms(1) unfolding amounts_of_def deref_Inr_iff by blast
    have unfolded: "upper_bound_from h v w first len =
        (if w > amt (v ! mid) then upper_bound_from h v w first (len div 2)
         else upper_bound_from h v w (mid + 1) (len - len div 2 - 1))"
      using False u by (subst upper_bound_from.simps) (simp add: Let_def mid_def)
    have before: "amt (v ! j) \<ge> amt (v ! mid)" if "j \<le> mid" for j
      using that mid(1) assms(2) sorted_wrt_nth_mono [of _ v j mid]
      by (cases "j = mid") (auto simp: ranked_def)
    have after: "amt (v ! mid) \<ge> amt (v ! j)" if "mid \<le> j" "j < length v" for j
      using that assms(2) sorted_wrt_nth_mono [of _ v mid j]
      by (cases "j = mid") (auto simp: ranked_def)
    show ?thesis
    proof (cases "w > amt (v ! mid)")
      case True
      have "\<forall>j \<ge> first + len div 2. j < length v \<longrightarrow> amt (v ! j) < w"
        using True after by (fastforce simp: mid_def)
      then show ?thesis
        using less.IH [of "len div 2" first] less.prems mid True unfolded by simp
    next
      case False
      have "amt (v ! j) \<ge> w" if "j < mid + 1" for j
        using False before [of j] that by simp
      moreover have "mid + 1 + (len - len div 2 - 1) = first + len"
        using \<open>len \<noteq> 0\<close> by (simp add: mid_def)
      ultimately show ?thesis
        using less.IH [of "len - len div 2 - 1" "mid + 1"] less.prems mid(4) False unfolded by simp
    qed
  qed
qed

lemma ratingElementsAfter_correct:
  assumes "amounts_of h v amt" and "ranked amt v" and "int (length v) \<le> INT_MAX"
  shows "\<exists>p. is_place amt v w p \<and> ratingElementsAfter h v w = Inr (int (length v) - int p)"
proof -
  obtain p where p: "upper_bound_from h v w 0 (length v) = Inr p" "is_place amt v w p"
    using upper_bound_from_correct [OF assms(1,2), of 0 "length v" w] by auto
  then have "p \<le> length v" by (simp add: is_place_def)
  then have "ratingElementsAfter h v w = Inr (int (length v) - int p)"
    using p(1) assms(3) by (simp add: ratingElementsAfter_def of_nat_diff)
  then show ?thesis using p(2) by blast
qed

section \<open>The loop over the patches\<close>

definition ratingMoveBlock :: "int \<Rightarrow> int \<Rightarrow> int \<Rightarrow> addr list \<Rightarrow> addr list outcome" where
  "ratingMoveBlock pos len offset v =
    (if len = 0 \<or> offset = 0 then Inr v
     else bind_outcome
       (guard (size_t_of pos < int (length v) \<and> len > 0 \<and> offset > 0 \<and>
               size_t_of (pos + len + offset) \<le> int (length v)) (Fault Assertion_Failed))
       (\<lambda>_. Inr (memcpy_at (nat (pos + offset)) (take (nat len) (drop (nat pos) v)) v)))"

definition ratingInsert :: "int \<Rightarrow> addr \<Rightarrow> addr list \<Rightarrow> addr list outcome" where
  "ratingInsert pos value v =
    bind_outcome (guard (size_t_of pos < int (length v)) (Fault Assertion_Failed))
      (\<lambda>_. Inr (v[nat pos := value]))"

text \<open>The variables of the loop: its three counters, the vector and the objects.\<close>

record rebuild_state =
  rb_offset :: int
  rb_oldPositions :: int
  rb_lengthDone :: int
  rb_vector :: "addr list"
  rb_objects :: user_store

definition apply_patch :: "int \<Rightarrow> rating_patch_entry \<Rightarrow> rebuild_state \<Rightarrow> rebuild_state outcome" where
  "apply_patch oldRatingVectorSize ratingPatch s =
    (let position = oldRatingVectorSize - elementsAfter ratingPatch;
         blockLength = elementsAfter ratingPatch - rb_lengthDone s - rb_oldPositions s
     in if changeType ratingPatch = OldPosition then
          bind_outcome (ratingMoveBlock position blockLength (rb_offset s) (rb_vector s)) (\<lambda>v.
            Inr (s\<lparr>rb_oldPositions := rb_oldPositions s + 1,
                   rb_lengthDone := rb_lengthDone s + blockLength,
                   rb_vector := v,
                   rb_offset := rb_offset s + 1\<rparr>))
        else
          bind_outcome (ratingMoveBlock position blockLength (rb_offset s) (rb_vector s)) (\<lambda>v.
          bind_outcome (ratingInsert (position + (rb_offset s - 1)) (userData ratingPatch) v) (\<lambda>v1.
          bind_outcome (deref (rb_objects s) (userData ratingPatch)) (\<lambda>u.
            Inr (s\<lparr>rb_lengthDone := rb_lengthDone s + blockLength,
                   rb_vector := v1,
                   rb_offset := rb_offset s - 1,
                   rb_objects := (rb_objects s)(userData ratingPatch \<mapsto>
                     u\<lparr>amountWon := patchAmount ratingPatch\<rparr>)\<rparr>)))))"

definition rebuild_rating ::
    "nat \<Rightarrow> rating_patch_entry list \<Rightarrow> user_store \<Rightarrow> addr list \<Rightarrow> rebuild_state outcome" where
  "rebuild_rating freshRatings patches h v =
    (let oldRatingVectorSize = int_of_size (length v) in
     fold_outcome (apply_patch oldRatingVectorSize) patches
       \<lparr> rb_offset = int freshRatings, rb_oldPositions = 0, rb_lengthDone = 0,
         rb_vector = vector_resize (nat (oldRatingVectorSize + int freshRatings)) nullptr v,
         rb_objects = h \<rparr>)"

end
