(* ===== verification/Rating_Merge.thy ===== *)
theory Rating_Merge
  imports Rating_Rebuild
begin

text \<open>
  The correctness of the block moving loop of \<open>Rating_Rebuild\<close>. \<open>merge_rating\<close> is the reference
  definition: the merge of two lists in descending order of amount, the first list first among
  equals. The proof has two steps. \<open>rebuild_spec\<close> is what the loop leaves, read off the patches from
  the end of the vector; \<open>rebuild_loop\<close> shows that the loop with its \<open>memmove\<close> and assertions
  computes it whenever the patches are \<open>positioned\<close> and \<open>balanced\<close>. \<open>rebuild_spec_merge\<close> shows
  that \<open>rebuild_spec\<close> is the merge of the users who keep their place with those who get a new one.
\<close>

section \<open>What the loop leaves\<close>

abbreviation is_old :: "rating_patch_entry \<Rightarrow> bool" where
  "is_old p \<equiv> changeType p = OldPosition"

abbreviation is_new :: "rating_patch_entry \<Rightarrow> bool" where
  "is_new p \<equiv> changeType p \<noteq> OldPosition"

definition place_of :: "'a list \<Rightarrow> rating_patch_entry \<Rightarrow> nat" where
  "place_of R p = length R - nat (elementsAfter p)"

fun rebuild_spec :: "addr list \<Rightarrow> nat \<Rightarrow> rating_patch_entry list \<Rightarrow> addr list" where
  "rebuild_spec R b [] = take b R"
| "rebuild_spec R b (p # ps) =
    (if is_old p then rebuild_spec R (place_of R p - 1) ps @ drop (place_of R p) (take b R)
     else rebuild_spec R (place_of R p) ps @ [userData p] @ drop (place_of R p) (take b R))"

text \<open>The places of the patches go down and lie in the part of the vector not yet done.\<close>

fun positioned :: "nat \<Rightarrow> nat \<Rightarrow> rating_patch_entry list \<Rightarrow> bool" where
  "positioned n b [] = True"
| "positioned n b (p # ps) =
    (0 \<le> elementsAfter p \<and> nat (elementsAfter p) \<le> n \<and> n - nat (elementsAfter p) \<le> b \<and>
     (if is_old p
      then nat (elementsAfter p) < n \<and> positioned n (n - nat (elementsAfter p) - 1) ps
      else positioned n (n - nat (elementsAfter p)) ps))"

text \<open>
  The gap between the part not yet done and the part that is done: one slot for every new position
  still to come, less one for every position still to be freed. It never closes too early when no
  rest of the patches frees more than it fills.
\<close>

definition gap :: "rating_patch_entry list \<Rightarrow> int" where
  "gap ps = int (length (filter is_new ps)) - int (length (filter is_old ps))"

fun balanced :: "rating_patch_entry list \<Rightarrow> bool" where
  "balanced [] = True"
| "balanced (p # ps) = (0 \<le> gap (p # ps) \<and> balanced ps)"

lemma gap_simps [simp]:
  "gap [] = 0"
  "gap (p # ps) = (if is_old p then gap ps - 1 else gap ps + 1)"
  by (simp_all add: gap_def)

lemma balanced_gap: "balanced ps \<Longrightarrow> 0 \<le> gap ps"
  by (cases ps) simp_all

lemma ratingMoveBlock_split:
  assumes "v = A @ B @ J @ D" and "pos = int (length A)" and "len = int (length B)"
    and "offset = int (length J)" and "int (length v) \<le> INT_MAX"
  shows "\<exists>J'. length J' = length J \<and> ratingMoveBlock pos len offset v = Inr (A @ J' @ B @ D)"
proof (cases "B = [] \<or> J = []")
  case True
  then show ?thesis using assms by (auto simp: ratingMoveBlock_def)
next
  case False
  then have pos: "0 < length B" "0 < length J" by auto
  let ?J' = "take (length J) (B @ J)"
  have "memcpy_at (length A + length J) B v = A @ ?J' @ B @ D"
  proof -
    have "take (length A + length J) v = A @ ?J'"
      using assms(1) by simp
    moreover have "drop (length A + length J + length B) v = D"
      using assms(1) by simp
    ultimately show ?thesis by (simp add: memcpy_at_def)
  qed
  moreover have "take (length B) (drop (length A) v) = B"
    using assms(1) by simp
  moreover have "nat (pos + offset) = length A + length J"
    using assms by simp
  moreover have "size_t_of pos < int (length v)" "size_t_of (pos + len + offset) \<le> int (length v)"
  proof -
    have "length v = length A + length B + length J + length D"
      using assms(1) by simp
    then have "0 \<le> pos" "pos < int (length v)" "0 \<le> pos + len + offset"
      "pos + len + offset \<le> int (length v)"
      using assms(2-4) pos by linarith+
    then show "size_t_of pos < int (length v)" "size_t_of (pos + len + offset) \<le> int (length v)"
      using assms(5) by (simp_all add: size_t_of_small)
  qed
  ultimately have "ratingMoveBlock pos len offset v = Inr (A @ ?J' @ B @ D)"
    using assms pos False by (simp add: ratingMoveBlock_def)
  moreover have "length ?J' = length J" by simp
  ultimately show ?thesis by blast
qed

text \<open>The amounts the loop writes: the last patch of a user gives his amount.\<close>

definition write_amount :: "rating_patch_entry \<Rightarrow> user_store \<Rightarrow> user_store" where
  "write_amount p h =
    (if is_old p then h
     else h(userData p := map_option (\<lambda>u. u\<lparr>amountWon := patchAmount p\<rparr>) (h (userData p))))"

lemma dom_write_amount [simp]: "dom (write_amount p h) = dom h"
  by (auto simp: write_amount_def split: if_splits)

text \<open>
  The state of the loop: a part \<open>take b R\<close> of the old vector not yet looked at, a gap, and the part
  that is done. One patch moves the boundary and keeps that shape.
\<close>

definition loop_state :: "addr list \<Rightarrow> nat \<Rightarrow> rating_patch_entry list \<Rightarrow> addr list \<Rightarrow> rebuild_state \<Rightarrow> bool" where
  "loop_state R b ps D s \<longleftrightarrow>
    b \<le> length R \<and> rb_offset s = gap ps \<and> rb_lengthDone s + rb_oldPositions s = int (length R - b) \<and>
    (\<exists>J. rb_vector s = take b R @ J @ D \<and> int (length J) = gap ps) \<and>
    int (length (rb_vector s)) \<le> INT_MAX"

lemma loop_move:
  assumes "loop_state R b (p # ps) D s" and "positioned (length R) b (p # ps)"
  defines "n \<equiv> length R" and "q \<equiv> place_of R p"
  shows "\<exists>J. ratingMoveBlock (int n - elementsAfter p)
        (elementsAfter p - rb_lengthDone s - rb_oldPositions s) (rb_offset s) (rb_vector s) =
      Inr (take q R @ J @ drop q (take b R) @ D) \<and>
    int (length J) = gap (p # ps) \<and> int n - elementsAfter p = int q \<and> q \<le> b \<and> b \<le> n \<and>
    elementsAfter p - rb_lengthDone s - rb_oldPositions s = int (b - q) \<and>
    int (length (take q R @ J @ drop q (take b R) @ D)) \<le> INT_MAX"
proof -
  from assms(1) obtain J where J: "rb_vector s = take b R @ J @ D" "int (length J) = gap (p # ps)"
    and st: "b \<le> n" "rb_offset s = gap (p # ps)" "rb_lengthDone s + rb_oldPositions s = int (n - b)"
      "int (length (rb_vector s)) \<le> INT_MAX"
    by (auto simp: loop_state_def n_def)
  from assms(2) have ea: "0 \<le> elementsAfter p" "nat (elementsAfter p) \<le> n" "q \<le> b"
    by (auto simp: q_def n_def place_of_def)
  then have q: "int n - elementsAfter p = int q"
    by (simp add: q_def place_of_def n_def)
  then have len: "elementsAfter p - rb_lengthDone s - rb_oldPositions s = int (b - q)"
    using st ea by linarith
  have split: "rb_vector s = take q R @ drop q (take b R) @ J @ D"
    using J(1) take_drop_split [OF ea(3), of R] by simp
  have a: "int n - elementsAfter p = int (length (take q R))"
    using q ea(3) st(1) by (simp add: n_def)
  have b: "elementsAfter p - rb_lengthDone s - rb_oldPositions s = int (length (drop q (take b R)))"
    using len st(1) by (simp add: n_def)
  have c: "rb_offset s = int (length J)"
    using st(2) J(2) by simp
  obtain J' where J': "length J' = length J"
    "ratingMoveBlock (int n - elementsAfter p)
        (elementsAfter p - rb_lengthDone s - rb_oldPositions s) (rb_offset s) (rb_vector s) =
      Inr (take q R @ J' @ drop q (take b R) @ D)"
    using ratingMoveBlock_split [OF split a b c st(4)] by blast
  moreover have "length (take q R @ J' @ drop q (take b R) @ D) = length (rb_vector s)"
    using split J'(1) by simp
  ultimately show ?thesis using J(2) q len ea(3) st(1,4) by (metis (no_types, lifting))
qed

lemma apply_old:
  assumes "loop_state R b (p # ps) D s" and "positioned (length R) b (p # ps)" and "is_old p"
  shows "\<exists>s'. apply_patch (int (length R)) p s = Inr s' \<and> rb_objects s' = rb_objects s \<and>
    loop_state R (place_of R p - 1) ps (drop (place_of R p) (take b R) @ D) s'"
proof -
  let ?q = "place_of R p" and ?n = "length R"
  obtain J where J: "ratingMoveBlock (int ?n - elementsAfter p)
        (elementsAfter p - rb_lengthDone s - rb_oldPositions s) (rb_offset s) (rb_vector s) =
      Inr (take ?q R @ J @ drop ?q (take b R) @ D)"
    and gap: "int (length J) = gap (p # ps)" and q: "int ?n - elementsAfter p = int ?q" "?q \<le> b" "b \<le> ?n"
    and len: "elementsAfter p - rb_lengthDone s - rb_oldPositions s = int (b - ?q)"
    and bound: "int (length (take ?q R @ J @ drop ?q (take b R) @ D)) \<le> INT_MAX"
    using loop_move [OF assms(1,2)] by blast
  from assms(2,3) have pos: "0 < ?q" by (auto simp: place_of_def)
  have cnt: "rb_lengthDone s + rb_oldPositions s = int (?n - b)" "rb_offset s = gap (p # ps)"
    using assms(1) by (simp_all add: loop_state_def)
  have "take ?q R = take (?q - 1) R @ [R ! (?q - 1)]"
    using pos q by (metis Suc_diff_1 le_trans less_le_trans diff_less take_Suc_conv_app_nth zero_less_one)
  then have vec: "take ?q R @ J @ drop ?q (take b R) @ D =
      take (?q - 1) R @ (R ! (?q - 1) # J) @ drop ?q (take b R) @ D" by simp
  let ?s' = "s\<lparr>rb_oldPositions := rb_oldPositions s + 1,
      rb_lengthDone := rb_lengthDone s + int (b - ?q),
      rb_vector := take ?q R @ J @ drop ?q (take b R) @ D, rb_offset := rb_offset s + 1\<rparr>"
  have "apply_patch (int ?n) p s = Inr ?s'"
    using assms(3) J len by (simp add: apply_patch_def Let_def)
  moreover have "loop_state R (?q - 1) ps (drop ?q (take b R) @ D) ?s'"
    unfolding loop_state_def
  proof (intro conjI)
    show "\<exists>J'. rb_vector ?s' = take (?q - 1) R @ J' @ drop ?q (take b R) @ D \<and> int (length J') = gap ps"
      using vec gap assms(3) by (intro exI [of _ "R ! (?q - 1) # J"]) simp
  qed (use q cnt pos bound assms(3) in auto)
  ultimately show ?thesis by auto
qed

lemma apply_new:
  assumes "loop_state R b (p # ps) D s" and "positioned (length R) b (p # ps)" and "is_new p"
    and "balanced ps" and "userData p \<noteq> nullptr" and "userData p \<in> dom (rb_objects s)"
  shows "\<exists>s'. apply_patch (int (length R)) p s = Inr s' \<and> rb_objects s' = write_amount p (rb_objects s) \<and>
    loop_state R (place_of R p) ps (userData p # drop (place_of R p) (take b R) @ D) s'"
proof -
  let ?q = "place_of R p" and ?n = "length R"
  obtain J where J: "ratingMoveBlock (int ?n - elementsAfter p)
        (elementsAfter p - rb_lengthDone s - rb_oldPositions s) (rb_offset s) (rb_vector s) =
      Inr (take ?q R @ J @ drop ?q (take b R) @ D)"
    and gap: "int (length J) = gap (p # ps)" and q: "int ?n - elementsAfter p = int ?q" "?q \<le> b" "b \<le> ?n"
    and len: "elementsAfter p - rb_lengthDone s - rb_oldPositions s = int (b - ?q)"
    and bound: "int (length (take ?q R @ J @ drop ?q (take b R) @ D)) \<le> INT_MAX"
    using loop_move [OF assms(1,2)] by blast
  have cnt: "rb_lengthDone s + rb_oldPositions s = int (?n - b)" "rb_offset s = gap (p # ps)"
    using assms(1) by (simp_all add: loop_state_def)
  have "int (length J) > 0" using gap assms(3) balanced_gap [OF assms(4)] by simp
  then have "0 < length J" by linarith
  then obtain K x where K: "J = K @ [x]" by (metis length_greater_0_conv rev_exhaust)
  let ?v = "take ?q R @ J @ drop ?q (take b R) @ D"
  let ?v1 = "take ?q R @ K @ userData p # drop ?q (take b R) @ D"
  have at: "int ?q + (rb_offset s - 1) = int (?q + length K)"
    using gap cnt K by simp
  have "?v[?q + length K := userData p] = ?v1"
    using q K by (simp add: list_update_append)
  moreover have "int (?q + length K) < int (length ?v)"
    using q K by simp
  ultimately have ins: "ratingInsert (int ?q + (rb_offset s - 1)) (userData p) ?v = Inr ?v1"
    using bound unfolding at by (simp add: ratingInsert_def size_t_of_small del: of_nat_add)
  obtain u where u: "rb_objects s (userData p) = Some u" using assms(6) by auto
  let ?s' = "s\<lparr>rb_lengthDone := rb_lengthDone s + int (b - ?q), rb_vector := ?v1,
      rb_offset := rb_offset s - 1,
      rb_objects := (rb_objects s)(userData p \<mapsto> u\<lparr>amountWon := patchAmount p\<rparr>)\<rparr>"
  have "apply_patch (int ?n) p s = Inr ?s'"
    using assms(3,5) J len q(1) ins u by (simp add: apply_patch_def Let_def)
  moreover have "loop_state R ?q ps (userData p # drop ?q (take b R) @ D) ?s'"
    unfolding loop_state_def
  proof (intro conjI)
    show "\<exists>J'. rb_vector ?s' = take ?q R @ J' @ userData p # drop ?q (take b R) @ D \<and> int (length J') = gap ps"
      using gap K assms(3) by (intro exI [of _ K]) simp
  qed (use q cnt bound K assms(3) in auto)
  moreover have "rb_objects ?s' = write_amount p (rb_objects s)"
    using assms(3) u by (simp add: write_amount_def)
  ultimately show ?thesis by blast
qed

lemma rebuild_loop:
  assumes "loop_state R b ps D s" and "positioned (length R) b ps" and "balanced ps" and "gap ps \<ge> 0"
    and "\<And>p. p \<in> set ps \<Longrightarrow> is_new p \<Longrightarrow> userData p \<noteq> nullptr \<and> userData p \<in> dom (rb_objects s)"
  shows "\<exists>s'. fold_outcome (apply_patch (int (length R))) ps s = Inr s' \<and>
    rb_vector s' = rebuild_spec R b ps @ D \<and> rb_objects s' = fold write_amount ps (rb_objects s)"
  using assms
proof (induction ps arbitrary: b D s)
  case Nil
  then show ?case by (auto simp: loop_state_def)
next
  case (Cons p ps)
  show ?case
  proof (cases "is_old p")
    case True
    obtain s1 where s1: "apply_patch (int (length R)) p s = Inr s1" "rb_objects s1 = rb_objects s"
      "loop_state R (place_of R p - 1) ps (drop (place_of R p) (take b R) @ D) s1"
      using apply_old [OF Cons.prems(1,2) True] by blast
    have "positioned (length R) (place_of R p - 1) ps"
      using Cons.prems(2) True by (simp add: place_of_def)
    then show ?thesis
      using Cons.IH [OF s1(3)] Cons.prems s1 True balanced_gap [of ps]
      by (auto simp: write_amount_def)
  next
    case False
    obtain s1 where s1: "apply_patch (int (length R)) p s = Inr s1"
      "rb_objects s1 = write_amount p (rb_objects s)"
      "loop_state R (place_of R p) ps (userData p # drop (place_of R p) (take b R) @ D) s1"
      using apply_new [OF Cons.prems(1,2) False] Cons.prems(3,5) False by auto
    have "positioned (length R) (place_of R p) ps"
      using Cons.prems(2) False by (simp add: place_of_def)
    then show ?thesis
      using Cons.IH [OF s1(3)] Cons.prems s1 False balanced_gap [of ps] by auto
  qed
qed

section \<open>The reference: a merge in descending order\<close>

fun merge_rating :: "('a \<Rightarrow> int) \<Rightarrow> 'a list \<Rightarrow> 'a list \<Rightarrow> 'a list" where
  "merge_rating key [] ys = ys"
| "merge_rating key (x # xs) [] = x # xs"
| "merge_rating key (x # xs) (y # ys) =
    (if key x \<ge> key y then x # merge_rating key xs (y # ys)
     else y # merge_rating key (x # xs) ys)"

lemma merge_rating_Nil2 [simp]: "merge_rating key xs [] = xs"
  by (cases xs) simp_all

lemma mset_merge_rating [simp]: "mset (merge_rating key xs ys) = mset xs + mset ys"
  by (induction key xs ys rule: merge_rating.induct) simp_all

lemma set_merge_rating [simp]: "set (merge_rating key xs ys) = set xs \<union> set ys"
  by (metis mset_merge_rating set_mset_mset set_mset_union)

lemma length_merge_rating [simp]: "length (merge_rating key xs ys) = length xs + length ys"
  by (metis mset_merge_rating size_mset size_union)

lemma distinct_merge_rating [simp]:
  "distinct (merge_rating key xs ys) \<longleftrightarrow> distinct xs \<and> distinct ys \<and> set xs \<inter> set ys = {}"
  by (metis distinct_append mset_append mset_merge_rating mset_eq_imp_distinct_iff)

lemma ranked_merge_rating: "ranked key xs \<Longrightarrow> ranked key ys \<Longrightarrow> ranked key (merge_rating key xs ys)"
  by (induction key xs ys rule: merge_rating.induct) (fastforce simp: ranked_def)+

text \<open>Elements below all of the second list stay behind it.\<close>

lemma merge_rating_low:
  "\<forall>b \<in> set B. \<forall>y \<in> set ys. key b < key y \<Longrightarrow>
    merge_rating key (xs @ B) ys = merge_rating key xs ys @ B"
proof (induction key xs ys rule: merge_rating.induct)
  case (1 key ys)
  then show ?case by (induction ys) (cases B; auto)+
qed auto

text \<open>An element not above any of the first list goes behind it.\<close>

lemma merge_rating_snoc:
  "\<forall>x \<in> set xs. key x \<ge> key u \<Longrightarrow> merge_rating key xs (ys @ [u]) = merge_rating key xs ys @ [u]"
proof (induction key xs ys rule: merge_rating.induct)
  case (2 key x xs)
  have "merge_rating key zs [u] = zs @ [u]" if "\<forall>z \<in> set zs. key z \<ge> key u" for zs
    using that by (induction zs) auto
  then show ?case using 2 by auto
qed auto

section \<open>The loop computes the merge\<close>

definition freed :: "addr list \<Rightarrow> rating_patch_entry list \<Rightarrow> addr set" where
  "freed R ps = (\<lambda>p. R ! (place_of R p - 1)) ` {p \<in> set ps. is_old p}"

definition placed :: "addr list \<Rightarrow> rating_patch_entry list \<Rightarrow> addr list" where
  "placed R ps = map userData (filter is_new ps)"

lemma positioned_place:
  "positioned (length R) b ps \<Longrightarrow> p \<in> set ps \<Longrightarrow>
    place_of R p \<le> b \<and> (is_old p \<longrightarrow> 0 < place_of R p)"
proof (induction ps arbitrary: b)
  case (Cons q ps)
  show ?case
  proof (cases "p = q")
    case True
    then show ?thesis using Cons.prems by (auto simp: place_of_def)
  next
    case False
    then show ?thesis using Cons.prems Cons.IH by (force split: if_splits)
  qed
qed simp

lemma freed_index:
  assumes "positioned (length R) b ps" and "b \<le> length R" and "r \<in> freed R ps"
  shows "\<exists>i < b. r = R ! i"
proof -
  obtain p where "p \<in> set ps" "is_old p" "r = R ! (place_of R p - 1)"
    using assms(3) by (auto simp: freed_def)
  moreover from this have "place_of R p \<le> b" "0 < place_of R p"
    using positioned_place [OF assms(1)] by auto
  ultimately show ?thesis by (intro exI [of _ "place_of R p - 1"]) auto
qed

lemma block_not_freed:
  assumes "positioned (length R) q ps" and "q \<le> length R" and "distinct R"
    and "x \<in> set (drop q' (take b R))" and "q \<le> q'"
  shows "x \<notin> freed R ps"
proof
  assume "x \<in> freed R ps"
  then obtain i where i: "i < q" "x = R ! i" using freed_index assms(1,2) by blast
  moreover obtain j where "q' \<le> j" "j < length R" "x = R ! j"
    using assms(4) by (rule in_set_drop_take)
  ultimately show False
    using assms(2,3,5) by (metis leD le_trans less_le_trans nth_eq_iff_index_eq)
qed

lemma block_low:
  assumes "p \<in> set ps" and "is_new p" and "positioned (length R) q ps"
    and "is_place amt R (patchAmount p) (place_of R p)"
    and "x \<in> set (drop q' (take b R))" and "q \<le> q'"
  shows "amt x < patchAmount p"
proof -
  obtain j where "q' \<le> j" "j < length R" "x = R ! j"
    using assms(5) by (rule in_set_drop_take)
  moreover have "place_of R p \<le> q" using positioned_place [OF assms(3,1)] by simp
  ultimately show ?thesis using assms(4,6) by (simp add: is_place_def)
qed

lemma rebuild_spec_merge:
  assumes "positioned (length R) b ps" and "b \<le> length R" and "distinct R"
    and "\<And>p. p \<in> set ps \<Longrightarrow> is_new p \<Longrightarrow>
      is_place amt R (patchAmount p) (place_of R p) \<and> amt' (userData p) = patchAmount p"
    and "\<And>r. r \<in> set (take b R) - freed R ps \<Longrightarrow> amt' r = amt r"
  shows "rebuild_spec R b ps =
    merge_rating amt' (filter (\<lambda>r. r \<notin> freed R ps) (take b R)) (rev (placed R ps))"
  using assms
proof (induction ps arbitrary: b)
  case Nil
  then show ?case by (simp add: freed_def placed_def)
next
  case (Cons p ps)
  define q where "q = place_of R p"
  define B where "B = drop q (take b R)"
  show ?case
  proof (cases "is_old p")
    case True
    have pos: "positioned (length R) (q - 1) ps" "q \<le> b" "0 < q"
      using Cons.prems(1) True by (auto simp: q_def place_of_def)
    have fr: "freed R (p # ps) = insert (R ! (q - 1)) (freed R ps)"
      using True by (auto simp: freed_def q_def)
    have B: "x \<notin> freed R ps" "x \<noteq> R ! (q - 1)" if xB: "x \<in> set B" for x
    proof -
      show "x \<notin> freed R ps"
        using block_not_freed [OF pos(1) _ Cons.prems(3) xB [unfolded B_def]] pos Cons.prems(2) by simp
      obtain j where "q \<le> j" "j < length R" "x = R ! j"
        using xB unfolding B_def by (rule in_set_drop_take)
      then show "x \<noteq> R ! (q - 1)"
        using pos(3) Cons.prems(3) by (auto simp: nth_eq_iff_index_eq)
    qed
    have A: "r \<noteq> R ! (q - 1)" if "r \<in> set (take (q - 1) R)" for r
      using that pos Cons.prems(2,3) by (auto simp: in_set_conv_nth nth_eq_iff_index_eq)
    have take: "take b R = take (q - 1) R @ R ! (q - 1) # B"
    proof -
      have "q - 1 < length (take b R)" using pos Cons.prems(2) by simp
      moreover have "take (q - 1) (take b R) = take (q - 1) R" "take b R ! (q - 1) = R ! (q - 1)"
        "Suc (q - 1) = q"
        using pos by (simp_all add: min_absorb1)
      ultimately show ?thesis unfolding B_def by (metis id_take_nth_drop)
    qed
    have kept: "filter (\<lambda>r. r \<notin> freed R (p # ps)) (take b R) =
        filter (\<lambda>r. r \<notin> freed R ps) (take (q - 1) R) @ B"
      unfolding take fr using A B by (auto simp: filter_id_conv intro: filter_cong)
    have "amt' r = amt r" if "r \<in> set (take (q - 1) R) - freed R ps" for r
      using that A Cons.prems(5) [of r] by (simp add: take fr)
    then have IH: "rebuild_spec R (q - 1) ps =
        merge_rating amt' (filter (\<lambda>r. r \<notin> freed R ps) (take (q - 1) R)) (rev (placed R ps))"
      using Cons.IH [OF pos(1)] pos Cons.prems(2-4) by simp
    have "amt' x < amt' y" if xB: "x \<in> set B" and yP: "y \<in> set (placed R ps)" for x y
    proof -
      obtain p' where p': "p' \<in> set ps" "is_new p'" "y = userData p'"
        using yP by (auto simp: placed_def)
      have "amt' x = amt x" using xB B Cons.prems(5) [of x] by (simp add: take fr)
      moreover have "amt x < patchAmount p'"
        using block_low [OF p'(1,2) pos(1)] Cons.prems(4) p' xB by (auto simp: B_def)
      ultimately show ?thesis using Cons.prems(4) p' by auto
    qed
    then have "merge_rating amt' (filter (\<lambda>r. r \<notin> freed R ps) (take (q - 1) R) @ B) (rev (placed R ps)) =
        merge_rating amt' (filter (\<lambda>r. r \<notin> freed R ps) (take (q - 1) R)) (rev (placed R ps)) @ B"
      by (intro merge_rating_low) simp
    then show ?thesis
      using True IH kept by (simp add: placed_def q_def B_def)
  next
    case False
    let ?u = "userData p"
    let ?K = "filter (\<lambda>r. r \<notin> freed R ps) (take q R)"
    have pos: "positioned (length R) q ps" "q \<le> b"
      using Cons.prems(1) False by (auto simp: q_def place_of_def)
    have u: "is_place amt R (patchAmount p) q" "amt' ?u = patchAmount p"
      using Cons.prems(4) [of p] False by (auto simp: q_def)
    have fr: "freed R (p # ps) = freed R ps"
      using False by (auto simp: freed_def)
    have B: "x \<notin> freed R ps" if "x \<in> set B" for x
      using block_not_freed [OF pos(1) _ Cons.prems(3) that [unfolded B_def]] pos Cons.prems(2) by simp
    have take: "take b R = take q R @ B"
      using pos(2) by (simp add: B_def take_drop_split [symmetric])
    have kept: "filter (\<lambda>r. r \<notin> freed R (p # ps)) (take b R) = ?K @ B"
      unfolding take fr using B by (auto simp: filter_id_conv)
    have same: "amt' r = amt r" if "r \<in> set ?K \<union> set B" for r
      using that B Cons.prems(5) [of r] by (auto simp: take fr)
    have IH: "rebuild_spec R q ps = merge_rating amt' ?K (rev (placed R ps))"
      using Cons.IH [OF pos(1)] pos Cons.prems(2-4) same by simp
    have "amt' x < amt' y" if xB: "x \<in> set B" and yP: "y \<in> set (placed R (p # ps))" for x y
    proof -
      obtain p' where p': "p' \<in> set (p # ps)" "is_new p'" "y = userData p'"
        using yP by (auto simp: placed_def split: if_splits)
      have "positioned (length R) q (p # ps)"
        using Cons.prems(1) False by (auto simp: q_def place_of_def)
      then have "amt x < patchAmount p'"
        using block_low [OF p'(1,2) _ _ xB [unfolded B_def] order_refl] Cons.prems(4) [OF p'(1,2)]
        by blast
      then show ?thesis using Cons.prems(4) p' same xB by auto
    qed
    then have "merge_rating amt' (?K @ B) (rev (placed R (p # ps))) =
        merge_rating amt' ?K (rev (placed R (p # ps))) @ B"
      by (intro merge_rating_low) simp
    moreover have "amt' x \<ge> amt' ?u" if xK: "x \<in> set ?K" for x
    proof -
      obtain j where "j < q" "x = R ! j"
        using xK by (auto simp: in_set_conv_nth)
      then show ?thesis using u same xK by (simp add: is_place_def)
    qed
    then have "merge_rating amt' ?K (rev (placed R ps) @ [?u]) =
        merge_rating amt' ?K (rev (placed R ps)) @ [?u]"
      by (intro merge_rating_snoc) simp
    ultimately show ?thesis
      using False IH kept by (simp add: placed_def q_def B_def)
  qed
qed

end
