(* ===== verification/Rating_Plan.thy ===== *)
theory Rating_Plan
  imports Rating_Merge
begin

text \<open>
  The patches a run of deals leaves (\<open>deal_plan\<close>): for every user \<open>u\<close> of a list \<open>U\<close> without
  repetitions a patch for his new position, and one that frees his old one when he is in the rating
  \<open>R\<close>. \<open>deal_plan_snoc\<close> adds the patches of one more user the way the processing of a deal does;
  \<open>deal_plan_rebuild\<close> is the correctness of the rebuilding: when no user of the rating keeps or
  loses his amount, the loop runs through all its assertions and leaves the merge of the users
  without a deal and of the users with one, the latter sorted by their new amount.
\<close>

section \<open>The place of an amount as a function\<close>

definition place :: "('a \<Rightarrow> int) \<Rightarrow> 'a list \<Rightarrow> int \<Rightarrow> nat" where
  "place amt R w = length (takeWhile (\<lambda>r. amt r \<ge> w) R)"

lemma is_place_eq: "is_place amt R w p \<Longrightarrow> p = place amt R w"
proof -
  assume p: "is_place amt R w p"
  have "takeWhile (\<lambda>r. amt r \<ge> w) R = take p R"
  proof (rule takeWhile_eq_take_P_nth)
    fix i assume "i < p" "i < length R"
    then show "amt (R ! i) \<ge> w" using p by (simp add: is_place_def)
  next
    assume "p < length R"
    then show "\<not> amt (R ! p) \<ge> w" using p by (simp add: is_place_def not_le)
  qed
  then show ?thesis using p by (simp add: place_def is_place_def)
qed

lemma is_place_place:
  assumes "ranked amt R"
  shows "is_place amt R w (place amt R w)"
proof -
  let ?P = "\<lambda>r. amt r \<ge> w"
  have "amt (R ! j) < w" if j: "place amt R w \<le> j" "j < length R" for j
  proof -
    have p: "place amt R w < length R" using j by simp
    have "\<not> amt (R ! place amt R w) \<ge> w"
      using nth_length_takeWhile [of ?P R] p by (simp add: place_def)
    moreover have "amt (R ! place amt R w) \<ge> amt (R ! j)"
      using j assms sorted_wrt_nth_mono [of _ R "place amt R w" j]
      by (cases "j = place amt R w") (auto simp: ranked_def)
    ultimately show ?thesis by simp
  qed
  moreover have "amt (R ! j) \<ge> w" if "j < place amt R w" for j
    using that nth_mem [of j "takeWhile ?P R"] set_takeWhileD [of "R ! j" ?P R]
    by (auto simp: place_def takeWhile_nth)
  moreover have "place amt R w \<le> length R"
    by (simp add: place_def length_takeWhile_le)
  ultimately show ?thesis by (simp add: is_place_def)
qed

lemma place_antimono: "w \<le> w' \<Longrightarrow> place amt R w' \<le> place amt R w"
  by (induction R) (auto simp: place_def)

section \<open>The patches of a run of deals\<close>

definition user_patches ::
    "addr list \<Rightarrow> (addr \<Rightarrow> nat) \<Rightarrow> (addr \<Rightarrow> int) \<Rightarrow> (addr \<Rightarrow> int) \<Rightarrow> addr \<Rightarrow> rating_patch_entry list" where
  "user_patches R idx amt amt' u =
    (if u \<in> set R then [old_patch (int (length R) - int (idx u) - 1)] else []) @
    [new_patch u (int (length R) - int (place amt R (amt' u))) NewPosition (amt' u)]"

definition deal_plan ::
    "addr list \<Rightarrow> (addr \<Rightarrow> nat) \<Rightarrow> (addr \<Rightarrow> int) \<Rightarrow> (addr \<Rightarrow> int) \<Rightarrow> addr list \<Rightarrow>
      rating_patch_entry list \<Rightarrow> bool" where
  "deal_plan R idx amt amt' U ps \<longleftrightarrow>
    patches_sorted ps \<and>
    mset ps = mset (concat (map (user_patches R idx amt amt') U)) \<and>
    (\<forall>k. map userData (filter (\<lambda>p. is_new p \<and> patchAmount p = k) ps) = filter (\<lambda>u. amt' u = k) U)"

lemma old_patch_sel [simp]:
  "changeType (old_patch ea) = OldPosition" "elementsAfter (old_patch ea) = ea"
  "patchAmount (old_patch ea) = 0"
  by (simp_all add: old_patch_def)

lemma new_patch_sel [simp]:
  "userData (new_patch u ea ct w) = u" "elementsAfter (new_patch u ea ct w) = ea"
  "changeType (new_patch u ea ct w) = ct" "patchAmount (new_patch u ea ct w) = w"
  by (simp_all add: new_patch_def)

lemma deal_plan_Nil: "deal_plan R idx amt amt' [] []"
  by (simp add: deal_plan_def patches_sorted_def)

lemma deal_plan_set:
  "deal_plan R idx amt amt' U ps \<Longrightarrow> set ps = (\<Union>u \<in> set U. set (user_patches R idx amt amt' u))"
  by (auto simp: deal_plan_def dest!: mset_eq_setD)

lemma deal_plan_new:
  assumes "deal_plan R idx amt amt' U ps" and "p \<in> set ps" and "is_new p"
  shows "p = new_patch (userData p) (int (length R) - int (place amt R (amt' (userData p)))) NewPosition
      (amt' (userData p)) \<and> userData p \<in> set U"
  using assms(2,3) unfolding deal_plan_set [OF assms(1)]
  by (auto simp: user_patches_def split: if_splits)

lemma deal_plan_old:
  assumes "deal_plan R idx amt amt' U ps" and "p \<in> set ps" and "is_old p"
  shows "\<exists>u \<in> set U. u \<in> set R \<and> p = old_patch (int (length R) - int (idx u) - 1)"
  using assms(2,3) unfolding deal_plan_set [OF assms(1)]
  by (auto simp: user_patches_def split: if_splits)

text \<open>One more user: the freed position goes in first, then the new one.\<close>

lemma deal_plan_snoc:
  assumes plan: "deal_plan R idx amt amt' U ps"
  shows "deal_plan R idx amt amt' (U @ [u])
    (patch_emplace (new_patch u (int (length R) - int (place amt R (amt' u))) NewPosition (amt' u))
      (if u \<in> set R then patch_emplace (old_patch (int (length R) - int (idx u) - 1)) ps else ps))"
    (is "deal_plan _ _ _ _ _ (patch_emplace ?new ?ps)")
proof -
  have sorted: "patches_sorted ?ps"
    using plan by (simp add: deal_plan_def patches_sorted_emplace)
  have msetps: "mset ?ps = mset ps + (if u \<in> set R then {#old_patch (int (length R) - int (idx u) - 1)#} else {#})"
    by simp
  have "map userData (filter (\<lambda>p. is_new p \<and> patchAmount p = k) (patch_emplace ?new ?ps)) =
      filter (\<lambda>u. amt' u = k) (U @ [u])" for k
  proof -
    let ?P = "\<lambda>p. is_new p \<and> patchAmount p = k"
    have "\<not> patch_less ?new q" if q: "q \<in> set ?ps" "?P q" "?P ?new" for q
    proof -
      from q have "q \<in> set ps" by (auto split: if_splits)
      then have "q = new_patch (userData q) (int (length R) - int (place amt R (amt' (userData q)))) NewPosition
          (amt' (userData q))"
        using deal_plan_new [OF plan] q by blast
      then have "patch_key q = patch_key ?new"
        using q(2,3) by (metis new_patch_sel patch_key_def)
      then show ?thesis by (simp add: patch_less_key)
    qed
    then have "filter ?P (patch_emplace ?new ?ps) =
        (if ?P ?new then filter ?P ?ps @ [?new] else filter ?P ?ps)"
      by (intro filter_patch_emplace [OF sorted]) blast
    moreover have "filter ?P ?ps = filter ?P ps"
      using plan by (auto simp: deal_plan_def intro: filter_patch_emplace [THEN trans])
    moreover have "map userData (filter ?P ps) = filter (\<lambda>u. amt' u = k) U"
      using plan by (simp add: deal_plan_def)
    ultimately show ?thesis by simp
  qed
  moreover have "mset (patch_emplace ?new ?ps) = mset (concat (map (user_patches R idx amt amt') (U @ [u])))"
    using plan by (simp add: msetps deal_plan_def user_patches_def)
  ultimately show ?thesis
    using sorted by (simp add: deal_plan_def patches_sorted_emplace)
qed

section \<open>The patches make the loop run through\<close>

text \<open>The condition under which the patches of \<open>U\<close> are applied: amounts of rated users grow.\<close>

definition plan_ok ::
    "addr list \<Rightarrow> (addr \<Rightarrow> nat) \<Rightarrow> (addr \<Rightarrow> int) \<Rightarrow> (addr \<Rightarrow> int) \<Rightarrow> addr list \<Rightarrow> bool" where
  "plan_ok R idx amt amt' U \<longleftrightarrow>
    distinct R \<and> distinct U \<and> ranked amt R \<and>
    (\<forall>r \<in> set R. idx r < length R \<and> R ! idx r = r) \<and>
    (\<forall>u \<in> set U. u \<in> set R \<longrightarrow> amt u < amt' u) \<and>
    (\<forall>r \<in> set R. r \<notin> set U \<longrightarrow> amt' r = amt r)"

lemma plan_ok_idx_inj: "plan_ok R idx amt amt' U \<Longrightarrow> r \<in> set R \<Longrightarrow> s \<in> set R \<Longrightarrow> idx r = idx s \<Longrightarrow> r = s"
  by (metis plan_ok_def)

lemma positioned_sorted:
  assumes "patches_sorted ps" and "distinct (filter is_old ps)"
    and "\<And>p. p \<in> set ps \<Longrightarrow> 0 \<le> elementsAfter p \<and> nat (elementsAfter p) \<le> n \<and>
      n - nat (elementsAfter p) \<le> b \<and> (is_old p \<longrightarrow> nat (elementsAfter p) < n)"
    and "\<And>p q. p \<in> set ps \<Longrightarrow> q \<in> set ps \<Longrightarrow> is_old p \<Longrightarrow> is_old q \<Longrightarrow>
      elementsAfter p = elementsAfter q \<Longrightarrow> p = q"
  shows "positioned n b ps"
  using assms
proof (induction ps arbitrary: b)
  case (Cons p ps)
  have le: "elementsAfter p \<le> elementsAfter q \<and>
      (is_old p \<longrightarrow> elementsAfter p < elementsAfter q)" if q: "q \<in> set ps" for q
  proof -
    have key: "patch_key p \<le> patch_key q"
      using Cons.prems(1) q by (simp add: patches_sorted_def)
    then have "elementsAfter p \<le> elementsAfter q"
      by (auto simp: patch_key_def less_eq_prod_def)
    moreover have "elementsAfter p \<noteq> elementsAfter q" if "is_old p"
    proof
      assume eq: "elementsAfter p = elementsAfter q"
      with key that have "is_old q"
        by (auto simp: patch_key_def less_eq_prod_def less_eq_rating_change_type_def
            less_rating_change_type_def)
      then have "p = q" using Cons.prems(4) q that eq by simp
      then show False using Cons.prems(2) q that by auto
    qed
    ultimately show ?thesis by fastforce
  qed
  define m where "m = (if is_old p then n - nat (elementsAfter p) - 1 else n - nat (elementsAfter p))"
  have "n - nat (elementsAfter q) \<le> m" if q: "q \<in> set ps" for q
  proof -
    have "nat (elementsAfter p) \<le> nat (elementsAfter q)"
      using le [OF q] by (simp add: nat_mono)
    moreover have "is_old p \<Longrightarrow> nat (elementsAfter p) < nat (elementsAfter q)"
      using le [OF q] Cons.prems(3) [of p] by auto
    ultimately show ?thesis by (auto simp: m_def)
  qed
  then have "positioned n m ps"
    using Cons.prems by (intro Cons.IH) (auto simp: patches_sorted_def split: if_splits)
  then show ?case
    using Cons.prems(3) [of p] by (auto simp: m_def)
qed simp

lemma plan_old_count:
  "mset (filter is_old (concat (map (user_patches R idx amt amt') U))) =
    mset (map (\<lambda>u. old_patch (int (length R) - int (idx u) - 1)) (filter (\<lambda>u. u \<in> set R) U))"
  by (induction U) (simp_all add: user_patches_def)

lemma plan_new_count:
  "mset (map userData (filter is_new (concat (map (user_patches R idx amt amt') U)))) = mset U"
  by (induction U) (simp_all add: user_patches_def)

lemma old_patch_inj:
  assumes "plan_ok R idx amt amt' U"
  shows "inj_on (\<lambda>u. old_patch (int (length R) - int (idx u) - 1)) (set R)"
proof (rule inj_onI)
  fix u v assume uv: "u \<in> set R" "v \<in> set R"
    "old_patch (int (length R) - int (idx u) - 1) = old_patch (int (length R) - int (idx v) - 1)"
  from arg_cong [OF uv(3), of elementsAfter] have "idx u = idx v" by simp
  with plan_ok_idx_inj [OF assms uv(1,2)] show "u = v" by simp
qed

text \<open>For a user of the rating the new position comes after the freed one in the order.\<close>

lemma old_before_new:
  assumes "plan_ok R idx amt amt' U" and "u \<in> set U" and "u \<in> set R"
  shows "patch_key (old_patch (int (length R) - int (idx u) - 1)) <
    patch_key (new_patch u (int (length R) - int (place amt R (amt' u))) NewPosition (amt' u))"
proof -
  have idx: "idx u < length R" "R ! idx u = u" and lt: "amt u < amt' u"
    using assms by (auto simp: plan_ok_def)
  have "place amt R (amt' u) \<le> idx u"
    using is_place_place [of amt R "amt' u"] assms(1) idx lt
    by (auto simp: plan_ok_def is_place_def not_less [symmetric])
  then show ?thesis by (simp add: patch_key_def less_prod_def)
qed

lemma deal_plan_olds:
  assumes ok: "plan_ok R idx amt amt' U" and plan: "deal_plan R idx amt amt' U ps"
  shows "distinct (filter is_old ps)"
    and "length (filter is_old ps) = length (filter (\<lambda>u. u \<in> set R) U)"
    and "freed R ps = set R \<inter> set U"
proof -
  let ?old = "\<lambda>u. old_patch (int (length R) - int (idx u) - 1)"
  have eq: "mset (filter is_old ps) = mset (map ?old (filter (\<lambda>u. u \<in> set R) U))"
    using plan plan_old_count [of R idx amt amt' U] by (simp add: deal_plan_def)
  have "inj_on ?old (set (filter (\<lambda>u. u \<in> set R) U))"
    using old_patch_inj [OF ok] by (rule inj_on_subset) auto
  then have "distinct (map ?old (filter (\<lambda>u. u \<in> set R) U))"
    using ok by (simp add: distinct_map plan_ok_def)
  with eq show "distinct (filter is_old ps)" by (metis mset_eq_imp_distinct_iff)
  from eq show "length (filter is_old ps) = length (filter (\<lambda>u. u \<in> set R) U)"
    by (metis length_map size_mset)
  have place: "R ! (place_of R (?old u) - 1) = u" if "u \<in> set R" for u
  proof -
    have "idx u < length R" "R ! idx u = u" using ok that by (auto simp: plan_ok_def)
    then show ?thesis by (simp add: place_of_def nat_diff_distrib)
  qed
  have "{p \<in> set ps. is_old p} = set (filter is_old ps)" by auto
  also have "\<dots> = ?old ` (set R \<inter> set U)"
    using mset_eq_setD [OF eq] by auto
  finally show "freed R ps = set R \<inter> set U"
    using place by (auto simp: freed_def image_image)
qed

lemma deal_plan_news:
  assumes "deal_plan R idx amt amt' U ps"
  shows "mset (placed R ps) = mset U"
proof -
  have "mset (placed R ps) = image_mset userData (filter_mset is_new (mset ps))"
    by (simp add: placed_def)
  also have "mset ps = mset (concat (map (user_patches R idx amt amt') U))"
    using assms by (simp add: deal_plan_def)
  also have "image_mset userData (filter_mset is_new \<dots>) = mset U"
    using plan_new_count [of R idx amt amt' U] by simp
  finally show ?thesis .
qed

lemma deal_plan_gap:
  assumes "plan_ok R idx amt amt' U" and "deal_plan R idx amt amt' U ps"
  shows "gap ps = int (length (filter (\<lambda>u. u \<notin> set R) U))"
proof -
  have "length (filter is_new ps) = length U"
    using deal_plan_news [OF assms(2)] by (metis length_map placed_def size_mset)
  then show ?thesis
    using deal_plan_olds(2) [OF assms] sum_length_filter_compl [of "\<lambda>u. u \<in> set R" U]
    by (simp add: gap_def)
qed

lemma balancedI: "(\<And>xs ys. ps = xs @ ys \<Longrightarrow> 0 \<le> gap ys) \<Longrightarrow> balanced ps"
proof (induction ps)
  case (Cons p ps)
  have "0 \<le> gap (p # ps)" using Cons.prems [of "[]" "p # ps"] by (simp del: gap_simps)
  moreover have "balanced ps"
  proof (rule Cons.IH)
    fix xs ys assume "ps = xs @ ys"
    then show "0 \<le> gap ys" using Cons.prems [of "p # xs" ys] by simp
  qed
  ultimately show ?case by (simp del: gap_simps)
qed simp

text \<open>In every rest of the patches each freed position is followed by its user's new one.\<close>

lemma deal_plan_balanced:
  assumes ok: "plan_ok R idx amt amt' U" and plan: "deal_plan R idx amt amt' U ps"
  shows "balanced ps"
proof (rule balancedI)
  fix xs ys assume split: "ps = xs @ ys"
  let ?old = "\<lambda>u. old_patch (int (length R) - int (idx u) - 1)"
  let ?new = "\<lambda>u. new_patch u (int (length R) - int (place amt R (amt' u))) NewPosition (amt' u)"
  define V where "V = {u \<in> set U \<inter> set R. ?old u \<in> set ys}"
  have new_in: "?new u \<in> set (filter is_new ys)" if u: "u \<in> V" for u
  proof -
    have uU: "u \<in> set U" "u \<in> set R" "?old u \<in> set ys" using u by (auto simp: V_def)
    have "?new u \<in> set ps"
      unfolding deal_plan_set [OF plan] using uU by (auto simp: user_patches_def)
    moreover have "?new u \<notin> set xs"
    proof
      assume "?new u \<in> set xs"
      then have "patch_key (?new u) \<le> patch_key (?old u)"
        using plan uU(3) by (auto simp: deal_plan_def patches_sorted_def split sorted_append)
      then show False using old_before_new [OF ok uU(1,2)] by simp
    qed
    ultimately show ?thesis by (simp add: split)
  qed
  have "set (filter is_old ys) \<subseteq> ?old ` V"
  proof
    fix p assume p: "p \<in> set (filter is_old ys)"
    then have "p \<in> set ps" "is_old p" by (auto simp: split)
    then obtain u where "u \<in> set U" "u \<in> set R" "p = ?old u"
      using deal_plan_old [OF plan] by blast
    then show "p \<in> ?old ` V" using p by (auto simp: V_def)
  qed
  moreover have "finite V" by (simp add: V_def)
  ultimately have "card (set (filter is_old ys)) \<le> card V"
    by (meson card_image_le card_mono finite_imageI le_trans)
  also have "\<dots> = card (?new ` V)"
    by (intro card_image [symmetric] inj_onI) (metis new_patch_sel(1))
  also have "\<dots> \<le> card (set (filter is_new ys))"
    using new_in by (intro card_mono) auto
  also have "\<dots> \<le> length (filter is_new ys)" by (rule card_length)
  finally have "card (set (filter is_old ys)) \<le> length (filter is_new ys)" .
  moreover have "distinct (filter is_old ys)"
    using deal_plan_olds(1) [OF ok plan] by (simp add: split)
  ultimately show "0 \<le> gap ys" by (simp add: gap_def distinct_card del: set_filter)
qed

lemma deal_plan_positioned:
  assumes ok: "plan_ok R idx amt amt' U" and plan: "deal_plan R idx amt amt' U ps"
  shows "positioned (length R) (length R) ps"
proof (rule positioned_sorted)
  show "patches_sorted ps" using plan by (simp add: deal_plan_def)
  show "distinct (filter is_old ps)" by (rule deal_plan_olds [OF ok plan])
next
  fix p assume p: "p \<in> set ps"
  show "0 \<le> elementsAfter p \<and> nat (elementsAfter p) \<le> length R \<and>
      length R - nat (elementsAfter p) \<le> length R \<and> (is_old p \<longrightarrow> nat (elementsAfter p) < length R)"
  proof (cases "is_old p")
    case True
    then obtain u where "u \<in> set R" "p = old_patch (int (length R) - int (idx u) - 1)"
      using deal_plan_old [OF plan p] by blast
    moreover from this have "idx u < length R" using ok by (simp add: plan_ok_def)
    ultimately show ?thesis by auto
  next
    case False
    have "elementsAfter p = int (length R) - int (place amt R (amt' (userData p)))"
      using deal_plan_new [OF plan p False] by (metis new_patch_sel(2))
    moreover have "place amt R (amt' (userData p)) \<le> length R"
      by (simp add: place_def length_takeWhile_le)
    ultimately show ?thesis using False by auto
  qed
next
  fix p q assume pq: "p \<in> set ps" "q \<in> set ps" "is_old p" "is_old q" "elementsAfter p = elementsAfter q"
  obtain u v where "p = old_patch (int (length R) - int (idx u) - 1)"
    "q = old_patch (int (length R) - int (idx v) - 1)"
    using deal_plan_old [OF plan] pq(1-4) by metis
  then show "p = q" using pq(5) by simp
qed

lemma deal_plan_order:
  assumes ok: "plan_ok R idx amt amt' U" and plan: "deal_plan R idx amt amt' U ps"
  shows "placed R ps = sort_key amt' U"
proof (rule properties_for_sort_key [symmetric])
  have amount: "amt' (userData p) = patchAmount p" if "p \<in> set ps" "is_new p" for p
    using deal_plan_new [OF plan that] by (metis new_patch_sel(4))
  show "mset (placed R ps) = mset U" by (rule deal_plan_news [OF plan])
  show "filter (\<lambda>x. amt' k = amt' x) (placed R ps) = filter (\<lambda>x. amt' k = amt' x) U" for k
  proof -
    have "filter (\<lambda>x. amt' k = amt' x) (placed R ps) =
        map userData (filter (\<lambda>p. is_new p \<and> patchAmount p = amt' k) ps)"
      using amount by (auto simp: placed_def filter_map o_def
          intro!: arg_cong [of _ _ "map userData"] filter_cong)
    also have "\<dots> = filter (\<lambda>u. amt' u = amt' k) U"
      using plan by (simp add: deal_plan_def)
    finally show ?thesis by (simp add: eq_commute)
  qed
  have "sorted_wrt (\<lambda>p q. patch_key p \<le> patch_key q) (filter is_new ps)"
    using plan sorted_wrt_filter by (auto simp: deal_plan_def patches_sorted_def sorted_map)
  then have "sorted_wrt (\<lambda>p q. amt' (userData p) \<le> amt' (userData q)) (filter is_new ps)"
  proof (rule sorted_wrt_mono_rel [rotated])
    fix p q assume pq: "p \<in> set (filter is_new ps)" "q \<in> set (filter is_new ps)"
      "patch_key p \<le> patch_key q"
    let ?ea = "\<lambda>u. int (length R) - int (place amt R (amt' u))"
    have ea: "elementsAfter p = ?ea (userData p)" "elementsAfter q = ?ea (userData q)"
    proof -
      have mem: "p \<in> set ps" "is_new p" "q \<in> set ps" "is_new q" using pq(1,2) by auto
      show "elementsAfter p = ?ea (userData p)" "elementsAfter q = ?ea (userData q)"
        using deal_plan_new [OF plan mem(1,2)] deal_plan_new [OF plan mem(3,4)]
        by (metis new_patch_sel(2))+
    qed
    show "amt' (userData p) \<le> amt' (userData q)"
    proof (rule ccontr)
      assume lt: "\<not> amt' (userData p) \<le> amt' (userData q)"
      then have "place amt R (amt' (userData p)) \<le> place amt R (amt' (userData q))"
        by (intro place_antimono) simp
      then have "elementsAfter q \<le> elementsAfter p" using ea by simp
      then have "patchAmount p \<le> patchAmount q"
        using pq by (auto simp: patch_key_def less_eq_prod_def less_eq_rating_change_type_def
            less_rating_change_type_def)
      then show False using lt amount pq by auto
    qed
  qed
  then show "sorted (map amt' (placed R ps))"
    by (simp add: placed_def sorted_map sorted_wrt_map)
qed

section \<open>The rebuilding is correct\<close>

text \<open>What the amounts become, and the vector, in terms of the run of deals.\<close>

definition new_amounts :: "(addr \<Rightarrow> int) \<Rightarrow> addr list \<Rightarrow> user_store \<Rightarrow> user_store" where
  "new_amounts amt' U h =
    (\<lambda>a. if a \<in> set U then map_option (\<lambda>u. u\<lparr>amountWon := amt' a\<rparr>) (h a) else h a)"

definition new_rating :: "(addr \<Rightarrow> int) \<Rightarrow> addr list \<Rightarrow> addr list \<Rightarrow> addr list" where
  "new_rating amt' R U =
    merge_rating amt' (filter (\<lambda>r. r \<notin> set U) R) (rev (sort_key amt' U))"

lemma fold_write_amount:
  "(\<And>p. p \<in> set ps \<Longrightarrow> is_new p \<Longrightarrow> patchAmount p = amt' (userData p)) \<Longrightarrow>
    fold write_amount ps h = new_amounts amt' (placed R ps) h"
proof (induction ps arbitrary: h)
  case (Cons p ps)
  then have "fold write_amount (p # ps) h = new_amounts amt' (placed R ps) (write_amount p h)"
    by simp
  also have "\<dots> = new_amounts amt' (placed R (p # ps)) h"
  proof (cases "is_old p")
    case False
    have "option.map_option (\<lambda>u. u\<lparr>amountWon := k\<rparr>) (option.map_option (\<lambda>u. u\<lparr>amountWon := k\<rparr>) x) =
        option.map_option (\<lambda>u. u\<lparr>amountWon := k\<rparr>) x" for k :: int and x :: "full_user_data option"
      by (cases x) simp_all
    then show ?thesis
      using False Cons.prems [of p] by (auto simp: new_amounts_def placed_def write_amount_def fun_eq_iff)
  qed (simp add: new_amounts_def placed_def write_amount_def)
  finally show ?case .
qed (simp add: new_amounts_def placed_def)

lemma deal_plan_rebuild:
  assumes ok: "plan_ok R idx amt amt' U" and plan: "deal_plan R idx amt amt' U ps"
    and objs: "\<And>u. u \<in> set U \<Longrightarrow> u \<noteq> nullptr \<and> u \<in> dom h"
    and fresh: "freshRatings = length (filter (\<lambda>u. u \<notin> set R) U)"
    and bound: "int (length R + freshRatings) \<le> INT_MAX"
  shows "\<exists>s. rebuild_rating freshRatings ps h R = Inr s \<and>
    rb_vector s = new_rating amt' R U \<and> rb_objects s = new_amounts amt' U h"
proof -
  define s0 where "s0 = \<lparr> rb_offset = int freshRatings, rb_oldPositions = 0, rb_lengthDone = 0,
      rb_vector = R @ replicate freshRatings nullptr, rb_objects = h \<rparr>"
  have gap: "gap ps = int freshRatings"
    using deal_plan_gap [OF ok plan] fresh by simp
  have "loop_state R (length R) ps [] s0"
    using bound gap by (auto simp: loop_state_def s0_def)
  moreover have new: "userData p \<in> set U \<and> patchAmount p = amt' (userData p) \<and>
      elementsAfter p = int (length R) - int (place amt R (amt' (userData p)))"
    if "p \<in> set ps" "is_new p" for p
    using deal_plan_new [OF plan that] by (metis new_patch_sel(2,4))
  ultimately obtain s where s: "fold_outcome (apply_patch (int (length R))) ps s0 = Inr s"
    "rb_vector s = rebuild_spec R (length R) ps" "rb_objects s = fold write_amount ps h"
    using rebuild_loop [of R "length R" ps "[]" s0] deal_plan_positioned [OF ok plan]
      deal_plan_balanced [OF ok plan] gap objs by (auto simp: s0_def)
  have "rebuild_rating freshRatings ps h R = Inr s"
  proof -
    have "nat (int (length R) + int freshRatings) - length R = freshRatings" by simp
    then show ?thesis
      using s(1) bound by (simp add: rebuild_rating_def Let_def s0_def vector_resize_def)
  qed
  moreover have "rebuild_spec R (length R) ps = new_rating amt' R U"
  proof -
    have "is_place amt R (patchAmount p) (place_of R p) \<and> amt' (userData p) = patchAmount p"
      if p: "p \<in> set ps" "is_new p" for p
    proof -
      have "place amt R (amt' (userData p)) \<le> length R"
        by (simp add: place_def length_takeWhile_le)
      then have "place_of R p = place amt R (patchAmount p)"
        using new [OF p] by (simp add: place_of_def nat_diff_distrib)
      moreover have "ranked amt R" using ok by (simp add: plan_ok_def)
      ultimately show ?thesis
        using new [OF p] is_place_place [of amt R "patchAmount p"] by simp
    qed
    then have "rebuild_spec R (length R) ps =
        merge_rating amt' (filter (\<lambda>r. r \<notin> freed R ps) (take (length R) R)) (rev (placed R ps))"
      using ok deal_plan_positioned [OF ok plan] deal_plan_olds(3) [OF ok plan]
      by (intro rebuild_spec_merge [where amt = amt]) (auto simp: plan_ok_def)
    moreover have "filter (\<lambda>r. r \<notin> freed R ps) R = filter (\<lambda>r. r \<notin> set U) R"
      by (auto simp: deal_plan_olds(3) [OF ok plan] intro: filter_cong)
    ultimately show ?thesis
      by (simp add: new_rating_def deal_plan_order [OF ok plan])
  qed
  moreover have "fold write_amount ps h = new_amounts amt' U h"
    using fold_write_amount [of ps amt' h R] new mset_eq_setD [OF deal_plan_news [OF plan]]
    by (simp add: new_amounts_def)
  ultimately show ?thesis using s by auto
qed

text \<open>The new vector is in order and holds each user once.\<close>

lemma ranked_new_rating:
  assumes "plan_ok R idx amt amt' U"
  shows "ranked amt' (new_rating amt' R U)"
proof -
  have "ranked amt' (filter (\<lambda>r. r \<notin> set U) R)"
  proof -
    have "sorted_wrt (\<lambda>a b. amt a \<ge> amt b) (filter (\<lambda>r. r \<notin> set U) R)"
      using assms by (simp add: plan_ok_def ranked_def sorted_wrt_filter)
    then show ?thesis
      unfolding ranked_def
      by (rule sorted_wrt_mono_rel [rotated]) (use assms in \<open>auto simp: plan_ok_def\<close>)
  qed
  moreover have "ranked amt' (rev (sort_key amt' U))"
    using sorted_sort_key [of amt' U] by (simp add: ranked_def sorted_wrt_rev sorted_map)
  ultimately show ?thesis by (simp add: new_rating_def ranked_merge_rating)
qed

lemma set_new_rating: "set (new_rating amt' R U) = set R \<union> set U"
  by (auto simp: new_rating_def)

lemma distinct_new_rating: "plan_ok R idx amt amt' U \<Longrightarrow> distinct (new_rating amt' R U)"
  by (auto simp: new_rating_def plan_ok_def)

end
