(* ===== verification/MPSC_Queue.thy ===== *)
theory MPSC_Queue
  imports Core_Data
begin

text \<open>
  \<open>MPSCQueue\<close> of \<open>service/job_queue.cpp\<close>: a linked list of heap nodes with a head that always points
  to a spent node and a tail that producers exchange. \<open>push\<close> is modelled by its three actions (make
  the node, exchange the tail, link the predecessor), composed here for one thread at a
  time. Nodes live in an explicit store so that every
  dereference of a deleted node is a fault.

  The locale \<open>fifo_queue\<close> is what the job queue and the worker threads rely on; the node level
  queue is shown to provide it.
\<close>

section \<open>The interface\<close>

locale fifo_queue =
  fixes push :: "'a \<Rightarrow> 'q \<Rightarrow> 'q outcome"
    and pop :: "'q \<Rightarrow> ('a option \<times> 'q) outcome"
    and contents :: "'q \<Rightarrow> 'a list"
    and wf :: "'q \<Rightarrow> bool"
  assumes push_ok: "wf q \<Longrightarrow> \<exists>q'. push v q = Inr q' \<and> wf q' \<and> contents q' = contents q @ [v]"
    and pop_empty: "wf q \<Longrightarrow> contents q = [] \<Longrightarrow> pop q = Inr (None, q)"
    and pop_first: "wf q \<Longrightarrow> contents q = v # vs \<Longrightarrow>
      \<exists>q'. pop q = Inr (Some v, q') \<and> wf q' \<and> contents q' = vs"
begin

lemma push_all:
  "wf q \<Longrightarrow> \<exists>q'. fold_outcome push vs q = Inr q' \<and> wf q' \<and> contents q' = contents q @ vs"
proof (induction vs arbitrary: q)
  case (Cons v vs)
  obtain q1 where "push v q = Inr q1" "wf q1" "contents q1 = contents q @ [v]"
    using push_ok [OF Cons.prems] by blast
  then show ?case using Cons.IH [of q1] by auto
qed simp

lemma pop_result:
  "wf q \<Longrightarrow> \<exists>q'. pop q = Inr (case contents q of [] \<Rightarrow> None | v # _ \<Rightarrow> Some v, q') \<and> wf q' \<and>
    contents q' = tl (contents q)"
  by (cases "contents q") (auto simp: pop_empty dest: pop_first)

end

section \<open>Nodes\<close>

record 'a mpsc_node =
  node_next :: addr
  node_value :: 'a

record 'a mpsc_queue =
  nodes :: "addr \<rightharpoonup> 'a mpsc_node"
  next_node :: addr
  mpsc_head :: addr
  mpsc_tail :: addr

text \<open>The constructor; \<open>d\<close> is the value of the stub node, which is never read.\<close>

definition mpsc_new :: "'a \<Rightarrow> 'a mpsc_queue" where
  "mpsc_new d =
    \<lparr> nodes = [1 \<mapsto> \<lparr> node_next = nullptr, node_value = d \<rparr>], next_node = 2,
      mpsc_head = 1, mpsc_tail = 1 \<rparr>"

definition push_make :: "'a \<Rightarrow> 'a mpsc_queue \<Rightarrow> addr \<times> 'a mpsc_queue" where
  "push_make v q =
    (let newNode = next_node q in
     (newNode, q\<lparr>nodes := (nodes q)(newNode \<mapsto> \<lparr> node_next = nullptr, node_value = v \<rparr>),
                 next_node := newNode + 1\<rparr>))"

definition push_exchange :: "addr \<Rightarrow> 'a mpsc_queue \<Rightarrow> addr \<times> 'a mpsc_queue" where
  "push_exchange newNode q = (mpsc_tail q, q\<lparr>mpsc_tail := newNode\<rparr>)"

definition push_link :: "addr \<Rightarrow> addr \<Rightarrow> 'a mpsc_queue \<Rightarrow> 'a mpsc_queue outcome" where
  "push_link prev newNode q =
    bind_outcome (deref (nodes q) prev) (\<lambda>n.
      Inr (q\<lparr>nodes := (nodes q)(prev \<mapsto> n\<lparr>node_next := newNode\<rparr>)\<rparr>))"

definition mpsc_push :: "'a \<Rightarrow> 'a mpsc_queue \<Rightarrow> 'a mpsc_queue outcome" where
  "mpsc_push v q =
    (let (newNode, q1) = push_make v q;
         (prev, q2) = push_exchange newNode q1
     in push_link prev newNode q2)"

definition tryPop :: "'a mpsc_queue \<Rightarrow> ('a option \<times> 'a mpsc_queue) outcome" where
  "tryPop q =
    (let head_copy = mpsc_head q in
     bind_outcome (deref (nodes q) head_copy) (\<lambda>h.
       let nxt = node_next h in
       if nxt \<noteq> nullptr then
         bind_outcome (deref (nodes q) nxt) (\<lambda>n.
           Inr (Some (node_value n), q\<lparr>mpsc_head := nxt, nodes := (nodes q)(head_copy := None)\<rparr>))
       else Inr (None, q)))"

text \<open>The destructor pops until nothing is left; the fuel is the number of nodes ever made.\<close>

fun mpsc_drain :: "nat \<Rightarrow> 'a mpsc_queue \<Rightarrow> 'a mpsc_queue option outcome" where
  "mpsc_drain 0 q = Inr None"
| "mpsc_drain (Suc fuel) q =
    bind_outcome (tryPop q) (\<lambda>(r, q1).
      case r of None \<Rightarrow> Inr (Some q1) | Some _ \<Rightarrow> mpsc_drain fuel q1)"

section \<open>The chain of nodes\<close>

text \<open>\<open>chain h a bs\<close>: from node \<open>a\<close> the \<open>next\<close> pointers lead through \<open>bs\<close> and end there.\<close>

fun chain :: "(addr \<rightharpoonup> 'a mpsc_node) \<Rightarrow> addr \<Rightarrow> addr list \<Rightarrow> bool" where
  "chain h a [] = (\<exists>v. h a = Some \<lparr> node_next = nullptr, node_value = v \<rparr>)"
| "chain h a (b # bs) =
    (b \<noteq> nullptr \<and> (\<exists>v. h a = Some \<lparr> node_next = b, node_value = v \<rparr>) \<and> chain h b bs)"

fun walk :: "(addr \<rightharpoonup> 'a mpsc_node) \<Rightarrow> nat \<Rightarrow> addr \<Rightarrow> addr list" where
  "walk h 0 a = []"
| "walk h (Suc n) a =
    (case h a of None \<Rightarrow> []
     | Some nd \<Rightarrow> if node_next nd = nullptr then [] else node_next nd # walk h n (node_next nd))"

definition mpsc_cells :: "'a mpsc_queue \<Rightarrow> addr list" where
  "mpsc_cells q = walk (nodes q) (next_node q) (mpsc_head q)"

definition mpsc_contents :: "'a mpsc_queue \<Rightarrow> 'a list" where
  "mpsc_contents q = map (\<lambda>a. case nodes q a of Some nd \<Rightarrow> node_value nd) (mpsc_cells q)"

definition mpsc_wf :: "'a mpsc_queue \<Rightarrow> bool" where
  "mpsc_wf q \<longleftrightarrow>
    (\<exists>bs. chain (nodes q) (mpsc_head q) bs \<and> distinct (mpsc_head q # bs) \<and>
      last (mpsc_head q # bs) = mpsc_tail q \<and> mpsc_head q \<noteq> nullptr \<and>
      dom (nodes q) = set (mpsc_head q # bs) \<and> (\<forall>a \<in> set (mpsc_head q # bs). a < next_node q))"

lemma chain_walk: "chain h a bs \<Longrightarrow> length bs \<le> n \<Longrightarrow> walk h n a = bs"
proof (induction h a bs arbitrary: n rule: chain.induct)
  case (1 h a)
  then show ?case by (cases n) auto
next
  case (2 h a b bs)
  then show ?case by (cases n) auto
qed

lemma chain_upd_other: "c \<notin> set (a # bs) \<Longrightarrow> chain (h(c := x)) a bs = chain h a bs"
  by (induction h a bs rule: chain.induct) auto

lemma chain_snoc:
  assumes "chain h a bs" and "distinct (a # bs)" and "c \<notin> set (a # bs)" and "c \<noteq> nullptr"
    and "h (last (a # bs)) = Some nd"
  shows "chain (h(c \<mapsto> \<lparr> node_next = nullptr, node_value = v \<rparr>,
    last (a # bs) \<mapsto> nd\<lparr>node_next := c\<rparr>)) a (bs @ [c])"
  using assms
proof (induction h a bs rule: chain.induct)
  case (1 h a)
  then show ?case by (cases nd) auto
next
  case (2 h a b bs)
  define h' where
    "h' = h(c \<mapsto> \<lparr> node_next = nullptr, node_value = v \<rparr>, last (b # bs) \<mapsto> nd\<lparr>node_next := c\<rparr>)"
  have last: "last (a # b # bs) = last (b # bs)" by simp
  have "chain h' b (bs @ [c])"
    unfolding h'_def by (rule 2(1)) (use 2(2-) in \<open>simp_all only: last\<close>, simp_all)
  moreover have "a \<noteq> last (b # bs)" using 2(3) by (metis distinct.simps(2) last_in_set list.distinct(1))
  then have "h' a = h a" using 2(4) by (simp add: h'_def)
  ultimately have "chain h' a ((b # bs) @ [c])" using 2(2) by simp
  then show ?case unfolding last h'_def .
qed

lemma mpsc_wfE:
  assumes "mpsc_wf q"
  obtains "chain (nodes q) (mpsc_head q) (mpsc_cells q)" "distinct (mpsc_head q # mpsc_cells q)"
    "last (mpsc_head q # mpsc_cells q) = mpsc_tail q" "mpsc_head q \<noteq> nullptr"
    "dom (nodes q) = set (mpsc_head q # mpsc_cells q)"
    "\<forall>a \<in> set (mpsc_head q # mpsc_cells q). a < next_node q"
proof -
  obtain bs where bs: "chain (nodes q) (mpsc_head q) bs" "distinct (mpsc_head q # bs)"
      "last (mpsc_head q # bs) = mpsc_tail q" "mpsc_head q \<noteq> nullptr"
      "dom (nodes q) = set (mpsc_head q # bs)" "\<forall>a \<in> set (mpsc_head q # bs). a < next_node q"
    using assms unfolding mpsc_wf_def by blast
  have "length (mpsc_head q # bs) \<le> card {..<next_node q}"
    using bs(2,6) by (metis card_mono distinct_card finite_lessThan lessThan_iff subsetI)
  then have "length bs \<le> next_node q" by simp
  then have "mpsc_cells q = bs"
    by (simp add: mpsc_cells_def chain_walk [OF bs(1)])
  then show thesis using bs that by blast
qed

lemma mpsc_wfI:
  assumes "chain (nodes q) (mpsc_head q) bs" and "distinct (mpsc_head q # bs)"
    and "last (mpsc_head q # bs) = mpsc_tail q" and "mpsc_head q \<noteq> nullptr"
    and "dom (nodes q) = set (mpsc_head q # bs)" and "\<forall>a \<in> set (mpsc_head q # bs). a < next_node q"
  shows "mpsc_wf q" and "mpsc_cells q = bs"
proof -
  show wf: "mpsc_wf q" using assms unfolding mpsc_wf_def by blast
  have "length (mpsc_head q # bs) \<le> card {..<next_node q}"
    using assms(2,6) by (metis card_mono distinct_card finite_lessThan lessThan_iff subsetI)
  then show "mpsc_cells q = bs"
    by (simp add: mpsc_cells_def chain_walk [OF assms(1)])
qed

lemma mpsc_new_wf [simp]: "mpsc_wf (mpsc_new d)"
  and mpsc_new_contents [simp]: "mpsc_contents (mpsc_new d) = []"
proof -
  show "mpsc_wf (mpsc_new d)"
    unfolding mpsc_wf_def by (intro exI [of _ "[]"]) (simp add: mpsc_new_def nullptr_def)
  have "mpsc_cells (mpsc_new d) = []"
    by (intro mpsc_wfI(2)) (simp_all add: mpsc_new_def nullptr_def)
  then show "mpsc_contents (mpsc_new d) = []" by (simp add: mpsc_contents_def)
qed

lemma mpsc_push_ok:
  assumes "mpsc_wf q"
  shows "\<exists>q'. mpsc_push v q = Inr q' \<and> mpsc_wf q' \<and> mpsc_contents q' = mpsc_contents q @ [v]"
  using assms
proof (rule mpsc_wfE)
  let ?bs = "mpsc_cells q" and ?c = "next_node q"
  assume q: "chain (nodes q) (mpsc_head q) ?bs" "distinct (mpsc_head q # ?bs)"
    "last (mpsc_head q # ?bs) = mpsc_tail q" "mpsc_head q \<noteq> nullptr"
    "dom (nodes q) = set (mpsc_head q # ?bs)" "\<forall>a \<in> set (mpsc_head q # ?bs). a < ?c"
  have tail: "mpsc_tail q \<in> set (mpsc_head q # ?bs)" using q(3) last_in_set by (metis list.distinct(1))
  then obtain nd where nd: "nodes q (mpsc_tail q) = Some nd" using q(5) by blast
  have c: "?c \<notin> set (mpsc_head q # ?bs)" "?c \<noteq> nullptr" "?c \<noteq> mpsc_tail q"
    using q(6) tail by (auto simp: nullptr_def)
  have tail0: "mpsc_tail q \<noteq> nullptr"
  proof (cases ?bs)
    case (Cons b bs)
    have "\<And>h a. chain h a cs \<Longrightarrow> cs \<noteq> [] \<Longrightarrow> last cs \<noteq> nullptr" for cs :: "addr list"
      by (induction cs) (auto split: if_splits)
    then show ?thesis using q(1,3) Cons by (metis last_ConsR list.distinct(1))
  qed (use q in simp)
  let ?q = "q\<lparr>nodes := (nodes q)(?c \<mapsto> \<lparr> node_next = nullptr, node_value = v \<rparr>,
      mpsc_tail q \<mapsto> nd\<lparr>node_next := ?c\<rparr>), next_node := ?c + 1, mpsc_tail := ?c\<rparr>"
  have push: "mpsc_push v q = Inr ?q"
    using nd c tail0
    by (simp add: mpsc_push_def push_make_def push_exchange_def push_link_def Let_def)
  have wf: "mpsc_wf ?q" and cells: "mpsc_cells ?q = ?bs @ [?c]"
  proof -
    have "chain (nodes ?q) (mpsc_head ?q) (?bs @ [?c])"
      using chain_snoc [OF q(1,2) c(1,2), of nd v] nd q(3) by simp
    moreover have "dom (nodes ?q) = set (mpsc_head ?q # ?bs @ [?c])"
      using q(5) tail by auto
    moreover have "distinct (mpsc_head ?q # ?bs @ [?c])"
      and "last (mpsc_head ?q # ?bs @ [?c]) = mpsc_tail ?q" and "mpsc_head ?q \<noteq> nullptr"
      and "\<forall>a \<in> set (mpsc_head ?q # ?bs @ [?c]). a < next_node ?q"
      using q(2,4,6) c by auto
    ultimately show "mpsc_wf ?q" "mpsc_cells ?q = ?bs @ [?c]"
      by (blast intro: mpsc_wfI)+
  qed
  moreover have "node_value (the (nodes ?q a)) = node_value (the (nodes q a)) \<and> nodes q a \<noteq> None"
    if "a \<in> set ?bs" for a
    using that c nd q(5) by auto
  then have "mpsc_contents ?q = mpsc_contents q @ [v]"
    using c nd q(5) unfolding mpsc_contents_def cells
    by (auto split: option.splits)
  ultimately show ?thesis using push by blast
qed

lemma tryPop_cases:
  assumes "mpsc_wf q"
  shows "mpsc_contents q = [] \<and> tryPop q = Inr (None, q) \<or>
    (\<exists>v vs q'. mpsc_contents q = v # vs \<and> tryPop q = Inr (Some v, q') \<and> mpsc_wf q' \<and>
      mpsc_contents q' = vs \<and> card (dom (nodes q')) < card (dom (nodes q)))"
  using assms
proof (rule mpsc_wfE)
  let ?bs = "mpsc_cells q"
  assume q: "chain (nodes q) (mpsc_head q) ?bs" "distinct (mpsc_head q # ?bs)"
    "last (mpsc_head q # ?bs) = mpsc_tail q" "mpsc_head q \<noteq> nullptr"
    "dom (nodes q) = set (mpsc_head q # ?bs)" "\<forall>a \<in> set (mpsc_head q # ?bs). a < next_node q"
  show ?thesis
  proof (cases ?bs)
    case Nil
    then show ?thesis using q(1,4) by (auto simp: tryPop_def mpsc_contents_def Let_def)
  next
    case (Cons b bs)
    obtain v where h: "nodes q (mpsc_head q) = Some \<lparr> node_next = b, node_value = v \<rparr>"
      using q(1) Cons by auto
    obtain nd where nd: "nodes q b = Some nd" using q(5) Cons by auto
    let ?q = "q\<lparr>mpsc_head := b, nodes := (nodes q)(mpsc_head q := None)\<rparr>"
    have pop: "tryPop q = Inr (Some (node_value nd), ?q)"
      using q(1,4) Cons h nd by (simp add: tryPop_def Let_def)
    have wf: "mpsc_wf ?q" and cells: "mpsc_cells ?q = bs"
    proof -
      have "chain (nodes ?q) (mpsc_head ?q) bs"
        using q(1,2) Cons by (simp add: chain_upd_other)
      moreover have "dom (nodes ?q) = set (mpsc_head ?q # bs)"
        using q(2,5) Cons by simp
      moreover have "distinct (mpsc_head ?q # bs)"
        and "last (mpsc_head ?q # bs) = mpsc_tail ?q" and "mpsc_head ?q \<noteq> nullptr"
        and "\<forall>a \<in> set (mpsc_head ?q # bs). a < next_node ?q"
        using q(1,2,3,6) Cons by auto
      ultimately show "mpsc_wf ?q" "mpsc_cells ?q = bs"
        by (blast intro: mpsc_wfI)+
    qed
    have "mpsc_contents q = node_value nd # mpsc_contents ?q"
      using q(2) nd unfolding mpsc_contents_def cells Cons by auto
    moreover have "card (dom (nodes ?q)) < card (dom (nodes q))"
      using q(5) h by (intro psubset_card_mono) auto
    ultimately show ?thesis using pop wf by blast
  qed
qed

interpretation mpsc: fifo_queue mpsc_push tryPop mpsc_contents mpsc_wf
proof unfold_locales
  fix q :: "'a mpsc_queue" and v vs
  assume wf: "mpsc_wf q"
  show "\<exists>q'. mpsc_push v q = Inr q' \<and> mpsc_wf q' \<and> mpsc_contents q' = mpsc_contents q @ [v]"
    by (rule mpsc_push_ok [OF wf])
  show "mpsc_contents q = [] \<Longrightarrow> tryPop q = Inr (None, q)"
    using tryPop_cases [OF wf] by auto
  show "mpsc_contents q = v # vs \<Longrightarrow>
      \<exists>q'. tryPop q = Inr (Some v, q') \<and> mpsc_wf q' \<and> mpsc_contents q' = vs"
    using tryPop_cases [OF wf] by auto
qed

text \<open>
  The destructor stops after as many rounds as there are nodes, and the node the head is left on
  stays allocated: \<open>tryPop\<close> deletes a node only when it moves the head away from it.
\<close>

lemma mpsc_drain_stops:
  "mpsc_wf q \<Longrightarrow> card (dom (nodes q)) \<le> fuel \<Longrightarrow>
    \<exists>q'. mpsc_drain fuel q = Inr (Some q') \<and> mpsc_wf q' \<and> mpsc_contents q' = [] \<and>
      dom (nodes q') = {mpsc_head q'}"
proof (induction fuel arbitrary: q)
  case 0
  have dom: "dom (nodes q) = set (mpsc_head q # mpsc_cells q)"
    using 0(1) by (rule mpsc_wfE)
  have "mpsc_head q \<in> dom (nodes q)" "finite (dom (nodes q))"
    unfolding dom by simp_all
  then show ?case using 0(2) by (auto simp: card_eq_0_iff)
next
  case (Suc fuel)
  consider "mpsc_contents q = []" "tryPop q = Inr (None, q)"
    | v q' where "tryPop q = Inr (Some v, q')" "mpsc_wf q'" "card (dom (nodes q')) < card (dom (nodes q))"
    using tryPop_cases [OF Suc.prems(1)] by blast
  then show ?case
  proof cases
    case 1
    have "mpsc_cells q = []" using 1(1) by (simp add: mpsc_contents_def)
    have "dom (nodes q) = set (mpsc_head q # mpsc_cells q)" using Suc.prems(1) by (rule mpsc_wfE)
    then have "dom (nodes q) = {mpsc_head q}" using \<open>mpsc_cells q = []\<close> by simp
    then show ?thesis using 1 Suc.prems(1) by simp
  next
    case 2
    then show ?thesis using Suc.IH [of q'] Suc.prems(2) by simp
  qed
qed

end
