(* ===== verification/Job_Queue.thy ===== *)
theory Job_Queue
  imports MPSC_Queue "HOL-Library.Multiset"
begin

text \<open>
  \<open>JobQueue\<close> of \<open>service/job_queue.cpp\<close>: one \<open>QueuePack\<close> per worker thread, each with a queue of
  errors, a queue of user id promises and a queue of user data pointers. The three \<open>enqueue\<close>
  operations deal jobs to the packs in turn; each keeps its turn in a \<open>static thread_local\<close> variable,
  modelled as a cursor per thread. A consumer is the index of its pack.

  The locale \<open>job_lane\<close> is the contract the three operations share: from it follows what each worker
  finds in its queue after a series of jobs, and that no job is lost or doubled.
\<close>

section \<open>The queue packs\<close>

datatype thread_id = Listener | Announcer | Worker nat

type_synonym error_ptr = "protocol_error option"
type_synonym user_id_promise = "int \<times> bool"

record queue_pack =
  errorQueue :: "error_ptr mpsc_queue"
  userIdPromiseQueue :: "user_id_promise mpsc_queue"
  userDataQueue :: "addr mpsc_queue"

record job_queue =
  concurrencyFactor :: int
  packs :: "queue_pack list"
  error_cursor :: "thread_id \<Rightarrow> int"
  promise_cursor :: "thread_id \<Rightarrow> int"
  user_data_cursor :: "thread_id \<Rightarrow> int"

definition queue_pack_new :: queue_pack where
  "queue_pack_new =
    \<lparr> errorQueue = mpsc_new None, userIdPromiseQueue = mpsc_new (0, False),
      userDataQueue = mpsc_new nullptr \<rparr>"

definition job_queue_new :: "int \<Rightarrow> job_queue" where
  "job_queue_new n =
    \<lparr> concurrencyFactor = n, packs = replicate (nat n) queue_pack_new,
      error_cursor = (\<lambda>_. 0), promise_cursor = (\<lambda>_. 0), user_data_cursor = (\<lambda>_. 0) \<rparr>"

section \<open>Producers\<close>

text \<open>\<open>m_queues[i]\<close> and the wrap of the cursor after its post-increment.\<close>

definition pack_update ::
  "int \<Rightarrow> (queue_pack \<Rightarrow> queue_pack outcome) \<Rightarrow> queue_pack list \<Rightarrow> queue_pack list outcome" where
  "pack_update i f ps =
    (if 0 \<le> i \<and> nat i < length ps then bind_outcome (f (ps ! nat i)) (\<lambda>p. Inr (ps[nat i := p]))
     else Inl (Fault Index_Out_Of_Range))"

definition next_cursor :: "int \<Rightarrow> nat \<Rightarrow> int" where
  "next_cursor i n = (let i1 = i + 1 in if size_t_of i1 = int n then 0 else i1)"

definition enqueueErrorJob :: "thread_id \<Rightarrow> error_ptr \<Rightarrow> job_queue \<Rightarrow> job_queue outcome" where
  "enqueueErrorJob t e q =
    bind_outcome
      (pack_update (error_cursor q t)
        (\<lambda>p. bind_outcome (mpsc_push e (errorQueue p)) (\<lambda>m. Inr (p\<lparr>errorQueue := m\<rparr>))) (packs q))
      (\<lambda>ps. Inr (q\<lparr>packs := ps,
        error_cursor := (error_cursor q)(t := next_cursor (error_cursor q t) (length ps))\<rparr>))"

definition enqueueUserIdPromise ::
  "thread_id \<Rightarrow> user_id_promise \<Rightarrow> job_queue \<Rightarrow> job_queue outcome" where
  "enqueueUserIdPromise t u q =
    bind_outcome
      (pack_update (promise_cursor q t)
        (\<lambda>p. bind_outcome (mpsc_push u (userIdPromiseQueue p))
          (\<lambda>m. Inr (p\<lparr>userIdPromiseQueue := m\<rparr>))) (packs q))
      (\<lambda>ps. Inr (q\<lparr>packs := ps,
        promise_cursor := (promise_cursor q)(t := next_cursor (promise_cursor q t) (length ps))\<rparr>))"

definition enqueueUserData :: "thread_id \<Rightarrow> addr \<Rightarrow> job_queue \<Rightarrow> job_queue outcome" where
  "enqueueUserData t u q =
    bind_outcome
      (pack_update (user_data_cursor q t)
        (\<lambda>p. bind_outcome (mpsc_push u (userDataQueue p)) (\<lambda>m. Inr (p\<lparr>userDataQueue := m\<rparr>))) (packs q))
      (\<lambda>ps. Inr (q\<lparr>packs := ps,
        user_data_cursor :=
          (user_data_cursor q)(t := next_cursor (user_data_cursor q t) (length ps))\<rparr>))"

section \<open>Consumers\<close>

definition getQueuePack :: "job_queue \<Rightarrow> int \<Rightarrow> nat outcome" where
  "getQueuePack q packIndex =
    bind_outcome
      (guard (0 \<le> packIndex \<and> size_t_of packIndex < int (length (packs q))) (Fault Assertion_Failed))
      (\<lambda>_. Inr (nat packIndex))"

definition getConsumer :: "job_queue \<Rightarrow> int \<Rightarrow> nat outcome" where
  "getConsumer q concurrencyIndex =
    bind_outcome
      (guard (0 \<le> concurrencyIndex \<and> concurrencyIndex < concurrencyFactor q) (Fault Assertion_Failed))
      (\<lambda>_. getQueuePack q concurrencyIndex)"

definition dequeueError :: "nat \<Rightarrow> job_queue \<Rightarrow> (error_ptr \<times> job_queue) outcome" where
  "dequeueError c q =
    (let errorJob = None in
     bind_outcome (tryPop (errorQueue (packs q ! c))) (\<lambda>(r, m).
       Inr (case r of None \<Rightarrow> errorJob | Some v \<Rightarrow> v,
            q\<lparr>packs := (packs q)[c := (packs q ! c)\<lparr>errorQueue := m\<rparr>]\<rparr>)))"

definition dequeueUserIdPromise :: "nat \<Rightarrow> job_queue \<Rightarrow> (user_id_promise \<times> job_queue) outcome" where
  "dequeueUserIdPromise c q =
    (let userId = (invalidRating, False) in
     bind_outcome (tryPop (userIdPromiseQueue (packs q ! c))) (\<lambda>(r, m).
       Inr (case r of None \<Rightarrow> userId | Some v \<Rightarrow> v,
            q\<lparr>packs := (packs q)[c := (packs q ! c)\<lparr>userIdPromiseQueue := m\<rparr>]\<rparr>)))"

definition dequeueUserData :: "nat \<Rightarrow> job_queue \<Rightarrow> (addr \<times> job_queue) outcome" where
  "dequeueUserData c q =
    (let userData = nullptr in
     bind_outcome (tryPop (userDataQueue (packs q ! c))) (\<lambda>(r, m).
       Inr (case r of None \<Rightarrow> userData | Some v \<Rightarrow> v,
            q\<lparr>packs := (packs q)[c := (packs q ! c)\<lparr>userDataQueue := m\<rparr>]\<rparr>)))"

section \<open>What the queues hold\<close>

definition pack_wf :: "queue_pack \<Rightarrow> bool" where
  "pack_wf p \<longleftrightarrow>
    mpsc_wf (errorQueue p) \<and> mpsc_wf (userIdPromiseQueue p) \<and> mpsc_wf (userDataQueue p)"

definition cursors_wf :: "nat \<Rightarrow> (thread_id \<Rightarrow> int) \<Rightarrow> bool" where
  "cursors_wf n c \<longleftrightarrow> (\<forall>t. 0 \<le> c t \<and> c t < int n)"

definition job_queue_wf :: "job_queue \<Rightarrow> bool" where
  "job_queue_wf q \<longleftrightarrow>
    packs q \<noteq> [] \<and> concurrencyFactor q = int (length (packs q)) \<and> int (length (packs q)) \<le> INT_MAX \<and>
    (\<forall>p \<in> set (packs q). pack_wf p) \<and>
    cursors_wf (length (packs q)) (error_cursor q) \<and>
    cursors_wf (length (packs q)) (promise_cursor q) \<and>
    cursors_wf (length (packs q)) (user_data_cursor q)"

definition error_lanes :: "job_queue \<Rightarrow> error_ptr list list" where
  "error_lanes q = map (\<lambda>p. mpsc_contents (errorQueue p)) (packs q)"

definition promise_lanes :: "job_queue \<Rightarrow> user_id_promise list list" where
  "promise_lanes q = map (\<lambda>p. mpsc_contents (userIdPromiseQueue p)) (packs q)"

definition user_data_lanes :: "job_queue \<Rightarrow> addr list list" where
  "user_data_lanes q = map (\<lambda>p. mpsc_contents (userDataQueue p)) (packs q)"

lemmas lanes_defs = error_lanes_def promise_lanes_def user_data_lanes_def

lemma lanes_length [simp]:
  "length (error_lanes q) = length (packs q)" "length (promise_lanes q) = length (packs q)"
  "length (user_data_lanes q) = length (packs q)"
  by (simp_all add: lanes_defs)

lemma pack_wf_new [simp]: "pack_wf queue_pack_new"
  by (simp add: pack_wf_def queue_pack_new_def)

lemma job_queue_new_wf: "0 < n \<Longrightarrow> n \<le> INT_MAX \<Longrightarrow> job_queue_wf (job_queue_new n)"
  by (simp add: job_queue_wf_def job_queue_new_def cursors_wf_def)

lemma lanes_new [simp]:
  "error_lanes (job_queue_new n) = replicate (nat n) []"
  "promise_lanes (job_queue_new n) = replicate (nat n) []"
  "user_data_lanes (job_queue_new n) = replicate (nat n) []"
  by (simp_all add: lanes_defs job_queue_new_def queue_pack_new_def)

lemma next_cursor_mod:
  assumes "0 \<le> i" and "i < int n" and "int n \<le> INT_MAX"
  shows "next_cursor i n = int (Suc (nat i) mod n)" and "0 \<le> next_cursor i n"
    and "next_cursor i n < int n"
proof -
  have "size_t_of (i + 1) = i + 1"
    using assms by (simp add: size_t_of_def INT_MAX_def)
  then show "next_cursor i n = int (Suc (nat i) mod n)"
  proof (cases "i + 1 = int n")
    case True
    then have "Suc (nat i) = n" using assms(1) by linarith
    then show ?thesis using True \<open>size_t_of (i + 1) = i + 1\<close> by (simp add: next_cursor_def)
  next
    case False
    then have "Suc (nat i) < n" using assms(1,2) by linarith
    then show ?thesis
      using False assms(1) \<open>size_t_of (i + 1) = i + 1\<close> by (simp add: next_cursor_def Let_def)
  qed
  then show "0 \<le> next_cursor i n" "next_cursor i n < int n"
    using assms by simp_all
qed

lemma cursors_wf_next:
  "cursors_wf n c \<Longrightarrow> int n \<le> INT_MAX \<Longrightarrow> cursors_wf n (c(t := next_cursor (c t) n))"
  by (simp add: cursors_wf_def next_cursor_mod(2,3))

section \<open>Dealing jobs in turn\<close>

text \<open>Values dealt to lanes in turn, from a cursor on; what lane \<open>i\<close> gets, and that nothing is lost.\<close>

fun deal :: "'j list list \<Rightarrow> nat \<Rightarrow> 'j list \<Rightarrow> 'j list list" where
  "deal ls c [] = ls"
| "deal ls c (v # vs) = deal (ls[c := ls ! c @ [v]]) (Suc c mod length ls) vs"

definition dealt :: "'j list list \<Rightarrow> nat \<Rightarrow> 'j list \<Rightarrow> 'j list list \<Rightarrow> bool" where
  "dealt ls c vs ls' \<longleftrightarrow> length ls' = length ls \<and>
    (\<forall>i < length ls. ls' ! i =
      ls ! i @ map (nth vs) (filter (\<lambda>j. (c + j) mod length ls = i) [0..<length vs])) \<and>
    mset (concat ls') = mset (concat ls) + mset vs"

lemma deal_ok: "c < length ls \<Longrightarrow> dealt ls c vs (deal ls c vs)"
proof (induction ls c vs rule: deal.induct)
  case (2 ls c v vs)
  let ?n = "length ls" and ?ls = "ls[c := ls ! c @ [v]]"
  have "Suc c mod ?n < ?n" by (rule mod_less_divisor) (use "2.prems" in linarith)
  then have IH: "dealt ?ls (Suc c mod ?n) vs (deal ls c (v # vs))" using "2.IH" by simp
  have shift: "map (nth vs) (filter (\<lambda>j. (Suc c mod ?n + j) mod ?n = i) [0..<length vs]) =
      map (nth (v # vs)) (filter (\<lambda>j. (c + j) mod ?n = i) [1..<Suc (length vs)])" for i
  proof -
    have "[1..<Suc (length vs)] = map Suc [0..<length vs]" by (simp add: map_Suc_upt)
    moreover have "(Suc c mod ?n + j) mod ?n = (c + Suc j) mod ?n" for j
      by (simp add: mod_add_left_eq)
    ultimately show ?thesis by (simp add: filter_map o_def del: upt_Suc)
  qed
  have "[0..<length (v # vs)] = 0 # [1..<Suc (length vs)]" by (simp add: upt_rec del: upt_Suc)
  moreover have "mset (concat ?ls) = mset (concat ls) + {#v#}"
    using "2.prems" by (subst (3) id_take_nth_drop [of c ls]) (auto simp: upd_conv_take_nth_drop)
  ultimately show ?case
    using IH "2.prems" unfolding dealt_def length_list_update shift
    by (auto simp: nth_list_update simp del: upt_Suc deal.simps)
qed (simp add: dealt_def)

locale job_lane =
  fixes enq :: "'j \<Rightarrow> job_queue \<Rightarrow> job_queue outcome"
    and lanes :: "job_queue \<Rightarrow> 'j list list"
    and cursor :: "job_queue \<Rightarrow> nat"
  assumes enq_ok: "job_queue_wf q \<Longrightarrow>
      \<exists>q'. enq v q = Inr q' \<and> job_queue_wf q' \<and>
        lanes q' = (lanes q)[cursor q := lanes q ! cursor q @ [v]] \<and>
        cursor q' = Suc (cursor q) mod length (lanes q)"
    and cursor_bound: "job_queue_wf q \<Longrightarrow> cursor q < length (lanes q)"
begin

lemma enq_one:
  assumes "job_queue_wf q" and "enq v q = Inr q'"
  shows "job_queue_wf q'" and "deal (lanes q') (cursor q') vs = deal (lanes q) (cursor q) (v # vs)"
  using enq_ok [OF assms(1), of v] assms(2) by auto

lemma enq_all: "job_queue_wf q \<Longrightarrow> \<exists>q'. fold_outcome enq vs q = Inr q' \<and> job_queue_wf q' \<and>
    lanes q' = deal (lanes q) (cursor q) vs"
proof (induction vs arbitrary: q)
  case (Cons v vs)
  obtain q1 where q1: "enq v q = Inr q1" using enq_ok [OF Cons.prems] by blast
  note one = enq_one [OF Cons.prems q1]
  from Cons.IH [OF one(1)] one(2) [of vs] q1 show ?case by auto
qed simp

lemma deal_dealt: "job_queue_wf q \<Longrightarrow> dealt (lanes q) (cursor q) vs (deal (lanes q) (cursor q) vs)"
  by (rule deal_ok [OF cursor_bound])

lemma nothing_lost:
  "job_queue_wf q \<Longrightarrow> fold_outcome enq vs q = Inr q' \<Longrightarrow>
    mset (concat (lanes q')) = mset (concat (lanes q)) + mset vs"
  using enq_all [of q vs] deal_dealt [of q vs] by (auto simp: dealt_def)

end

lemma pack_update_ok:
  assumes "0 \<le> i" and "i < int (length ps)" and "f (ps ! nat i) = Inr p"
  shows "pack_update i f ps = Inr (ps[nat i := p])"
  using assms by (simp add: pack_update_def nat_less_iff)

lemma map_update_same: "i < length xs \<Longrightarrow> f x = f (xs ! i) \<Longrightarrow> map f (xs[i := x]) = map f xs"
  by (metis list_update_id map_update)

lemma wf_update:
  assumes "job_queue_wf q" and "pack_wf p"
  shows "job_queue_wf (q\<lparr>packs := (packs q)[c := p]\<rparr>)"
  using assms by (auto simp: job_queue_wf_def dest: set_update_subset_insert [THEN subsetD])

lemma wf_cursors:
  "job_queue_wf q \<Longrightarrow> job_queue_wf
    (q\<lparr>error_cursor := (error_cursor q)(t := next_cursor (error_cursor q t) (length (packs q)))\<rparr>)"
  "job_queue_wf q \<Longrightarrow> job_queue_wf
    (q\<lparr>promise_cursor := (promise_cursor q)(t := next_cursor (promise_cursor q t) (length (packs q)))\<rparr>)"
  "job_queue_wf q \<Longrightarrow> job_queue_wf
    (q\<lparr>user_data_cursor := (user_data_cursor q)(t := next_cursor (user_data_cursor q t) (length (packs q)))\<rparr>)"
  by (auto simp: job_queue_wf_def cursors_wf_next simp del: fun_upd_apply)

lemma wf_pack: "job_queue_wf q \<Longrightarrow> c < length (packs q) \<Longrightarrow> pack_wf (packs q ! c)"
  by (simp add: job_queue_wf_def)

lemma wf_cursor_bounds:
  assumes "job_queue_wf q" and "c \<in> {error_cursor q t, promise_cursor q t, user_data_cursor q t}"
  shows "0 \<le> c" and "c < int (length (packs q))" and "nat c < length (packs q)"
    and "int (length (packs q)) \<le> INT_MAX"
  using assms by (auto simp: job_queue_wf_def cursors_wf_def nat_less_iff)

lemma enqueueErrorJob_ok:
  assumes wf: "job_queue_wf q"
  shows "\<exists>q'. enqueueErrorJob t e q = Inr q' \<and> job_queue_wf q' \<and>
    error_lanes q' = (error_lanes q)[nat (error_cursor q t) := error_lanes q ! nat (error_cursor q t) @ [e]] \<and>
    nat (error_cursor q' t) = Suc (nat (error_cursor q t)) mod length (error_lanes q) \<and>
    promise_lanes q' = promise_lanes q \<and> user_data_lanes q' = user_data_lanes q"
proof -
  define c where "c = error_cursor q t"
  have "c \<in> {error_cursor q t, promise_cursor q t, user_data_cursor q t}" by (simp add: c_def)
  note c = wf_cursor_bounds [OF wf this]
  define p where "p = packs q ! nat c"
  have p: "pack_wf p" using wf_pack [OF wf c(3)] by (simp add: p_def)
  then have "mpsc_wf (errorQueue p)" by (simp add: pack_wf_def)
  from mpsc.push_ok [OF this, of e] obtain m where m: "mpsc_push e (errorQueue p) = Inr m" "mpsc_wf m"
      "mpsc_contents m = mpsc_contents (errorQueue p) @ [e]"
    by blast
  let ?p = "p\<lparr>errorQueue := m\<rparr>"
  let ?q = "q\<lparr>packs := (packs q)[nat c := ?p],
    error_cursor := (error_cursor q)(t := next_cursor c (length (packs q)))\<rparr>"
  have "enqueueErrorJob t e q = Inr ?q"
    using m(1) c(1,2) by (simp add: enqueueErrorJob_def pack_update_ok flip: c_def p_def)
  moreover have "job_queue_wf ?q"
    using wf_cursors(1) [OF wf_update [OF wf, of ?p "nat c"], of t] p m(2)
    by (simp add: pack_wf_def c_def)
  moreover have "error_lanes ?q = (error_lanes q)[nat c := error_lanes q ! nat c @ [e]]"
    using c(3) m(3) by (simp add: lanes_defs map_update p_def)
  moreover have "promise_lanes ?q = promise_lanes q" "user_data_lanes ?q = user_data_lanes q"
    using c(3) by (simp_all add: lanes_defs map_update_same p_def)
  moreover have "nat (error_cursor ?q t) = Suc (nat c) mod length (error_lanes q)"
    using c by (simp add: next_cursor_mod)
  ultimately show ?thesis unfolding c_def [symmetric] by (intro exI [of _ ?q] conjI)
qed

lemma enqueueUserIdPromise_ok:
  assumes wf: "job_queue_wf q"
  shows "\<exists>q'. enqueueUserIdPromise t e q = Inr q' \<and> job_queue_wf q' \<and>
    promise_lanes q' =
      (promise_lanes q)[nat (promise_cursor q t) := promise_lanes q ! nat (promise_cursor q t) @ [e]] \<and>
    nat (promise_cursor q' t) = Suc (nat (promise_cursor q t)) mod length (promise_lanes q) \<and>
    error_lanes q' = error_lanes q \<and> user_data_lanes q' = user_data_lanes q"
proof -
  define c where "c = promise_cursor q t"
  have "c \<in> {error_cursor q t, promise_cursor q t, user_data_cursor q t}" by (simp add: c_def)
  note c = wf_cursor_bounds [OF wf this]
  define p where "p = packs q ! nat c"
  have p: "pack_wf p" using wf_pack [OF wf c(3)] by (simp add: p_def)
  then have "mpsc_wf (userIdPromiseQueue p)" by (simp add: pack_wf_def)
  from mpsc.push_ok [OF this, of e] obtain m where m: "mpsc_push e (userIdPromiseQueue p) = Inr m" "mpsc_wf m"
      "mpsc_contents m = mpsc_contents (userIdPromiseQueue p) @ [e]"
    by blast
  let ?p = "p\<lparr>userIdPromiseQueue := m\<rparr>"
  let ?q = "q\<lparr>packs := (packs q)[nat c := ?p],
    promise_cursor := (promise_cursor q)(t := next_cursor c (length (packs q)))\<rparr>"
  have "enqueueUserIdPromise t e q = Inr ?q"
    using m(1) c(1,2) by (simp add: enqueueUserIdPromise_def pack_update_ok flip: c_def p_def)
  moreover have "job_queue_wf ?q"
    using wf_cursors(2) [OF wf_update [OF wf, of ?p "nat c"], of t] p m(2)
    by (simp add: pack_wf_def c_def)
  moreover have "promise_lanes ?q = (promise_lanes q)[nat c := promise_lanes q ! nat c @ [e]]"
    using c(3) m(3) by (simp add: lanes_defs map_update p_def)
  moreover have "error_lanes ?q = error_lanes q" "user_data_lanes ?q = user_data_lanes q"
    using c(3) by (simp_all add: lanes_defs map_update_same p_def)
  moreover have "nat (promise_cursor ?q t) = Suc (nat c) mod length (promise_lanes q)"
    using c by (simp add: next_cursor_mod)
  ultimately show ?thesis unfolding c_def [symmetric] by (intro exI [of _ ?q] conjI)
qed

lemma enqueueUserData_ok:
  assumes wf: "job_queue_wf q"
  shows "\<exists>q'. enqueueUserData t e q = Inr q' \<and> job_queue_wf q' \<and>
    user_data_lanes q' =
      (user_data_lanes q)[nat (user_data_cursor q t) := user_data_lanes q ! nat (user_data_cursor q t) @ [e]] \<and>
    nat (user_data_cursor q' t) = Suc (nat (user_data_cursor q t)) mod length (user_data_lanes q) \<and>
    error_lanes q' = error_lanes q \<and> promise_lanes q' = promise_lanes q"
proof -
  define c where "c = user_data_cursor q t"
  have "c \<in> {error_cursor q t, promise_cursor q t, user_data_cursor q t}" by (simp add: c_def)
  note c = wf_cursor_bounds [OF wf this]
  define p where "p = packs q ! nat c"
  have p: "pack_wf p" using wf_pack [OF wf c(3)] by (simp add: p_def)
  then have "mpsc_wf (userDataQueue p)" by (simp add: pack_wf_def)
  from mpsc.push_ok [OF this, of e] obtain m where m: "mpsc_push e (userDataQueue p) = Inr m" "mpsc_wf m"
      "mpsc_contents m = mpsc_contents (userDataQueue p) @ [e]"
    by blast
  let ?p = "p\<lparr>userDataQueue := m\<rparr>"
  let ?q = "q\<lparr>packs := (packs q)[nat c := ?p],
    user_data_cursor := (user_data_cursor q)(t := next_cursor c (length (packs q)))\<rparr>"
  have "enqueueUserData t e q = Inr ?q"
    using m(1) c(1,2) by (simp add: enqueueUserData_def pack_update_ok flip: c_def p_def)
  moreover have "job_queue_wf ?q"
    using wf_cursors(3) [OF wf_update [OF wf, of ?p "nat c"], of t] p m(2)
    by (simp add: pack_wf_def c_def)
  moreover have "user_data_lanes ?q = (user_data_lanes q)[nat c := user_data_lanes q ! nat c @ [e]]"
    using c(3) m(3) by (simp add: lanes_defs map_update p_def)
  moreover have "error_lanes ?q = error_lanes q" "promise_lanes ?q = promise_lanes q"
    using c(3) by (simp_all add: lanes_defs map_update_same p_def)
  moreover have "nat (user_data_cursor ?q t) = Suc (nat c) mod length (user_data_lanes q)"
    using c by (simp add: next_cursor_mod)
  ultimately show ?thesis unfolding c_def [symmetric] by (intro exI [of _ ?q] conjI)
qed

interpretation errors_lane: job_lane "enqueueErrorJob t" error_lanes "\<lambda>q. nat (error_cursor q t)"
  for t
  using enqueueErrorJob_ok wf_cursor_bounds(3) by unfold_locales (blast, fastforce)

interpretation promises_lane:
  job_lane "enqueueUserIdPromise t" promise_lanes "\<lambda>q. nat (promise_cursor q t)"
  for t
  using enqueueUserIdPromise_ok wf_cursor_bounds(3) by unfold_locales (blast, fastforce)

interpretation user_data_lane:
  job_lane "enqueueUserData t" user_data_lanes "\<lambda>q. nat (user_data_cursor q t)"
  for t
  using enqueueUserData_ok wf_cursor_bounds(3) by unfold_locales (blast, fastforce)

section \<open>Jobs of all kinds\<close>

datatype job = Error_Job error_ptr | Promise_Job user_id_promise | User_Data_Job addr

fun enqueue_job :: "thread_id \<Rightarrow> job \<Rightarrow> job_queue \<Rightarrow> job_queue outcome" where
  "enqueue_job t (Error_Job e) q = enqueueErrorJob t e q"
| "enqueue_job t (Promise_Job p) q = enqueueUserIdPromise t p q"
| "enqueue_job t (User_Data_Job u) q = enqueueUserData t u q"

fun errors_in :: "job list \<Rightarrow> error_ptr list" where
  "errors_in [] = []"
| "errors_in (Error_Job e # js) = e # errors_in js"
| "errors_in (_ # js) = errors_in js"

fun promises_in :: "job list \<Rightarrow> user_id_promise list" where
  "promises_in [] = []"
| "promises_in (Promise_Job p # js) = p # promises_in js"
| "promises_in (_ # js) = promises_in js"

fun user_data_in :: "job list \<Rightarrow> addr list" where
  "user_data_in [] = []"
| "user_data_in (User_Data_Job u # js) = u # user_data_in js"
| "user_data_in (_ # js) = user_data_in js"

text \<open>Each operation leaves the cursors of the other two alone.\<close>

lemma enqueue_cursors:
  "enqueueErrorJob t e q = Inr q' \<Longrightarrow> promise_cursor q' = promise_cursor q \<and> user_data_cursor q' = user_data_cursor q"
  "enqueueUserIdPromise t p q = Inr q' \<Longrightarrow> error_cursor q' = error_cursor q \<and> user_data_cursor q' = user_data_cursor q"
  "enqueueUserData t u q = Inr q' \<Longrightarrow> error_cursor q' = error_cursor q \<and> promise_cursor q' = promise_cursor q"
  by (auto simp: enqueueErrorJob_def enqueueUserIdPromise_def enqueueUserData_def bind_outcome_Inr_iff)

lemma enqueue_jobs:
  "job_queue_wf q \<Longrightarrow> \<exists>q'. fold_outcome (enqueue_job t) js q = Inr q' \<and> job_queue_wf q' \<and>
    error_lanes q' = deal (error_lanes q) (nat (error_cursor q t)) (errors_in js) \<and>
    promise_lanes q' = deal (promise_lanes q) (nat (promise_cursor q t)) (promises_in js) \<and>
    user_data_lanes q' = deal (user_data_lanes q) (nat (user_data_cursor q t)) (user_data_in js)"
proof (induction js arbitrary: q)
  case (Cons j js)
  show ?case
  proof (cases j)
    case (Error_Job e)
    from enqueueErrorJob_ok [OF Cons.prems, of t e] obtain q1 where
      q1: "enqueueErrorJob t e q = Inr q1" "promise_lanes q1 = promise_lanes q" "user_data_lanes q1 = user_data_lanes q"
      by blast
    note one = errors_lane.enq_one [OF Cons.prems q1(1)] and cur = enqueue_cursors(1) [OF q1(1)]
    from Cons.IH [OF one(1)] one(2) [of "errors_in js"] q1 cur show ?thesis
      by (simp add: Error_Job del: deal.simps)
  next
    case (Promise_Job p)
    from enqueueUserIdPromise_ok [OF Cons.prems, of t p] obtain q1 where
      q1: "enqueueUserIdPromise t p q = Inr q1" "error_lanes q1 = error_lanes q" "user_data_lanes q1 = user_data_lanes q"
      by blast
    note one = promises_lane.enq_one [OF Cons.prems q1(1)] and cur = enqueue_cursors(2) [OF q1(1)]
    from Cons.IH [OF one(1)] one(2) [of "promises_in js"] q1 cur show ?thesis
      by (simp add: Promise_Job del: deal.simps)
  next
    case (User_Data_Job u)
    from enqueueUserData_ok [OF Cons.prems, of t u] obtain q1 where
      q1: "enqueueUserData t u q = Inr q1" "error_lanes q1 = error_lanes q" "promise_lanes q1 = promise_lanes q"
      by blast
    note one = user_data_lane.enq_one [OF Cons.prems q1(1)] and cur = enqueue_cursors(3) [OF q1(1)]
    from Cons.IH [OF one(1)] one(2) [of "user_data_in js"] q1 cur show ?thesis
      by (simp add: User_Data_Job del: deal.simps)
  qed
qed simp

lemma enqueue_jobs_dealt:
  assumes "job_queue_wf q"
  shows "\<exists>q'. fold_outcome (enqueue_job t) js q = Inr q' \<and> job_queue_wf q' \<and>
    dealt (error_lanes q) (nat (error_cursor q t)) (errors_in js) (error_lanes q') \<and>
    dealt (promise_lanes q) (nat (promise_cursor q t)) (promises_in js) (promise_lanes q') \<and>
    dealt (user_data_lanes q) (nat (user_data_cursor q t)) (user_data_in js) (user_data_lanes q')"
proof -
  obtain q' where "fold_outcome (enqueue_job t) js q = Inr q'" "job_queue_wf q'"
      "error_lanes q' = deal (error_lanes q) (nat (error_cursor q t)) (errors_in js)"
      "promise_lanes q' = deal (promise_lanes q) (nat (promise_cursor q t)) (promises_in js)"
      "user_data_lanes q' = deal (user_data_lanes q) (nat (user_data_cursor q t)) (user_data_in js)"
    using enqueue_jobs [OF assms, of t js] by blast
  then show ?thesis
    using errors_lane.deal_dealt [OF assms, of t "errors_in js"] promises_lane.deal_dealt [OF assms, of t "promises_in js"]
      user_data_lane.deal_dealt [OF assms, of t "user_data_in js"] by auto
qed

section \<open>Taking jobs\<close>

text \<open>
  The contract of the three \<open>dequeue\<close> operations: the head of the consumer's own lane, or the
  operation's sentinel when the lane is empty.
\<close>

locale job_source =
  fixes deq :: "nat \<Rightarrow> job_queue \<Rightarrow> ('j \<times> job_queue) outcome"
    and lanes :: "job_queue \<Rightarrow> 'j list list"
    and sentinel :: 'j
  assumes deq_ok: "job_queue_wf q \<Longrightarrow> c < length (packs q) \<Longrightarrow>
      \<exists>q'. deq c q = Inr (case lanes q ! c of [] \<Rightarrow> sentinel | v # _ \<Rightarrow> v, q') \<and> job_queue_wf q' \<and>
        lanes q' = (lanes q)[c := tl (lanes q ! c)]"
    and lanes_packs: "length (lanes q) = length (packs q)"
begin

lemma deq_other: "job_queue_wf q \<Longrightarrow> c < length (packs q) \<Longrightarrow> deq c q = Inr (v, q') \<Longrightarrow> i \<noteq> c \<Longrightarrow>
    lanes q' ! i = lanes q ! i \<and> length (packs q') = length (packs q)"
  using deq_ok [of q c] by (metis Inr_inject Pair_inject lanes_packs length_list_update nth_list_update_neq)

end

lemma dequeueError_ok:
  assumes wf: "job_queue_wf q" and c: "c < length (packs q)"
  shows "\<exists>q'. dequeueError c q = Inr (case error_lanes q ! c of [] \<Rightarrow> None | v # _ \<Rightarrow> v, q') \<and>
    job_queue_wf q' \<and> error_lanes q' = (error_lanes q)[c := tl (error_lanes q ! c)] \<and>
    promise_lanes q' = promise_lanes q \<and> user_data_lanes q' = user_data_lanes q"
proof -
  define p where "p = packs q ! c"
  have p: "pack_wf p" using wf_pack [OF wf c] by (simp add: p_def)
  then have "mpsc_wf (errorQueue p)" by (simp add: pack_wf_def)
  from mpsc.pop_result [OF this] obtain m where
    m: "tryPop (errorQueue p) = Inr (case mpsc_contents (errorQueue p) of [] \<Rightarrow> None | v # _ \<Rightarrow> Some v, m)"
      "mpsc_wf m" "mpsc_contents m = tl (mpsc_contents (errorQueue p))"
    by blast
  let ?p = "p\<lparr>errorQueue := m\<rparr>"
  let ?q = "q\<lparr>packs := (packs q)[c := ?p]\<rparr>"
  have lane: "error_lanes q ! c = mpsc_contents (errorQueue p)" using c by (simp add: lanes_defs p_def)
  have "dequeueError c q = Inr (case error_lanes q ! c of [] \<Rightarrow> None | v # _ \<Rightarrow> v, ?q)"
    using m(1) unfolding lane by (auto simp: dequeueError_def Let_def simp flip: p_def split: list.splits)
  moreover have "job_queue_wf ?q"
    by (rule wf_update [OF wf]) (use p m(2) in \<open>simp add: pack_wf_def\<close>)
  moreover have "error_lanes ?q = (error_lanes q)[c := tl (error_lanes q ! c)]"
    using m(3) unfolding lane by (simp add: lanes_defs map_update)
  moreover have "promise_lanes ?q = promise_lanes q" "user_data_lanes ?q = user_data_lanes q"
    using c by (simp_all add: lanes_defs map_update_same p_def)
  ultimately show ?thesis by (intro exI [of _ ?q] conjI)
qed

lemma dequeueUserIdPromise_ok:
  assumes wf: "job_queue_wf q" and c: "c < length (packs q)"
  shows "\<exists>q'. dequeueUserIdPromise c q = Inr (case promise_lanes q ! c of [] \<Rightarrow> (invalidRating, False) | v # _ \<Rightarrow> v, q') \<and>
    job_queue_wf q' \<and> promise_lanes q' = (promise_lanes q)[c := tl (promise_lanes q ! c)] \<and>
    error_lanes q' = error_lanes q \<and> user_data_lanes q' = user_data_lanes q"
proof -
  define p where "p = packs q ! c"
  have p: "pack_wf p" using wf_pack [OF wf c] by (simp add: p_def)
  then have "mpsc_wf (userIdPromiseQueue p)" by (simp add: pack_wf_def)
  from mpsc.pop_result [OF this] obtain m where
    m: "tryPop (userIdPromiseQueue p) = Inr (case mpsc_contents (userIdPromiseQueue p) of [] \<Rightarrow> None | v # _ \<Rightarrow> Some v, m)"
      "mpsc_wf m" "mpsc_contents m = tl (mpsc_contents (userIdPromiseQueue p))"
    by blast
  let ?p = "p\<lparr>userIdPromiseQueue := m\<rparr>"
  let ?q = "q\<lparr>packs := (packs q)[c := ?p]\<rparr>"
  have lane: "promise_lanes q ! c = mpsc_contents (userIdPromiseQueue p)" using c by (simp add: lanes_defs p_def)
  have "dequeueUserIdPromise c q = Inr (case promise_lanes q ! c of [] \<Rightarrow> (invalidRating, False) | v # _ \<Rightarrow> v, ?q)"
    using m(1) unfolding lane by (auto simp: dequeueUserIdPromise_def Let_def simp flip: p_def split: list.splits)
  moreover have "job_queue_wf ?q"
    by (rule wf_update [OF wf]) (use p m(2) in \<open>simp add: pack_wf_def\<close>)
  moreover have "promise_lanes ?q = (promise_lanes q)[c := tl (promise_lanes q ! c)]"
    using m(3) unfolding lane by (simp add: lanes_defs map_update)
  moreover have "error_lanes ?q = error_lanes q" "user_data_lanes ?q = user_data_lanes q"
    using c by (simp_all add: lanes_defs map_update_same p_def)
  ultimately show ?thesis by (intro exI [of _ ?q] conjI)
qed

lemma dequeueUserData_ok:
  assumes wf: "job_queue_wf q" and c: "c < length (packs q)"
  shows "\<exists>q'. dequeueUserData c q = Inr (case user_data_lanes q ! c of [] \<Rightarrow> nullptr | v # _ \<Rightarrow> v, q') \<and>
    job_queue_wf q' \<and> user_data_lanes q' = (user_data_lanes q)[c := tl (user_data_lanes q ! c)] \<and>
    error_lanes q' = error_lanes q \<and> promise_lanes q' = promise_lanes q"
proof -
  define p where "p = packs q ! c"
  have p: "pack_wf p" using wf_pack [OF wf c] by (simp add: p_def)
  then have "mpsc_wf (userDataQueue p)" by (simp add: pack_wf_def)
  from mpsc.pop_result [OF this] obtain m where
    m: "tryPop (userDataQueue p) = Inr (case mpsc_contents (userDataQueue p) of [] \<Rightarrow> None | v # _ \<Rightarrow> Some v, m)"
      "mpsc_wf m" "mpsc_contents m = tl (mpsc_contents (userDataQueue p))"
    by blast
  let ?p = "p\<lparr>userDataQueue := m\<rparr>"
  let ?q = "q\<lparr>packs := (packs q)[c := ?p]\<rparr>"
  have lane: "user_data_lanes q ! c = mpsc_contents (userDataQueue p)" using c by (simp add: lanes_defs p_def)
  have "dequeueUserData c q = Inr (case user_data_lanes q ! c of [] \<Rightarrow> nullptr | v # _ \<Rightarrow> v, ?q)"
    using m(1) unfolding lane by (auto simp: dequeueUserData_def Let_def simp flip: p_def split: list.splits)
  moreover have "job_queue_wf ?q"
    by (rule wf_update [OF wf]) (use p m(2) in \<open>simp add: pack_wf_def\<close>)
  moreover have "user_data_lanes ?q = (user_data_lanes q)[c := tl (user_data_lanes q ! c)]"
    using m(3) unfolding lane by (simp add: lanes_defs map_update)
  moreover have "error_lanes ?q = error_lanes q" "promise_lanes ?q = promise_lanes q"
    using c by (simp_all add: lanes_defs map_update_same p_def)
  ultimately show ?thesis by (intro exI [of _ ?q] conjI)
qed

interpretation errors_source: job_source dequeueError error_lanes None
  using dequeueError_ok by unfold_locales (blast, simp)

interpretation promises_source: job_source dequeueUserIdPromise promise_lanes "(invalidRating, False)"
  using dequeueUserIdPromise_ok by unfold_locales (blast, simp)

interpretation user_data_source: job_source dequeueUserData user_data_lanes nullptr
  using dequeueUserData_ok by unfold_locales (blast, simp)

lemma getConsumer_ok:
  "job_queue_wf q \<Longrightarrow> 0 \<le> i \<Longrightarrow> i < concurrencyFactor q \<Longrightarrow> getConsumer q i = Inr (nat i)"
  by (auto simp: getConsumer_def getQueuePack_def job_queue_wf_def size_t_of_small)

end
