(* ===== verification/Rating_Calculator.thy ===== *)
theory Rating_Calculator
  imports Rating_Plan Job_Queue
begin

text \<open>
  \<open>RatingCalculatorImpl\<close> of \<open>service/rating_calculator.cpp\<close>: the five phases of a recalculation over
  the buffer of the minute that ended. The class holds references to the core data, the sets of
  users on line, the buffer and the job queue, and two members of its own; they are the fields of
  \<open>calc_state\<close>. The fresh ratings are counted by a natural number: each takes an entry of a map in
  memory, so the \<open>int\<close> of the code does not run over.

  The theory holds the operations, the invariant of the data and the abstract view of a user; the
  theories \<open>Calculator_Events\<close> and \<open>Calculator_Deals\<close> prove the phases.
\<close>

section \<open>The state\<close>

record calc_state =
  cs_core :: core_rating_data
  cs_online :: iteration_data
  cs_incoming :: incoming_data_buffer
  cs_jobs :: job_queue
  ratingPatches :: "rating_patch_entry list"
  freshRatings :: nat

definition calc_start ::
    "core_rating_data \<Rightarrow> iteration_data \<Rightarrow> incoming_data_buffer \<Rightarrow> job_queue \<Rightarrow> calc_state" where
  "calc_start ud it ib jq =
    \<lparr> cs_core = ud, cs_online = it, cs_incoming = ib, cs_jobs = jq, ratingPatches = [],
      freshRatings = 0 \<rparr>"

section \<open>Helpers\<close>

definition userExists :: "core_rating_data \<Rightarrow> int \<Rightarrow> bool" where
  "userExists c userId \<longleftrightarrow>
    hmap_find userId (silentUsers c) \<noteq> None \<or> hmap_find userId (activeUsers c) \<noteq> None"

text \<open>The creation of an error object and its hand-over to the job queue, by the announcer thread.\<close>

definition report :: "protocol_error \<Rightarrow> calc_state \<Rightarrow> calc_state outcome" where
  "report err s =
    bind_outcome (enqueueErrorJob Announcer (Some err) (cs_jobs s)) (\<lambda>q. Inr (s\<lparr>cs_jobs := q\<rparr>))"

text \<open>\<open>usersOnline[i]\<close>, an array of 60 sets.\<close>

definition online_update :: "nat \<Rightarrow> (addr hash_set \<Rightarrow> addr hash_set) \<Rightarrow> calc_state \<Rightarrow> calc_state outcome" where
  "online_update i f s =
    (if i < length (cs_online s) then Inr (s\<lparr>cs_online := (cs_online s)[i := f (cs_online s ! i)]\<rparr>)
     else Inl (Fault Index_Out_Of_Range))"

definition set_object :: "addr \<Rightarrow> full_user_data \<Rightarrow> calc_state \<Rightarrow> calc_state" where
  "set_object a u s = s\<lparr>cs_core := (cs_core s)\<lparr>objects := (objects (cs_core s))(a \<mapsto> u)\<rparr>\<rparr>"

section \<open>Dropping the rating\<close>

definition drop_step :: "int \<times> addr \<Rightarrow> core_rating_data \<Rightarrow> core_rating_data outcome" where
  "drop_step activeUser c =
    bind_outcome (deref (objects c) (snd activeUser)) (\<lambda>u.
      Inr (c\<lparr>silentUsers := hmap_emplace (fst activeUser) (basic_part u) (silentUsers c)\<rparr>))"

text \<open>Clearing the map of unique pointers deletes the objects they own.\<close>

definition dropRating :: "calc_state \<Rightarrow> calc_state outcome" where
  "dropRating s =
    bind_outcome (fold_outcome drop_step (activeUsers (cs_core s)) (cs_core s)) (\<lambda>c.
      Inr (s\<lparr>cs_core := c\<lparr>objects := (objects c) |` (- snd ` set (activeUsers c)),
                         activeUsers := [], rating_vector := []\<rparr>,
             cs_online := map (\<lambda>_. []) (cs_online s)\<rparr>))"

section \<open>The events of the minute\<close>

definition registration_step :: "int \<times> buffer_t \<Rightarrow> calc_state \<Rightarrow> calc_state outcome" where
  "registration_step newReg s =
    (let userId = fst newReg in
     if userExists (cs_core s) userId then report (MultipleRegistrationError userId) s
     else
       let newSilentUser = basic_user_default\<lparr>user_name := snd newReg\<rparr> in
       Inr (s\<lparr>cs_core := (cs_core s)\<lparr>silentUsers :=
         hmap_emplace userId newSilentUser (silentUsers (cs_core s))\<rparr>\<rparr>))"

definition processRegistrations :: "calc_state \<Rightarrow> calc_state outcome" where
  "processRegistrations s =
    bind_outcome (fold_outcome registration_step (usersRegistered (cs_incoming s)) s) (\<lambda>s.
      Inr (s\<lparr>cs_incoming := (cs_incoming s)\<lparr>usersRegistered := []\<rparr>\<rparr>))"

definition rename_step :: "int \<times> buffer_t \<Rightarrow> calc_state \<Rightarrow> calc_state outcome" where
  "rename_step newName s =
    (case hmap_find (fst newName) (activeUsers (cs_core s)) of
       Some activeUser \<Rightarrow>
         bind_outcome (deref (objects (cs_core s)) activeUser) (\<lambda>u.
           Inr (set_object activeUser (u\<lparr>user_name := snd newName\<rparr>) s))
     | None \<Rightarrow>
         (case hmap_find (fst newName) (silentUsers (cs_core s)) of
            Some silentUser \<Rightarrow>
              Inr (s\<lparr>cs_core := (cs_core s)\<lparr>silentUsers :=
                hmap_assign (fst newName) (silentUser\<lparr>user_name := snd newName\<rparr>) (silentUsers (cs_core s))\<rparr>\<rparr>)
          | None \<Rightarrow> report (UserUnrecognizedError (fst newName)) s))"

definition processRenames :: "calc_state \<Rightarrow> calc_state outcome" where
  "processRenames s =
    bind_outcome (fold_outcome rename_step (usersRenamed (cs_incoming s)) s) (\<lambda>s.
      Inr (s\<lparr>cs_incoming := (cs_incoming s)\<lparr>usersRenamed := []\<rparr>\<rparr>))"

definition connection_step :: "int \<times> connect_time_t \<Rightarrow> calc_state \<Rightarrow> calc_state outcome" where
  "connection_step connChange s =
    bind_outcome
      (guard (snd connChange < 60 \<or> snd connChange = invalidSecond) (Fault Assertion_Failed)) (\<lambda>_.
    case hmap_find (fst connChange) (activeUsers (cs_core s)) of
      Some activeUser \<Rightarrow>
        bind_outcome (deref (objects (cs_core s)) activeUser) (\<lambda>u.
        bind_outcome
          (if secondConnected u < 60 then online_update (secondConnected u) (hset_erase activeUser) s
           else Inr s) (\<lambda>s.
        let s = set_object activeUser (u\<lparr>secondConnected := snd connChange\<rparr>) s in
        if snd connChange < 60 then online_update (snd connChange) (hset_emplace activeUser) s
        else Inr s))
    | None \<Rightarrow>
        (case hmap_find (fst connChange) (silentUsers (cs_core s)) of
           Some silentUser \<Rightarrow>
             Inr (s\<lparr>cs_core := (cs_core s)\<lparr>silentUsers :=
               hmap_assign (fst connChange) (silentUser\<lparr>secondConnected := snd connChange\<rparr>)
                 (silentUsers (cs_core s))\<rparr>\<rparr>)
         | None \<Rightarrow> report (UserUnrecognizedError (fst connChange)) s))"

definition processConnectionChanges :: "calc_state \<Rightarrow> calc_state outcome" where
  "processConnectionChanges s =
    bind_outcome (fold_outcome connection_step (connectionChanges (cs_incoming s)) s) (\<lambda>s.
      Inr (s\<lparr>cs_incoming := (cs_incoming s)\<lparr>connectionChanges := []\<rparr>\<rparr>))"

definition deal_step :: "int \<times> int \<Rightarrow> calc_state \<Rightarrow> calc_state outcome" where
  "deal_step newDeal s =
    (let c = cs_core s in
     case hmap_find (fst newDeal) (activeUsers c) of
       Some userProfile \<Rightarrow>
         bind_outcome (deref (objects c) userProfile) (\<lambda>u.
         let patches1 =
           patch_emplace (old_patch (int_of_size (length (rating_vector c)) - user_rating u - 1)) (ratingPatches s)
         in
         bind_outcome (long_add (amountWon u) (snd newDeal)) (\<lambda>total.
         bind_outcome (ratingElementsAfter (objects c) (rating_vector c) total) (\<lambda>ea.
           Inr (s\<lparr>ratingPatches := patch_emplace (new_patch userProfile ea NewPosition total) patches1\<rparr>))))
     | None \<Rightarrow>
         (case hmap_find (fst newDeal) (silentUsers c) of
            Some silentUser \<Rightarrow>
              let userProfile = next_addr c;
                  u = full_user_make (fst newDeal) (snd newDeal) silentUser;
                  s = s\<lparr>cs_core := c\<lparr>objects := (objects c)(userProfile \<mapsto> u), next_addr := userProfile + 1\<rparr>\<rparr>
              in
              bind_outcome
                (if secondConnected u \<noteq> invalidSecond
                 then online_update (secondConnected u) (hset_emplace userProfile) s else Inr s) (\<lambda>s.
              bind_outcome
                (ratingElementsAfter (objects (cs_core s)) (rating_vector (cs_core s)) (amountWon u)) (\<lambda>ea.
                Inr (s\<lparr>freshRatings := freshRatings s + 1,
                       ratingPatches :=
                         patch_emplace (new_patch userProfile ea NewPosition (amountWon u)) (ratingPatches s),
                       cs_core := (cs_core s)
                         \<lparr>activeUsers := hmap_emplace (fst newDeal) userProfile (activeUsers (cs_core s)),
                          silentUsers := hmap_erase (fst newDeal) (silentUsers (cs_core s))\<rparr>\<rparr>)))
          | None \<Rightarrow> report (UserUnrecognizedError (fst newDeal)) s))"

definition processDeals :: "calc_state \<Rightarrow> calc_state outcome" where
  "processDeals s =
    bind_outcome (fold_outcome deal_step (dealsWon (cs_incoming s)) s) (\<lambda>s.
      Inr (s\<lparr>cs_incoming := (cs_incoming s)\<lparr>dealsWon := []\<rparr>\<rparr>))"

section \<open>The recalculation\<close>

definition refresh_step :: "nat \<times> addr \<Rightarrow> user_store \<Rightarrow> user_store outcome" where
  "refresh_step p h =
    bind_outcome (deref h (snd p)) (\<lambda>u. Inr (h(snd p \<mapsto> u\<lparr>user_rating := int (fst p)\<rparr>)))"

definition ratingRefreshPositions :: "addr list \<Rightarrow> user_store \<Rightarrow> user_store outcome" where
  "ratingRefreshPositions v h = fold_outcome refresh_step (enumerate 0 v) h"

definition rebuildRating :: "calc_state \<Rightarrow> calc_state outcome" where
  "rebuildRating s =
    bind_outcome
      (rebuild_rating (freshRatings s) (ratingPatches s) (objects (cs_core s)) (rating_vector (cs_core s)))
      (\<lambda>r. bind_outcome (ratingRefreshPositions (rb_vector r) (rb_objects r)) (\<lambda>h.
        Inr (s\<lparr>cs_core := (cs_core s)\<lparr>rating_vector := rb_vector r, objects := h\<rparr>\<rparr>)))"

definition recalculate :: "bool \<Rightarrow> calc_state \<Rightarrow> calc_state outcome" where
  "recalculate dropOldRating s =
    bind_outcome (if dropOldRating then dropRating s else Inr s) (\<lambda>s.
    bind_outcome (processRegistrations s) (\<lambda>s.
    bind_outcome (processRenames s) (\<lambda>s.
    bind_outcome (processConnectionChanges s) (\<lambda>s.
    bind_outcome (processDeals s) rebuildRating))))"

section \<open>The invariant of the data\<close>

definition store_wf :: "core_rating_data \<Rightarrow> bool" where
  "store_wf c \<longleftrightarrow>
    hmap_wf (silentUsers c) \<and> hmap_wf (activeUsers c) \<and>
    (\<forall>k. hmap_find k (activeUsers c) = None \<or> hmap_find k (silentUsers c) = None) \<and>
    (\<forall>k a. hmap_find k (activeUsers c) = Some a \<longrightarrow> (\<exists>u. objects c a = Some u \<and> user_id u = k)) \<and>
    (\<forall>a u. objects c a = Some u \<longrightarrow> hmap_find (user_id u) (activeUsers c) = Some a) \<and>
    (\<forall>a \<in> dom (objects c). a \<noteq> nullptr \<and> a < next_addr c) \<and> nullptr < next_addr c \<and>
    (\<forall>k b. hmap_find k (silentUsers c) = Some b \<longrightarrow> secondConnected b \<le> 60) \<and>
    (\<forall>a u. objects c a = Some u \<longrightarrow> secondConnected u \<le> 60)"

definition amount_in :: "user_store \<Rightarrow> addr \<Rightarrow> int" where
  "amount_in h a = (case h a of None \<Rightarrow> 0 | Some u \<Rightarrow> amountWon u)"

definition rating_wf :: "user_store \<Rightarrow> addr list \<Rightarrow> bool" where
  "rating_wf h v \<longleftrightarrow>
    set v = dom h \<and> distinct v \<and> ranked (amount_in h) v \<and> int (length v) \<le> INT_MAX \<and>
    (\<forall>i < length v. \<exists>u. h (v ! i) = Some u \<and> user_rating u = int i)"

definition online_wf :: "user_store \<Rightarrow> iteration_data \<Rightarrow> bool" where
  "online_wf h us \<longleftrightarrow>
    length us = 60 \<and>
    (\<forall>i < 60. distinct (us ! i) \<and> (\<forall>a. a \<in> set (us ! i) \<longleftrightarrow> (\<exists>u. h a = Some u \<and> secondConnected u = i)))"

definition core_wf :: "core_rating_data \<Rightarrow> iteration_data \<Rightarrow> bool" where
  "core_wf c us \<longleftrightarrow>
    store_wf c \<and> rating_wf (objects c) (rating_vector c) \<and> online_wf (objects c) us"

lemma store_wfD:
  assumes "store_wf c"
  shows "hmap_wf (silentUsers c)" and "hmap_wf (activeUsers c)"
    and "hmap_find k (activeUsers c) = Some a \<Longrightarrow> \<exists>u. objects c a = Some u \<and> user_id u = k"
    and "hmap_find k (activeUsers c) = Some a \<Longrightarrow> hmap_find k (silentUsers c) = None"
    and "objects c a = Some u \<Longrightarrow> hmap_find (user_id u) (activeUsers c) = Some a"
    and "objects c a = Some u \<Longrightarrow> a \<noteq> nullptr \<and> a < next_addr c \<and> secondConnected u \<le> 60"
    and "hmap_find k (silentUsers c) = Some b \<Longrightarrow> secondConnected b \<le> 60"
proof -
  note wf = assms [unfolded store_wf_def]
  show "hmap_wf (silentUsers c)" "hmap_wf (activeUsers c)" using wf by blast+
  show "hmap_find k (activeUsers c) = Some a \<Longrightarrow> \<exists>u. objects c a = Some u \<and> user_id u = k" using wf by blast
  show "hmap_find k (activeUsers c) = Some a \<Longrightarrow> hmap_find k (silentUsers c) = None"
    using wf by (metis option.distinct(1))
  show "objects c a = Some u \<Longrightarrow> hmap_find (user_id u) (activeUsers c) = Some a" using wf by blast
  have "\<forall>a \<in> dom (objects c). a \<noteq> nullptr \<and> a < next_addr c"
    "\<forall>a u. objects c a = Some u \<longrightarrow> secondConnected u \<le> 60" using wf by blast+
  then show "objects c a = Some u \<Longrightarrow> a \<noteq> nullptr \<and> a < next_addr c \<and> secondConnected u \<le> 60"
    by (metis domI)
  show "hmap_find k (silentUsers c) = Some b \<Longrightarrow> secondConnected b \<le> 60" using wf by blast
qed

lemma active_object:
  assumes "store_wf c" and "hmap_find k (activeUsers c) = Some a"
  obtains u where "objects c a = Some u" and "deref (objects c) a = Inr u" and "user_id u = k"
    and "secondConnected u \<le> 60"
  using store_wfD(3) [OF assms] store_wfD(6) [OF assms(1)] by (metis deref_Inr_iff)

lemma rating_wfD:
  assumes "rating_wf h v"
  shows "set v = dom h" and "distinct v" and "ranked (amount_in h) v" and "int (length v) \<le> INT_MAX"
    and "\<And>i. i < length v \<Longrightarrow> \<exists>u. h (v ! i) = Some u \<and> user_rating u = int i"
  using assms unfolding rating_wf_def by blast+

section \<open>The abstract view\<close>

text \<open>What the service knows of a user; the winnings are there when the user is in the rating.\<close>

record user_view =
  view_name :: buffer_t
  view_second :: connect_time_t
  view_winnings :: "int option"

definition view_basic :: "basic_user_data \<Rightarrow> user_view" where
  "view_basic b = \<lparr> view_name = user_name b, view_second = secondConnected b, view_winnings = None \<rparr>"

definition view_full :: "int \<Rightarrow> full_user_data \<Rightarrow> user_view" where
  "view_full w u = \<lparr> view_name = user_name u, view_second = secondConnected u, view_winnings = Some w \<rparr>"

definition users_with :: "(addr \<Rightarrow> int) \<Rightarrow> core_rating_data \<Rightarrow> int \<rightharpoonup> user_view" where
  "users_with amt c k =
    (case hmap_find k (activeUsers c) of
       Some a \<Rightarrow> map_option (view_full (amt a)) (objects c a)
     | None \<Rightarrow> map_option view_basic (hmap_find k (silentUsers c)))"

definition users_view :: "core_rating_data \<Rightarrow> int \<rightharpoonup> user_view" where
  "users_view c = users_with (amount_in (objects c)) c"

definition reported :: "job_queue \<Rightarrow> error_ptr multiset" where
  "reported q = mset (concat (error_lanes q))"

type_synonym calc_view = "(int \<rightharpoonup> user_view) \<times> error_ptr multiset"

definition spec_drop :: "calc_view \<Rightarrow> calc_view" where
  "spec_drop v = ((\<lambda>k. map_option (\<lambda>x. x\<lparr>view_winnings := None\<rparr>) (fst v k)), snd v)"

definition spec_register :: "int \<times> buffer_t \<Rightarrow> calc_view \<Rightarrow> calc_view" where
  "spec_register r v =
    (case fst v (fst r) of
       None \<Rightarrow> ((fst v)(fst r \<mapsto> \<lparr> view_name = snd r, view_second = 60, view_winnings = None \<rparr>), snd v)
     | Some _ \<Rightarrow> (fst v, add_mset (Some (MultipleRegistrationError (fst r))) (snd v)))"

definition spec_update :: "int \<Rightarrow> (user_view \<Rightarrow> user_view) \<Rightarrow> calc_view \<Rightarrow> calc_view" where
  "spec_update k f v =
    (case fst v k of
       None \<Rightarrow> (fst v, add_mset (Some (UserUnrecognizedError k)) (snd v))
     | Some x \<Rightarrow> ((fst v)(k \<mapsto> f x), snd v))"

definition spec_rename :: "int \<times> buffer_t \<Rightarrow> calc_view \<Rightarrow> calc_view" where
  "spec_rename r = spec_update (fst r) (\<lambda>x. x\<lparr>view_name := snd r\<rparr>)"

definition spec_connection :: "int \<times> connect_time_t \<Rightarrow> calc_view \<Rightarrow> calc_view" where
  "spec_connection r = spec_update (fst r) (\<lambda>x. x\<lparr>view_second := snd r\<rparr>)"

definition spec_deal :: "int \<times> int \<Rightarrow> calc_view \<Rightarrow> calc_view" where
  "spec_deal r =
    spec_update (fst r) (\<lambda>x. x\<lparr>view_winnings :=
      Some (case view_winnings x of None \<Rightarrow> snd r | Some w \<Rightarrow> w + snd r)\<rparr>)"

definition spec_recalculate :: "bool \<Rightarrow> incoming_data_buffer \<Rightarrow> calc_view \<Rightarrow> calc_view" where
  "spec_recalculate dropOldRating b v =
    fold spec_deal (dealsWon b)
      (fold spec_connection (connectionChanges b)
        (fold spec_rename (usersRenamed b)
          (fold spec_register (usersRegistered b) (if dropOldRating then spec_drop v else v))))"

end
