(* ===== verification/Calculator_Events.thy ===== *)
theory Calculator_Events
  imports Rating_Calculator
begin

text \<open>
  The phases of the recalculation that do not touch the rating: registrations, renames and changes
  of connection. Each step is shown to keep the invariant of the data without a fault and to do to
  the abstract view what its specification says; the loops follow from the locale
  \<open>simulated_step\<close>, which is interpreted here once per phase.
\<close>

section \<open>The invariant during the phases\<close>

text \<open>The last conjunct is the room for the users the minute may bring into the rating.\<close>

definition calc_inv :: "incoming_data_buffer \<Rightarrow> calc_state \<Rightarrow> bool" where
  "calc_inv b s \<longleftrightarrow>
    core_wf (cs_core s) (cs_online s) \<and> job_queue_wf (cs_jobs s) \<and> cs_incoming s = b \<and>
    ratingPatches s = [] \<and> freshRatings s = 0 \<and>
    int (length (rating_vector (cs_core s)) + length (dealsWon b)) \<le> INT_MAX"

definition calc_view :: "calc_state \<Rightarrow> calc_view" where
  "calc_view s = (users_view (cs_core s), reported (cs_jobs s))"

lemma users_with_object:
  assumes "store_wf c" and "objects c a = Some u"
  shows "users_with amt c (user_id u) = Some (view_full (amt a) u)"
  using store_wfD(5) [OF assms] assms(2) by (simp add: users_with_def)

lemma users_with_silent:
  "hmap_find k (activeUsers c) = None \<Longrightarrow>
    users_with amt c k = map_option view_basic (hmap_find k (silentUsers c))"
  by (simp add: users_with_def)

lemma users_with_None:
  assumes "store_wf c"
  shows "users_with amt c k = None \<longleftrightarrow> \<not> userExists c k"
  using store_wfD(3) [OF assms, of k]
  by (cases "hmap_find k (activeUsers c)") (auto simp: users_with_def userExists_def)

section \<open>Updates of one user\<close>

lemma store_wf_set_object:
  assumes "store_wf c" and "objects c a = Some u" and "user_id u' = user_id u" and "secondConnected u' \<le> 60"
  shows "store_wf (c\<lparr>objects := (objects c)(a \<mapsto> u')\<rparr>)"
  using assms unfolding store_wf_def by (auto simp: domIff) (metis option.inject)+

lemma users_with_set_object:
  assumes "store_wf c" and "objects c a = Some u" and "user_id u' = user_id u"
  shows "users_with amt (c\<lparr>objects := (objects c)(a \<mapsto> u')\<rparr>) =
    (users_with amt c)(user_id u \<mapsto> view_full (amt a) u')"
proof
  fix k
  show "users_with amt (c\<lparr>objects := (objects c)(a \<mapsto> u')\<rparr>) k =
      ((users_with amt c)(user_id u \<mapsto> view_full (amt a) u')) k"
  proof (cases "k = user_id u")
    case True
    then show ?thesis using store_wfD(5) [OF assms(1,2)] by (simp add: users_with_def)
  next
    case False
    then have "hmap_find k (activeUsers c) \<noteq> Some a"
      using store_wfD(3) [OF assms(1), of k a] assms(2) by auto
    then show ?thesis using False by (auto simp: users_with_def split: option.splits)
  qed
qed

lemma amount_in_upd: "amount_in (h(a \<mapsto> u)) = (amount_in h)(a := amountWon u)"
  by (auto simp: amount_in_def fun_eq_iff)

lemma amount_in_same:
  "h a = Some u \<Longrightarrow> amountWon u' = amountWon u \<Longrightarrow> amount_in (h(a \<mapsto> u')) = amount_in h"
  by (auto simp: amount_in_def fun_eq_iff)

lemma rating_wf_set_object:
  assumes "rating_wf h v" and "h a = Some u" and "amountWon u' = amountWon u" and "user_rating u' = user_rating u"
  shows "rating_wf (h(a \<mapsto> u')) v"
proof -
  have "\<exists>w. (h(a \<mapsto> u')) (v ! i) = Some w \<and> user_rating w = int i" if i: "i < length v" for i
  proof -
    from assms(1) i obtain w where "h (v ! i) = Some w" "user_rating w = int i"
      unfolding rating_wf_def by blast
    then show ?thesis using assms(2,4) by (cases "v ! i = a") auto
  qed
  moreover have "dom (h(a \<mapsto> u')) = dom h" using assms(2) by auto
  ultimately show ?thesis
    using assms(1) amount_in_same [of h a u u', OF assms(2,3)] unfolding rating_wf_def by metis
qed

lemma users_view_set_object:
  assumes "store_wf c" and "objects c a = Some u" and "user_id u' = user_id u" and "amountWon u' = amountWon u"
  shows "users_view (c\<lparr>objects := (objects c)(a \<mapsto> u')\<rparr>) =
    (users_view c)(user_id u \<mapsto> view_full (amountWon u) u')"
  using users_with_set_object [OF assms(1-3)] amount_in_same [of "objects c", OF assms(2,4)] assms(2)
  by (simp add: users_view_def amount_in_def)

lemma store_wf_silent:
  assumes "store_wf c" and "hmap_find k (activeUsers c) = None" and "secondConnected b \<le> 60"
    and "hmap_wf m" and "\<And>k'. hmap_find k' m = (if k' = k then Some b else hmap_find k' (silentUsers c))"
  shows "store_wf (c\<lparr>silentUsers := m\<rparr>)"
  using assms unfolding store_wf_def by simp

lemma users_with_silent_upd:
  assumes "hmap_find k (activeUsers c) = None"
    and "\<And>k'. hmap_find k' m = (if k' = k then Some b else hmap_find k' (silentUsers c))"
  shows "users_with amt (c\<lparr>silentUsers := m\<rparr>) = (users_with amt c)(k \<mapsto> view_basic b)"
  using assms by (auto simp: users_with_def fun_eq_iff split: option.splits)

section \<open>Reports\<close>

lemma report_ok:
  assumes "job_queue_wf (cs_jobs s)"
  shows "\<exists>q. report err s = Inr (s\<lparr>cs_jobs := q\<rparr>) \<and> job_queue_wf q \<and>
    reported q = add_mset (Some err) (reported (cs_jobs s)) \<and>
    promise_lanes q = promise_lanes (cs_jobs s) \<and> user_data_lanes q = user_data_lanes (cs_jobs s)"
proof -
  from enqueueErrorJob_ok [OF assms, of Announcer "Some err"] obtain q where
    q: "enqueueErrorJob Announcer (Some err) (cs_jobs s) = Inr q" "job_queue_wf q"
      "promise_lanes q = promise_lanes (cs_jobs s)" "user_data_lanes q = user_data_lanes (cs_jobs s)"
    by blast
  have "mset (concat (error_lanes q)) = mset (concat (error_lanes (cs_jobs s))) + mset [Some err]"
    by (rule errors_lane.nothing_lost [OF assms, of Announcer]) (simp add: q(1))
  then show ?thesis using q by (intro exI [of _ q]) (simp add: report_def reported_def)
qed

lemma calc_inv_report:
  assumes "calc_inv b s"
  shows "\<exists>s'. report err s = Inr s' \<and> calc_inv b s' \<and>
    calc_view s' = (fst (calc_view s), add_mset (Some err) (snd (calc_view s)))"
  using assms report_ok [of s err] by (auto simp: calc_inv_def calc_view_def)

section \<open>Registrations\<close>

lemma calc_inv_silent:
  assumes "calc_inv b s" and "hmap_find k (activeUsers (cs_core s)) = None" and "secondConnected x \<le> 60"
    and "hmap_wf m" and "\<And>k'. hmap_find k' m = (if k' = k then Some x else hmap_find k' (silentUsers (cs_core s)))"
  shows "calc_inv b (s\<lparr>cs_core := (cs_core s)\<lparr>silentUsers := m\<rparr>\<rparr>)"
    and "calc_view (s\<lparr>cs_core := (cs_core s)\<lparr>silentUsers := m\<rparr>\<rparr>) =
      ((fst (calc_view s))(k \<mapsto> view_basic x), snd (calc_view s))"
proof -
  have wf: "store_wf (cs_core s)" using assms(1) by (simp add: calc_inv_def core_wf_def)
  show "calc_inv b (s\<lparr>cs_core := (cs_core s)\<lparr>silentUsers := m\<rparr>\<rparr>)"
    using assms(1) store_wf_silent [OF wf assms(2-)] by (simp add: calc_inv_def core_wf_def)
  show "calc_view (s\<lparr>cs_core := (cs_core s)\<lparr>silentUsers := m\<rparr>\<rparr>) =
      ((fst (calc_view s))(k \<mapsto> view_basic x), snd (calc_view s))"
    using users_with_silent_upd [OF assms(2,5)] by (simp add: calc_view_def users_view_def)
qed

lemma registration_step_ok:
  assumes inv: "calc_inv b s"
  shows "\<exists>s'. registration_step r s = Inr s' \<and> calc_inv b s' \<and> calc_view s' = spec_register r (calc_view s)"
proof (cases "userExists (cs_core s) (fst r)")
  case True
  have wf: "store_wf (cs_core s)" using inv by (simp add: calc_inv_def core_wf_def)
  have "fst (calc_view s) (fst r) \<noteq> None"
    using True users_with_None [OF wf] by (simp add: calc_view_def users_view_def)
  then show ?thesis
    using True calc_inv_report [OF inv, of "MultipleRegistrationError (fst r)"]
    by (auto simp: registration_step_def spec_register_def)
next
  case False
  have wf: "store_wf (cs_core s)" using inv by (simp add: calc_inv_def core_wf_def)
  let ?x = "basic_user_default\<lparr>user_name := snd r\<rparr>"
  let ?m = "hmap_emplace (fst r) ?x (silentUsers (cs_core s))"
  have none: "hmap_find (fst r) (activeUsers (cs_core s)) = None" "hmap_find (fst r) (silentUsers (cs_core s)) = None"
    using False by (auto simp: userExists_def)
  have m: "hmap_wf ?m"
    "\<And>k'. hmap_find k' ?m = (if k' = fst r then Some ?x else hmap_find k' (silentUsers (cs_core s)))"
    using store_wfD(1) [OF wf] none(2) by (simp_all add: hmap.emplace_wf hmap.emplace_find)
  have "fst (calc_view s) (fst r) = None"
    using False users_with_None [OF wf] by (simp add: calc_view_def users_view_def)
  moreover have "view_basic ?x = \<lparr> view_name = snd r, view_second = 60, view_winnings = None \<rparr>"
    by (simp add: view_basic_def basic_user_default_def invalidSecond_def)
  ultimately show ?thesis
    using False calc_inv_silent [OF inv none(1) _ m]
    by (simp add: registration_step_def spec_register_def basic_user_default_def invalidSecond_def)
qed

interpretation registrations: simulated_step registration_step "\<lambda>_. True" "calc_inv b" calc_view spec_register
  for b
proof
  show "\<exists>s'. registration_step x s = Inr s' \<and> calc_inv b s'" if "calc_inv b s" for s x
    using registration_step_ok [OF that] by blast
  show "calc_view s' = spec_register x (calc_view s)"
    if "calc_inv b s" "registration_step x s = Inr s'" for s x s'
    using registration_step_ok [OF that(1), of x] that(2) by auto
qed

section \<open>Renames\<close>

lemma spec_update_None: "fst v k = None \<Longrightarrow>
    spec_update k f v = (fst v, add_mset (Some (UserUnrecognizedError k)) (snd v))"
  and spec_update_Some: "fst v k = Some x \<Longrightarrow> spec_update k f v = ((fst v)(k \<mapsto> f x), snd v)"
  by (simp_all add: spec_update_def)

lemma calc_inv_unknown:
  assumes inv: "calc_inv b s"
    and none: "hmap_find k (activeUsers (cs_core s)) = None" "hmap_find k (silentUsers (cs_core s)) = None"
  shows "\<exists>s'. report (UserUnrecognizedError k) s = Inr s' \<and> calc_inv b s' \<and>
    calc_view s' = spec_update k f (calc_view s)"
proof -
  have "fst (calc_view s) k = None"
    using none by (simp add: calc_view_def users_view_def users_with_def)
  then show ?thesis
    using calc_inv_report [OF inv, of "UserUnrecognizedError k"] by (simp add: spec_update_None)
qed

lemma view_active:
  assumes "store_wf (cs_core s)" and "objects (cs_core s) a = Some u"
  shows "fst (calc_view s) (user_id u) = Some (view_full (amountWon u) u)"
  using users_with_object [OF assms] assms(2) by (simp add: calc_view_def users_view_def amount_in_def)

lemma view_silent:
  assumes "hmap_find k (activeUsers (cs_core s)) = None" and "hmap_find k (silentUsers (cs_core s)) = Some x"
  shows "fst (calc_view s) k = Some (view_basic x)"
  using assms by (simp add: calc_view_def users_view_def users_with_silent)

lemma calc_view_set_object:
  assumes "store_wf (cs_core s)" and "objects (cs_core s) a = Some u" and "user_id u' = user_id u"
    and "amountWon u' = amountWon u"
  shows "calc_view (set_object a u' s) =
    ((fst (calc_view s))(user_id u \<mapsto> view_full (amountWon u) u'), snd (calc_view s))"
  using users_view_set_object [OF assms] by (simp add: calc_view_def set_object_def)

lemma online_wf_same:
  assumes "online_wf h us" and "h a = Some u" and "secondConnected u' = secondConnected u"
  shows "online_wf (h(a \<mapsto> u')) us"
  using assms by (auto simp: online_wf_def)

lemma rename_step_ok:
  assumes inv: "calc_inv b s"
  shows "\<exists>s'. rename_step r s = Inr s' \<and> calc_inv b s' \<and> calc_view s' = spec_rename r (calc_view s)"
proof -
  have core: "core_wf (cs_core s) (cs_online s)" using inv by (simp add: calc_inv_def)
  then have wf: "store_wf (cs_core s)" by (simp add: core_wf_def)
  show ?thesis
  proof (cases "hmap_find (fst r) (activeUsers (cs_core s))")
    case (Some a)
    obtain u where u: "objects (cs_core s) a = Some u" "deref (objects (cs_core s)) a = Inr u"
        "user_id u = fst r" "secondConnected u \<le> 60"
      using active_object [OF wf Some] by blast
    let ?u = "u\<lparr>user_name := snd r\<rparr>"
    have "store_wf ((cs_core s)\<lparr>objects := (objects (cs_core s))(a \<mapsto> ?u)\<rparr>)"
      using store_wf_set_object [OF wf u(1), of ?u] u(4) by simp
    then have "calc_inv b (set_object a ?u s)"
      using inv rating_wf_set_object [of _ _ a u ?u] online_wf_same [of _ _ a u ?u] u(1)
      by (simp add: calc_inv_def core_wf_def set_object_def)
    moreover have "calc_view (set_object a ?u s) = spec_rename r (calc_view s)"
      using calc_view_set_object [OF wf u(1), of ?u] view_active [OF wf u(1)] u(3)
      by (simp add: spec_rename_def spec_update_Some view_full_def)
    ultimately show ?thesis using Some u(2) by (simp add: rename_step_def)
  next
    case None
    show ?thesis
    proof (cases "hmap_find (fst r) (silentUsers (cs_core s))")
      case (Some x)
      let ?x = "x\<lparr>user_name := snd r\<rparr>"
      let ?m = "hmap_assign (fst r) ?x (silentUsers (cs_core s))"
      have m: "hmap_wf ?m"
        "\<And>k'. hmap_find k' ?m = (if k' = fst r then Some ?x else hmap_find k' (silentUsers (cs_core s)))"
        using store_wfD(1) [OF wf] by (simp_all add: hmap.assign_wf hmap.assign_find)
      have "secondConnected ?x \<le> 60" using store_wfD(7) [OF wf Some] by simp
      note upd = calc_inv_silent [OF inv None this m]
      have "((fst (calc_view s))(fst r \<mapsto> view_basic ?x), snd (calc_view s)) = spec_rename r (calc_view s)"
        using view_silent [OF None Some] by (simp add: spec_rename_def spec_update_Some view_basic_def)
      then show ?thesis using None Some upd by (simp add: rename_step_def)
    next
      case none: None
      show ?thesis
        using calc_inv_unknown [OF inv None none] None none by (simp add: rename_step_def spec_rename_def)
    qed
  qed
qed

interpretation renames: simulated_step rename_step "\<lambda>_. True" "calc_inv b" calc_view spec_rename
  for b
proof
  show "\<exists>s'. rename_step x s = Inr s' \<and> calc_inv b s'" if "calc_inv b s" for s x
    using rename_step_ok [OF that] by blast
  show "calc_view s' = spec_rename x (calc_view s)"
    if "calc_inv b s" "rename_step x s = Inr s'" for s x s'
    using rename_step_ok [OF that(1), of x] that(2) by auto
qed

section \<open>Changes of connection\<close>

definition connection_ok :: "int \<times> connect_time_t \<Rightarrow> bool" where
  "connection_ok r \<longleftrightarrow> snd r \<le> 60"

text \<open>The sets of users on line after a user moved from one second to another.\<close>

definition moved_online :: "addr \<Rightarrow> connect_time_t \<Rightarrow> connect_time_t \<Rightarrow> iteration_data \<Rightarrow> iteration_data" where
  "moved_online a old new us =
    (let us1 = (if old < 60 then us[old := hset_erase a (us ! old)] else us)
     in if new < 60 then us1[new := hset_emplace a (us1 ! new)] else us1)"

lemma online_wf_moved:
  assumes "online_wf h us" and "h a = Some u" and "secondConnected u' = new"
  shows "online_wf (h(a \<mapsto> u')) (moved_online a (secondConnected u) new us)"
  using assms by (auto simp: online_wf_def moved_online_def Let_def nth_list_update)

lemma connection_step_active:
  assumes "hmap_find (fst r) (activeUsers (cs_core s)) = Some a" and "deref (objects (cs_core s)) a = Inr u"
    and "connection_ok r" and "length (cs_online s) = 60"
  shows "connection_step r s = Inr (set_object a (u\<lparr>secondConnected := snd r\<rparr>)
    (s\<lparr>cs_online := moved_online a (secondConnected u) (snd r) (cs_online s)\<rparr>))"
  using assms
  by (auto simp: connection_step_def connection_ok_def invalidSecond_def moved_online_def
      online_update_def set_object_def Let_def)

lemma connection_step_ok:
  assumes inv: "calc_inv b s" and ok: "connection_ok r"
  shows "\<exists>s'. connection_step r s = Inr s' \<and> calc_inv b s' \<and> calc_view s' = spec_connection r (calc_view s)"
proof -
  have core: "core_wf (cs_core s) (cs_online s)" using inv by (simp add: calc_inv_def)
  then have wf: "store_wf (cs_core s)" by (simp add: core_wf_def)
  have guard: "snd r < 60 \<or> snd r = invalidSecond"
    using ok by (auto simp: connection_ok_def invalidSecond_def)
  show ?thesis
  proof (cases "hmap_find (fst r) (activeUsers (cs_core s))")
    case (Some a)
    obtain u where u: "objects (cs_core s) a = Some u" "deref (objects (cs_core s)) a = Inr u"
        "user_id u = fst r" "secondConnected u \<le> 60"
      using active_object [OF wf Some] by blast
    let ?u = "u\<lparr>secondConnected := snd r\<rparr>"
    let ?s = "s\<lparr>cs_online := moved_online a (secondConnected u) (snd r) (cs_online s)\<rparr>"
    have online: "length (cs_online s) = 60" using core by (simp add: core_wf_def online_wf_def)
    have "store_wf ((cs_core s)\<lparr>objects := (objects (cs_core s))(a \<mapsto> ?u)\<rparr>)"
      using store_wf_set_object [OF wf u(1), of ?u] ok by (simp add: connection_ok_def)
    moreover have "online_wf ((objects (cs_core s))(a \<mapsto> ?u)) (cs_online ?s)"
      using online_wf_moved [of "objects (cs_core s)" "cs_online s" a u ?u "snd r"] u(1) core
      by (simp add: core_wf_def)
    ultimately have "calc_inv b (set_object a ?u ?s)"
      using inv rating_wf_set_object [of _ _ a u ?u] u(1)
      by (simp add: calc_inv_def core_wf_def set_object_def)
    moreover have "calc_view ?s = calc_view s" by (simp add: calc_view_def)
    then have "calc_view (set_object a ?u ?s) = spec_connection r (calc_view s)"
      using calc_view_set_object [of ?s a u ?u] view_active [OF wf u(1)] u(1,3) wf
      by (simp add: spec_connection_def spec_update_Some view_full_def)
    ultimately show ?thesis using connection_step_active [OF Some u(2) ok online] by blast
  next
    case None
    show ?thesis
    proof (cases "hmap_find (fst r) (silentUsers (cs_core s))")
      case (Some x)
      let ?x = "x\<lparr>secondConnected := snd r\<rparr>"
      let ?m = "hmap_assign (fst r) ?x (silentUsers (cs_core s))"
      have m: "hmap_wf ?m"
        "\<And>k'. hmap_find k' ?m = (if k' = fst r then Some ?x else hmap_find k' (silentUsers (cs_core s)))"
        using store_wfD(1) [OF wf] by (simp_all add: hmap.assign_wf hmap.assign_find)
      have "secondConnected ?x \<le> 60" using ok by (simp add: connection_ok_def)
      note upd = calc_inv_silent [OF inv None this m]
      have "((fst (calc_view s))(fst r \<mapsto> view_basic ?x), snd (calc_view s)) = spec_connection r (calc_view s)"
        using view_silent [OF None Some] by (simp add: spec_connection_def spec_update_Some view_basic_def)
      then show ?thesis using None Some upd guard by (simp add: connection_step_def)
    next
      case none: None
      show ?thesis
        using calc_inv_unknown [OF inv None none] None none guard
        by (simp add: connection_step_def spec_connection_def)
    qed
  qed
qed

interpretation connections: simulated_step connection_step connection_ok "calc_inv b" calc_view spec_connection
  for b
proof
  show "\<exists>s'. connection_step x s = Inr s' \<and> calc_inv b s'" if "calc_inv b s" "connection_ok x" for s x
    using connection_step_ok [OF that] by blast
  show "calc_view s' = spec_connection x (calc_view s)"
    if "calc_inv b s" "connection_ok x" "connection_step x s = Inr s'" for s x s'
    using connection_step_ok [OF that(1,2)] that(3) by auto
qed

section \<open>The three phases\<close>

lemma processRegistrations_ok:
  assumes "calc_inv b s"
  shows "\<exists>s'. processRegistrations s = Inr s' \<and> calc_inv (b\<lparr>usersRegistered := []\<rparr>) s' \<and>
    calc_view s' = fold spec_register (usersRegistered b) (calc_view s)"
proof -
  obtain s1 where "fold_outcome registration_step (usersRegistered b) s = Inr s1" "calc_inv b s1"
      "calc_view s1 = fold spec_register (usersRegistered b) (calc_view s)"
    using registrations.fold_simulates [OF assms, of "usersRegistered b"] by blast
  then show ?thesis using assms by (auto simp: processRegistrations_def calc_inv_def calc_view_def)
qed

lemma processRenames_ok:
  assumes "calc_inv b s"
  shows "\<exists>s'. processRenames s = Inr s' \<and> calc_inv (b\<lparr>usersRenamed := []\<rparr>) s' \<and>
    calc_view s' = fold spec_rename (usersRenamed b) (calc_view s)"
proof -
  obtain s1 where "fold_outcome rename_step (usersRenamed b) s = Inr s1" "calc_inv b s1"
      "calc_view s1 = fold spec_rename (usersRenamed b) (calc_view s)"
    using renames.fold_simulates [OF assms, of "usersRenamed b"] by blast
  then show ?thesis using assms by (auto simp: processRenames_def calc_inv_def calc_view_def)
qed

lemma processConnectionChanges_ok:
  assumes "calc_inv b s" and "\<forall>r \<in> set (connectionChanges b). connection_ok r"
  shows "\<exists>s'. processConnectionChanges s = Inr s' \<and> calc_inv (b\<lparr>connectionChanges := []\<rparr>) s' \<and>
    calc_view s' = fold spec_connection (connectionChanges b) (calc_view s)"
proof -
  obtain s1 where "fold_outcome connection_step (connectionChanges b) s = Inr s1" "calc_inv b s1"
      "calc_view s1 = fold spec_connection (connectionChanges b) (calc_view s)"
    using connections.fold_simulates [OF assms(1), of "connectionChanges b"] assms(2) by blast
  then show ?thesis using assms(1) by (auto simp: processConnectionChanges_def calc_inv_def calc_view_def)
qed

section \<open>Dropping the rating\<close>

lemma map_of_map_snd: "map_of (map (\<lambda>(k, a). (k, f a)) xs) k = map_option f (map_of xs k)"
  by (induction xs) auto

lemma drop_fold:
  "(\<And>k a. (k, a) \<in> set xs \<Longrightarrow> a \<noteq> nullptr \<and> a \<in> dom (objects c)) \<Longrightarrow>
    fold_outcome drop_step xs c = Inr (c\<lparr>silentUsers :=
      fold (\<lambda>(k, b). hmap_emplace k b) (map (\<lambda>(k, a). (k, basic_part (the (objects c a)))) xs) (silentUsers c)\<rparr>)"
proof (induction xs arbitrary: c)
  case (Cons x xs)
  obtain k a where x: "x = (k, a)" by fastforce
  then obtain u where u: "a \<noteq> nullptr" "objects c a = Some u" using Cons.prems [of k a] by auto
  let ?c = "c\<lparr>silentUsers := hmap_emplace k (basic_part u) (silentUsers c)\<rparr>"
  have "drop_step x c = Inr ?c" using u x by (simp add: drop_step_def)
  moreover have "a' \<noteq> nullptr \<and> a' \<in> dom (objects ?c)" if "(k', a') \<in> set xs" for k' a'
    using Cons.prems [of k' a'] that by simp
  note IH = Cons.IH [of ?c, OF this]
  ultimately show ?case using IH u x by simp
qed simp

lemma dropRating_ok:
  assumes inv: "calc_inv b s"
  shows "\<exists>s'. dropRating s = Inr s' \<and> calc_inv b s' \<and> calc_view s' = spec_drop (calc_view s)"
proof -
  let ?c = "cs_core s"
  have core: "core_wf ?c (cs_online s)" using inv by (simp add: calc_inv_def)
  then have wf: "store_wf ?c" by (simp add: core_wf_def)
  have active: "hmap_find k (activeUsers ?c) = Some a" if "(k, a) \<in> set (activeUsers ?c)" for k a
    using that hmap.entry_iff_find [OF store_wfD(2) [OF wf]] by simp
  define kvs where "kvs = map (\<lambda>(k, a). (k, basic_part (the (objects ?c a)))) (activeUsers ?c)"
  define m where "m = fold (\<lambda>(k, b). hmap_emplace k b) kvs (silentUsers ?c)"
  define c' where "c' = ?c\<lparr>silentUsers := m, objects := Map.empty, activeUsers := [], rating_vector := []\<rparr>"
  define s' where "s' = s\<lparr>cs_core := c', cs_online := map (\<lambda>_. []) (cs_online s)\<rparr>"
  have "a \<noteq> nullptr \<and> a \<in> dom (objects ?c)" if "(k, a) \<in> set (activeUsers ?c)" for k a
    using active_object [OF wf active [OF that]] by (metis deref_Inr_iff domI)
  then have "fold_outcome drop_step (activeUsers ?c) ?c = Inr (?c\<lparr>silentUsers := m\<rparr>)"
    unfolding m_def kvs_def by (rule drop_fold)
  moreover have "objects ?c |` (- snd ` set (activeUsers ?c)) = Map.empty"
  proof
    fix a
    show "(objects ?c |` (- snd ` set (activeUsers ?c))) a = None"
    proof (cases "objects ?c a")
      case (Some u)
      then have "(user_id u, a) \<in> set (activeUsers ?c)"
        using store_wfD(5) [OF wf] hmap_find_in_set by metis
      then have "a \<in> snd ` set (activeUsers ?c)" by force
      then show ?thesis by simp
    qed (simp add: restrict_map_def)
  qed
  ultimately have drop: "dropRating s = Inr s'"
    by (simp add: dropRating_def s'_def c'_def)
  have m_find: "hmap_find k m = (case hmap_find k (silentUsers ?c) of None \<Rightarrow> map_of kvs k | Some x \<Rightarrow> Some x)" for k
    using hmap.emplace_all_first [OF store_wfD(1) [OF wf]] by (simp add: m_def)
  have kvs: "map_of kvs k = map_option (\<lambda>a. basic_part (the (objects ?c a))) (hmap_find k (activeUsers ?c))" for k
    unfolding kvs_def hmap_find_def by (rule map_of_map_snd)
  have second: "secondConnected x \<le> 60" if hx: "hmap_find k m = Some x" for k x
  proof (cases "hmap_find k (silentUsers ?c)")
    case None
    then obtain a where a: "hmap_find k (activeUsers ?c) = Some a" "x = basic_part (the (objects ?c a))"
      using hx m_find [of k] kvs [of k] by auto
    obtain u where "objects ?c a = Some u" "secondConnected u \<le> 60"
      using active_object [OF wf a(1)] by blast
    then show ?thesis using a(2) by simp
  next
    case (Some y)
    then show ?thesis using hx m_find [of k] store_wfD(7) [OF wf Some] by simp
  qed
  have "hmap_wf m" unfolding m_def by (rule hmap.emplace_all_wf [OF store_wfD(1) [OF wf]])
  then have "store_wf c'"
    using second wf by (simp add: store_wf_def c'_def)
  moreover have "rating_wf (objects c') (rating_vector c')"
    by (simp add: rating_wf_def c'_def ranked_def INT_MAX_def)
  moreover have "online_wf (objects c') (cs_online s')"
    using core by (simp add: online_wf_def core_wf_def c'_def s'_def)
  ultimately have "calc_inv b s'" using inv by (simp add: calc_inv_def core_wf_def s'_def c'_def)
  moreover have "users_view c' k = map_option (\<lambda>x. x\<lparr>view_winnings := None\<rparr>) (users_view ?c k)" for k
  proof (cases "hmap_find k (activeUsers ?c)")
    case None
    then show ?thesis
      using m_find [of k] kvs [of k]
      by (auto simp: users_view_def users_with_def c'_def view_basic_def split: option.splits)
  next
    case (Some a)
    then obtain u where "objects ?c a = Some u" using active_object [OF wf] by blast
    moreover have "hmap_find k (silentUsers ?c) = None" using store_wfD(4) [OF wf Some] .
    ultimately show ?thesis
      using Some m_find [of k] kvs [of k]
      by (simp add: users_view_def users_with_def c'_def view_basic_def view_full_def)
  qed
  then have "calc_view s' = spec_drop (calc_view s)"
    by (simp add: calc_view_def spec_drop_def s'_def fun_eq_iff)
  ultimately show ?thesis using drop by blast
qed

end
