(* ===== verification/Calculator_Deals.thy ===== *)
theory Calculator_Deals
  imports Calculator_Events
begin

text \<open>
  The deals of the minute and the rebuilding of the rating. While the deals are processed the vector
  and the amounts of the rated users stay as they were and the new amounts wait in the patches;
  \<open>deals_inv\<close> relates such a state to the one before the first deal. After the last deal the patches
  are a plan that \<open>Rating_Plan\<close> proves to be carried out without a fault.
\<close>

section \<open>Conditions on the deals\<close>

text \<open>A deal of a rated user has to raise his winnings, and the sum has to fit a \<open>long\<close>.\<close>

definition deal_ok :: "calc_view \<Rightarrow> int \<times> int \<Rightarrow> bool" where
  "deal_ok v r \<longleftrightarrow>
    (case fst v (fst r) of None \<Rightarrow> True
     | Some x \<Rightarrow> (case view_winnings x of None \<Rightarrow> True
                  | Some w \<Rightarrow> 0 < snd r \<and> in_long (w + snd r)))"

lemma spec_update_other: "k' \<noteq> k \<Longrightarrow> fst (spec_update k f v) k' = fst v k'"
  by (simp add: spec_update_def split: option.splits)

lemma spec_deals_other:
  "k \<notin> fst ` set ds \<Longrightarrow> fst (fold spec_deal ds v) k = fst v k"
  by (induction ds arbitrary: v) (auto simp: spec_deal_def spec_update_other)

section \<open>The state between two deals\<close>

definition rated :: "calc_state \<Rightarrow> addr list" where "rated s = rating_vector (cs_core s)"

definition rank_index :: "user_store \<Rightarrow> addr \<Rightarrow> nat" where
  "rank_index h a = (case h a of None \<Rightarrow> 0 | Some u \<Rightarrow> nat (user_rating u))"

definition deals_inv ::
    "calc_state \<Rightarrow> addr list \<Rightarrow> (addr \<Rightarrow> int) \<Rightarrow> (int \<times> int) list \<Rightarrow> calc_state \<Rightarrow> bool" where
  "deals_inv s0 U amt' ds s \<longleftrightarrow>
    store_wf (cs_core s) \<and> online_wf (objects (cs_core s)) (cs_online s) \<and> job_queue_wf (cs_jobs s) \<and>
    cs_incoming s = cs_incoming s0 \<and> rated s = rated s0 \<and>
    dom (objects (cs_core s)) = set (rated s0) \<union> set U \<and>
    (\<forall>a \<in> set (rated s0). objects (cs_core s) a = objects (cs_core s0) a) \<and>
    (\<forall>a \<in> set U. \<exists>u. objects (cs_core s) a = Some u \<and> user_id u \<in> fst ` set ds) \<and>
    plan_ok (rated s0) (rank_index (objects (cs_core s0))) (amount_in (objects (cs_core s0))) amt' U \<and>
    deal_plan (rated s0) (rank_index (objects (cs_core s0))) (amount_in (objects (cs_core s0))) amt' U
      (ratingPatches s) \<and>
    freshRatings s = length (filter (\<lambda>u. u \<notin> set (rated s0)) U) \<and> length U \<le> length ds \<and>
    (users_with amt' (cs_core s), reported (cs_jobs s)) = fold spec_deal ds (calc_view s0)"

lemma rank_index_correct:
  assumes "rating_wf h v" and "a \<in> set v"
  shows "rank_index h a < length v" and "v ! rank_index h a = a"
    and "h a = Some u \<Longrightarrow> int (rank_index h a) = user_rating u"
proof -
  obtain i where i: "i < length v" "v ! i = a" using assms(2) by (metis in_set_conv_nth)
  then obtain w where w: "h a = Some w" "user_rating w = int i" using rating_wfD(5) [OF assms(1)] by blast
  then have "rank_index h a = i" by (simp add: rank_index_def)
  then show "rank_index h a < length v" "v ! rank_index h a = a"
    "h a = Some u \<Longrightarrow> int (rank_index h a) = user_rating u"
    using i w by simp_all
qed

lemma users_with_cong:
  "(\<And>a. a \<in> dom (objects c) \<Longrightarrow> amt a = amt' a) \<Longrightarrow> users_with amt c = users_with amt' c"
proof
  fix k
  assume "\<And>a. a \<in> dom (objects c) \<Longrightarrow> amt a = amt' a"
  then show "users_with amt c k = users_with amt' c k"
    by (auto simp: users_with_def map_option_case split: option.splits) (metis domI)
qed

lemma deals_inv_start:
  assumes "calc_inv b s0"
  shows "deals_inv s0 [] (amount_in (objects (cs_core s0))) [] s0"
proof -
  have wf: "rating_wf (objects (cs_core s0)) (rated s0)"
    using assms by (simp add: calc_inv_def core_wf_def rated_def)
  have "plan_ok (rated s0) (rank_index (objects (cs_core s0))) (amount_in (objects (cs_core s0)))
      (amount_in (objects (cs_core s0))) []"
    using rating_wfD(2,3) [OF wf] rank_index_correct [OF wf] by (simp add: plan_ok_def)
  then show ?thesis
    using assms rating_wfD(1) [OF wf]
    by (simp add: deals_inv_def calc_inv_def core_wf_def deal_plan_Nil calc_view_def users_view_def)
qed

lemma deal_plan_cong:
  assumes "\<And>u. u \<in> set U \<Longrightarrow> amt' u = amt'' u"
  shows "deal_plan R idx amt amt' U ps \<longleftrightarrow> deal_plan R idx amt amt'' U ps"
proof -
  have m: "map (user_patches R idx amt amt') U = map (user_patches R idx amt amt'') U"
    using assms by (simp add: user_patches_def)
  have f: "filter (\<lambda>u. amt' u = k) U = filter (\<lambda>u. amt'' u = k) U" for k
    using assms by (auto intro: filter_cong)
  show ?thesis unfolding deal_plan_def m f ..
qed

lemma plan_ok_snoc:
  assumes "plan_ok R idx amt amt' U" and "a \<notin> set U" and "a \<in> set R \<Longrightarrow> amt a < w"
  shows "plan_ok R idx amt (amt'(a := w)) (U @ [a])"
  using assms unfolding plan_ok_def by auto

lemma deal_plan_extend:
  assumes "deal_plan R idx amt amt' U ps" and "a \<notin> set U"
  shows "deal_plan R idx amt (amt'(a := w)) (U @ [a])
    (patch_emplace (new_patch a (int (length R) - int (place amt R w)) NewPosition w)
      (if a \<in> set R then patch_emplace (old_patch (int (length R) - int (idx a) - 1)) ps else ps))"
proof -
  have "deal_plan R idx amt (amt'(a := w)) U ps"
    using assms by (subst deal_plan_cong [where amt'' = amt']) auto
  from deal_plan_snoc [OF this, of a] show ?thesis by simp
qed

text \<open>The place of an amount among the rated users does not change while deals are processed.\<close>

lemma deals_place:
  assumes inv: "deals_inv s0 U amt' ds s" and start: "calc_inv b s0"
    and h: "\<And>a. a \<in> set (rated s0) \<Longrightarrow> h a = objects (cs_core s) a"
  shows "ratingElementsAfter h (rated s0) w =
    Inr (int (length (rated s0)) - int (place (amount_in (objects (cs_core s0))) (rated s0) w))"
proof -
  have wf: "rating_wf (objects (cs_core s0)) (rated s0)" "store_wf (cs_core s0)"
    using start by (simp_all add: calc_inv_def core_wf_def rated_def)
  have "amounts_of h (rated s0) (amount_in (objects (cs_core s0)))"
    unfolding amounts_of_def
  proof
    fix a
    assume a: "a \<in> set (rated s0)"
    then obtain u where "objects (cs_core s0) a = Some u" using rating_wfD(1) [OF wf(1)] by blast
    then show "a \<noteq> nullptr \<and> (\<exists>u. h a = Some u \<and> amountWon u = amount_in (objects (cs_core s0)) a)"
      using inv h [OF a] a store_wfD(6) [OF wf(2)] by (auto simp: deals_inv_def amount_in_def)
  qed
  then show ?thesis
    using ratingElementsAfter_correct rating_wfD(3,4) [OF wf(1)] is_place_eq by metis
qed

section \<open>The step\<close>

lemma deals_invD:
  assumes "deals_inv s0 U amt' ds s"
  shows "store_wf (cs_core s)" and "online_wf (objects (cs_core s)) (cs_online s)" and "job_queue_wf (cs_jobs s)"
    and "rating_vector (cs_core s) = rated s0" and "dom (objects (cs_core s)) = set (rated s0) \<union> set U"
    and "a \<in> set (rated s0) \<Longrightarrow> objects (cs_core s) a = objects (cs_core s0) a"
    and "a \<in> set U \<Longrightarrow> objects (cs_core s) a = Some u \<Longrightarrow> user_id u \<in> fst ` set ds"
    and "plan_ok (rated s0) (rank_index (objects (cs_core s0))) (amount_in (objects (cs_core s0))) amt' U"
    and "deal_plan (rated s0) (rank_index (objects (cs_core s0))) (amount_in (objects (cs_core s0))) amt' U
      (ratingPatches s)"
    and "users_with amt' (cs_core s) = fst (fold spec_deal ds (calc_view s0))"
    and "reported (cs_jobs s) = snd (fold spec_deal ds (calc_view s0))"
proof -
  note inv = assms [unfolded deals_inv_def]
  show "store_wf (cs_core s)" "online_wf (objects (cs_core s)) (cs_online s)" "job_queue_wf (cs_jobs s)"
    "rating_vector (cs_core s) = rated s0" "dom (objects (cs_core s)) = set (rated s0) \<union> set U"
    "plan_ok (rated s0) (rank_index (objects (cs_core s0))) (amount_in (objects (cs_core s0))) amt' U"
    "deal_plan (rated s0) (rank_index (objects (cs_core s0))) (amount_in (objects (cs_core s0))) amt' U
      (ratingPatches s)"
    using inv by (simp_all add: rated_def)
  show "a \<in> set (rated s0) \<Longrightarrow> objects (cs_core s) a = objects (cs_core s0) a" using inv by simp
  have "\<forall>a \<in> set U. \<exists>u. objects (cs_core s) a = Some u \<and> user_id u \<in> fst ` set ds" using inv by blast
  then show "a \<in> set U \<Longrightarrow> objects (cs_core s) a = Some u \<Longrightarrow> user_id u \<in> fst ` set ds"
    by (metis option.inject)
  have "(users_with amt' (cs_core s), reported (cs_jobs s)) = fold spec_deal ds (calc_view s0)"
    using inv by blast
  then show "users_with amt' (cs_core s) = fst (fold spec_deal ds (calc_view s0))"
    "reported (cs_jobs s) = snd (fold spec_deal ds (calc_view s0))"
    by (metis fst_conv snd_conv)+
qed

lemma deals_inv_view:
  assumes "deals_inv s0 U amt' ds s" and "k \<notin> fst ` set ds"
  shows "users_with amt' (cs_core s) k = fst (calc_view s0) k"
  using spec_deals_other [OF assms(2)] deals_invD(10) [OF assms(1)] by simp

lemma users_with_amount:
  assumes wf: "store_wf c" and "hmap_find k (activeUsers c) = Some a" and "objects c a = Some u"
  shows "users_with (amt(a := w)) c = (users_with amt c)(k \<mapsto> view_full w u)"
proof
  fix k'
  show "users_with (amt(a := w)) c k' = ((users_with amt c)(k \<mapsto> view_full w u)) k'"
  proof (cases "k' = k")
    case True
    then show ?thesis using assms by (simp add: users_with_def)
  next
    case False
    have "hmap_find k' (activeUsers c) \<noteq> Some a"
      using store_wfD(3) [OF wf assms(2)] store_wfD(3) [OF wf, of k' a] False by auto
    then show ?thesis using False by (auto simp: users_with_def split: option.splits)
  qed
qed

lemma deal_step_unknown:
  assumes inv: "deals_inv s0 U amt' ds s"
    and none: "hmap_find (fst r) (activeUsers (cs_core s)) = None" "hmap_find (fst r) (silentUsers (cs_core s)) = None"
  shows "\<exists>s'. deal_step r s = Inr s' \<and> deals_inv s0 U amt' (ds @ [r]) s'"
proof -
  note view = deals_invD(10,11) [OF inv]
  have "job_queue_wf (cs_jobs s)" by (rule deals_invD(3) [OF inv])
  from report_ok [OF this, of "UserUnrecognizedError (fst r)"] obtain q where
    q: "report (UserUnrecognizedError (fst r)) s = Inr (s\<lparr>cs_jobs := q\<rparr>)" "job_queue_wf q"
      "reported q = add_mset (Some (UserUnrecognizedError (fst r))) (reported (cs_jobs s))"
    by blast
  have "fst (fold spec_deal ds (calc_view s0)) (fst r) = None"
    using none by (simp add: users_with_def flip: view(1))
  then have "fold spec_deal (ds @ [r]) (calc_view s0) = (users_with amt' (cs_core s), reported q)"
    using q(3) by (simp add: spec_deal_def spec_update_None view)
  moreover have "\<forall>a \<in> set U. \<exists>u. objects (cs_core s) a = Some u \<and> user_id u \<in> fst ` set (ds @ [r])"
    using inv unfolding deals_inv_def by fastforce
  ultimately have "deals_inv s0 U amt' (ds @ [r]) (s\<lparr>cs_jobs := q\<rparr>)"
    using inv q(2) by (simp add: deals_inv_def rated_def)
  then show ?thesis using q(1) none by (auto simp: deal_step_def Let_def)
qed

lemma deal_step_active:
  assumes inv: "deals_inv s0 U amt' ds s" and start: "calc_inv b s0"
    and new: "fst r \<notin> fst ` set ds" and ok: "deal_ok (calc_view s0) r"
    and some: "hmap_find (fst r) (activeUsers (cs_core s)) = Some a"
  shows "\<exists>s' U' amt''. deal_step r s = Inr s' \<and> deals_inv s0 U' amt'' (ds @ [r]) s'"
proof -
  let ?c = "cs_core s" and ?R = "rated s0" and ?h0 = "objects (cs_core s0)"
  have wf0: "rating_wf ?h0 ?R" using start by (simp add: calc_inv_def core_wf_def rated_def)
  note wf = deals_invD(1) [OF inv] and R = deals_invD(4) [OF inv]
  obtain u where u: "objects ?c a = Some u" "deref (objects ?c) a = Inr u" "user_id u = fst r"
    using active_object [OF wf some] by blast
  have aU: "a \<notin> set U" using deals_invD(7) [OF inv _ u(1)] u(3) new by auto
  have aR: "a \<in> set ?R" using deals_invD(5) [OF inv] u(1) aU by blast
  have h0: "?h0 a = Some u" using deals_invD(6) [OF inv aR] u(1) by simp
  have amt: "amount_in ?h0 a = amountWon u" using h0 by (simp add: amount_in_def)
  note plan = deals_invD(8) [OF inv] and patches = deals_invD(9) [OF inv]
  have amt'a: "amt' a = amountWon u" using plan aU aR amt by (simp add: plan_ok_def)
  have viewk: "users_with amt' ?c (fst r) = Some (view_full (amountWon u) u)"
    using users_with_object [OF wf u(1)] u(3) amt'a by simp
  then have "fst (calc_view s0) (fst r) = Some (view_full (amountWon u) u)"
    using deals_inv_view [OF inv new] by simp
  then have pos: "0 < snd r" "in_long (amountWon u + snd r)" using ok by (simp_all add: deal_ok_def view_full_def)
  define w where "w = amountWon u + snd r"
  define ps where "ps = patch_emplace (new_patch a (int (length ?R) - int (place (amount_in ?h0) ?R w)) NewPosition w)
      (patch_emplace (old_patch (int (length ?R) - int (rank_index ?h0 a) - 1)) (ratingPatches s))"
  have "int (rank_index ?h0 a) = user_rating u" using rank_index_correct(3) [OF wf0 aR h0] .
  moreover have "int_of_size (length ?R) = int (length ?R)" using rating_wfD(4) [OF wf0] by simp
  ultimately have step: "deal_step r s = Inr (s\<lparr>ratingPatches := ps\<rparr>)"
    using some u(2) R pos(2) deals_place [OF inv start refl, of w]
    by (simp add: deal_step_def Let_def ps_def w_def)
  have "plan_ok ?R (rank_index ?h0) (amount_in ?h0) (amt'(a := w)) (U @ [a])"
    using plan_ok_snoc [OF plan aU] pos(1) amt by (simp add: w_def)
  moreover have "deal_plan ?R (rank_index ?h0) (amount_in ?h0) (amt'(a := w)) (U @ [a]) ps"
    using deal_plan_extend [OF patches aU, of w] aR by (simp add: ps_def)
  moreover have "users_with (amt'(a := w)) ?c = (users_with amt' ?c)(fst r \<mapsto> view_full w u)"
    by (rule users_with_amount [OF wf some u(1)])
  moreover have "fold spec_deal ds (calc_view s0) = (users_with amt' ?c, reported (cs_jobs s))"
    using deals_invD(10,11) [OF inv] by simp
  then have "fold spec_deal (ds @ [r]) (calc_view s0) =
      ((users_with amt' ?c)(fst r \<mapsto> view_full w u), reported (cs_jobs s))"
    using viewk by (simp add: spec_deal_def spec_update_Some view_full_def w_def)
  moreover have "\<forall>x \<in> set (U @ [a]). \<exists>u. objects ?c x = Some u \<and> user_id u \<in> fst ` set (ds @ [r])"
    using inv u(1,3) unfolding deals_inv_def by fastforce
  moreover have "dom (objects ?c) = set ?R \<union> set (U @ [a])" using inv aR by (auto simp: deals_inv_def)
  ultimately have "deals_inv s0 (U @ [a]) (amt'(a := w)) (ds @ [r]) (s\<lparr>ratingPatches := ps\<rparr>)"
    using inv aR by (simp add: deals_inv_def rated_def)
  then show ?thesis using step by blast
qed

section \<open>A user's first deal\<close>

definition promoted :: "int \<Rightarrow> int \<Rightarrow> basic_user_data \<Rightarrow> core_rating_data \<Rightarrow> core_rating_data" where
  "promoted k d x c =
    c\<lparr>objects := (objects c)(next_addr c \<mapsto> full_user_make k d x), next_addr := next_addr c + 1,
      activeUsers := hmap_emplace k (next_addr c) (activeUsers c),
      silentUsers := hmap_erase k (silentUsers c)\<rparr>"

lemma promoted_sel [simp]:
  "objects (promoted k d x c) = (objects c)(next_addr c \<mapsto> full_user_make k d x)"
  "next_addr (promoted k d x c) = next_addr c + 1"
  "activeUsers (promoted k d x c) = hmap_emplace k (next_addr c) (activeUsers c)"
  "silentUsers (promoted k d x c) = hmap_erase k (silentUsers c)"
  "rating_vector (promoted k d x c) = rating_vector c"
  by (simp_all add: promoted_def)

lemma next_addr_fresh:
  assumes "store_wf c"
  shows "next_addr c \<notin> dom (objects c)" and "objects c (next_addr c) = None" and "next_addr c \<noteq> nullptr"
    and "hmap_find k (activeUsers c) \<noteq> Some (next_addr c)"
proof -
  show none: "objects c (next_addr c) = None"
    using store_wfD(6) [OF assms, of "next_addr c"] by (cases "objects c (next_addr c)") auto
  then show "next_addr c \<notin> dom (objects c)" by (simp add: domIff)
  show "next_addr c \<noteq> nullptr" using assms by (simp add: store_wf_def)
  show "hmap_find k (activeUsers c) \<noteq> Some (next_addr c)"
    using store_wfD(3) [OF assms, of k "next_addr c"] none by auto
qed

lemma store_wf_promoted:
  assumes wf: "store_wf c" and none: "hmap_find k (activeUsers c) = None"
    and some: "hmap_find k (silentUsers c) = Some x"
  shows "store_wf (promoted k d x c)"
proof -
  note fresh = next_addr_fresh [OF wf]
  have active: "hmap_find k' (activeUsers (promoted k d x c)) =
      (if k' = k then Some (next_addr c) else hmap_find k' (activeUsers c))" for k'
    using hmap.emplace_find [OF store_wfD(2) [OF wf]] none by simp
  have silent: "hmap_find k' (silentUsers (promoted k d x c)) =
      (if k' = k then None else hmap_find k' (silentUsers c))" for k'
    using hmap.erase_find [OF store_wfD(1) [OF wf]] by simp
  show ?thesis
    unfolding store_wf_def
  proof (intro conjI allI impI ballI)
    show "hmap_wf (silentUsers (promoted k d x c))" "hmap_wf (activeUsers (promoted k d x c))"
      using store_wfD(1,2) [OF wf] by (simp_all add: hmap.erase_wf hmap.emplace_wf)
    show "hmap_find k' (activeUsers (promoted k d x c)) = None \<or> hmap_find k' (silentUsers (promoted k d x c)) = None" for k'
      unfolding active silent using store_wfD(4) [OF wf, of k'] by (cases "hmap_find k' (activeUsers c)") auto
    show "\<exists>u. objects (promoted k d x c) a = Some u \<and> user_id u = k'"
      if "hmap_find k' (activeUsers (promoted k d x c)) = Some a" for k' a
      using that fresh(4) [of k'] store_wfD(3) [OF wf, of k' a] unfolding active by (auto split: if_splits)
    show "hmap_find (user_id u) (activeUsers (promoted k d x c)) = Some a"
      if "objects (promoted k d x c) a = Some u" for a u
    proof (cases "a = next_addr c")
      case True
      then show ?thesis using that active [of k] by auto
    next
      case False
      then have "hmap_find (user_id u) (activeUsers c) = Some a"
        using that store_wfD(5) [OF wf] by simp
      then show ?thesis using none active [of "user_id u"] by (metis option.distinct(1))
    qed
    show "a \<noteq> nullptr" "a < next_addr (promoted k d x c)" if "a \<in> dom (objects (promoted k d x c))" for a
      using that fresh(3) store_wfD(6) [OF wf, of a] by (auto split: if_splits)
    show "nullptr < next_addr (promoted k d x c)" by (simp add: nullptr_def)
    show "secondConnected b \<le> 60" if "hmap_find k' (silentUsers (promoted k d x c)) = Some b" for k' b
      using that store_wfD(7) [OF wf, of k'] unfolding silent by (auto split: if_splits)
    show "secondConnected u \<le> 60" if "objects (promoted k d x c) a = Some u" for a u
      using that store_wfD(6) [OF wf, of a] store_wfD(7) [OF wf some] by (auto split: if_splits)
  qed
qed

lemma users_with_promoted:
  assumes wf: "store_wf c" and none: "hmap_find k (activeUsers c) = None"
    and some: "hmap_find k (silentUsers c) = Some x"
  shows "users_with (amt(next_addr c := d)) (promoted k d x c) =
    (users_with amt c)(k \<mapsto> view_full d (full_user_make k d x))"
proof
  fix k'
  show "users_with (amt(next_addr c := d)) (promoted k d x c) k' =
    ((users_with amt c)(k \<mapsto> view_full d (full_user_make k d x))) k'"
    using next_addr_fresh(4) [OF wf, of k'] hmap.emplace_find [OF store_wfD(2) [OF wf]]
      hmap.erase_find [OF store_wfD(1) [OF wf]] none
    by (cases "k' = k") (auto simp: users_with_def split: option.splits)
qed

text \<open>The sets of users on line with the new user in.\<close>

definition joined_online :: "addr \<Rightarrow> connect_time_t \<Rightarrow> iteration_data \<Rightarrow> iteration_data" where
  "joined_online a second us =
    (if second \<noteq> invalidSecond then us[second := hset_emplace a (us ! second)] else us)"

lemma online_wf_joined:
  assumes "online_wf h us" and "h a = None" and "secondConnected u \<le> 60"
  shows "online_wf (h(a \<mapsto> u)) (joined_online a (secondConnected u) us)"
  using assms by (auto simp: online_wf_def joined_online_def invalidSecond_def nth_list_update)

lemma deal_step_silent:
  assumes inv: "deals_inv s0 U amt' ds s" and start: "calc_inv b s0"
    and new: "fst r \<notin> fst ` set ds"
    and none: "hmap_find (fst r) (activeUsers (cs_core s)) = None"
    and some: "hmap_find (fst r) (silentUsers (cs_core s)) = Some x"
  shows "\<exists>s' U' amt''. deal_step r s = Inr s' \<and> deals_inv s0 U' amt'' (ds @ [r]) s'"
proof -
  let ?c = "cs_core s" and ?R = "rated s0" and ?h0 = "objects (cs_core s0)"
  define a where "a = next_addr ?c"
  define w where "w = snd r"
  define c' where "c' = promoted (fst r) w x ?c"
  define us where "us = joined_online a (secondConnected x) (cs_online s)"
  define ps where
    "ps = patch_emplace (new_patch a (int (length ?R) - int (place (amount_in ?h0) ?R w)) NewPosition w) (ratingPatches s)"
  define s' where "s' = s\<lparr>cs_core := c', cs_online := us, ratingPatches := ps, freshRatings := freshRatings s + 1\<rparr>"
  note wf = deals_invD(1) [OF inv] and R = deals_invD(4) [OF inv]
  note plan = deals_invD(8) [OF inv] and patches = deals_invD(9) [OF inv]
  note fresh = next_addr_fresh [OF wf, folded a_def]
  have aRU: "a \<notin> set ?R" "a \<notin> set U" using deals_invD(5) [OF inv] fresh(1) by auto
  have second: "secondConnected x \<le> 60" using store_wfD(7) [OF wf some] .
  have online: "online_wf (objects ?c) (cs_online s)" by (rule deals_invD(2) [OF inv])
  have "\<And>y. y \<in> set ?R \<Longrightarrow> ((objects ?c)(a \<mapsto> full_user_make (fst r) w x)) y = objects ?c y"
    using aRU(1) by auto
  note ea = deals_place [OF inv start this, of w]
  have step: "deal_step r s = Inr s'"
    using none some ea R second online
    by (simp add: deal_step_def Let_def online_update_def online_wf_def invalidSecond_def s'_def c'_def
        us_def joined_online_def ps_def promoted_def flip: a_def w_def del: fun_upd_apply)
  have "plan_ok ?R (rank_index ?h0) (amount_in ?h0) (amt'(a := w)) (U @ [a])"
    using plan_ok_snoc [OF plan aRU(2)] aRU(1) by blast
  moreover have "deal_plan ?R (rank_index ?h0) (amount_in ?h0) (amt'(a := w)) (U @ [a]) ps"
    using deal_plan_extend [OF patches aRU(2), of w] aRU(1) by (simp add: ps_def)
  moreover have "store_wf c'" unfolding c'_def by (rule store_wf_promoted [OF wf none some])
  moreover have "online_wf (objects c') us"
    using online_wf_joined [OF online fresh(2), of "full_user_make (fst r) w x"] second
    by (simp add: c'_def us_def a_def)
  moreover have "fold spec_deal (ds @ [r]) (calc_view s0) = (users_with (amt'(a := w)) c', reported (cs_jobs s))"
  proof -
    have "fst (fold spec_deal ds (calc_view s0)) (fst r) = Some (view_basic x)"
      using users_with_silent [OF none, of amt'] some by (simp flip: deals_invD(10) [OF inv])
    moreover have "users_with (amt'(a := w)) c' =
        (users_with amt' ?c)(fst r \<mapsto> view_full w (full_user_make (fst r) w x))"
      unfolding a_def c'_def by (rule users_with_promoted [OF wf none some])
    ultimately show ?thesis
      by (simp add: spec_deal_def spec_update_Some view_basic_def view_full_def w_def deals_invD(10,11) [OF inv])
  qed
  moreover have "\<forall>y \<in> set (U @ [a]). \<exists>u. objects c' y = Some u \<and> user_id u \<in> fst ` set (ds @ [r])"
  proof
    fix y
    assume y: "y \<in> set (U @ [a])"
    show "\<exists>u. objects c' y = Some u \<and> user_id u \<in> fst ` set (ds @ [r])"
    proof (cases "y = a")
      case True
      then show ?thesis by (simp add: c'_def a_def)
    next
      case False
      then have "y \<in> set U" using y by simp
      moreover from this have "y \<in> dom (objects ?c)" using deals_invD(5) [OF inv] by blast
      ultimately show ?thesis using deals_invD(7) [OF inv] False by (auto simp: c'_def a_def)
    qed
  qed
  moreover have "dom (objects c') = set ?R \<union> set (U @ [a])"
    using deals_invD(5) [OF inv] by (auto simp: c'_def a_def)
  moreover have "\<forall>y \<in> set ?R. objects c' y = ?h0 y"
    using deals_invD(6) [OF inv] aRU(1) by (auto simp: c'_def a_def)
  moreover have "rating_vector c' = ?R" using R by (simp add: c'_def)
  ultimately have "deals_inv s0 (U @ [a]) (amt'(a := w)) (ds @ [r]) s'"
    using inv aRU(1) by (simp add: deals_inv_def rated_def s'_def)
  then show ?thesis using step by blast
qed

section \<open>All deals\<close>

lemma deal_step_ok:
  assumes "deals_inv s0 U amt' ds s" and "calc_inv b s0" and "fst r \<notin> fst ` set ds"
    and "deal_ok (calc_view s0) r"
  shows "\<exists>s' U' amt''. deal_step r s = Inr s' \<and> deals_inv s0 U' amt'' (ds @ [r]) s'"
proof (cases "hmap_find (fst r) (activeUsers (cs_core s))")
  case (Some a)
  then show ?thesis using deal_step_active [OF assms] by blast
next
  case None
  then show ?thesis
    using deal_step_silent [OF assms(1-3)] deal_step_unknown [OF assms(1)]
    by (cases "hmap_find (fst r) (silentUsers (cs_core s))") blast+
qed

lemma deals_fold:
  assumes "calc_inv b s0"
  shows "deals_inv s0 U amt' ds s \<Longrightarrow> distinct (map fst (ds @ rs)) \<Longrightarrow>
    \<forall>r \<in> set rs. deal_ok (calc_view s0) r \<Longrightarrow>
    \<exists>s' U' amt''. fold_outcome deal_step rs s = Inr s' \<and> deals_inv s0 U' amt'' (ds @ rs) s'"
proof (induction rs arbitrary: U amt' ds s)
  case Nil
  then show ?case by auto
next
  case (Cons r rs)
  have "fst r \<notin> fst ` set ds" "deal_ok (calc_view s0) r" using Cons.prems(2,3) by auto
  from deal_step_ok [OF Cons.prems(1) assms this] obtain s1 U1 amt1 where
    s1: "deal_step r s = Inr s1" "deals_inv s0 U1 amt1 (ds @ [r]) s1" by blast
  have "distinct (map fst ((ds @ [r]) @ rs))" using Cons.prems(2) by simp
  from Cons.IH [OF s1(2) this] Cons.prems(3) show ?case using s1(1) by simp
qed

section \<open>The new positions\<close>

lemma refresh_fold:
  "distinct v \<Longrightarrow> (\<And>a. a \<in> set v \<Longrightarrow> a \<noteq> nullptr \<and> a \<in> dom h) \<Longrightarrow>
    \<exists>h'. fold_outcome refresh_step (enumerate n v) h = Inr h' \<and>
      (\<forall>i < length v. h' (v ! i) = map_option (\<lambda>u. u\<lparr>user_rating := int (n + i)\<rparr>) (h (v ! i))) \<and>
      (\<forall>a. a \<notin> set v \<longrightarrow> h' a = h a)"
proof (induction v arbitrary: n h)
  case (Cons a v)
  then obtain u where u: "a \<noteq> nullptr" "h a = Some u" by (metis domD list.set_intros(1))
  let ?h = "h(a \<mapsto> u\<lparr>user_rating := int n\<rparr>)"
  have step: "refresh_step (n, a) h = Inr ?h" using u by (simp add: refresh_step_def)
  have "distinct v" using Cons.prems(1) by simp
  moreover have "a' \<noteq> nullptr \<and> a' \<in> dom ?h" if "a' \<in> set v" for a'
    using Cons.prems(2) [of a'] that by auto
  ultimately obtain h' where h': "fold_outcome refresh_step (enumerate (Suc n) v) ?h = Inr h'"
      "\<forall>i < length v. h' (v ! i) = map_option (\<lambda>u. u\<lparr>user_rating := int (Suc n + i)\<rparr>) (?h (v ! i))"
      "\<forall>a. a \<notin> set v \<longrightarrow> h' a = ?h a"
    using Cons.IH [of ?h "Suc n"] by blast
  have "h' ((a # v) ! i) = map_option (\<lambda>u. u\<lparr>user_rating := int (n + i)\<rparr>) (h ((a # v) ! i))"
    if "i < length (a # v)" for i
  proof (cases i)
    case 0
    then show ?thesis using h'(3) Cons.prems(1) u(2) by simp
  next
    case (Suc j)
    then have "v ! j \<noteq> a" using Cons.prems(1) that by auto
    then show ?thesis using h'(2) Suc that by simp
  qed
  moreover have "h' a' = h a'" if "a' \<notin> set (a # v)" for a'
    using h'(3) that by simp
  ultimately show ?case using h'(1) step by auto
qed simp

lemma ratingRefreshPositions_ok:
  assumes "distinct v" and "\<And>a. a \<in> set v \<Longrightarrow> a \<noteq> nullptr \<and> a \<in> dom h"
  shows "\<exists>h'. ratingRefreshPositions v h = Inr h' \<and>
    (\<forall>i < length v. h' (v ! i) = map_option (\<lambda>u. u\<lparr>user_rating := int i\<rparr>) (h (v ! i))) \<and>
    (\<forall>a. a \<notin> set v \<longrightarrow> h' a = h a)"
  using refresh_fold [of v h 0] assms unfolding ratingRefreshPositions_def by simp

text \<open>Changes of amount and position leave the rest of the data in order.\<close>

lemma same_users:
  assumes wf: "store_wf c" and us: "online_wf (objects c) us"
    and upd: "\<And>a. (objects c a = None \<longrightarrow> h a = None) \<and>
      (\<forall>u. objects c a = Some u \<longrightarrow> (\<exists>w r. h a = Some (u\<lparr>amountWon := w, user_rating := r\<rparr>)))"
  shows "store_wf (c\<lparr>objects := h, rating_vector := v\<rparr>)" and "online_wf h us"
    and "users_with amt (c\<lparr>objects := h, rating_vector := v\<rparr>) = users_with amt c"
proof -
  have dom: "dom h = dom (objects c)" using upd by (auto simp: domIff) (metis not_None_eq)
  have obj: "\<exists>u0. objects c a = Some u0 \<and> user_id u0 = user_id u \<and> secondConnected u0 = secondConnected u \<and>
      user_name u0 = user_name u" if "h a = Some u" for a u
    using upd [of a] that by (cases "objects c a") auto
  have obj': "\<exists>u1. h a = Some u1 \<and> user_id u1 = user_id u \<and> secondConnected u1 = secondConnected u"
    if "objects c a = Some u" for a u
    using upd [of a] that by auto
  show "store_wf (c\<lparr>objects := h, rating_vector := v\<rparr>)"
    unfolding store_wf_def
  proof (intro conjI allI impI ballI)
    let ?c = "c\<lparr>objects := h, rating_vector := v\<rparr>"
    show "hmap_wf (silentUsers ?c)" "hmap_wf (activeUsers ?c)" using store_wfD(1,2) [OF wf] by simp_all
    show "hmap_find k (activeUsers ?c) = None \<or> hmap_find k (silentUsers ?c) = None" for k
      using store_wfD(4) [OF wf, of k] by (cases "hmap_find k (activeUsers c)") auto
    show "\<exists>u. objects ?c a = Some u \<and> user_id u = k" if "hmap_find k (activeUsers ?c) = Some a" for k a
      using that store_wfD(3) [OF wf, of k a] obj' [of a] by auto
    show "hmap_find (user_id u) (activeUsers ?c) = Some a" if "objects ?c a = Some u" for a u
      using that obj [of a u] store_wfD(5) [OF wf, of a] by auto
    show "a \<noteq> nullptr" "a < next_addr ?c" if "a \<in> dom (objects ?c)" for a
      using that store_wfD(6) [OF wf, of a] dom by auto
    show "nullptr < next_addr ?c" using wf by (simp add: store_wf_def)
    show "secondConnected b \<le> 60" if "hmap_find k (silentUsers ?c) = Some b" for k b
      using that store_wfD(7) [OF wf, of k b] by simp
    show "secondConnected u \<le> 60" if "objects ?c a = Some u" for a u
      using that obj [of a u] store_wfD(6) [OF wf, of a] by auto
  qed
  show "online_wf h us"
  proof -
    have "(\<exists>u. h a = Some u \<and> secondConnected u = i) \<longleftrightarrow>
        (\<exists>u. objects c a = Some u \<and> secondConnected u = i)" for a i
      using obj [of a] obj' [of a] by metis
    then show ?thesis using us by (simp add: online_wf_def)
  qed
  show "users_with amt (c\<lparr>objects := h, rating_vector := v\<rparr>) = users_with amt c"
  proof
    fix k
    have "map_option (view_full w) (h a) = map_option (view_full w) (objects c a)" for w a
      using upd [of a] by (cases "objects c a") (auto simp: view_full_def)
    then show "users_with amt (c\<lparr>objects := h, rating_vector := v\<rparr>) k = users_with amt c k"
      by (simp add: users_with_def split: option.splits)
  qed
qed

section \<open>The rebuilding\<close>

lemma rebuildRating_ok:
  assumes inv: "deals_inv s0 U amt' ds s" and start: "calc_inv b s0"
    and count: "length ds = length (dealsWon b)"
  shows "\<exists>s'. rebuildRating s = Inr s' \<and> core_wf (cs_core s') (cs_online s') \<and>
    cs_jobs s' = cs_jobs s \<and> cs_incoming s' = cs_incoming s \<and>
    users_view (cs_core s') = users_with amt' (cs_core s)"
proof -
  let ?c = "cs_core s" and ?R = "rated s0" and ?h0 = "objects (cs_core s0)"
  note wf = deals_invD(1) [OF inv] and R = deals_invD(4) [OF inv]
  note plan = deals_invD(8) [OF inv] and patches = deals_invD(9) [OF inv]
  have fresh: "freshRatings s = length (filter (\<lambda>u. u \<notin> set ?R) U)" "length U \<le> length ds"
    using inv by (simp_all add: deals_inv_def)
  have "freshRatings s \<le> length (dealsWon b)"
    using fresh length_filter_le [of "\<lambda>u. u \<notin> set ?R" U] count by linarith
  then have bound: "int (length ?R + freshRatings s) \<le> INT_MAX"
    using start by (simp add: calc_inv_def rated_def)
  define v where "v = new_rating amt' ?R U"
  define h1 where "h1 = new_amounts amt' U (objects ?c)"
  have "\<And>u. u \<in> set U \<Longrightarrow> u \<noteq> nullptr \<and> u \<in> dom (objects ?c)"
    using deals_invD(5) [OF inv] store_wfD(6) [OF wf] by blast
  from deal_plan_rebuild [OF plan patches this fresh(1) bound] obtain rb where
    rb: "rebuild_rating (freshRatings s) (ratingPatches s) (objects ?c) ?R = Inr rb"
      "rb_vector rb = v" "rb_objects rb = h1"
    unfolding v_def h1_def by blast
  have set_v: "set v = dom (objects ?c)" "distinct v"
    unfolding v_def using set_new_rating distinct_new_rating [OF plan] deals_invD(5) [OF inv] by simp_all
  have dom1: "dom h1 = dom (objects ?c)" by (auto simp: h1_def new_amounts_def split: if_splits)
  have "\<And>a. a \<in> set v \<Longrightarrow> a \<noteq> nullptr \<and> a \<in> dom h1"
    unfolding dom1 set_v using store_wfD(6) [OF wf] by blast
  from ratingRefreshPositions_ok [OF set_v(2) this] obtain h2 where
    h2: "ratingRefreshPositions v h1 = Inr h2"
      "\<And>i. i < length v \<Longrightarrow> h2 (v ! i) = map_option (\<lambda>u. u\<lparr>user_rating := int i\<rparr>) (h1 (v ! i))"
      "\<And>a. a \<notin> set v \<Longrightarrow> h2 a = h1 a"
    by blast
  have object: "(objects ?c a = None \<longrightarrow> h2 a = None) \<and>
      (\<forall>u. objects ?c a = Some u \<longrightarrow> (\<exists>r. h2 a = Some (u\<lparr>amountWon := amt' a, user_rating := r\<rparr>)))" for a
  proof (cases "a \<in> set v")
    case False
    then have "objects ?c a = None" using set_v(1) by blast
    then show ?thesis using h2(3) [OF False] by (simp add: h1_def new_amounts_def)
  next
    case True
    then obtain i where i: "i < length v" "v ! i = a" by (metis in_set_conv_nth)
    obtain u where u: "objects ?c a = Some u" using True set_v(1) by blast
    have "h1 a = Some (u\<lparr>amountWon := amt' a\<rparr>)"
    proof (cases "a \<in> set U")
      case False
      then have aR: "a \<in> set ?R" using u deals_invD(5) [OF inv] by blast
      have "amount_in ?h0 a = amountWon u"
        using deals_invD(6) [OF inv aR] u by (auto simp: amount_in_def split: option.splits)
      then have "amt' a = amountWon u" using plan False aR by (simp add: plan_ok_def)
      then show ?thesis using False u by (simp add: h1_def new_amounts_def)
    qed (use u in \<open>simp add: h1_def new_amounts_def\<close>)
    then show ?thesis using h2(2) [OF i(1)] i(2) u by auto
  qed
  let ?c' = "?c\<lparr>objects := h2, rating_vector := v\<rparr>"
  have upd: "(objects ?c a = None \<longrightarrow> h2 a = None) \<and>
      (\<forall>u. objects ?c a = Some u \<longrightarrow> (\<exists>w r. h2 a = Some (u\<lparr>amountWon := w, user_rating := r\<rparr>)))" for a
    using object [of a] by blast
  note same = same_users [OF wf deals_invD(2) [OF inv] upd]
  have dom2: "dom h2 = dom (objects ?c)"
    using object by (auto simp: domIff) (metis not_None_eq)
  have amounts: "amount_in h2 a = amt' a" if a: "a \<in> dom (objects ?c)" for a
  proof -
    obtain u where "objects ?c a = Some u" using a by blast
    then show ?thesis using object [of a] by (auto simp: amount_in_def)
  qed
  have "ranked (amount_in h2) v"
    unfolding ranked_def
    by (rule sorted_wrt_mono_rel [OF _ ranked_new_rating [OF plan, folded v_def, unfolded ranked_def]])
       (simp add: amounts set_v(1))
  moreover have "int (length v) \<le> INT_MAX"
  proof -
    have "length v = length (filter (\<lambda>r. r \<notin> set U) ?R) + length U"
      by (simp add: v_def new_rating_def)
    moreover have "length (filter (\<lambda>r. r \<notin> set U) ?R) + length U \<le> length ?R + length (filter (\<lambda>u. u \<notin> set ?R) U)"
    proof -
      have "distinct (filter (\<lambda>u. u \<in> set ?R) U)" "distinct (filter (\<lambda>r. r \<in> set U) ?R)"
        using plan by (simp_all add: plan_ok_def)
      then have "length (filter (\<lambda>u. u \<in> set ?R) U) = card (set U \<inter> set ?R)"
        "length (filter (\<lambda>r. r \<in> set U) ?R) = card (set U \<inter> set ?R)"
        by (simp_all flip: distinct_card) (simp_all add: Int_def conj_commute)
      then show ?thesis
        using sum_length_filter_compl [of "\<lambda>u. u \<in> set ?R" U] sum_length_filter_compl [of "\<lambda>r. r \<in> set U" ?R]
        by linarith
    qed
    ultimately show ?thesis using bound fresh(1) by linarith
  qed
  moreover have "\<exists>u. h2 (v ! i) = Some u \<and> user_rating u = int i" if i: "i < length v" for i
  proof -
    have "v ! i \<in> dom h1" using i set_v(1) dom1 by auto
    then show ?thesis using h2(2) [OF i] by auto
  qed
  ultimately have "rating_wf h2 v" using set_v dom2 by (simp add: rating_wf_def)
  then have "core_wf ?c' (cs_online s)" using same(1,2) by (simp add: core_wf_def)
  moreover have "rebuildRating s = Inr (s\<lparr>cs_core := ?c'\<rparr>)"
    using rb h2(1) R by (simp add: rebuildRating_def)
  moreover have "users_view ?c' = users_with amt' ?c"
  proof -
    have "users_with (amount_in h2) ?c' = users_with amt' ?c'"
      by (rule users_with_cong) (use amounts dom2 in simp)
    then show ?thesis using same(3) [of amt'] by (simp add: users_view_def)
  qed
  ultimately show ?thesis by (intro exI [of _ "s\<lparr>cs_core := ?c'\<rparr>"]) simp
qed

lemma processDeals_rebuild_ok:
  assumes start: "calc_inv b s" and deals: "tmap_wf (dealsWon b)"
    and ok: "\<forall>r \<in> set (dealsWon b). deal_ok (calc_view s) r"
  shows "\<exists>s'. bind_outcome (processDeals s) rebuildRating = Inr s' \<and>
    core_wf (cs_core s') (cs_online s') \<and> job_queue_wf (cs_jobs s') \<and>
    cs_incoming s' = b\<lparr>dealsWon := []\<rparr> \<and>
    calc_view s' = fold spec_deal (dealsWon b) (calc_view s)"
proof -
  have "distinct (map fst ([] @ dealsWon b))" using tmap_wf_distinct [OF deals] by simp
  from deals_fold [OF start deals_inv_start [OF start] this ok] obtain s1 U amt' where
    s1: "fold_outcome deal_step (dealsWon b) s = Inr s1" "deals_inv s U amt' (dealsWon b) s1" by auto
  have b: "cs_incoming s = b" using start by (simp add: calc_inv_def)
  let ?s1 = "s1\<lparr>cs_incoming := (cs_incoming s1)\<lparr>dealsWon := []\<rparr>\<rparr>"
  have in1: "cs_incoming s1 = b" using s1(2) b by (simp add: deals_inv_def)
  have "processDeals s = Inr ?s1" using s1(1) b by (simp add: processDeals_def)
  moreover obtain s2 where s2: "rebuildRating s1 = Inr s2" "core_wf (cs_core s2) (cs_online s2)"
      "cs_jobs s2 = cs_jobs s1" "cs_incoming s2 = cs_incoming s1"
      "users_view (cs_core s2) = users_with amt' (cs_core s1)"
    using rebuildRating_ok [OF s1(2) start refl] by blast
  moreover have "rebuildRating ?s1 = Inr (s2\<lparr>cs_incoming := b\<lparr>dealsWon := []\<rparr>\<rparr>)"
    using s2(1) in1 by (auto simp: rebuildRating_def bind_outcome_Inr_iff)
  moreover have "calc_view s2 = fold spec_deal (dealsWon b) (calc_view s)"
    using s2(3,5) deals_invD(10,11) [OF s1(2)] by (simp add: calc_view_def)
  ultimately show ?thesis
    using deals_invD(3) [OF s1(2)] by (simp add: calc_view_def)
qed

end
