(* ===== verification/Recalculation.thy ===== *)
theory Recalculation
  imports Calculator_Deals
begin

text \<open>
  The recalculation as a whole: from data in order, on a buffer whose deals raise the winnings of the
  users in the rating, \<open>recalculate\<close> returns, leaves the data in order and the buffer empty, and does
  to the abstract view what \<open>spec_recalculate\<close> says. A run of minutes follows by induction.
\<close>

section \<open>Winnings before the deals\<close>

lemma spec_register_winnings:
  "fst (spec_register r v) k = Some x \<Longrightarrow> view_winnings x = Some w \<Longrightarrow>
    \<exists>y. fst v k = Some y \<and> view_winnings y = Some w"
  by (auto simp: spec_register_def split: option.splits if_splits)

lemma spec_update_winnings:
  assumes "\<And>x. view_winnings (f x) = view_winnings x"
  shows "fst (spec_update k' f v) k = Some x \<Longrightarrow> view_winnings x = Some w \<Longrightarrow>
    \<exists>y. fst v k = Some y \<and> view_winnings y = Some w"
  using assms by (auto simp: spec_update_def split: option.splits if_splits)

lemma fold_winnings:
  assumes "\<forall>r v k x. fst (f r v) k = Some x \<longrightarrow> view_winnings x = Some w \<longrightarrow>
    (\<exists>y. fst v k = Some y \<and> view_winnings y = Some w)"
  shows "fst (fold f rs v) k = Some x \<Longrightarrow> view_winnings x = Some w \<Longrightarrow>
    \<exists>y. fst v k = Some y \<and> view_winnings y = Some w"
proof (induction rs arbitrary: v)
  case (Cons r rs)
  have "fst (fold f rs (f r v)) k = Some x" using Cons.prems(1) by simp
  from Cons.IH [OF this Cons.prems(2)] obtain y where
    y: "fst (f r v) k = Some y" "view_winnings y = Some w" by blast
  show ?case using assms y by blast
qed simp

lemma update_winnings:
  assumes "\<And>r x. view_winnings (g r x) = view_winnings x"
  shows "\<forall>r v k x. fst (spec_update (k' r) (g r) v) k = Some x \<longrightarrow> view_winnings x = Some w \<longrightarrow>
      (\<exists>y. fst v k = Some y \<and> view_winnings y = Some w)"
  using spec_update_winnings [of "g _"] assms by blast

definition events_before_deals :: "incoming_data_buffer \<Rightarrow> calc_view \<Rightarrow> calc_view" where
  "events_before_deals b v =
    fold spec_connection (connectionChanges b)
      (fold spec_rename (usersRenamed b) (fold spec_register (usersRegistered b) v))"

lemma winnings_before_deals:
  assumes "fst (events_before_deals b v) k = Some x" and "view_winnings x = Some w"
  shows "\<exists>y. fst v k = Some y \<and> view_winnings y = Some w"
proof -
  have connection: "\<forall>r v k x. fst (spec_connection r v) k = Some x \<longrightarrow> view_winnings x = Some w \<longrightarrow>
      (\<exists>y. fst v k = Some y \<and> view_winnings y = Some w)"
    unfolding spec_connection_def by (rule update_winnings) simp
  have rename: "\<forall>r v k x. fst (spec_rename r v) k = Some x \<longrightarrow> view_winnings x = Some w \<longrightarrow>
      (\<exists>y. fst v k = Some y \<and> view_winnings y = Some w)"
    unfolding spec_rename_def by (rule update_winnings) simp
  have register: "\<forall>r v k x. fst (spec_register r v) k = Some x \<longrightarrow> view_winnings x = Some w \<longrightarrow>
      (\<exists>y. fst v k = Some y \<and> view_winnings y = Some w)"
    using spec_register_winnings by blast
  from fold_winnings [OF connection assms(1) [unfolded events_before_deals_def] assms(2)]
  obtain x1 where x1: "fst (fold spec_rename (usersRenamed b) (fold spec_register (usersRegistered b) v)) k = Some x1"
      "view_winnings x1 = Some w"
    by blast
  from fold_winnings [OF rename x1]
  obtain x2 where x2: "fst (fold spec_register (usersRegistered b) v) k = Some x2" "view_winnings x2 = Some w"
    by blast
  show ?thesis by (rule fold_winnings [OF register x2])
qed

lemma deal_ok_before_deals: "deal_ok v r \<Longrightarrow> deal_ok (events_before_deals b v) r"
  using winnings_before_deals [of b v "fst r"]
  by (auto simp: deal_ok_def split: option.splits)

lemma no_winnings_after_drop:
  assumes "fst (events_before_deals b (spec_drop v)) k = Some x"
  shows "view_winnings x = None"
proof (rule ccontr)
  assume "view_winnings x \<noteq> None"
  then obtain w where "view_winnings x = Some w" by blast
  from winnings_before_deals [OF assms this] show False by (auto simp: spec_drop_def)
qed

lemma deal_ok_dropped: "deal_ok (events_before_deals b (spec_drop v)) r"
  using no_winnings_after_drop by (auto simp: deal_ok_def split: option.splits)

lemma spec_deal_at:
  "fst (spec_deal r v) k =
    (if k = fst r then map_option (\<lambda>x. x\<lparr>view_winnings :=
        Some (case view_winnings x of None \<Rightarrow> snd r | Some w \<Rightarrow> w + snd r)\<rparr>) (fst v k)
     else fst v k)"
  by (simp add: spec_deal_def spec_update_def split: option.splits)

lemma fold_deals_other: "k \<notin> fst ` set ds \<Longrightarrow> fst (fold spec_deal ds v) k = fst v k"
  by (induction ds arbitrary: v) (simp_all add: spec_deal_at)

lemma fold_deals_winnings:
  assumes "distinct (map fst ds)" and "\<And>x. fst v k = Some x \<Longrightarrow> view_winnings x = None"
    and "fst (fold spec_deal ds v) k = Some x"
  shows "view_winnings x = map_of ds k"
  using assms
proof (induction ds arbitrary: v)
  case (Cons r ds)
  show ?case
  proof (cases "k = fst r")
    case True
    then have "fst (fold spec_deal ds (spec_deal r v)) k = fst (spec_deal r v) k"
      using Cons.prems(1) by (intro fold_deals_other) simp
    then obtain y where "fst v k = Some y" "x = y\<lparr>view_winnings :=
        Some (case view_winnings y of None \<Rightarrow> snd r | Some w \<Rightarrow> w + snd r)\<rparr>"
      using Cons.prems(3) True by (auto simp: spec_deal_at)
    then show ?thesis using Cons.prems(2) True by simp
  next
    case False
    then show ?thesis using Cons.IH [of "spec_deal r v"] Cons.prems by (simp add: spec_deal_at)
  qed
qed simp

text \<open>After a recalculation that drops the rating the winnings are the deals of the minute.\<close>

lemma winnings_after_drop:
  assumes "tmap_wf (dealsWon b)" and "fst (spec_recalculate True b v) k = Some x"
  shows "view_winnings x = tmap_find k (dealsWon b)"
proof -
  have "distinct (map fst (dealsWon b))" using assms(1) by (rule tmap_wf_distinct)
  moreover have "fst (fold spec_deal (dealsWon b) (events_before_deals b (spec_drop v))) k = Some x"
    using assms(2) by (simp add: spec_recalculate_def events_before_deals_def)
  ultimately show ?thesis
    using fold_deals_winnings [OF _ no_winnings_after_drop] by (simp add: tmap_find_def)
qed

section \<open>One minute\<close>

text \<open>What is asked of the events of a minute.\<close>

definition minute_ok :: "bool \<Rightarrow> calc_view \<Rightarrow> incoming_data_buffer \<Rightarrow> bool" where
  "minute_ok dropOldRating v b \<longleftrightarrow>
    (\<forall>r \<in> set (connectionChanges b). connection_ok r) \<and> tmap_wf (dealsWon b) \<and>
    (dropOldRating \<or> (\<forall>r \<in> set (dealsWon b). deal_ok v r))"

definition buffer_empty :: "incoming_data_buffer \<Rightarrow> bool" where
  "buffer_empty b \<longleftrightarrow>
    usersRegistered b = [] \<and> usersRenamed b = [] \<and> connectionChanges b = [] \<and> dealsWon b = []"

lemma recalculate_ok:
  assumes inv: "calc_inv b s" and ok: "minute_ok dropOldRating (calc_view s) b"
  shows "\<exists>s'. recalculate dropOldRating s = Inr s' \<and> core_wf (cs_core s') (cs_online s') \<and>
    job_queue_wf (cs_jobs s') \<and> buffer_empty (cs_incoming s') \<and>
    bufferWriterCount (cs_incoming s') = bufferWriterCount b \<and>
    calc_view s' = spec_recalculate dropOldRating b (calc_view s)"
proof -
  define v0 where "v0 = (if dropOldRating then spec_drop (calc_view s) else calc_view s)"
  obtain s0 where s0: "(if dropOldRating then dropRating s else Inr s) = Inr s0" "calc_inv b s0"
      "calc_view s0 = v0"
    using dropRating_ok [OF inv] inv by (cases dropOldRating) (auto simp: v0_def)
  from processRegistrations_ok [OF s0(2)] obtain s1 where s1: "processRegistrations s0 = Inr s1"
      "calc_inv (b\<lparr>usersRegistered := []\<rparr>) s1" "calc_view s1 = fold spec_register (usersRegistered b) v0"
    using s0(3) by auto
  from processRenames_ok [OF s1(2)] obtain s2 where s2: "processRenames s1 = Inr s2"
      "calc_inv (b\<lparr>usersRegistered := [], usersRenamed := []\<rparr>) s2"
      "calc_view s2 = fold spec_rename (usersRenamed b) (calc_view s1)"
    by auto
  have "\<forall>r \<in> set (connectionChanges (b\<lparr>usersRegistered := [], usersRenamed := []\<rparr>)). connection_ok r"
    using ok by (simp add: minute_ok_def)
  from processConnectionChanges_ok [OF s2(2) this] obtain s3 where s3: "processConnectionChanges s2 = Inr s3"
      "calc_inv (b\<lparr>usersRegistered := [], usersRenamed := [], connectionChanges := []\<rparr>) s3"
      "calc_view s3 = fold spec_connection (connectionChanges b) (calc_view s2)"
    by auto
  let ?b3 = "b\<lparr>usersRegistered := [], usersRenamed := [], connectionChanges := []\<rparr>"
  have v3: "calc_view s3 = events_before_deals b v0" using s1(3) s2(3) s3(3) by (simp add: events_before_deals_def)
  have "\<forall>r \<in> set (dealsWon ?b3). deal_ok (calc_view s3) r"
  proof (cases dropOldRating)
    case True
    then show ?thesis using v3 deal_ok_dropped by (simp add: v0_def)
  next
    case False
    then show ?thesis using v3 deal_ok_before_deals ok by (simp add: v0_def minute_ok_def)
  qed
  moreover have "tmap_wf (dealsWon ?b3)" using ok by (simp add: minute_ok_def)
  ultimately obtain s4 where s4: "bind_outcome (processDeals s3) rebuildRating = Inr s4"
      "core_wf (cs_core s4) (cs_online s4)" "job_queue_wf (cs_jobs s4)"
      "cs_incoming s4 = ?b3\<lparr>dealsWon := []\<rparr>" "calc_view s4 = fold spec_deal (dealsWon b) (calc_view s3)"
    using processDeals_rebuild_ok [OF s3(2)] by auto
  have "recalculate dropOldRating s = Inr s4"
    unfolding recalculate_def s0(1) by (simp add: s1(1) s2(1) s3(1) s4(1))
  moreover have "calc_view s4 = spec_recalculate dropOldRating b (calc_view s)"
    using s4(5) v3 by (simp add: spec_recalculate_def events_before_deals_def v0_def)
  ultimately show ?thesis using s4(2-4) by (simp add: buffer_empty_def)
qed

section \<open>A run of minutes\<close>

text \<open>
  The service calls the recalculation once a minute, each time with a new implementation object and
  the buffer that was filled meanwhile.
\<close>

type_synonym rating_data = "core_rating_data \<times> iteration_data \<times> job_queue"

definition minute_step :: "bool \<times> incoming_data_buffer \<Rightarrow> rating_data \<Rightarrow> rating_data outcome" where
  "minute_step m d =
    bind_outcome (recalculate (fst m) (calc_start (fst d) (fst (snd d)) (snd m) (snd (snd d)))) (\<lambda>s.
      Inr (cs_core s, cs_online s, cs_jobs s))"

definition data_wf :: "rating_data \<Rightarrow> bool" where
  "data_wf d \<longleftrightarrow> core_wf (fst d) (fst (snd d)) \<and> job_queue_wf (snd (snd d))"

definition data_view :: "rating_data \<Rightarrow> calc_view" where
  "data_view d = (users_view (fst d), reported (snd (snd d)))"

definition room_for :: "rating_data \<Rightarrow> incoming_data_buffer \<Rightarrow> bool" where
  "room_for d b \<longleftrightarrow> int (length (rating_vector (fst d)) + length (dealsWon b)) \<le> INT_MAX"

definition spec_minute :: "bool \<times> incoming_data_buffer \<Rightarrow> calc_view \<Rightarrow> calc_view" where
  "spec_minute m = spec_recalculate (fst m) (snd m)"

lemma minute_step_ok:
  assumes wf: "data_wf d" and ok: "minute_ok (fst m) (data_view d) (snd m)" and room: "room_for d (snd m)"
  shows "\<exists>d'. minute_step m d = Inr d' \<and> data_wf d' \<and> data_view d' = spec_minute m (data_view d)"
proof -
  let ?s = "calc_start (fst d) (fst (snd d)) (snd m) (snd (snd d))"
  have "calc_inv (snd m) ?s"
    using wf room by (simp add: calc_inv_def calc_start_def data_wf_def room_for_def)
  moreover have "calc_view ?s = data_view d" by (simp add: calc_view_def calc_start_def data_view_def)
  ultimately obtain s' where "recalculate (fst m) ?s = Inr s'" "core_wf (cs_core s') (cs_online s')"
      "job_queue_wf (cs_jobs s')" "calc_view s' = spec_recalculate (fst m) (snd m) (data_view d)"
    using recalculate_ok ok by metis
  then show ?thesis
    by (simp add: minute_step_def data_wf_def data_view_def calc_view_def spec_minute_def)
qed

lemma data_wf_new: "0 < n \<Longrightarrow> n \<le> INT_MAX \<Longrightarrow> data_wf (core_rating_data_new, iteration_data_new, job_queue_new n)"
  by (simp add: data_wf_def core_wf_def store_wf_def rating_wf_def online_wf_def core_rating_data_new_def
      iteration_data_new_def job_queue_new_wf nullptr_def ranked_def INT_MAX_def)

lemma data_view_new: "0 < n \<Longrightarrow>
    data_view (core_rating_data_new, iteration_data_new, job_queue_new n) = (Map.empty, {#})"
  by (simp add: data_view_def users_view_def users_with_def core_rating_data_new_def reported_def fun_eq_iff)

section \<open>Positions\<close>

text \<open>In data in order a position is the number of users ahead, and no user ahead has won less.\<close>

lemma positions_correct:
  assumes "core_wf c us" and "objects c a = Some u" and "objects c a' = Some u'"
  shows "0 \<le> user_rating u" and "user_rating u < int (card (dom (objects c)))"
    and "rating_vector c ! nat (user_rating u) = a"
    and "user_rating u = user_rating u' \<Longrightarrow> a = a'"
    and "amountWon u > amountWon u' \<Longrightarrow> user_rating u < user_rating u'"
proof -
  let ?v = "rating_vector c"
  have wf: "rating_wf (objects c) ?v" using assms(1) by (simp add: core_wf_def)
  have a: "a \<in> set ?v" "a' \<in> set ?v" using rating_wfD(1) [OF wf] assms(2,3) by auto
  note i = rank_index_correct [OF wf a(1)] and j = rank_index_correct [OF wf a(2)]
  have ij: "int (rank_index (objects c) a) = user_rating u" "int (rank_index (objects c) a') = user_rating u'"
    using i(3) [OF assms(2)] j(3) [OF assms(3)] .
  then show "0 \<le> user_rating u" by linarith
  have "length ?v = card (dom (objects c))"
    using rating_wfD(1,2) [OF wf] distinct_card by metis
  then show "user_rating u < int (card (dom (objects c)))" using i(1) ij(1) by linarith
  show "?v ! nat (user_rating u) = a" using i(2) ij(1) by (metis nat_int)
  show "user_rating u = user_rating u' \<Longrightarrow> a = a'" using i(2) j(2) ij by (metis of_nat_eq_iff)
  show "user_rating u < user_rating u'" if "amountWon u > amountWon u'"
  proof (rule ccontr)
    assume "\<not> user_rating u < user_rating u'"
    then have le: "rank_index (objects c) a' \<le> rank_index (objects c) a" using ij by linarith
    have "amount_in (objects c) a' \<ge> amount_in (objects c) a"
    proof (cases "rank_index (objects c) a' = rank_index (objects c) a")
      case True
      then show ?thesis using i(2) j(2) by simp
    next
      case False
      then have "rank_index (objects c) a' < rank_index (objects c) a" using le by simp
      then show ?thesis
        using rating_wfD(3) [OF wf] i(1,2) j(2) sorted_wrt_nth_mono unfolding ranked_def by metis
    qed
    then show False using that assms(2,3) by (simp add: amount_in_def)
  qed
qed

end
