(* ===== verification/Date_Time.thy ===== *)
theory Date_Time
  imports Prelude
begin

text \<open>
  \<open>utils/date_time.h\<close>: points in time are nanoseconds since the epoch of the system clock, the reading
  of the clock is an argument. \<open>std::chrono::floor\<close> and \<open>ceil\<close> round towards minus and plus infinity,
  as the division of HOL integers does. The epoch is a Thursday, so the first Monday is day four.
\<close>

type_synonym chrono_t = int

definition second_ns :: int where "second_ns = 10 ^ 9"
definition minute_ns :: int where "minute_ns = 60 * second_ns"
definition day_ns :: int where "day_ns = 24 * (60 * minute_ns)"
definition week_ns :: int where "week_ns = 7 * day_ns"

definition chrono_floor :: "int \<Rightarrow> chrono_t \<Rightarrow> int" where
  "chrono_floor unit t = t div unit * unit"

definition chrono_ceil :: "int \<Rightarrow> chrono_t \<Rightarrow> int" where
  "chrono_ceil unit t = (let f = chrono_floor unit t in if f < t then f + unit else f)"

definition currentWeekStart :: "chrono_t \<Rightarrow> chrono_t" where
  "currentWeekStart now =
    (let shifted = now - 4 * day_ns;
         sysWeekStart = chrono_floor week_ns shifted;
         properWeekStart = sysWeekStart + 4 * day_ns
     in properWeekStart)"

definition nextFullMinute :: "chrono_t \<Rightarrow> chrono_t" where
  "nextFullMinute now = chrono_ceil minute_ns now"

definition nextFullSecond :: "chrono_t \<Rightarrow> chrono_t" where
  "nextFullSecond now = chrono_ceil second_ns now"

definition currentSecondIndex :: "chrono_t \<Rightarrow> nat" where
  "currentSecondIndex now =
    (let secondsFromTheMinuteStart = (chrono_floor second_ns now - chrono_floor minute_ns now) div second_ns
     in nat (secondsFromTheMinuteStart mod 256))"

lemma units_pos [simp]: "0 < second_ns" "0 < minute_ns" "0 < day_ns" "0 < week_ns"
  and units_nonzero [simp]: "second_ns \<noteq> 0" "minute_ns \<noteq> 0" "day_ns \<noteq> 0" "week_ns \<noteq> 0"
  by (simp_all add: second_ns_def minute_ns_def day_ns_def week_ns_def)

lemma chrono_floor_bounds:
  assumes "0 < unit"
  shows "chrono_floor unit t \<le> t" and "t < chrono_floor unit t + unit" and "unit dvd chrono_floor unit t"
proof -
  have t: "t = chrono_floor unit t + t mod unit" by (simp add: chrono_floor_def)
  then show "chrono_floor unit t \<le> t" "t < chrono_floor unit t + unit"
    using pos_mod_bound [OF assms, of t] pos_mod_sign [OF assms, of t] by linarith+
  show "unit dvd chrono_floor unit t" by (simp add: chrono_floor_def)
qed

lemma chrono_floor_unique:
  assumes "0 < unit" and "unit dvd f" and "f \<le> t" and "t < f + unit"
  shows "chrono_floor unit t = f"
proof -
  obtain k where k: "f = unit * k" using assms(2) by (elim dvdE)
  have "t = (t - unit * k) + k * unit" by (simp add: mult.commute)
  then have "t div unit = (t - unit * k) div unit + k" using assms(1) by (metis div_mult_self1 less_irrefl add.commute)
  moreover have "(t - unit * k) div unit = 0" using assms k by (intro div_pos_pos_trivial) simp_all
  ultimately have "t div unit = k" by simp
  then show ?thesis by (simp add: chrono_floor_def k mult.commute)
qed

lemma chrono_ceil_bounds:
  assumes "0 < unit"
  shows "t \<le> chrono_ceil unit t" and "chrono_ceil unit t < t + unit" and "unit dvd chrono_ceil unit t"
  using chrono_floor_bounds [OF assms, of t] by (auto simp: chrono_ceil_def Let_def)

text \<open>The week starts on a Monday at midnight, at or less than a week before the clock's reading.\<close>

lemma week_start_bounds:
  "currentWeekStart now \<le> now" "now < currentWeekStart now + week_ns"
  using chrono_floor_bounds [of week_ns "now - 4 * day_ns"] by (simp_all add: currentWeekStart_def Let_def)

lemma week_start_monday: "day_ns dvd currentWeekStart now \<and> currentWeekStart now div day_ns mod 7 = 4"
proof -
  obtain k where k: "chrono_floor week_ns (now - 4 * day_ns) = week_ns * k"
    using chrono_floor_bounds(3) [of week_ns "now - 4 * day_ns"] by (auto elim: dvdE)
  have start: "currentWeekStart now = day_ns * (7 * k + 4)"
    unfolding currentWeekStart_def Let_def k by (simp add: week_ns_def algebra_simps)
  moreover have "(7 * k + 4) mod 7 = 4" by presburger
  ultimately show ?thesis by simp
qed

lemma week_start_unique:
  assumes "day_ns dvd m" and "m div day_ns mod 7 = 4" and "m \<le> now" and "now < m + week_ns"
  shows "currentWeekStart now = m"
proof -
  obtain d where d: "m = day_ns * d" using assms(1) by (elim dvdE)
  then have "d mod 7 = 4" using assms(2) by simp
  then have "7 dvd d - 4" by presburger
  then obtain j where "d - 4 = 7 * j" by (elim dvdE)
  then have j: "d = 7 * j + 4" by simp
  have "m - 4 * day_ns = week_ns * j" unfolding d j week_ns_def by (simp add: algebra_simps)
  then have "chrono_floor week_ns (now - 4 * day_ns) = m - 4 * day_ns"
    using assms(3,4) by (intro chrono_floor_unique) simp_all
  then show ?thesis by (simp add: currentWeekStart_def Let_def)
qed

lemma second_index: "currentSecondIndex now = nat (now div second_ns mod 60)"
proof -
  let ?s = "now div second_ns"
  have m: "now div minute_ns = ?s div 60"
    unfolding minute_ns_def by (subst mult.commute) (rule zdiv_zmult2_eq, simp)
  have "chrono_floor second_ns now - chrono_floor minute_ns now = (?s - ?s div 60 * 60) * second_ns"
    unfolding chrono_floor_def m by (simp add: minute_ns_def algebra_simps)
  also have "?s - ?s div 60 * 60 = ?s mod 60" by (simp add: minus_div_mult_eq_mod)
  finally have "(chrono_floor second_ns now - chrono_floor minute_ns now) div second_ns = ?s mod 60" by simp
  moreover have "?s mod 60 mod 256 = ?s mod 60" using pos_mod_bound [of 60 ?s] by (simp add: mod_pos_pos_trivial)
  ultimately show ?thesis by (simp add: currentSecondIndex_def Let_def)
qed

lemma second_index_bound: "currentSecondIndex now < 60"
  unfolding second_index by (simp add: nat_less_iff)

end
