(* ===== verification/Message_Dispatcher.thy ===== *)
theory Message_Dispatcher
  imports Job_Queue Date_Time
begin

text \<open>
  \<open>service/message_builder.h\<close> and \<open>service/message_dispatcher.cpp\<close>: the listener reads a message into
  one of five message objects it reuses (the battery) and enters it into the buffer of the minute. A
  connection also promises the user a rating, through the job queue.

  The second of the minute a connection falls into is \<open>DateTime::currentSecondIndex\<close> of the clock.
  \<open>Minute_Log\<close> proves what a run of messages leaves in the buffer.
\<close>

section \<open>MessageBuilder\<close>

record message_battery =
  userRegisteredMsg :: generic_id_name_msg
  userRenamedMsg :: generic_id_name_msg
  userConnectedMsg :: generic_id_msg
  userDisconnectedMsg :: generic_id_msg
  userDealWonMsg :: user_deal_won_msg

definition message_battery_new :: message_battery where
  "message_battery_new =
    \<lparr> userRegisteredMsg = generic_id_name_default, userRenamedMsg = generic_id_name_default,
      userConnectedMsg = generic_id_default, userDisconnectedMsg = generic_id_default,
      userDealWonMsg = user_deal_won_default \<rparr>"

definition message_build :: "istream \<Rightarrow> message_battery \<Rightarrow> (client_message_code \<times> message_battery) outcome" where
  "message_build messageData b =
    bind_outcome (get_pod messageData) (\<lambda>(messageCode, d).
      if messageCode = client_code USER_REGISTERED then
        bind_outcome (generic_id_name_init d (userRegisteredMsg b)) (\<lambda>(m, _).
          Inr (USER_REGISTERED, b\<lparr>userRegisteredMsg := m\<rparr>))
      else if messageCode = client_code USER_RENAMED then
        bind_outcome (generic_id_name_init d (userRenamedMsg b)) (\<lambda>(m, _).
          Inr (USER_RENAMED, b\<lparr>userRenamedMsg := m\<rparr>))
      else if messageCode = client_code USER_CONNECTED then
        bind_outcome (generic_id_init d (userConnectedMsg b)) (\<lambda>(m, _).
          Inr (USER_CONNECTED, b\<lparr>userConnectedMsg := m\<rparr>))
      else if messageCode = client_code USER_DISCONNECTED then
        bind_outcome (generic_id_init d (userDisconnectedMsg b)) (\<lambda>(m, _).
          Inr (USER_DISCONNECTED, b\<lparr>userDisconnectedMsg := m\<rparr>))
      else if messageCode = client_code USER_DEAL_WON then
        bind_outcome (user_deal_won_init d (userDealWonMsg b)) (\<lambda>(m, _).
          Inr (USER_DEAL_WON, b\<lparr>userDealWonMsg := m\<rparr>))
      else Inl (Throw (Message_Code_Unrecognized messageCode)))"

section \<open>MessageDispatcher\<close>

definition dispatch_registered :: "generic_id_name_msg \<Rightarrow> incoming_data_buffer \<Rightarrow> incoming_data_buffer" where
  "dispatch_registered msg b =
    b\<lparr>usersRegistered := tmap_emplace (m_userId msg) (m_userName msg) (usersRegistered b)\<rparr>"

definition dispatch_renamed :: "generic_id_name_msg \<Rightarrow> incoming_data_buffer \<Rightarrow> incoming_data_buffer" where
  "dispatch_renamed msg b =
    b\<lparr>usersRenamed := tmap_emplace (m_userId msg) (m_userName msg) (usersRenamed b)\<rparr>"

definition dispatch_connected ::
    "chrono_t \<Rightarrow> generic_id_msg \<Rightarrow> incoming_data_buffer \<Rightarrow> job_queue \<Rightarrow> (incoming_data_buffer \<times> job_queue) outcome" where
  "dispatch_connected now msg b q =
    (let b1 = b\<lparr>connectionChanges :=
        tmap_assign (m_userId msg) (currentSecondIndex now) (connectionChanges b)\<rparr>
     in bind_outcome
       (enqueueUserIdPromise Listener (m_userId msg, tmap_find (m_userId msg) (usersRegistered b1) \<noteq> None) q)
       (\<lambda>q1. Inr (b1, q1)))"

definition dispatch_disconnected :: "generic_id_msg \<Rightarrow> incoming_data_buffer \<Rightarrow> incoming_data_buffer" where
  "dispatch_disconnected msg b =
    b\<lparr>connectionChanges := tmap_assign (m_userId msg) invalidSecond (connectionChanges b)\<rparr>"

text \<open>\<open>dealsWon[id] += amount\<close>: an absent entry starts from 0.\<close>

definition dispatch_deal_won :: "user_deal_won_msg \<Rightarrow> incoming_data_buffer \<Rightarrow> incoming_data_buffer outcome" where
  "dispatch_deal_won msg b =
    bind_outcome (long_add (tmap_at 0 (m_userId msg) (dealsWon b)) (m_winnings msg)) (\<lambda>total.
      Inr (b\<lparr>dealsWon := tmap_assign (m_userId msg) total (dealsWon b)\<rparr>))"

text \<open>The switch of \<open>Overseer::run\<close> on the code \<open>build\<close> returned.\<close>

definition dispatch_message ::
    "chrono_t \<Rightarrow> client_message_code \<Rightarrow> message_battery \<Rightarrow> incoming_data_buffer \<Rightarrow> job_queue \<Rightarrow>
      (incoming_data_buffer \<times> job_queue) outcome" where
  "dispatch_message now c b md q =
    (case c of
       USER_REGISTERED \<Rightarrow> Inr (dispatch_registered (userRegisteredMsg b) md, q)
     | USER_RENAMED \<Rightarrow> Inr (dispatch_renamed (userRenamedMsg b) md, q)
     | USER_CONNECTED \<Rightarrow> dispatch_connected now (userConnectedMsg b) md q
     | USER_DISCONNECTED \<Rightarrow> Inr (dispatch_disconnected (userDisconnectedMsg b) md, q)
     | USER_DEAL_WON \<Rightarrow> bind_outcome (dispatch_deal_won (userDealWonMsg b) md) (\<lambda>md1. Inr (md1, q))
     | HANDSHAKE \<Rightarrow> Inl (Fault Assertion_Failed))"

text \<open>One turn of the listener's loop, for a message whose body is in the stream.\<close>

definition listen ::
    "chrono_t \<Rightarrow> istream \<Rightarrow> message_battery \<Rightarrow> incoming_data_buffer \<Rightarrow> job_queue \<Rightarrow>
      (message_battery \<times> incoming_data_buffer \<times> job_queue) outcome" where
  "listen now messageData b md q =
    bind_outcome (message_build messageData b) (\<lambda>(c, b1).
    bind_outcome (dispatch_message now c b1 md q) (\<lambda>(md1, q1). Inr (b1, md1, q1)))"

section \<open>Messages as events\<close>

datatype client_event =
    Registered int buffer_t
  | Renamed int buffer_t
  | Connected int
  | Disconnected int
  | Deal_Won int int

fun enc_event :: "client_event \<Rightarrow> buffer_t" where
  "enc_event (Registered i n) = bytes_of_word (client_code USER_REGISTERED) @ enc_int i @ enc_buffer n"
| "enc_event (Renamed i n) = bytes_of_word (client_code USER_RENAMED) @ enc_int i @ enc_buffer n"
| "enc_event (Connected i) = bytes_of_word (client_code USER_CONNECTED) @ enc_int i"
| "enc_event (Disconnected i) = bytes_of_word (client_code USER_DISCONNECTED) @ enc_int i"
| "enc_event (Deal_Won i w) = bytes_of_word (client_code USER_DEAL_WON) @ enc_int i @ enc_long w"

fun valid_event :: "client_event \<Rightarrow> bool" where
  "valid_event (Registered i n) \<longleftrightarrow> in_int i \<and> length n \<le> UCHAR_MAX"
| "valid_event (Renamed i n) \<longleftrightarrow> in_int i \<and> length n \<le> UCHAR_MAX"
| "valid_event (Connected i) \<longleftrightarrow> in_int i"
| "valid_event (Disconnected i) \<longleftrightarrow> in_int i"
| "valid_event (Deal_Won i w) \<longleftrightarrow> in_int i \<and> in_long w"

text \<open>
  The reference for one event, without message objects: what the listener is to do to the buffer and the
  queue. It is not code; \<open>Minute_Log\<close> and the properties compare the operations of the code with it.
\<close>

fun enter_event :: "chrono_t \<Rightarrow> client_event \<Rightarrow> incoming_data_buffer \<times> job_queue \<Rightarrow>
    (incoming_data_buffer \<times> job_queue) outcome" where
  "enter_event now (Registered i n) (b, q) = Inr (b\<lparr>usersRegistered := tmap_emplace i n (usersRegistered b)\<rparr>, q)"
| "enter_event now (Renamed i n) (b, q) = Inr (b\<lparr>usersRenamed := tmap_emplace i n (usersRenamed b)\<rparr>, q)"
| "enter_event now (Connected i) (b, q) =
    bind_outcome (enqueueUserIdPromise Listener (i, tmap_find i (usersRegistered b) \<noteq> None) q) (\<lambda>q1.
      Inr (b\<lparr>connectionChanges := tmap_assign i (currentSecondIndex now) (connectionChanges b)\<rparr>, q1))"
| "enter_event now (Disconnected i) (b, q) =
    Inr (b\<lparr>connectionChanges := tmap_assign i invalidSecond (connectionChanges b)\<rparr>, q)"
| "enter_event now (Deal_Won i w) (b, q) =
    bind_outcome (long_add (tmap_at 0 i (dealsWon b)) w) (\<lambda>total.
      Inr (b\<lparr>dealsWon := tmap_assign i total (dealsWon b)\<rparr>, q))"

lemma client_code_distinct: "client_code c = client_code d \<longleftrightarrow> c = d"
  by (cases c; cases d) simp_all

lemma listen_event:
  assumes "valid_event e"
  shows "\<exists>bat'. listen now (istream_of (enc_event e)) bat b q =
    bind_outcome (enter_event now e (b, q)) (\<lambda>(b1, q1). Inr (bat', b1, q1))"
proof (cases e)
  case (Registered i n)
  let ?m = "\<lparr> m_userId = i, m_userName = n \<rparr>"
  have "generic_id_name_init (reading p (enc_int i @ enc_buffer n @ [])) m0 =
      Inr (?m, reading (p @ enc_int i @ enc_buffer n) [])" for p m0
    using id_name_msgs.get_encoded [of ?m p "[]" m0] assms Registered by simp
  then show ?thesis
    using Registered
    by (intro exI [of _ "bat\<lparr>userRegisteredMsg := ?m\<rparr>"])
       (simp add: listen_def message_build_def istream_of_reading get_pod_bytes client_code_distinct
         dispatch_message_def dispatch_registered_def del: client_code.simps)
next
  case (Renamed i n)
  let ?m = "\<lparr> m_userId = i, m_userName = n \<rparr>"
  have "generic_id_name_init (reading p (enc_int i @ enc_buffer n @ [])) m0 =
      Inr (?m, reading (p @ enc_int i @ enc_buffer n) [])" for p m0
    using id_name_msgs.get_encoded [of ?m p "[]" m0] assms Renamed by simp
  then show ?thesis
    using Renamed
    by (intro exI [of _ "bat\<lparr>userRenamedMsg := ?m\<rparr>"])
       (simp add: listen_def message_build_def istream_of_reading get_pod_bytes client_code_distinct
         dispatch_message_def dispatch_renamed_def del: client_code.simps)
next
  case (Connected i)
  let ?m = "\<lparr> m_userId = i \<rparr>"
  have "generic_id_init (reading p (enc_int i @ [])) m0 = Inr (?m, reading (p @ enc_int i) [])"
    for p and m0 :: generic_id_msg
    using id_msgs.get_encoded [of ?m p "[]" m0] assms Connected by simp
  then show ?thesis
    using Connected
    by (intro exI [of _ "bat\<lparr>userConnectedMsg := ?m\<rparr>"])
       (simp add: listen_def message_build_def istream_of_reading get_pod_bytes client_code_distinct
         dispatch_message_def dispatch_connected_def bind_outcome_assoc Let_def del: client_code.simps)
next
  case (Disconnected i)
  let ?m = "\<lparr> m_userId = i \<rparr>"
  have "generic_id_init (reading p (enc_int i @ [])) m0 = Inr (?m, reading (p @ enc_int i) [])"
    for p and m0 :: generic_id_msg
    using id_msgs.get_encoded [of ?m p "[]" m0] assms Disconnected by simp
  then show ?thesis
    using Disconnected
    by (intro exI [of _ "bat\<lparr>userDisconnectedMsg := ?m\<rparr>"])
       (simp add: listen_def message_build_def istream_of_reading get_pod_bytes client_code_distinct
         dispatch_message_def dispatch_disconnected_def del: client_code.simps)
next
  case (Deal_Won i w)
  let ?m = "\<lparr> m_userId = i, m_winnings = w \<rparr>"
  have "user_deal_won_init (reading p (enc_int i @ enc_long w @ [])) m0 =
      Inr (?m, reading (p @ enc_int i @ enc_long w) [])" for p m0
    using deal_won_msgs.get_encoded [of ?m p "[]" m0] assms Deal_Won by simp
  then show ?thesis
    using Deal_Won
    by (intro exI [of _ "bat\<lparr>userDealWonMsg := ?m\<rparr>"])
       (simp add: listen_def message_build_def istream_of_reading get_pod_bytes client_code_distinct
         dispatch_message_def dispatch_deal_won_def bind_outcome_assoc del: client_code.simps)
qed

text \<open>Any other code throws, and so does a message that is too short.\<close>

lemma listen_unknown_code:
  assumes "get_pod data = Inr (mc, d)"
    and "\<And>c. c \<noteq> HANDSHAKE \<Longrightarrow> mc \<noteq> client_code c"
  shows "listen now data bat b q = Inl (Throw (Message_Code_Unrecognized mc))"
  using assms by (simp add: listen_def message_build_def del: client_code.simps)

end
