(* ===== verification/Minute_Log.thy ===== *)
theory Minute_Log
  imports Message_Dispatcher
begin

text \<open>
  What a run of client messages leaves in the buffer of the minute (\<open>service/message_dispatcher.cpp\<close>):
  the first name of a registration or renaming, the last change of connection, the sum of the deals, and
  one promise per connection. The buffer it leaves meets the conditions of the recalculation.
\<close>

section \<open>The events of one kind\<close>

type_synonym timed_event = "chrono_t \<times> client_event"

fun registration_of :: "timed_event \<Rightarrow> (int \<times> buffer_t) option" where
  "registration_of (_, Registered i n) = Some (i, n)"
| "registration_of _ = None"

fun rename_of :: "timed_event \<Rightarrow> (int \<times> buffer_t) option" where
  "rename_of (_, Renamed i n) = Some (i, n)"
| "rename_of _ = None"

fun connection_of :: "timed_event \<Rightarrow> (int \<times> connect_time_t) option" where
  "connection_of (now, Connected i) = Some (i, currentSecondIndex now)"
| "connection_of (now, Disconnected i) = Some (i, invalidSecond)"
| "connection_of _ = None"

fun deal_of :: "timed_event \<Rightarrow> (int \<times> int) option" where
  "deal_of (_, Deal_Won i w) = Some (i, w)"
| "deal_of _ = None"

definition deals_of :: "int \<Rightarrow> timed_event list \<Rightarrow> int list" where
  "deals_of k evs = map snd (filter (\<lambda>d. fst d = k) (List.map_filter deal_of evs))"

definition enter_all :: "timed_event list \<Rightarrow> incoming_data_buffer \<times> job_queue \<Rightarrow>
    (incoming_data_buffer \<times> job_queue) outcome" where
  "enter_all = fold_outcome (\<lambda>(now, e). enter_event now e)"

section \<open>The buffer stays in order\<close>

definition buffer_wf :: "incoming_data_buffer \<Rightarrow> bool" where
  "buffer_wf b \<longleftrightarrow>
    tmap_wf (usersRegistered b) \<and> tmap_wf (usersRenamed b) \<and> tmap_wf (connectionChanges b) \<and>
    tmap_wf (dealsWon b) \<and> (\<forall>r \<in> set (connectionChanges b). snd r \<le> 60)"

definition listening :: "incoming_data_buffer \<times> job_queue \<Rightarrow> bool" where
  "listening s \<longleftrightarrow> buffer_wf (fst s) \<and> job_queue_wf (snd s)"

lemma buffer_wf_new: "buffer_wf incoming_data_buffer_new"
  by (simp add: buffer_wf_def incoming_data_buffer_new_def)

lemma tmap_assign_snd:
  "\<forall>r \<in> set m. P (snd r) \<Longrightarrow> P v \<Longrightarrow> \<forall>r \<in> set (tmap_assign k v m). P (snd r)"
  by (induction k v m rule: tmap_assign.induct) auto

lemma buffer_wf_connection:
  "buffer_wf b \<Longrightarrow> s \<le> 60 \<Longrightarrow> buffer_wf (b\<lparr>connectionChanges := tmap_assign i s (connectionChanges b)\<rparr>)"
  using tmap_assign_snd [of "connectionChanges b" "\<lambda>s. s \<le> 60" s i]
  by (simp add: buffer_wf_def tmap_wf_assign)

definition fits :: "timed_event \<Rightarrow> incoming_data_buffer \<Rightarrow> bool" where
  "fits ev b \<longleftrightarrow>
    (case deal_of ev of None \<Rightarrow> True | Some (i, w) \<Rightarrow> in_long (tmap_at 0 i (dealsWon b) + w))"

lemma enter_event_ok:
  assumes "listening (b, q)" and "fits (now, e) b"
  shows "\<exists>b' q'. enter_event now e (b, q) = Inr (b', q') \<and> listening (b', q') \<and>
    usersRegistered b' = (case registration_of (now, e) of
      None \<Rightarrow> usersRegistered b | Some r \<Rightarrow> tmap_emplace (fst r) (snd r) (usersRegistered b)) \<and>
    usersRenamed b' = (case rename_of (now, e) of
      None \<Rightarrow> usersRenamed b | Some r \<Rightarrow> tmap_emplace (fst r) (snd r) (usersRenamed b)) \<and>
    connectionChanges b' = (case connection_of (now, e) of
      None \<Rightarrow> connectionChanges b | Some r \<Rightarrow> tmap_assign (fst r) (snd r) (connectionChanges b)) \<and>
    dealsWon b' = (case deal_of (now, e) of
      None \<Rightarrow> dealsWon b
    | Some r \<Rightarrow> tmap_assign (fst r) (tmap_at 0 (fst r) (dealsWon b) + snd r) (dealsWon b))"
proof (cases e)
  case (Connected i)
  have "job_queue_wf q" using assms(1) by (simp add: listening_def)
  from enqueueUserIdPromise_ok [OF this, of Listener "(i, tmap_find i (usersRegistered b) \<noteq> None)"]
  obtain q' where "enqueueUserIdPromise Listener (i, tmap_find i (usersRegistered b) \<noteq> None) q = Inr q'"
    "job_queue_wf q'" by blast
  then show ?thesis
    using Connected assms(1) buffer_wf_connection second_index_bound [of now]
    by (simp add: listening_def less_imp_le)
qed (use assms buffer_wf_connection in
    \<open>auto simp: listening_def fits_def buffer_wf_def tmap_wf_emplace tmap_wf_assign invalidSecond_def\<close>)

section \<open>A run of messages\<close>

text \<open>The amounts are not negative and a user's sum fits a \<open>long\<close>; then every partial sum does.\<close>

definition deals_fit :: "timed_event list \<Rightarrow> incoming_data_buffer \<Rightarrow> bool" where
  "deals_fit evs b \<longleftrightarrow>
    (\<forall>k. 0 \<le> tmap_at 0 k (dealsWon b) \<and> tmap_at 0 k (dealsWon b) + sum_list (deals_of k evs) < 2 ^ 63) \<and>
    (\<forall>k. \<forall>w \<in> set (deals_of k evs). 0 \<le> w)"

lemma deals_of_Cons:
  "deals_of k (ev # evs) =
    (case deal_of ev of None \<Rightarrow> deals_of k evs
     | Some r \<Rightarrow> if fst r = k then snd r # deals_of k evs else deals_of k evs)"
  by (simp add: deals_of_def List.map_filter_def split: option.splits)

lemma tmap_at_assign: "tmap_at d k (tmap_assign k' v m) = (if k = k' then v else tmap_at d k m)"
  by (simp add: tmap_at_def map_of_tmap_assign)

lemma deals_fit_step:
  assumes "deals_fit (ev # evs) b"
  shows "fits ev b"
    and "dealsWon b' = (case deal_of ev of None \<Rightarrow> dealsWon b
      | Some r \<Rightarrow> tmap_assign (fst r) (tmap_at 0 (fst r) (dealsWon b) + snd r) (dealsWon b)) \<Longrightarrow>
      deals_fit evs b'"
proof -
  have sub: "set (deals_of k evs) \<subseteq> set (deals_of k (ev # evs))" for k
    by (cases "deal_of ev") (auto simp: deals_of_Cons)
  have nonneg: "0 \<le> sum_list (deals_of k evs)" for k
    by (rule sum_list_nonneg) (use assms sub [of k] in \<open>auto simp: deals_fit_def\<close>)
  show "fits ev b"
  proof (cases "deal_of ev")
    case (Some r)
    have "0 \<le> tmap_at 0 (fst r) (dealsWon b)" "0 \<le> snd r"
      "tmap_at 0 (fst r) (dealsWon b) + (snd r + sum_list (deals_of (fst r) evs)) < 2 ^ 63"
      using assms Some by (auto simp: deals_fit_def deals_of_Cons dest: spec [of _ "fst r"])
    then have "in_long (tmap_at 0 (fst r) (dealsWon b) + snd r)"
      using nonneg [of "fst r"] by (simp add: in_long_def)
    then show ?thesis using Some by (cases r) (simp add: fits_def)
  qed (simp add: fits_def)
  show "deals_fit evs b'"
    if "dealsWon b' = (case deal_of ev of None \<Rightarrow> dealsWon b
      | Some r \<Rightarrow> tmap_assign (fst r) (tmap_at 0 (fst r) (dealsWon b) + snd r) (dealsWon b))"
  proof -
    have "0 \<le> tmap_at 0 k (dealsWon b') \<and> tmap_at 0 k (dealsWon b') + sum_list (deals_of k evs) < 2 ^ 63" for k
    proof -
      have k: "0 \<le> tmap_at 0 k (dealsWon b)"
        "tmap_at 0 k (dealsWon b) + sum_list (deals_of k (ev # evs)) < 2 ^ 63"
        "\<forall>w \<in> set (deals_of k (ev # evs)). 0 \<le> w"
        using assms unfolding deals_fit_def by blast+
      show ?thesis
        using k that by (cases "deal_of ev") (auto simp: deals_of_Cons tmap_at_assign split: if_splits)
    qed
    moreover have "\<forall>w \<in> set (deals_of k evs). 0 \<le> w" for k
      using assms sub [of k] unfolding deals_fit_def by blast
    ultimately show ?thesis unfolding deals_fit_def by blast
  qed
qed

lemma enter_all_ok:
  "listening (b, q) \<Longrightarrow> deals_fit evs b \<Longrightarrow>
    \<exists>b' q'. enter_all evs (b, q) = Inr (b', q') \<and> listening (b', q') \<and>
      usersRegistered b' =
        fold (\<lambda>(k, v). tmap_emplace k v) (List.map_filter registration_of evs) (usersRegistered b) \<and>
      usersRenamed b' = fold (\<lambda>(k, v). tmap_emplace k v) (List.map_filter rename_of evs) (usersRenamed b) \<and>
      connectionChanges b' =
        fold (\<lambda>(k, v). tmap_assign k v) (List.map_filter connection_of evs) (connectionChanges b) \<and>
      (\<forall>k. tmap_find k (dealsWon b') =
        (if tmap_find k (dealsWon b) = None \<and> deals_of k evs = [] then None
         else Some (tmap_at 0 k (dealsWon b) + sum_list (deals_of k evs))))"
proof (induction evs arbitrary: b q)
  case Nil
  then show ?case
    by (auto simp: enter_all_def List.map_filter_def deals_of_def tmap_at_def tmap_find_def split: option.splits)
next
  case (Cons ev evs)
  obtain now e where ev: "ev = (now, e)" by fastforce
  note step = deals_fit_step [OF Cons.prems(2)]
  from enter_event_ok [OF Cons.prems(1), of now e] step(1) ev obtain b1 q1 where
    one: "enter_event now e (b, q) = Inr (b1, q1)" "listening (b1, q1)"
      "usersRegistered b1 = (case registration_of ev of
        None \<Rightarrow> usersRegistered b | Some r \<Rightarrow> tmap_emplace (fst r) (snd r) (usersRegistered b))"
      "usersRenamed b1 = (case rename_of ev of
        None \<Rightarrow> usersRenamed b | Some r \<Rightarrow> tmap_emplace (fst r) (snd r) (usersRenamed b))"
      "connectionChanges b1 = (case connection_of ev of
        None \<Rightarrow> connectionChanges b | Some r \<Rightarrow> tmap_assign (fst r) (snd r) (connectionChanges b))"
      "dealsWon b1 = (case deal_of ev of None \<Rightarrow> dealsWon b
        | Some r \<Rightarrow> tmap_assign (fst r) (tmap_at 0 (fst r) (dealsWon b) + snd r) (dealsWon b))"
    by blast
  from Cons.IH [OF one(2) step(2) [OF one(6)]] obtain b2 q2 where
    two: "enter_all evs (b1, q1) = Inr (b2, q2)" "listening (b2, q2)"
      "usersRegistered b2 = fold (\<lambda>(k, v). tmap_emplace k v) (List.map_filter registration_of evs) (usersRegistered b1)"
      "usersRenamed b2 = fold (\<lambda>(k, v). tmap_emplace k v) (List.map_filter rename_of evs) (usersRenamed b1)"
      "connectionChanges b2 = fold (\<lambda>(k, v). tmap_assign k v) (List.map_filter connection_of evs) (connectionChanges b1)"
      "\<And>k. tmap_find k (dealsWon b2) =
        (if tmap_find k (dealsWon b1) = None \<and> deals_of k evs = [] then None
         else Some (tmap_at 0 k (dealsWon b1) + sum_list (deals_of k evs)))"
    by blast
  have deals: "tmap_find k (dealsWon b2) =
      (if tmap_find k (dealsWon b) = None \<and> deals_of k (ev # evs) = [] then None
       else Some (tmap_at 0 k (dealsWon b) + sum_list (deals_of k (ev # evs))))" for k
    using two(6) [of k] one(6)
    by (cases "deal_of ev") (auto simp: deals_of_Cons tmap_at_def tmap_find_def map_of_tmap_assign split: option.splits)
  have "enter_all (ev # evs) (b, q) = Inr (b2, q2)"
    using one(1) two(1) ev by (simp add: enter_all_def)
  moreover have "usersRegistered b2 =
      fold (\<lambda>(k, v). tmap_emplace k v) (List.map_filter registration_of (ev # evs)) (usersRegistered b)"
    using one(3) two(3) by (simp add: List.map_filter_simps split: option.splits prod.splits)
  moreover have "usersRenamed b2 =
      fold (\<lambda>(k, v). tmap_emplace k v) (List.map_filter rename_of (ev # evs)) (usersRenamed b)"
    using one(4) two(4) by (simp add: List.map_filter_simps split: option.splits prod.splits)
  moreover have "connectionChanges b2 =
      fold (\<lambda>(k, v). tmap_assign k v) (List.map_filter connection_of (ev # evs)) (connectionChanges b)"
    using one(5) two(5) by (simp add: List.map_filter_simps split: option.splits prod.splits)
  ultimately show ?case using two(2) deals by blast
qed

text \<open>The listener on the messages of a run of events, one after the other.\<close>

definition listen_all :: "timed_event list \<Rightarrow> message_battery \<times> incoming_data_buffer \<times> job_queue \<Rightarrow>
    (message_battery \<times> incoming_data_buffer \<times> job_queue) outcome" where
  "listen_all = fold_outcome (\<lambda>(now, e) (bat, b, q). listen now (istream_of (enc_event e)) bat b q)"

lemma listen_all_enters:
  assumes "\<forall>(now, e) \<in> set evs. valid_event e" and "enter_all evs (b, q) = Inr (b', q')"
  shows "\<exists>bat'. listen_all evs (bat, b, q) = Inr (bat', b', q')"
  using assms
proof (induction evs arbitrary: bat b q)
  case Nil
  then show ?case by (simp add: listen_all_def enter_all_def)
next
  case (Cons ev evs)
  obtain now e where ev: "ev = (now, e)" by fastforce
  obtain b1 q1 where one: "enter_event now e (b, q) = Inr (b1, q1)" "enter_all evs (b1, q1) = Inr (b', q')"
    using Cons.prems(2) ev by (auto simp: enter_all_def bind_outcome_Inr_iff)
  have "valid_event e" using Cons.prems(1) ev by simp
  from listen_event [OF this, of now bat b q] one(1) obtain bat1 where
    "listen now (istream_of (enc_event e)) bat b q = Inr (bat1, b1, q1)" by auto
  moreover obtain bat' where "listen_all evs (bat1, b1, q1) = Inr (bat', b', q')"
    using Cons.IH [OF _ one(2)] Cons.prems(1) by auto
  ultimately show ?case using ev by (simp add: listen_all_def)
qed

end
