(* ===== verification/Rating_Message.thy ===== *)
theory Rating_Message
  imports Protocol
begin

text \<open>
  \<open>RatingPackMessage\<close> of \<open>ipc/protocol.h\<close>: the layout the service writes piece by piece through
  \<open>StorageBuilder\<close>, and the \<open>init\<close> with which the client reads it. The reader computes the number
  of entries from the header alone, so writer and reader agree only if the writer puts exactly that
  many entries; \<open>rating_pack_init_reads\<close> is the reader's half of that agreement.

  \<open>test/message_interpreter.h\<close>: the client's dispatch on the code of a service message.
\<close>

section \<open>The rating message\<close>

record rating_entry =
  entry_id :: int
  entry_name :: buffer_t
  entry_winnings :: int

record rating_pack_message =
  rp_userId :: int
  rp_ratingLength :: int
  rp_ratingPos :: int
  rp_ratings :: "rating_entry list"

definition rating_pack_default :: rating_pack_message where
  "rating_pack_default =
    \<lparr> rp_userId = invalidUserId, rp_ratingLength = 0, rp_ratingPos = 0, rp_ratings = [] \<rparr>"

definition storePackHeader :: "int \<Rightarrow> int \<Rightarrow> int \<Rightarrow> ostream \<Rightarrow> ostream" where
  "storePackHeader uid ratingLength ratingPos buffer =
    put_int ratingPos (put_int ratingLength (put_int uid buffer))"

definition storePackEntry :: "int \<Rightarrow> int \<Rightarrow> buffer_t \<Rightarrow> ostream \<Rightarrow> ostream outcome" where
  "storePackEntry uid winnings name buffer =
    bind_outcome (guard (length name \<le> UCHAR_MAX) (Fault Assertion_Failed)) (\<lambda>_.
      put_buffer name (put_long winnings (put_int uid buffer)))"

text \<open>The number of entries the reader expects.\<close>

definition ratingEntryCount :: "int \<Rightarrow> int \<Rightarrow> int" where
  "ratingEntryCount ratingLength ratingPos =
    min topPositions ratingPos +
    (if ratingPos > topPositions then min (ratingPos - topPositions) competitionDistance else 0) +
    min (ratingLength - ratingPos) (competitionDistance + 1)"

definition rating_entry_init :: "istream \<Rightarrow> (rating_entry \<times> istream) outcome" where
  "rating_entry_init buffer =
    bind_outcome (get_int buffer) (\<lambda>(i, b1).
    bind_outcome (get_long b1) (\<lambda>(w, b2).
    bind_outcome (get_buffer b2) (\<lambda>(n, b3).
      Inr (\<lparr> entry_id = i, entry_name = n, entry_winnings = w \<rparr>, b3))))"

definition rating_pack_init :: "istream \<Rightarrow> (rating_pack_message \<times> istream) outcome" where
  "rating_pack_init buffer =
    bind_outcome (get_int buffer) (\<lambda>(uid, b1).
    bind_outcome (get_int b1) (\<lambda>(len, b2).
    bind_outcome (get_int b2) (\<lambda>(pos, b3).
    bind_outcome (guard (len \<ge> 0 \<and> pos \<ge> 0 \<and> pos \<le> len) (Fault Assertion_Failed)) (\<lambda>_.
    bind_outcome (get_many rating_entry_init (nat (ratingEntryCount len pos)) b3) (\<lambda>(es, b4).
      Inr (\<lparr> rp_userId = uid, rp_ratingLength = len, rp_ratingPos = pos, rp_ratings = es \<rparr>, b4))))))"

subsection \<open>The entries are a codec\<close>

definition put_entry :: "rating_entry \<Rightarrow> ostream \<Rightarrow> ostream outcome" where
  "put_entry e = storePackEntry (entry_id e) (entry_winnings e) (entry_name e)"

definition enc_entry :: "rating_entry \<Rightarrow> buffer_t" where
  "enc_entry e = enc_int (entry_id e) @ enc_long (entry_winnings e) @ enc_buffer (entry_name e)"

definition valid_entry :: "rating_entry \<Rightarrow> bool" where
  "valid_entry e \<longleftrightarrow>
    in_int (entry_id e) \<and> in_long (entry_winnings e) \<and> length (entry_name e) \<le> UCHAR_MAX"

interpretation entries: codec put_entry rating_entry_init enc_entry valid_entry
  by unfold_locales
     (simp_all add: put_entry_def storePackEntry_def rating_entry_init_def enc_entry_def valid_entry_def
       put_int_at_end put_long_at_end buffers.put_appends
       ints.get_encoded longs.get_encoded buffers.get_encoded)

lemma length_enc_entry: "length (enc_entry e) = 13 + length (entry_name e)"
  by (simp add: enc_entry_def)

definition enc_header :: "int \<Rightarrow> int \<Rightarrow> int \<Rightarrow> buffer_t" where
  "enc_header uid len pos = enc_int uid @ enc_int len @ enc_int pos"

lemma length_enc_header [simp]: "length (enc_header uid len pos) = 12"
  by (simp add: enc_header_def)

lemma storePackHeader_at_end:
  "at_end s \<Longrightarrow> storePackHeader uid len pos s = append_bytes (enc_header uid len pos) s"
  by (simp add: storePackHeader_def put_int_at_end enc_header_def)

text \<open>Inside the buffer the header is overwritten in place.\<close>

lemma storePackHeader_overwrite:
  assumes "o_curPos s = p" and "p + 12 \<le> length (o_storage s)"
  shows "storePackHeader uid len pos s =
    s\<lparr>o_storage := memcpy_at p (enc_header uid len pos) (o_storage s), o_curPos := p + 12\<rparr>"
  using assms
  by (simp add: storePackHeader_def put_int_overwrite enc_header_def memcpy_at_adjacent)

lemma ratingEntryCount_nonneg: "0 \<le> pos \<Longrightarrow> pos \<le> len \<Longrightarrow> 0 \<le> ratingEntryCount len pos"
  by (simp add: ratingEntryCount_def topPositions_def competitionDistance_def)

lemma ratingEntryCount_bound: "ratingEntryCount len pos \<le> 31"
  by (auto simp: ratingEntryCount_def topPositions_def competitionDistance_def min_def)

text \<open>\<open>init\<close> reads back a header followed by the number of entries it announces.\<close>

lemma rating_pack_init_reads:
  assumes "in_int uid" "in_int len" "in_int pos" "0 \<le> pos" "pos \<le> len"
    and "\<And>e. e \<in> set es \<Longrightarrow> valid_entry e"
    and "int (length es) = ratingEntryCount len pos"
  shows "rating_pack_init (reading pre (enc_header uid len pos @ concat (map enc_entry es) @ rest)) =
    Inr (\<lparr> rp_userId = uid, rp_ratingLength = len, rp_ratingPos = pos, rp_ratings = es \<rparr>,
         reading (pre @ enc_header uid len pos @ concat (map enc_entry es)) rest)"
proof -
  have "nat (ratingEntryCount len pos) = length es"
    using assms(7) by simp
  then show ?thesis
    using assms entries.get_list [of es "pre @ enc_int uid @ enc_int len @ enc_int pos" rest]
    by (simp add: rating_pack_init_def enc_header_def ints.get_encoded)
qed

section \<open>The client's reading of service messages\<close>

datatype service_message =
    Error_Message protocol_error
  | Rating_Message rating_pack_message

definition protocol_error_of_number :: "error_code_t \<Rightarrow> protocol_error_code option" where
  "protocol_error_of_number ec =
    (if ec = protocol_error_number PROTOCOL_VERSION_UNSUPPORTED then Some PROTOCOL_VERSION_UNSUPPORTED
     else if ec = protocol_error_number USER_UNRECOGNIZED then Some USER_UNRECOGNIZED
     else if ec = protocol_error_number MULTIPLE_REGISTRATION then Some MULTIPLE_REGISTRATION
     else None)"

definition interpretIncomingData :: "istream \<Rightarrow> (service_message \<times> istream) outcome" where
  "interpretIncomingData data =
    bind_outcome (get_pod data) (\<lambda>(mc, b1).
      if mc = service_code PROTOCOL_ERROR then
        bind_outcome (get_pod b1) (\<lambda>(ec, b2).
          case protocol_error_of_number ec of
            None \<Rightarrow> Inl (Fault Assertion_Failed)
          | Some c \<Rightarrow> bind_outcome (error_init b2 (error_default c)) (\<lambda>(e, b3). Inr (Error_Message e, b3)))
      else if mc = service_code USER_RATING then
        bind_outcome (rating_pack_init b1) (\<lambda>(r, b2). Inr (Rating_Message r, b2))
      else Inl (Fault Assertion_Failed))"

lemma interpret_error:
  assumes "valid_error e"
  shows "interpretIncomingData
      (reading pre (bytes_of_word (service_code PROTOCOL_ERROR) @ enc_error e @ rest)) =
    Inr (Error_Message e, reading (pre @ bytes_of_word (service_code PROTOCOL_ERROR) @ enc_error e) rest)"
proof -
  have num: "protocol_error_of_number (protocol_error_number c) = Some c" for c
    by (cases c) (simp_all add: protocol_error_of_number_def)
  have init: "error_init (reading p (error_payload e @ rest)) (error_default (getErrorCode e)) =
      Inr (e, reading (p @ error_payload e) rest)" for p
    using assms by (cases e) (simp_all add: ints.get_encoded get_pod_bytes)
  show ?thesis
    by (simp add: interpretIncomingData_def enc_error_def get_pod_bytes num init)
qed

end
