(* ===== verification/Transport.thy ===== *)
theory Transport
  imports Rating_Message
begin

text \<open>
  \<open>ipc/transport.h\<close>: messages framed by a size of two bytes on a TCP connection, and the handshake.
  The socket is the asio library's; \<open>asio::write\<close> and \<open>asio::read\<close> are parameters of the definitions,
  functions on the state of the connection. An operation is a function of that state that returns an
  outcome and the state it leaves, so that what was sent before an error is kept.

  \<open>asio_stream\<close> states what the code relies on: one endpoint's writes append to the bytes in flight,
  the other's reads take them from the front and fail when too few are left.
\<close>

section \<open>Operations on a connection\<close>

type_synonym ('a, 'n) io = "'n \<Rightarrow> 'a outcome \<times> 'n"

definition io_return :: "'a \<Rightarrow> ('a, 'n) io" where
  "io_return a n = (Inr a, n)"

definition io_lift :: "'a outcome \<Rightarrow> ('a, 'n) io" where
  "io_lift x n = (x, n)"

definition io_bind :: "('a, 'n) io \<Rightarrow> ('a \<Rightarrow> ('b, 'n) io) \<Rightarrow> ('b, 'n) io" where
  "io_bind m f n = (case m n of (Inl e, n1) \<Rightarrow> (Inl e, n1) | (Inr a, n1) \<Rightarrow> f a n1)"

text \<open>\<open>catch (...)\<close>: every exception is replaced; a fault is not an exception.\<close>

definition io_catch_all :: "exn \<Rightarrow> ('a, 'n) io \<Rightarrow> ('a, 'n) io" where
  "io_catch_all e m n =
    (case m n of (Inl (Throw _), n1) \<Rightarrow> (Inl (Throw e), n1) | r \<Rightarrow> r)"

lemma io_bind_simps [simp]:
  "m n = (Inr a, n1) \<Longrightarrow> io_bind m f n = f a n1"
  "m n = (Inl e, n1) \<Longrightarrow> io_bind m f n = (Inl e, n1)"
  by (simp_all add: io_bind_def)

lemma io_lift_simps [simp]: "io_lift x n = (x, n)"
  by (simp add: io_lift_def)

lemma io_return_simps [simp]: "io_return a n = (Inr a, n)"
  by (simp add: io_return_def)

type_synonym 'n asio_write = "buffer_t \<Rightarrow> 'n \<Rightarrow> bool \<times> 'n"
type_synonym 'n asio_read = "nat \<Rightarrow> 'n \<Rightarrow> buffer_t option \<times> 'n"

section \<open>GenericMessageLayer\<close>

definition layer_send :: "'n asio_write \<Rightarrow> ostream \<Rightarrow> (unit, 'n) io" where
  "layer_send wr buffer n =
    (case wr (o_storage buffer) n of
       (ok, n1) \<Rightarrow> (if ok then Inr () else Inl (Throw Transport_Error_Recoverable), n1))"

text \<open>
  \<open>ms - sizeof(ms)\<close> is computed in \<open>size_t\<close>; for a size below two it wraps around to more than a
  vector can hold and \<open>resize\<close> throws \<open>std::length_error\<close>.
\<close>

definition layer_receive :: "'n asio_read \<Rightarrow> (istream, 'n) io" where
  "layer_receive rd n =
    (case rd (sizeof TYPE(16 word)) n of
       (None, n1) \<Rightarrow> (Inl (Throw Transport_Error_Recoverable), n1)
     | (Some ms_bytes, n1) \<Rightarrow>
         let ms = (word_of_bytes ms_bytes :: message_size_t);
             size = size_t_of (int (unat ms) - int (sizeof TYPE(16 word)))
         in if size > 2 ^ 63 - 1 then (Inl (Throw Std_Exception), n1)
            else (case rd (nat size) n1 of
                    (None, n2) \<Rightarrow> (Inl (Throw Transport_Error_Recoverable), n2)
                  | (Some storage, n2) \<Rightarrow> (Inr (istream_of storage), n2)))"

section \<open>ServerSideTransport and ClientSideTransport\<close>

definition createAdaptedRatingBuffer :: ostream where
  "createAdaptedRatingBuffer =
    put_pod (service_code USER_RATING) (put_pod (0 :: message_size_t) ostream_new)"

definition createAdaptedErrorBuffer :: ostream where
  "createAdaptedErrorBuffer =
    put_pod (service_code PROTOCOL_ERROR) (put_pod (0 :: message_size_t) ostream_new)"

definition createAdaptedMessageBuffer :: ostream where
  "createAdaptedMessageBuffer = put_pod (0 :: message_size_t) ostream_new"

definition framed :: "ostream \<Rightarrow> ostream" where
  "framed buffer =
    (let b1 = snd (setPos 0 buffer) in put_pod (of_nat (length (o_storage b1)) :: message_size_t) b1)"

definition writeMessage :: "'n asio_write \<Rightarrow> ostream \<Rightarrow> (ostream, 'n) io" where
  "writeMessage wr buffer =
    (let b2 = framed buffer in io_bind (layer_send wr b2) (\<lambda>_. io_return b2))"

definition server_handshake :: "'n asio_write \<Rightarrow> istream \<Rightarrow> (unit, 'n) io" where
  "server_handshake wr buffer =
    io_bind (io_lift (get_pod buffer)) (\<lambda>(mc, b1).
    if mc \<noteq> client_code HANDSHAKE then io_lift (Inl (Throw Other_Exception))
    else io_bind (io_lift (handshake_init b1)) (\<lambda>(msg, b2).
    if m_protoVersion msg \<noteq> proto_version then
      let errorBuffer = error_store (error_default PROTOCOL_VERSION_UNSUPPORTED) createAdaptedErrorBuffer in
      io_bind (writeMessage wr errorBuffer) (\<lambda>_. io_lift (Inl (Throw Other_Exception)))
    else io_return ()))"

text \<open>The \<open>init\<close> of the socket, which accepts one connection, is a parameter.\<close>

definition server_launch :: "(unit, 'n) io \<Rightarrow> 'n asio_read \<Rightarrow> 'n asio_write \<Rightarrow> (unit, 'n) io" where
  "server_launch accept rd wr =
    io_bind accept (\<lambda>_. io_bind (layer_receive rd) (\<lambda>buffer.
      io_catch_all Transport_Error_Recoverable (server_handshake wr buffer)))"

definition client_hello :: "protocol_version_t \<Rightarrow> ostream" where
  "client_hello v =
    handshake_store \<lparr> m_protoVersion = v \<rparr> (msg_code_prefix HANDSHAKE createAdaptedMessageBuffer)"

definition client_launch :: "(unit, 'n) io \<Rightarrow> 'n asio_write \<Rightarrow> (ostream, 'n) io" where
  "client_launch connect wr =
    io_bind connect (\<lambda>_. writeMessage wr (client_hello proto_version))"

section \<open>What the socket promises\<close>

definition asio_stream ::
    "'m asio_write \<Rightarrow> 'n asio_read \<Rightarrow> ('m \<Rightarrow> buffer_t) \<Rightarrow> ('n \<Rightarrow> buffer_t) \<Rightarrow> bool" where
  "asio_stream wr rd sent pending \<longleftrightarrow>
    (\<forall>b n. fst (wr b n) \<longrightarrow> sent (snd (wr b n)) = sent n @ b) \<and>
    (\<forall>k n. k \<le> length (pending n) \<longrightarrow>
      fst (rd k n) = Some (take k (pending n)) \<and> pending (snd (rd k n)) = drop k (pending n)) \<and>
    (\<forall>k n. length (pending n) < k \<longrightarrow> fst (rd k n) = None)"

text \<open>A connection on which asio never reports an error, to show that the promise can be kept.\<close>

definition link_write :: "buffer_t asio_write" where "link_write b n = (True, n @ b)"

definition link_read :: "buffer_t asio_read" where
  "link_read k n = (if k \<le> length n then (Some (take k n), drop k n) else (None, n))"

lemma asio_stream_link: "asio_stream link_write link_read id id"
  by (simp add: asio_stream_def link_write_def link_read_def)

section \<open>Framing\<close>

definition frame :: "buffer_t \<Rightarrow> buffer_t" where
  "frame body = bytes_of_word (of_nat (length body + 2) :: message_size_t) @ body"

text \<open>A buffer under construction: two bytes kept for the size, then the body.\<close>

definition sized :: "buffer_t \<Rightarrow> ostream" where
  "sized body = append_bytes body (append_bytes (bytes_of_word (0 :: message_size_t)) ostream_new)"

lemma at_end_sized [simp]: "at_end (sized b)"
  by (simp add: sized_def)

lemma append_sized [simp]: "append_bytes b (sized a) = sized (a @ b)"
  by (simp add: sized_def)

lemma getPos_sized: "getPos (sized b) = length b + 2"
  by (simp add: sized_def getPos_def append_bytes_def ostream_new_def)

lemma storage_sized: "o_storage (sized b) = bytes_of_word (0 :: message_size_t) @ b"
  by (simp add: sized_def append_bytes_def ostream_new_def)

lemma adapted_buffers:
  "createAdaptedMessageBuffer = sized []"
  "createAdaptedRatingBuffer = sized (bytes_of_word (service_code USER_RATING))"
  "createAdaptedErrorBuffer = sized (bytes_of_word (service_code PROTOCOL_ERROR))"
  by (simp_all add: createAdaptedMessageBuffer_def createAdaptedRatingBuffer_def createAdaptedErrorBuffer_def
      put_pod_at_end sized_def del: service_code.simps)

lemma framed_sized: "framed (sized b) = \<lparr> o_curPos = 2, o_storage = frame b \<rparr>"
proof -
  have s: "snd (setPos 0 (sized b)) = \<lparr> o_curPos = 0, o_storage = bytes_of_word (0 :: message_size_t) @ b \<rparr>"
    by (simp add: setPos_def sized_def append_bytes_def ostream_new_def)
  show ?thesis
    unfolding framed_def s Let_def by (subst put_pod_overwrite) (simp_all add: memcpy_at_def frame_def add.commute)
qed

lemma layer_receive_frame:
  assumes asio: "asio_stream wr rd sent pending" and pending: "pending n = frame body @ rest"
    and size: "length body + 2 < 2 ^ 16"
  shows "\<exists>n'. layer_receive rd n = (Inr (istream_of body), n') \<and> pending n' = rest"
proof -
  let ?w = "of_nat (length body + 2) :: message_size_t"
  have len: "length (bytes_of_word ?w) = 2" by simp
  have R: "fst (rd k m) = Some (take k (pending m)) \<and> pending (snd (rd k m)) = drop k (pending m)"
    if "k \<le> length (pending m)" for k m
    using asio that unfolding asio_stream_def by blast
  have p: "pending n = bytes_of_word ?w @ body @ rest" using pending by (simp add: frame_def)
  have rd1: "fst (rd 2 n) = Some (bytes_of_word ?w)" "pending (snd (rd 2 n)) = body @ rest"
    using R [of 2 n] p len by simp_all
  have rd2: "fst (rd (length body) (snd (rd 2 n))) = Some body"
    "pending (snd (rd (length body) (snd (rd 2 n)))) = rest"
    using R [of "length body" "snd (rd 2 n)"] rd1(2) by simp_all
  have ms: "word_of_bytes (bytes_of_word ?w) = ?w" by (rule word_of_bytes_of_word) simp
  have "unat ?w = length body + 2" using size by (simp only: unat_of_nat) simp
  then have sz: "size_t_of (int (unat ?w) - 2) = int (length body)"
    using size by (simp add: size_t_of_def)
  have "layer_receive rd n =
      (Inr (istream_of body), snd (rd (length body) (snd (rd 2 n))))"
    using rd1 rd2(1) ms sz size
    by (cases "rd 2 n"; cases "rd (length body) (snd (rd 2 n))")
       (simp add: layer_receive_def sizeof_def Let_def)
  then show ?thesis using rd2(2) by blast
qed

lemma writeMessage_sized:
  assumes "asio_stream wr rd sent pending" and "writeMessage wr (sized b) n = (Inr buffer, n')"
  shows "sent n' = sent n @ frame b" and "buffer = \<lparr> o_curPos = 2, o_storage = frame b \<rparr>"
proof -
  obtain ok n1 where w: "wr (frame b) n = (ok, n1)" by fastforce
  have "ok \<and> n' = n1 \<and> buffer = \<lparr> o_curPos = 2, o_storage = frame b \<rparr>"
    using assms(2) w by (auto simp: writeMessage_def framed_sized layer_send_def io_bind_def Let_def split: if_splits)
  then show "sent n' = sent n @ frame b" "buffer = \<lparr> o_curPos = 2, o_storage = frame b \<rparr>"
    using assms(1) w unfolding asio_stream_def by (metis fst_conv snd_conv)+
qed

section \<open>The handshake\<close>

lemma client_hello_sized: "client_hello v = sized (bytes_of_word (client_code HANDSHAKE) @ bytes_of_word v)"
  by (simp add: client_hello_def handshake_store_def msg_code_prefix_def adapted_buffers put_pod_at_end
      del: client_code.simps)

lemma server_handshake_hello:
  assumes "v = proto_version"
  shows "server_handshake wr (istream_of (bytes_of_word (client_code HANDSHAKE) @ bytes_of_word v)) n = (Inr (), n)"
  using assms handshakes.get_encoded [where x = "\<lparr> m_protoVersion = v \<rparr>"
      and pre = "bytes_of_word (client_code HANDSHAKE)" and rest = "[]"]
  by (simp add: server_handshake_def istream_of_reading get_pod_bytes del: client_code.simps)

text \<open>Every other first message ends in the recoverable error.\<close>

lemma bytes_of_word_of_bytes:
  assumes "length bs = LENGTH('a::len) div 8" and "8 dvd LENGTH('a)"
  shows "bytes_of_word (word_of_bytes bs :: 'a word) = bs"
proof (rule nth_equalityI)
  show "length (bytes_of_word (word_of_bytes bs :: 'a word)) = length bs" using assms(1) by simp
  fix i
  assume "i < length (bytes_of_word (word_of_bytes bs :: 'a word))"
  then have i: "i < LENGTH('a) div 8" by simp
  show "bytes_of_word (word_of_bytes bs :: 'a word) ! i = bs ! i"
  proof (rule bit_word_eqI)
    fix k
    assume k: "k < LENGTH(8)"
    have "8 * i + k < LENGTH('a)" using i k assms(2) by (auto elim!: dvdE)
    then show "bit (bytes_of_word (word_of_bytes bs :: 'a word) ! i) k = bit (bs ! i) k"
      using i k assms(1) by (simp add: bytes_of_word_def bit_ucast_iff bit_drop_bit_eq bit_word_of_bytes)
  qed
qed

lemma get_pod_reading:
  assumes "8 dvd LENGTH('a::len)" and "get_pod (reading pre rest) = Inr (w :: 'a word, s)"
  shows "\<exists>rest'. rest = bytes_of_word w @ rest' \<and> s = reading (pre @ bytes_of_word w) rest'"
proof -
  let ?k = "LENGTH('a) div 8"
  have k: "?k \<le> length rest" and w: "w = word_of_bytes (take ?k rest)"
    and s: "s = \<lparr> i_curPos = length pre + ?k, i_storage = pre @ rest \<rparr>"
    using assms(2) by (auto simp: get_pod_def reading_def sizeof_def Let_def split: if_splits)
  have "bytes_of_word w = take ?k rest"
    unfolding w by (rule bytes_of_word_of_bytes) (use k assms(1) in simp_all)
  then show ?thesis using s k by (intro exI [of _ "drop ?k rest"]) (simp add: reading_def)
qed

lemma server_handshake_iff:
  "fst (server_handshake wr (istream_of body) n) = Inr () \<longleftrightarrow>
    (\<exists>rest. body = bytes_of_word (client_code HANDSHAKE) @ bytes_of_word proto_version @ rest)"
proof
  assume "\<exists>rest. body = bytes_of_word (client_code HANDSHAKE) @ bytes_of_word proto_version @ rest"
  then show "fst (server_handshake wr (istream_of body) n) = Inr ()"
    by (auto simp: server_handshake_def istream_of_reading get_pod_bytes handshake_init_def
        simp del: client_code.simps)
next
  assume ok: "fst (server_handshake wr (istream_of body) n) = Inr ()"
  then obtain mc b1 where mc: "get_pod (reading [] body) = Inr (mc, b1)" "mc = client_code HANDSHAKE"
      "fst (io_bind (io_lift (handshake_init b1)) (\<lambda>(msg, b2).
        if m_protoVersion msg \<noteq> proto_version then
          let errorBuffer = error_store (error_default PROTOCOL_VERSION_UNSUPPORTED) createAdaptedErrorBuffer in
          io_bind (writeMessage wr errorBuffer) (\<lambda>_. io_lift (Inl (Throw Other_Exception)))
        else io_return ()) n) = Inr ()"
    by (cases "get_pod (reading [] body) :: (8 word \<times> istream) outcome")
       (auto simp: server_handshake_def istream_of_reading io_bind_def split: if_splits)
  then obtain rest where rest: "body = bytes_of_word (client_code HANDSHAKE) @ rest"
      "b1 = reading (bytes_of_word (client_code HANDSHAKE)) rest"
    using get_pod_reading [of "[]" body mc b1] by auto
  obtain msg b2 where msg: "handshake_init b1 = Inr (msg, b2)" "m_protoVersion msg = proto_version"
    using mc(3) by (cases "handshake_init b1") (auto simp: io_bind_def Let_def split: if_splits prod.splits sum.splits)
  then have "get_pod b1 = Inr (proto_version, b2)"
    by (auto simp: handshake_init_def bind_outcome_Inr_iff)
  then show "\<exists>rest. body = bytes_of_word (client_code HANDSHAKE) @ bytes_of_word proto_version @ rest"
    using rest get_pod_reading [of _ rest proto_version b2] by auto
qed

lemma get_pod_no_fault: "get_pod b \<noteq> Inl (Fault f)"
  by (simp add: get_pod_def Let_def)

lemma layer_send_no_fault: "layer_send wr b m \<noteq> (Inl (Fault f), m')"
  by (simp add: layer_send_def split: prod.splits)

lemma server_launch_failures:
  assumes "accept n = (Inr (), n1)" and "layer_receive rd n1 = (Inr buffer, n2)"
    and "fst (server_launch accept rd wr n) = Inl e"
  shows "e = Throw Transport_Error_Recoverable"
proof -
  have no_fault: "fst (server_handshake wr buffer n2) \<noteq> Inl (Fault f)" for f
    by (auto simp: server_handshake_def handshake_init_def writeMessage_def io_bind_def io_lift_def
        io_return_def bind_outcome_def Let_def get_pod_no_fault
        split: sum.splits prod.splits if_splits dest: layer_send_no_fault [THEN notE])
  have "fst (io_catch_all Transport_Error_Recoverable (server_handshake wr buffer) n2) = Inl e"
    using assms by (simp add: server_launch_def)
  then show ?thesis
    using no_fault by (auto simp: io_catch_all_def split: prod.splits sum.splits failure.splits)
qed

end
