(* ===== verification/Worker_Pool.thy ===== *)
theory Worker_Pool
  imports Transport Rating_Calculator
begin

text \<open>
  \<open>service/worker_pool.cpp\<close>: what a worker thread writes. Each worker keeps a buffer that starts with
  the message header and the top of the rating (\<open>cacheTopRatings\<close>); for a user it appends the users
  around him, writes the header over the old one, sends the buffer and cuts it back to the cached top
  (\<open>processRatingImpl\<close>). The lemmas show that the bytes sent are one frame whose body the client's
  reader turns into exactly the message meant.
\<close>

section \<open>The buffers of a worker\<close>

record rating_buffer_data =
  bd_buffer :: ostream
  bd_base :: nat
  bd_topRatingsEnd :: nat

definition rating_buffer_make :: "ostream \<Rightarrow> rating_buffer_data" where
  "rating_buffer_make b = \<lparr> bd_buffer = b, bd_base = getPos b, bd_topRatingsEnd = 0 \<rparr>"

text \<open>The body of both loops: \<open>rating[i]\<close> and the entry of the user it points to.\<close>

definition store_rated :: "core_rating_data \<Rightarrow> nat \<Rightarrow> ostream \<Rightarrow> ostream outcome" where
  "store_rated c i buffer =
    bind_outcome (guard (i < length (rating_vector c)) (Fault Index_Out_Of_Range)) (\<lambda>_.
    bind_outcome (deref (objects c) (rating_vector c ! i)) (\<lambda>u.
      storePackEntry (user_id u) (amountWon u) (user_name u) buffer))"

definition cacheTopRatings :: "core_rating_data \<Rightarrow> rating_buffer_data \<Rightarrow> rating_buffer_data outcome" where
  "cacheTopRatings c bd =
    (let b0 = snd (rewind (bd_base bd) (bd_buffer bd));
         b1 = storePackHeader invalidId 0 0 b0;
         maxTopRating = min topPositions (int_of_size (length (rating_vector c)))
     in bind_outcome (fold_outcome (store_rated c) [0..<nat maxTopRating] b1) (\<lambda>b2.
       Inr (bd\<lparr>bd_buffer := b2, bd_topRatingsEnd := getPos b2\<rparr>)))"

text \<open>
  \<open>blockedWriteMessage\<close>: the lock guard is a temporary that is gone before \<open>writeMessage\<close> is called,
  so for one thread the call is \<open>writeMessage\<close>.
\<close>

definition blockedWriteMessage :: "'n asio_write \<Rightarrow> ostream \<Rightarrow> (ostream, 'n) io" where
  "blockedWriteMessage wr buffer = writeMessage wr buffer"

definition processRatingImpl ::
    "'n asio_write \<Rightarrow> core_rating_data \<Rightarrow> int \<Rightarrow> int \<Rightarrow> rating_buffer_data \<Rightarrow> (rating_buffer_data, 'n) io" where
  "processRatingImpl wr c uid rating bd =
    io_bind (io_lift (guard (size_t_of rating \<le> int (length (rating_vector c)) \<and>
        getPos (bd_buffer bd) = bd_topRatingsEnd bd) (Fault Assertion_Failed))) (\<lambda>_.
    let size = int_of_size (length (rating_vector c));
        ratingRangeBegin = max topPositions (rating - competitionDistance);
        ratingRangeEnd = min size (rating + competitionDistance + 1)
    in io_bind (io_lift (fold_outcome (store_rated c) [nat ratingRangeBegin..<nat ratingRangeEnd] (bd_buffer bd))) (\<lambda>b1.
       let b2 = storePackHeader uid size rating (snd (setPos (bd_base bd) b1)) in
       io_bind (blockedWriteMessage wr b2) (\<lambda>b3.
         io_return (bd\<lparr>bd_buffer := snd (rewind (bd_topRatingsEnd bd) b3)\<rparr>))))"

definition processRatingData ::
    "'n asio_write \<Rightarrow> core_rating_data \<Rightarrow> addr \<Rightarrow> rating_buffer_data \<Rightarrow> (rating_buffer_data, 'n) io" where
  "processRatingData wr c ud bd =
    io_bind (io_lift (deref (objects c) ud)) (\<lambda>u.
      processRatingImpl wr c (user_id u) (user_rating u) bd)"

definition processRatingPromise ::
    "'n asio_write \<Rightarrow> core_rating_data \<Rightarrow> user_id_promise \<Rightarrow> rating_buffer_data \<Rightarrow>
      (bool \<times> rating_buffer_data, 'n) io" where
  "processRatingPromise wr c userIdPromise bd =
    (case hmap_find (fst userIdPromise) (activeUsers c) of
       Some activeUser \<Rightarrow>
         io_bind (io_lift (deref (objects c) activeUser)) (\<lambda>u.
         io_bind (processRatingImpl wr c (user_id u) (user_rating u) bd) (\<lambda>bd. io_return (True, bd)))
     | None \<Rightarrow>
         if hmap_find (fst userIdPromise) (silentUsers c) \<noteq> None \<or> snd userIdPromise then
           io_bind (processRatingImpl wr c (fst userIdPromise) (int_of_size (length (rating_vector c))) bd)
             (\<lambda>bd. io_return (True, bd))
         else io_return (False, bd))"

text \<open>A null error pointer never reaches \<open>processError\<close>; dereferencing one would be a fault.\<close>

definition processError :: "'n asio_write \<Rightarrow> nat \<Rightarrow> error_ptr \<Rightarrow> ostream \<Rightarrow> (ostream, 'n) io" where
  "processError wr pos error buffer =
    (case error of
       None \<Rightarrow> io_lift (Inl (Fault Null_Dereference))
     | Some e \<Rightarrow>
         io_bind (blockedWriteMessage wr (error_store e buffer)) (\<lambda>b.
           io_return (snd (rewind pos b))))"

section \<open>What the messages mean\<close>

definition entry_of :: "full_user_data \<Rightarrow> rating_entry" where
  "entry_of u = \<lparr> entry_id = user_id u, entry_name = user_name u, entry_winnings = amountWon u \<rparr>"

definition entry_at :: "core_rating_data \<Rightarrow> nat \<Rightarrow> rating_entry" where
  "entry_at c i = (case objects c (rating_vector c ! i) of Some u \<Rightarrow> entry_of u)"

text \<open>The positions a user at \<open>pos\<close> of \<open>n\<close> is told about: the top ten and ten on either side.\<close>

definition told_positions :: "nat \<Rightarrow> nat \<Rightarrow> nat list" where
  "told_positions n pos = filter (\<lambda>i. i < 10 \<or> pos \<le> i + 10 \<and> i \<le> pos + 10) [0..<n]"

definition pack_for :: "core_rating_data \<Rightarrow> int \<Rightarrow> nat \<Rightarrow> rating_pack_message" where
  "pack_for c uid pos =
    \<lparr> rp_userId = uid, rp_ratingLength = int (length (rating_vector c)), rp_ratingPos = int pos,
      rp_ratings = map (entry_at c) (told_positions (length (rating_vector c)) pos) \<rparr>"

definition rating_body :: "core_rating_data \<Rightarrow> int \<Rightarrow> nat \<Rightarrow> buffer_t" where
  "rating_body c uid pos =
    bytes_of_word (service_code USER_RATING) @ enc_header uid (int (length (rating_vector c))) (int pos) @
    concat (map enc_entry (map (entry_at c) (told_positions (length (rating_vector c)) pos)))"

text \<open>Users whose data fits the message: the name's length a byte, the numbers their types.\<close>

definition wire_ok :: "core_rating_data \<Rightarrow> bool" where
  "wire_ok c \<longleftrightarrow>
    (\<forall>a \<in> set (rating_vector c). \<exists>u. a \<noteq> nullptr \<and> objects c a = Some u \<and> valid_entry (entry_of u)) \<and>
    int (length (rating_vector c)) \<le> INT_MAX"

text \<open>The cached state: two bytes for the size, the code, some header, the entries of the top.\<close>

definition top_entries :: "core_rating_data \<Rightarrow> buffer_t" where
  "top_entries c = concat (map enc_entry (map (entry_at c) [0..<min 10 (length (rating_vector c))]))"

definition cached_storage :: "buffer_t \<Rightarrow> buffer_t \<Rightarrow> core_rating_data \<Rightarrow> buffer_t" where
  "cached_storage sz h c = sz @ bytes_of_word (service_code USER_RATING) @ h @ top_entries c"

definition cached :: "core_rating_data \<Rightarrow> rating_buffer_data \<Rightarrow> bool" where
  "cached c bd \<longleftrightarrow>
    (\<exists>sz h. length sz = 2 \<and> length h = 12 \<and>
      bd = \<lparr> bd_buffer = append_bytes (cached_storage sz h c) ostream_new, bd_base = 3,
             bd_topRatingsEnd = length (cached_storage sz h c) \<rparr>)"

lemma told_positions_split:
  "told_positions n pos = [0..<min 10 n] @ [max 10 (pos - 10)..<min n (pos + 11)]"
proof (rule sorted_distinct_set_unique)
  show "sorted (told_positions n pos)" "distinct (told_positions n pos)"
    by (simp_all add: told_positions_def sorted_filter [of id, simplified])
  show "sorted ([0..<min 10 n] @ [max 10 (pos - 10)..<min n (pos + 11)])"
    "distinct ([0..<min 10 n] @ [max 10 (pos - 10)..<min n (pos + 11)])"
    by (auto simp: sorted_append)
  show "set (told_positions n pos) = set ([0..<min 10 n] @ [max 10 (pos - 10)..<min n (pos + 11)])"
    by (auto simp: told_positions_def)
qed

text \<open>As many positions are told as the reader expects.\<close>

lemma length_told_positions:
  assumes "pos \<le> n"
  shows "int (length (told_positions n pos)) = ratingEntryCount (int n) (int pos)"
  using assms
  by (auto simp: told_positions_split ratingEntryCount_def topPositions_def competitionDistance_def
      min_def max_def)

lemma told_positions_bound: "i \<in> set (told_positions n pos) \<Longrightarrow> i < n"
  by (simp add: told_positions_def)

lemma entry_at_valid:
  assumes "wire_ok c" and "i < length (rating_vector c)"
  shows "valid_entry (entry_at c i)" and "store_rated c i = put_entry (entry_at c i)"
proof -
  have "rating_vector c ! i \<in> set (rating_vector c)" using assms(2) by simp
  then obtain u where "rating_vector c ! i \<noteq> nullptr" "objects c (rating_vector c ! i) = Some u"
      "valid_entry (entry_of u)"
    using assms(1) unfolding wire_ok_def by blast
  then show "valid_entry (entry_at c i)" "store_rated c i = put_entry (entry_at c i)"
    using assms(2) by (simp_all add: entry_at_def store_rated_def put_entry_def entry_of_def fun_eq_iff)
qed

lemma store_range:
  assumes "wire_ok c" and "\<And>i. i \<in> set is \<Longrightarrow> i < length (rating_vector c)" and "at_end b"
  shows "fold_outcome (store_rated c) is b =
    Inr (append_bytes (concat (map enc_entry (map (entry_at c) is))) b)"
proof -
  have "fold_outcome (store_rated c) is b' = fold_outcome put_entry (map (entry_at c) is) b'" for b'
    using assms(2)
  proof (induction "is" arbitrary: b')
    case (Cons i "is")
    then have "store_rated c i = put_entry (entry_at c i)" using entry_at_valid(2) [OF assms(1)] by simp
    then show ?case using Cons by (cases "put_entry (entry_at c i) b'") auto
  qed simp
  moreover have "valid_entry e" if "e \<in> set (map (entry_at c) is)" for e
    using that entry_at_valid(1) [OF assms(1)] assms(2) by auto
  ultimately show ?thesis using entries.put_list assms(3) by metis
qed

section \<open>The cache\<close>

lemma cacheTopRatings_ok:
  assumes wire: "wire_ok c" and base: "bd_base bd = 3" and sz: "length sz = 2"
    and buffer: "take 3 (o_storage (bd_buffer bd)) = sz @ bytes_of_word (service_code USER_RATING)"
  shows "\<exists>bd'. cacheTopRatings c bd = Inr bd' \<and> cached c bd'"
proof -
  let ?code = "bytes_of_word (service_code USER_RATING)" and ?h = "enc_header invalidId 0 0"
  have "length (take 3 (o_storage (bd_buffer bd))) = 3" unfolding buffer using sz by simp
  then have len: "3 \<le> length (o_storage (bd_buffer bd))" by simp
  have b0: "snd (rewind 3 (bd_buffer bd)) = append_bytes (sz @ ?code) ostream_new"
    using len buffer sz by (simp add: rewind_def vector_resize_def append_bytes_def ostream_new_def)
  have b1: "storePackHeader invalidId 0 0 (append_bytes (sz @ ?code) ostream_new) =
      append_bytes (sz @ ?code @ ?h) ostream_new"
    by (simp add: storePackHeader_at_end)
  have top: "nat (min topPositions (int_of_size (length (rating_vector c)))) = min 10 (length (rating_vector c))"
    using wire by (simp add: wire_ok_def topPositions_def min_def)
  have "fold_outcome (store_rated c) [0..<min 10 (length (rating_vector c))] (append_bytes (sz @ ?code @ ?h) ostream_new) =
      Inr (append_bytes (cached_storage sz ?h c) ostream_new)"
    by (subst store_range [OF wire]) (auto simp: top_entries_def cached_storage_def)
  then have "cacheTopRatings c bd = Inr (bd\<lparr>bd_buffer := append_bytes (cached_storage sz ?h c) ostream_new,
      bd_topRatingsEnd := length (cached_storage sz ?h c)\<rparr>)"
    using b0 b1 top base
    by (simp add: cacheTopRatings_def Let_def) (simp add: getPos_def append_bytes_def ostream_new_def)
  moreover have "cached c (bd\<lparr>bd_buffer := append_bytes (cached_storage sz ?h c) ostream_new,
      bd_topRatingsEnd := length (cached_storage sz ?h c)\<rparr>)"
    unfolding cached_def using sz base by (intro exI [of _ sz] exI [of _ ?h]) (cases bd, simp)
  ultimately show ?thesis by blast
qed

lemma cacheTopRatings_fresh:
  assumes "wire_ok c"
  shows "\<exists>bd. cacheTopRatings c (rating_buffer_make createAdaptedRatingBuffer) = Inr bd \<and> cached c bd"
  by (rule cacheTopRatings_ok [OF assms, where sz = "bytes_of_word (0 :: message_size_t)"])
     (simp_all add: rating_buffer_make_def adapted_buffers getPos_sized storage_sized
       del: service_code.simps)

lemma cacheTopRatings_again:
  assumes "wire_ok c" and "cached c' bd"
  shows "\<exists>bd'. cacheTopRatings c bd = Inr bd' \<and> cached c bd'"
proof -
  obtain sz h where "length sz = 2" and bd: "bd = \<lparr> bd_buffer = append_bytes (cached_storage sz h c') ostream_new,
      bd_base = 3, bd_topRatingsEnd = length (cached_storage sz h c') \<rparr>"
    using assms(2) unfolding cached_def by blast
  then show ?thesis
    by (intro cacheTopRatings_ok [OF assms(1), where sz = sz]) (simp_all add: cached_storage_def)
qed

section \<open>A rating message\<close>

lemma length_top_entries_bound:
  "(\<And>e. e \<in> set es \<Longrightarrow> valid_entry e) \<Longrightarrow> length (concat (map enc_entry es)) \<le> 268 * length es"
proof (induction es)
  case (Cons e es)
  have "length (entry_name e) \<le> UCHAR_MAX" using Cons.prems [of e] by (simp add: valid_entry_def)
  then show ?case using Cons by (simp add: length_enc_entry UCHAR_MAX_def)
qed simp

lemma rating_body_small:
  assumes "wire_ok c" and "pos \<le> length (rating_vector c)"
  shows "length (rating_body c uid pos) + 2 < 2 ^ 16"
proof -
  let ?es = "map (entry_at c) (told_positions (length (rating_vector c)) pos)"
  have "valid_entry e" if "e \<in> set ?es" for e
    using that entry_at_valid(1) [OF assms(1)] told_positions_bound by auto
  then have "length (concat (map enc_entry ?es)) \<le> 268 * length ?es" by (rule length_top_entries_bound)
  moreover have "int (length ?es) \<le> 31"
    using length_told_positions [OF assms(2)] ratingEntryCount_bound by simp
  ultimately show ?thesis by (simp add: rating_body_def)
qed

text \<open>The buffer as it is sent: the header over the cached one, the users around behind the top.\<close>

lemma processRatingImpl_runs:
  assumes wire: "wire_ok c" and cache: "cached c bd" and pos: "pos \<le> length (rating_vector c)"
    and asio: "asio_stream wr rd sent pending"
  shows "if fst (wr (frame (rating_body c uid pos)) n)
    then (\<exists>bd' n'. processRatingImpl wr c uid (int pos) bd n = (Inr bd', n') \<and> cached c bd' \<and>
      sent n' = sent n @ frame (rating_body c uid pos))
    else (\<exists>n'. processRatingImpl wr c uid (int pos) bd n = (Inl (Throw Transport_Error_Recoverable), n'))"
proof -
  let ?N = "length (rating_vector c)" and ?code = "bytes_of_word (service_code USER_RATING)"
  obtain sz h where sz: "length sz = 2" "length h = 12" and
    bd: "bd = \<lparr> bd_buffer = append_bytes (cached_storage sz h c) ostream_new, bd_base = 3,
      bd_topRatingsEnd = length (cached_storage sz h c) \<rparr>"
    using cache unfolding cached_def by blast
  define E where "E = concat (map enc_entry (map (entry_at c) [max 10 (pos - 10)..<min ?N (pos + 11)]))"
  define H where "H = enc_header uid (int ?N) (int pos)"
  have N: "int ?N \<le> INT_MAX" using wire by (simp add: wire_ok_def)
  have range: "nat (max topPositions (int pos - competitionDistance)) = max 10 (pos - 10)"
    "nat (min (int_of_size ?N) (int pos + competitionDistance + 1)) = min ?N (pos + 11)"
    using int_of_size_small [OF N] unfolding topPositions_def competitionDistance_def by simp_all
  have b1: "fold_outcome (store_rated c) [max 10 (pos - 10)..<min ?N (pos + 11)] (bd_buffer bd) =
      Inr (append_bytes (cached_storage sz h c @ E) ostream_new)"
    unfolding bd by (subst store_range [OF wire]) (auto simp: E_def)
  define b2 where "b2 = storePackHeader uid (int ?N) (int pos)
      (snd (setPos 3 (append_bytes (cached_storage sz h c @ E) ostream_new)))"
  have b2: "b2 = \<lparr> o_curPos = 15, o_storage = cached_storage sz H c @ E \<rparr>"
  proof -
    have "snd (setPos 3 (append_bytes (cached_storage sz h c @ E) ostream_new)) =
        \<lparr> o_curPos = 3, o_storage = cached_storage sz h c @ E \<rparr>"
      using sz by (simp add: setPos_def append_bytes_def ostream_new_def cached_storage_def)
    moreover have "memcpy_at 3 H (cached_storage sz h c @ E) = cached_storage sz H c @ E"
      using sz by (simp add: memcpy_at_def cached_storage_def H_def)
    ultimately show ?thesis
      using sz unfolding b2_def by (simp add: storePackHeader_overwrite cached_storage_def H_def)
  qed
  have body: "?code @ H @ top_entries c @ E = rating_body c uid pos"
    by (simp add: rating_body_def told_positions_split top_entries_def E_def H_def)
  have framed: "framed b2 = \<lparr> o_curPos = 2, o_storage = frame (rating_body c uid pos) \<rparr>"
  proof -
    have "snd (setPos 0 b2) = \<lparr> o_curPos = 0, o_storage = sz @ rating_body c uid pos \<rparr>"
      by (simp add: setPos_def b2 cached_storage_def flip: body)
    then show ?thesis
      using sz unfolding framed_def Let_def
      by (simp only:) (subst put_pod_overwrite, simp_all add: memcpy_at_def frame_def add.commute)
  qed
  obtain ok n1 where w: "wr (frame (rating_body c uid pos)) n = (ok, n1)" by fastforce
  let ?b4 = "snd (rewind (bd_topRatingsEnd bd) \<lparr> o_curPos = 2, o_storage = frame (rating_body c uid pos) \<rparr>)"
  have guard: "size_t_of (int pos) \<le> int ?N \<and> getPos (bd_buffer bd) = bd_topRatingsEnd bd"
    using N pos unfolding bd
    by (simp add: size_t_of_small getPos_def append_bytes_def ostream_new_def)
  have run: "processRatingImpl wr c uid (int pos) bd n =
      (if ok then (Inr (bd\<lparr>bd_buffer := ?b4\<rparr>), n1) else (Inl (Throw Transport_Error_Recoverable), n1))"
    using guard range b1 N w framed
    by (simp add: processRatingImpl_def io_bind_def Let_def blockedWriteMessage_def writeMessage_def
        layer_send_def bd flip: b2_def)
  show ?thesis
  proof (cases ok)
    case True
    have frame: "frame (rating_body c uid pos) =
        cached_storage (bytes_of_word (of_nat (length (rating_body c uid pos) + 2) :: message_size_t)) H c @ E"
      by (simp add: frame_def cached_storage_def flip: body)
    have "?b4 = append_bytes (cached_storage (bytes_of_word (of_nat (length (rating_body c uid pos) + 2) :: message_size_t)) H c)
        ostream_new"
      unfolding frame bd
      using sz by (simp add: rewind_def vector_resize_def append_bytes_def ostream_new_def cached_storage_def H_def)
    then have "cached c (bd\<lparr>bd_buffer := ?b4\<rparr>)"
      unfolding cached_def bd using sz
      by (intro exI [of _ "bytes_of_word (of_nat (length (rating_body c uid pos) + 2) :: message_size_t)"] exI [of _ H])
         (simp add: cached_storage_def H_def)
    moreover have "sent n1 = sent n @ frame (rating_body c uid pos)"
      using asio w True unfolding asio_stream_def by (metis fst_conv snd_conv)
    ultimately show ?thesis using run True w by auto
  next
    case False
    then show ?thesis using run w by simp
  qed
qed

lemma processRatingImpl_ok:
  assumes "wire_ok c" and "cached c bd" and "pos \<le> length (rating_vector c)"
    and "asio_stream wr rd sent pending"
  shows "(\<exists>bd' n'. processRatingImpl wr c uid (int pos) bd n = (Inr bd', n') \<and> cached c bd' \<and>
      sent n' = sent n @ frame (rating_body c uid pos)) \<or>
    (\<exists>n'. processRatingImpl wr c uid (int pos) bd n = (Inl (Throw Transport_Error_Recoverable), n'))"
  using processRatingImpl_runs [OF assms, of uid n] by (simp split: if_splits)

section \<open>The client's reading\<close>

lemma rating_body_read:
  assumes wire: "wire_ok c" and pos: "pos \<le> length (rating_vector c)" and uid: "in_int uid"
  shows "interpretIncomingData (istream_of (rating_body c uid pos)) =
    Inr (Rating_Message (pack_for c uid pos), reading (rating_body c uid pos) [])"
proof -
  let ?N = "length (rating_vector c)" and ?code = "bytes_of_word (service_code USER_RATING)"
  let ?es = "map (entry_at c) (told_positions ?N pos)"
  have N: "in_int (int ?N)" "in_int (int pos)" using wire pos by (simp_all add: wire_ok_def in_int_def INT_MAX_def)
  have "valid_entry e" if "e \<in> set ?es" for e
    using that entry_at_valid(1) [OF wire] told_positions_bound by auto
  moreover have "int (length ?es) = ratingEntryCount (int ?N) (int pos)"
    using length_told_positions [OF pos] by simp
  ultimately have "rating_pack_init (reading ?code (enc_header uid (int ?N) (int pos) @ concat (map enc_entry ?es) @ [])) =
      Inr (pack_for c uid pos, reading (?code @ enc_header uid (int ?N) (int pos) @ concat (map enc_entry ?es)) [])"
    using rating_pack_init_reads [OF uid N, of ?es ?code "[]"] pos by (simp add: pack_for_def)
  moreover have "service_code USER_RATING \<noteq> service_code PROTOCOL_ERROR" by simp
  ultimately show ?thesis
    by (simp add: interpretIncomingData_def istream_of_reading rating_body_def get_pod_bytes del: service_code.simps)
qed

definition error_body :: "protocol_error \<Rightarrow> buffer_t" where
  "error_body e = bytes_of_word (service_code PROTOCOL_ERROR) @ enc_error e"

lemma error_body_read:
  "valid_error e \<Longrightarrow>
    interpretIncomingData (istream_of (error_body e)) = Inr (Error_Message e, reading (error_body e) [])"
  using interpret_error [of e "[]" "[]"] by (simp add: istream_of_reading error_body_def)

text \<open>The error buffer between two errors: the size, whatever it is, and the code.\<close>

definition error_ready :: "ostream \<Rightarrow> bool" where
  "error_ready b \<longleftrightarrow>
    (\<exists>sz. length sz = 2 \<and> b = append_bytes (sz @ bytes_of_word (service_code PROTOCOL_ERROR)) ostream_new)"

lemma error_ready_fresh: "error_ready createAdaptedErrorBuffer"
  unfolding error_ready_def
  by (intro exI [of _ "bytes_of_word (0 :: message_size_t)"]) (simp add: adapted_buffers sized_def)

lemma processError_ok:
  assumes ready: "error_ready b" and valid: "valid_error e" and asio: "asio_stream wr rd sent pending"
  shows "(\<exists>b' n'. processError wr 3 (Some e) b n = (Inr b', n') \<and> error_ready b' \<and>
      sent n' = sent n @ frame (error_body e)) \<or>
    (\<exists>n'. processError wr 3 (Some e) b n = (Inl (Throw Transport_Error_Recoverable), n'))"
proof -
  let ?code = "bytes_of_word (service_code PROTOCOL_ERROR)"
  obtain sz where sz: "length sz = 2" "b = append_bytes (sz @ ?code) ostream_new"
    using ready unfolding error_ready_def by blast
  have store: "error_store e b = append_bytes (sz @ error_body e) ostream_new"
    using error_store_at_end [OF valid, of b] sz(2) by (simp add: error_body_def)
  have framed: "framed (error_store e b) = \<lparr> o_curPos = 2, o_storage = frame (error_body e) \<rparr>"
  proof -
    have "snd (setPos 0 (error_store e b)) = \<lparr> o_curPos = 0, o_storage = sz @ error_body e \<rparr>"
      by (simp add: store setPos_def append_bytes_def ostream_new_def)
    then show ?thesis
      using sz unfolding framed_def Let_def
      by (simp only:) (subst put_pod_overwrite, simp_all add: memcpy_at_def frame_def add.commute)
  qed
  obtain ok n1 where w: "wr (frame (error_body e)) n = (ok, n1)" by fastforce
  let ?b' = "snd (rewind 3 \<lparr> o_curPos = 2, o_storage = frame (error_body e) \<rparr>)"
  have run: "processError wr 3 (Some e) b n =
      (if ok then (Inr ?b', n1) else (Inl (Throw Transport_Error_Recoverable), n1))"
    using w framed
    by (simp add: processError_def io_bind_def Let_def blockedWriteMessage_def writeMessage_def layer_send_def)
  show ?thesis
  proof (cases ok)
    case True
    have "?b' = append_bytes (bytes_of_word (of_nat (length (error_body e) + 2) :: message_size_t) @ ?code) ostream_new"
      by (simp add: frame_def error_body_def rewind_def vector_resize_def append_bytes_def ostream_new_def)
    then have "error_ready ?b'"
      unfolding error_ready_def
      by (intro exI [of _ "bytes_of_word (of_nat (length (error_body e) + 2) :: message_size_t)"]) simp
    moreover have "sent n1 = sent n @ frame (error_body e)"
      using asio w True unfolding asio_stream_def by (metis fst_conv snd_conv)
    ultimately show ?thesis using run True by auto
  next
    case False
    then show ?thesis using run by simp
  qed
qed

section \<open>Answers to promises\<close>

text \<open>Where the rating message places a user: in the rating, or one past the last.\<close>

definition answer_position :: "core_rating_data \<Rightarrow> user_id_promise \<Rightarrow> nat option" where
  "answer_position c p =
    (case hmap_find (fst p) (activeUsers c) of
       Some a \<Rightarrow> map_option (\<lambda>u. nat (user_rating u)) (objects c a)
     | None \<Rightarrow>
         if userExists c (fst p) \<or> snd p then Some (length (rating_vector c)) else None)"

text \<open>What the worker needs of the data: in order, and every user fit for the wire.\<close>

definition serving :: "core_rating_data \<Rightarrow> bool" where
  "serving c \<longleftrightarrow> store_wf c \<and> rating_wf (objects c) (rating_vector c) \<and>
    (\<forall>a u. objects c a = Some u \<longrightarrow> valid_entry (entry_of u))"

lemma servingD:
  assumes "serving c"
  shows "store_wf c" and "rating_wf (objects c) (rating_vector c)"
    and "objects c a = Some u \<Longrightarrow> valid_entry (entry_of u)"
  using assms unfolding serving_def by blast+

lemma serving_wire:
  assumes "serving c"
  shows "wire_ok c"
  unfolding wire_ok_def
proof (intro conjI ballI)
  fix a
  assume "a \<in> set (rating_vector c)"
  then obtain u where "objects c a = Some u"
    using rating_wfD(1) [OF servingD(2) [OF assms]] by blast
  then show "\<exists>u. a \<noteq> nullptr \<and> objects c a = Some u \<and> valid_entry (entry_of u)"
    using store_wfD(6) [OF servingD(1) [OF assms]] servingD(3) [OF assms] by blast
qed (rule rating_wfD(4) [OF servingD(2) [OF assms]])

lemma serving_user:
  assumes c: "serving c" and u: "objects c a = Some u"
  shows "\<exists>pos. user_rating u = int pos \<and> pos \<le> length (rating_vector c) \<and> in_int (user_id u) \<and>
    rating_vector c ! pos = a \<and> deref (objects c) a = Inr u"
proof -
  note rating = rating_wfD [OF servingD(2) [OF c]]
  have "a \<in> set (rating_vector c)" using rating(1) u by blast
  then obtain i where i: "i < length (rating_vector c)" "rating_vector c ! i = a" by (metis in_set_conv_nth)
  then have "user_rating u = int i" using rating(5) [OF i(1)] u by auto
  moreover have "in_int (user_id u)" using servingD(3) [OF c u] by (simp add: valid_entry_def entry_of_def)
  moreover have "deref (objects c) a = Inr u" using store_wfD(6) [OF servingD(1) [OF c] u] u by simp
  ultimately show ?thesis using i by (intro exI [of _ i]) simp
qed

lemma processRatingData_ok:
  assumes c: "serving c" and cache: "cached c bd" and asio: "asio_stream wr rd sent pending"
    and u: "objects c a = Some u"
  shows "(\<exists>bd' n'. processRatingData wr c a bd n = (Inr bd', n') \<and> cached c bd' \<and>
      sent n' = sent n @ frame (rating_body c (user_id u) (nat (user_rating u)))) \<or>
    (\<exists>n'. processRatingData wr c a bd n = (Inl (Throw Transport_Error_Recoverable), n'))"
proof -
  obtain pos where pos: "user_rating u = int pos" "pos \<le> length (rating_vector c)" "deref (objects c) a = Inr u"
    using serving_user [OF c u] by blast
  then show ?thesis
    using processRatingImpl_ok [OF serving_wire [OF c] cache pos(2) asio, of "user_id u" n]
    by (simp add: processRatingData_def io_bind_def)
qed

lemma processRatingPromise_ok:
  assumes c: "serving c" and cache: "cached c bd" and asio: "asio_stream wr rd sent pending"
  shows "(case answer_position c p of
      None \<Rightarrow> processRatingPromise wr c p bd n = (Inr (False, bd), n)
    | Some pos \<Rightarrow> pos \<le> length (rating_vector c) \<and>
        ((\<exists>bd' n'. processRatingPromise wr c p bd n = (Inr (True, bd'), n') \<and> cached c bd' \<and>
            sent n' = sent n @ frame (rating_body c (fst p) pos)) \<or>
         (\<exists>n'. processRatingPromise wr c p bd n = (Inl (Throw Transport_Error_Recoverable), n'))))"
proof (cases "hmap_find (fst p) (activeUsers c)")
  case (Some a)
  obtain u where u: "objects c a = Some u" "user_id u = fst p"
    using store_wfD(3) [OF servingD(1) [OF c] Some] by blast
  obtain pos where pos: "user_rating u = int pos" "pos \<le> length (rating_vector c)" "deref (objects c) a = Inr u"
    using serving_user [OF c u(1)] by blast
  then show ?thesis
    using processRatingImpl_ok [OF serving_wire [OF c] cache pos(2) asio, of "fst p" n] Some u
    by (auto simp: processRatingPromise_def io_bind_def answer_position_def)
next
  case None
  let ?N = "length (rating_vector c)"
  have N: "int_of_size ?N = int ?N" using c by (simp add: serving_def rating_wf_def)
  show ?thesis
    using processRatingImpl_ok [OF serving_wire [OF c] cache le_refl asio, of "fst p" n] None N
    by (auto simp: processRatingPromise_def io_bind_def answer_position_def userExists_def)
qed

end
