(* ===== verification/Worker_Jobs.thy ===== *)
theory Worker_Jobs
  imports Worker_Pool
begin

text \<open>
  The three loops of \<open>WorkerPool::doWork\<close> (\<open>service/worker_pool.cpp\<close>): a worker empties its queue of
  errors, then its queue of promises, then its queue of user data, and sends a message for each job.
  The loops have the shape \<open>while ((job = dequeue ()) is none of the empty value)\<close>, written once
  (\<open>drain_loop\<close>). Other threads may refill a queue without end, so the loop takes fuel; on a queue at
  rest one more unit than jobs is enough.

  The locale \<open>draining\<close> proves for all three that every job of the lane is answered, once and in order.
\<close>

section \<open>The loops\<close>

fun drain_loop ::
    "nat \<Rightarrow> (job_queue \<Rightarrow> ('j \<times> job_queue) outcome) \<Rightarrow> ('j \<Rightarrow> bool) \<Rightarrow> ('j \<Rightarrow> 's \<Rightarrow> ('s, 'n) io) \<Rightarrow>
      bool \<Rightarrow> job_queue \<Rightarrow> 's \<Rightarrow> ((bool \<times> job_queue \<times> 's) option, 'n) io" where
  "drain_loop 0 deq stop process newJobs q s = io_return None"
| "drain_loop (Suc fuel) deq stop process newJobs q s =
    io_bind (io_lift (deq q)) (\<lambda>(job, q1).
      if stop job then io_return (Some (newJobs, q1, s))
      else io_bind (process job s) (\<lambda>s1. drain_loop fuel deq stop process True q1 s1))"

definition errors_loop ::
    "nat \<Rightarrow> 'n asio_write \<Rightarrow> nat \<Rightarrow> nat \<Rightarrow> bool \<Rightarrow> job_queue \<Rightarrow> ostream \<Rightarrow>
      ((bool \<times> job_queue \<times> ostream) option, 'n) io" where
  "errors_loop fuel wr errorBufferBase c =
    drain_loop fuel (dequeueError c) (\<lambda>e. e = None) (processError wr errorBufferBase)"

definition promise_job ::
    "'n asio_write \<Rightarrow> nat \<Rightarrow> core_rating_data \<Rightarrow> user_id_promise \<Rightarrow> rating_buffer_data \<times> ostream \<Rightarrow>
      (rating_buffer_data \<times> ostream, 'n) io" where
  "promise_job wr errorBufferBase core p s =
    io_bind (processRatingPromise wr core p (fst s)) (\<lambda>(ok, bd).
      if ok then io_return (bd, snd s)
      else io_bind (processError wr errorBufferBase (Some (UserUnrecognizedError (fst p))) (snd s)) (\<lambda>eb.
        io_return (bd, eb)))"

definition promises_loop ::
    "nat \<Rightarrow> 'n asio_write \<Rightarrow> nat \<Rightarrow> core_rating_data \<Rightarrow> nat \<Rightarrow> bool \<Rightarrow> job_queue \<Rightarrow> rating_buffer_data \<times> ostream \<Rightarrow>
      ((bool \<times> job_queue \<times> rating_buffer_data \<times> ostream) option, 'n) io" where
  "promises_loop fuel wr errorBufferBase core c =
    drain_loop fuel (dequeueUserIdPromise c) (\<lambda>p. fst p = invalidId) (promise_job wr errorBufferBase core)"

definition depleteUserDataMessages ::
    "nat \<Rightarrow> 'n asio_write \<Rightarrow> core_rating_data \<Rightarrow> nat \<Rightarrow> job_queue \<Rightarrow> rating_buffer_data \<Rightarrow>
      ((bool \<times> job_queue \<times> rating_buffer_data) option, 'n) io" where
  "depleteUserDataMessages fuel wr core c =
    drain_loop fuel (dequeueUserData c) (\<lambda>a. a = nullptr) (processRatingData wr core) False"

text \<open>
  The part of a round behind the checks of the flags: the two loops and the depletion, and whether
  there was anything to do.
\<close>

definition io_some :: "('a option, 'n) io \<Rightarrow> ('a \<Rightarrow> ('b option, 'n) io) \<Rightarrow> ('b option, 'n) io" where
  "io_some m f = io_bind m (\<lambda>r. case r of None \<Rightarrow> io_return None | Some a \<Rightarrow> f a)"

definition serve_jobs ::
    "nat \<Rightarrow> 'n asio_write \<Rightarrow> nat \<Rightarrow> core_rating_data \<Rightarrow> nat \<Rightarrow> job_queue \<Rightarrow> rating_buffer_data \<Rightarrow> ostream \<Rightarrow>
      ((bool \<times> job_queue \<times> rating_buffer_data \<times> ostream) option, 'n) io" where
  "serve_jobs fuel wr errorBufferBase core c q bd eb =
    io_some (errors_loop fuel wr errorBufferBase c False q eb) (\<lambda>(new1, q1, eb1).
    io_some (promises_loop fuel wr errorBufferBase core c new1 q1 (bd, eb1)) (\<lambda>(new2, q2, bd2, eb2).
    io_some (depleteUserDataMessages fuel wr core c q2 bd2) (\<lambda>(new3, q3, bd3).
      io_return (Some (new2 \<or> new3, q3, bd3, eb2)))))"

section \<open>A loop empties its lane\<close>

locale draining = job_source deq lanes sentinel
  for deq :: "nat \<Rightarrow> job_queue \<Rightarrow> ('j \<times> job_queue) outcome"
    and lanes :: "job_queue \<Rightarrow> 'j list list" and sentinel :: 'j +
  fixes others :: "job_queue \<Rightarrow> 'o"
    and stop :: "'j \<Rightarrow> bool"
    and process :: "'j \<Rightarrow> 's \<Rightarrow> ('s, 'n) io"
    and inv :: "'s \<Rightarrow> bool"
    and ok :: "'j \<Rightarrow> bool"
    and out :: "'j \<Rightarrow> buffer_t"
    and sent :: "'n \<Rightarrow> buffer_t"
  assumes deq_others: "job_queue_wf q \<Longrightarrow> c < length (packs q) \<Longrightarrow> deq c q = Inr (v, q') \<Longrightarrow> others q' = others q"
    and stop_sentinel: "stop sentinel"
    and process_ok: "inv s \<Longrightarrow> ok v \<Longrightarrow>
      (\<exists>s' n'. process v s n = (Inr s', n') \<and> inv s' \<and> sent n' = sent n @ out v) \<or>
      (\<exists>n'. process v s n = (Inl (Throw Transport_Error_Recoverable), n'))"
begin

definition drained :: "bool \<Rightarrow> nat \<Rightarrow> job_queue \<Rightarrow> 'n \<Rightarrow> (bool \<times> job_queue \<times> 's) option outcome \<times> 'n \<Rightarrow> bool" where
  "drained newJobs c q n r \<longleftrightarrow>
    (\<exists>q' s' n'. r = (Inr (Some (newJobs \<or> lanes q ! c \<noteq> [], q', s')), n') \<and> job_queue_wf q' \<and>
      lanes q' = (lanes q)[c := []] \<and> others q' = others q \<and> inv s' \<and>
      sent n' = sent n @ concat (map out (lanes q ! c))) \<or>
    (\<exists>n'. r = (Inl (Throw Transport_Error_Recoverable), n'))"

lemma drains:
  "job_queue_wf q \<Longrightarrow> c < length (packs q) \<Longrightarrow> inv s \<Longrightarrow>
    \<forall>v \<in> set (lanes q ! c). ok v \<and> \<not> stop v \<Longrightarrow> length (lanes q ! c) < fuel \<Longrightarrow>
    drained newJobs c q n (drain_loop fuel (deq c) stop process newJobs q s n)"
proof (induction fuel arbitrary: q s n newJobs)
  case (Suc fuel)
  from deq_ok [OF Suc.prems(1,2)] obtain q1 where
    q1: "deq c q = Inr (case lanes q ! c of [] \<Rightarrow> sentinel | v # _ \<Rightarrow> v, q1)" "job_queue_wf q1"
      "lanes q1 = (lanes q)[c := tl (lanes q ! c)]"
    by blast
  have o1: "others q1 = others q" by (rule deq_others [OF Suc.prems(1,2) q1(1)])
  have len: "length (lanes q) = length (packs q)" "length (packs q1) = length (packs q)"
    using lanes_packs [of q] lanes_packs [of q1] q1(3) by simp_all
  show ?case
  proof (cases "lanes q ! c")
    case Nil
    then have "(lanes q)[c := []] = lanes q1" using q1(3) by simp
    then show ?thesis
      using Nil q1(1,2) o1 stop_sentinel Suc.prems(3) by (simp add: drained_def io_bind_def io_lift_def io_return_def)
  next
    case (Cons v vs)
    have v: "ok v" "\<not> stop v" using Suc.prems(4) Cons by simp_all
    have step: "drain_loop (Suc fuel) (deq c) stop process newJobs q s n =
        io_bind (process v s) (drain_loop fuel (deq c) stop process True q1) n"
      using q1(1) Cons v(2) by (simp add: io_bind_def io_lift_def)
    from process_ok [OF Suc.prems(3) v(1), of n] show ?thesis
    proof (elim disjE exE conjE)
      fix s1 n1
      assume s1: "process v s n = (Inr s1, n1)" "inv s1" "sent n1 = sent n @ out v"
      have lane1: "lanes q1 ! c = vs" using q1(3) Cons len Suc.prems(2) by simp
      have "drained True c q1 n1 (drain_loop fuel (deq c) stop process True q1 s1 n1)"
        using Suc.IH [OF q1(2) _ s1(2)] lane1 Suc.prems(2,4,5) Cons len by simp
      moreover have "drain_loop (Suc fuel) (deq c) stop process newJobs q s n =
          drain_loop fuel (deq c) stop process True q1 s1 n1"
        unfolding step using s1(1) by simp
      ultimately show ?thesis
        using lane1 q1(3) o1 s1(3) Cons by (simp add: drained_def)
    next
      fix n1
      assume "process v s n = (Inl (Throw Transport_Error_Recoverable), n1)"
      then show ?thesis unfolding step by (simp add: drained_def)
    qed
  qed
qed simp

end

section \<open>The three loops\<close>

text \<open>What a job is answered with.\<close>

definition error_answer :: "error_ptr \<Rightarrow> buffer_t" where
  "error_answer e = (case e of None \<Rightarrow> [] | Some e \<Rightarrow> frame (error_body e))"

definition promise_answer :: "core_rating_data \<Rightarrow> user_id_promise \<Rightarrow> buffer_t" where
  "promise_answer c p =
    (case answer_position c p of
       None \<Rightarrow> frame (error_body (UserUnrecognizedError (fst p)))
     | Some pos \<Rightarrow> frame (rating_body c (fst p) pos))"

definition user_data_answer :: "core_rating_data \<Rightarrow> addr \<Rightarrow> buffer_t" where
  "user_data_answer c a =
    (case objects c a of None \<Rightarrow> [] | Some u \<Rightarrow> frame (rating_body c (user_id u) (nat (user_rating u))))"

text \<open>
  The invariants of the loops carry the state the worker is in: the socket keeps its promise, the data
  is in order and the buffers are ready.
\<close>

definition errors_inv :: "'n asio_write \<Rightarrow> 'n asio_read \<Rightarrow> ('n \<Rightarrow> buffer_t) \<Rightarrow> ('n \<Rightarrow> buffer_t) \<Rightarrow> ostream \<Rightarrow> bool" where
  "errors_inv wr rd sent pending eb \<longleftrightarrow> asio_stream wr rd sent pending \<and> error_ready eb"

definition ratings_inv ::
    "'n asio_write \<Rightarrow> 'n asio_read \<Rightarrow> ('n \<Rightarrow> buffer_t) \<Rightarrow> ('n \<Rightarrow> buffer_t) \<Rightarrow> core_rating_data \<Rightarrow>
      rating_buffer_data \<Rightarrow> bool" where
  "ratings_inv wr rd sent pending c bd \<longleftrightarrow> asio_stream wr rd sent pending \<and> serving c \<and> cached c bd"

definition promises_inv ::
    "'n asio_write \<Rightarrow> 'n asio_read \<Rightarrow> ('n \<Rightarrow> buffer_t) \<Rightarrow> ('n \<Rightarrow> buffer_t) \<Rightarrow> core_rating_data \<Rightarrow>
      rating_buffer_data \<times> ostream \<Rightarrow> bool" where
  "promises_inv wr rd sent pending c s \<longleftrightarrow>
    ratings_inv wr rd sent pending c (fst s) \<and> errors_inv wr rd sent pending (snd s)"

interpretation errors_draining: draining dequeueError error_lanes None
    "\<lambda>q. (promise_lanes q, user_data_lanes q)" "\<lambda>e. e = None" "processError wr 3"
    "errors_inv wr rd sent pending" "\<lambda>e. \<exists>x. e = Some x \<and> valid_error x" error_answer sent
  for wr :: "'n asio_write" and rd sent pending
proof unfold_locales
  fix q q' c v
  assume "job_queue_wf q" "c < length (packs q)" "dequeueError c q = Inr (v, q')"
  then show "(promise_lanes q', user_data_lanes q') = (promise_lanes q, user_data_lanes q)"
    using dequeueError_ok [of q c] by auto
next
  fix s :: ostream and v :: error_ptr and n :: 'n
  assume s: "errors_inv wr rd sent pending s" and "\<exists>x. v = Some x \<and> valid_error x"
  then obtain e where e: "v = Some e" "valid_error e" by blast
  show "(\<exists>s' n'. processError wr 3 v s n = (Inr s', n') \<and> errors_inv wr rd sent pending s' \<and>
      sent n' = sent n @ error_answer v) \<or>
    (\<exists>n'. processError wr 3 v s n = (Inl (Throw Transport_Error_Recoverable), n'))"
    using processError_ok [OF _ e(2), of s wr rd sent pending n] s e(1)
    by (auto simp: errors_inv_def error_answer_def)
qed simp

interpretation user_data_draining: draining dequeueUserData user_data_lanes nullptr
    "\<lambda>q. (error_lanes q, promise_lanes q)" "\<lambda>a. a = nullptr" "processRatingData wr core"
    "ratings_inv wr rd sent pending core" "\<lambda>a. a \<in> dom (objects core)" "user_data_answer core" sent
  for wr :: "'n asio_write" and rd sent pending core
proof unfold_locales
  fix q q' c v
  assume "job_queue_wf q" "c < length (packs q)" "dequeueUserData c q = Inr (v, q')"
  then show "(error_lanes q', promise_lanes q') = (error_lanes q, promise_lanes q)"
    using dequeueUserData_ok [of q c] by auto
next
  fix s :: rating_buffer_data and v :: addr and n :: 'n
  assume s: "ratings_inv wr rd sent pending core s" and "v \<in> dom (objects core)"
  then obtain u where u: "objects core v = Some u" by blast
  show "(\<exists>s' n'. processRatingData wr core v s n = (Inr s', n') \<and> ratings_inv wr rd sent pending core s' \<and>
      sent n' = sent n @ user_data_answer core v) \<or>
    (\<exists>n'. processRatingData wr core v s n = (Inl (Throw Transport_Error_Recoverable), n'))"
    using processRatingData_ok [OF _ _ _ u, of s wr rd sent pending n] s u
    by (auto simp: ratings_inv_def user_data_answer_def)
qed simp

lemma promise_job_ok:
  assumes s: "promises_inv wr rd sent pending core s" and id: "in_int (fst p)"
  shows "(\<exists>s' n'. promise_job wr 3 core p s n = (Inr s', n') \<and> promises_inv wr rd sent pending core s' \<and>
      sent n' = sent n @ promise_answer core p) \<or>
    (\<exists>n'. promise_job wr 3 core p s n = (Inl (Throw Transport_Error_Recoverable), n'))"
proof -
  have inv: "serving core" "cached core (fst s)" "asio_stream wr rd sent pending" "error_ready (snd s)"
    using s by (simp_all add: promises_inv_def ratings_inv_def errors_inv_def)
  note promise = processRatingPromise_ok [OF inv(1-3), of p n]
  show ?thesis
  proof (cases "answer_position core p")
    case None
    have "valid_error (UserUnrecognizedError (fst p))" using id by simp
    from processError_ok [OF inv(4) this inv(3), of n] show ?thesis
      using promise None inv(1-3)
      by (auto simp: promise_job_def io_bind_def promises_inv_def ratings_inv_def errors_inv_def promise_answer_def)
  next
    case (Some pos)
    then show ?thesis
      using promise inv
      by (auto simp: promise_job_def io_bind_def promises_inv_def ratings_inv_def errors_inv_def promise_answer_def)
  qed
qed

interpretation promises_draining: draining dequeueUserIdPromise promise_lanes "(invalidRating, False)"
    "\<lambda>q. (error_lanes q, user_data_lanes q)" "\<lambda>p. fst p = invalidId" "promise_job wr 3 core"
    "promises_inv wr rd sent pending core" "\<lambda>p. in_int (fst p)" "promise_answer core" sent
  for wr :: "'n asio_write" and rd sent pending core
proof unfold_locales
  fix q q' c v
  assume "job_queue_wf q" "c < length (packs q)" "dequeueUserIdPromise c q = Inr (v, q')"
  then show "(error_lanes q', user_data_lanes q') = (error_lanes q, user_data_lanes q)"
    using dequeueUserIdPromise_ok [of q c] by auto
qed (use promise_job_ok in \<open>simp_all add: invalidRating_def invalidId_def invalidUserId_def\<close>)

section \<open>A round\<close>

text \<open>The jobs of a lane a round can answer.\<close>

definition lane_ok :: "core_rating_data \<Rightarrow> job_queue \<Rightarrow> nat \<Rightarrow> bool" where
  "lane_ok core q c \<longleftrightarrow>
    (\<forall>e \<in> set (error_lanes q ! c). \<exists>x. e = Some x \<and> valid_error x) \<and>
    (\<forall>p \<in> set (promise_lanes q ! c). in_int (fst p) \<and> fst p \<noteq> invalidId) \<and>
    (\<forall>a \<in> set (user_data_lanes q ! c). a \<in> dom (objects core))"

definition round_answers :: "core_rating_data \<Rightarrow> job_queue \<Rightarrow> nat \<Rightarrow> buffer_t" where
  "round_answers core q c =
    concat (map error_answer (error_lanes q ! c)) @
    concat (map (promise_answer core) (promise_lanes q ! c)) @
    concat (map (user_data_answer core) (user_data_lanes q ! c))"

text \<open>Each loop either runs to the end of its lane or meets the recoverable error.\<close>

lemma errors_stage:
  assumes q: "job_queue_wf q" "c < length (packs q)" and lanes: "lane_ok core q c"
    and inv: "errors_inv wr rd sent pending eb" and fuel: "length (error_lanes q ! c) < fuel"
  obtains (error) n1 where
      "errors_loop fuel wr 3 c False q eb n = (Inl (Throw Transport_Error_Recoverable), n1)"
    | (run) q1 eb1 n1 where
      "errors_loop fuel wr 3 c False q eb n = (Inr (Some (error_lanes q ! c \<noteq> [], q1, eb1)), n1)"
      "job_queue_wf q1" "error_lanes q1 = (error_lanes q)[c := []]" "promise_lanes q1 = promise_lanes q"
      "user_data_lanes q1 = user_data_lanes q" "errors_inv wr rd sent pending eb1"
      "sent n1 = sent n @ concat (map error_answer (error_lanes q ! c))"
proof -
  have jobs: "\<forall>v \<in> set (error_lanes q ! c). (\<exists>x. v = Some x \<and> valid_error x) \<and> v \<noteq> None"
    using lanes unfolding lane_ok_def by blast
  show thesis
    using errors_draining.drains [OF q inv jobs fuel, of False n, folded errors_loop_def] error run
    unfolding errors_draining.drained_def by auto
qed

lemma promises_stage:
  assumes q: "job_queue_wf q" "c < length (packs q)"
    and lanes: "\<forall>p \<in> set (promise_lanes q ! c). in_int (fst p) \<and> fst p \<noteq> invalidId"
    and inv: "ratings_inv wr rd sent pending core bd" "errors_inv wr rd sent pending eb"
    and fuel: "length (promise_lanes q ! c) < fuel"
  obtains (error) n1 where
      "promises_loop fuel wr 3 core c new q (bd, eb) n = (Inl (Throw Transport_Error_Recoverable), n1)"
    | (run) q1 bd1 eb1 n1 where
      "promises_loop fuel wr 3 core c new q (bd, eb) n =
        (Inr (Some (new \<or> promise_lanes q ! c \<noteq> [], q1, bd1, eb1)), n1)"
      "job_queue_wf q1" "promise_lanes q1 = (promise_lanes q)[c := []]" "error_lanes q1 = error_lanes q"
      "user_data_lanes q1 = user_data_lanes q" "ratings_inv wr rd sent pending core bd1"
      "errors_inv wr rd sent pending eb1"
      "sent n1 = sent n @ concat (map (promise_answer core) (promise_lanes q ! c))"
proof -
  have s: "promises_inv wr rd sent pending core (bd, eb)" using inv by (simp add: promises_inv_def)
  show thesis
    using promises_draining.drains [OF q s lanes fuel, of new n, folded promises_loop_def] error run
    unfolding promises_draining.drained_def promises_inv_def by auto
qed

lemma user_data_stage:
  assumes q: "job_queue_wf q" "c < length (packs q)"
    and lanes: "\<forall>a \<in> set (user_data_lanes q ! c). a \<in> dom (objects core)"
    and inv: "ratings_inv wr rd sent pending core bd"
    and fuel: "length (user_data_lanes q ! c) < fuel"
  obtains (error) n1 where
      "depleteUserDataMessages fuel wr core c q bd n = (Inl (Throw Transport_Error_Recoverable), n1)"
    | (run) q1 bd1 n1 where
      "depleteUserDataMessages fuel wr core c q bd n = (Inr (Some (user_data_lanes q ! c \<noteq> [], q1, bd1)), n1)"
      "job_queue_wf q1" "user_data_lanes q1 = (user_data_lanes q)[c := []]" "error_lanes q1 = error_lanes q"
      "promise_lanes q1 = promise_lanes q" "ratings_inv wr rd sent pending core bd1"
      "sent n1 = sent n @ concat (map (user_data_answer core) (user_data_lanes q ! c))"
proof -
  have "store_wf core" using inv by (simp add: ratings_inv_def serving_def)
  then have jobs: "\<forall>a \<in> set (user_data_lanes q ! c). a \<in> dom (objects core) \<and> a \<noteq> nullptr"
    using lanes store_wfD(6) by blast
  show thesis
    using user_data_draining.drains [OF q inv jobs fuel, of False n, folded depleteUserDataMessages_def] error run
    unfolding user_data_draining.drained_def by auto
qed

lemma serve_jobs_ok:
  assumes q: "job_queue_wf q" "c < length (packs q)" and lanes: "lane_ok core q c"
    and inv: "ratings_inv wr rd sent pending core bd" "errors_inv wr rd sent pending eb"
    and fuel: "length (error_lanes q ! c) < fuel" "length (promise_lanes q ! c) < fuel"
      "length (user_data_lanes q ! c) < fuel"
  shows "(\<exists>new q' bd' eb' n'. serve_jobs fuel wr 3 core c q bd eb n = (Inr (Some (new, q', bd', eb')), n') \<and>
      new = ((error_lanes q ! c \<noteq> [] \<or> promise_lanes q ! c \<noteq> []) \<or> user_data_lanes q ! c \<noteq> []) \<and>
      job_queue_wf q' \<and> error_lanes q' = (error_lanes q)[c := []] \<and>
      promise_lanes q' = (promise_lanes q)[c := []] \<and> user_data_lanes q' = (user_data_lanes q)[c := []] \<and>
      ratings_inv wr rd sent pending core bd' \<and> errors_inv wr rd sent pending eb' \<and>
      sent n' = sent n @ round_answers core q c) \<or>
    (\<exists>n'. serve_jobs fuel wr 3 core c q bd eb n = (Inl (Throw Transport_Error_Recoverable), n'))"
proof (cases rule: errors_stage [OF q lanes inv(2) fuel(1), of n, case_names error run])
  case error
  then show ?thesis by (auto simp: serve_jobs_def io_some_def io_bind_def)
next
  case e: (run q1 eb1 n1)
  have c1: "c < length (packs q1)" using q(2) e(4) lanes_length(2) by metis
  have p1: "\<forall>p \<in> set (promise_lanes q1 ! c). in_int (fst p) \<and> fst p \<noteq> invalidId"
    "length (promise_lanes q1 ! c) < fuel" using lanes fuel(2) unfolding lane_ok_def e(4) by blast+
  show ?thesis
  proof (cases rule: promises_stage [OF e(2) c1 p1(1) inv(1) e(6) p1(2), of "error_lanes q ! c \<noteq> []" n1, case_names error run])
    case error
    then show ?thesis using e(1) by (auto simp: serve_jobs_def io_some_def io_bind_def)
  next
    case p: (run q2 bd2 eb2 n2)
    have c2: "c < length (packs q2)" using c1 p(4) lanes_length(1) by metis
    have u2: "\<forall>a \<in> set (user_data_lanes q2 ! c). a \<in> dom (objects core)"
      "length (user_data_lanes q2 ! c) < fuel" using lanes fuel(3) unfolding lane_ok_def p(5) e(5) by blast+
    show ?thesis
    proof (cases rule: user_data_stage [OF p(2) c2 u2(1) p(6) u2(2), of n2, case_names error run])
      case error
      then show ?thesis using e(1) p(1) by (auto simp: serve_jobs_def io_some_def io_bind_def)
    next
      case d: (run q3 bd3 n3)
      have "serve_jobs fuel wr 3 core c q bd eb n =
          (Inr (Some ((error_lanes q ! c \<noteq> [] \<or> promise_lanes q ! c \<noteq> []) \<or> user_data_lanes q ! c \<noteq> [], q3, bd3, eb2)), n3)"
        using e(1,4,5) p(1,5) d(1) by (simp add: serve_jobs_def io_some_def io_bind_def io_return_def)
      moreover have "sent n3 = sent n @ round_answers core q c"
        using e(4,5,7) p(5,8) d(7) by (simp add: round_answers_def)
      moreover have "error_lanes q3 = (error_lanes q)[c := []]" "promise_lanes q3 = (promise_lanes q)[c := []]"
        "user_data_lanes q3 = (user_data_lanes q)[c := []]" using d(3-5) p(3-5) e(3-5) by simp_all
      ultimately show ?thesis
        using d(2,6) p(7) by (intro disjI1 exI conjI) (assumption | rule refl)+
    qed
  qed
qed

end
