(* ===== verification/Service_Minute.thy ===== *)
theory Service_Minute
  imports Recalculation Minute_Log Worker_Jobs
begin

text \<open>
  The way of a minute through the service: the messages of the client fill the buffer
  (\<open>message_dispatcher.cpp\<close>), the buffer is applied to the rating data (\<open>rating_calculator.cpp\<close>), the
  workers answer from the new rating (\<open>worker_pool.cpp\<close>). The lemmas join the components: what the
  listener leaves is what the recalculation asks for, what the recalculation leaves is what the workers
  ask for.
\<close>

section \<open>From the messages to the recalculation\<close>

text \<open>Deals of the minute that raise the winnings and keep every sum in a \<open>long\<close>.\<close>

definition deals_raise :: "timed_event list \<Rightarrow> calc_view \<Rightarrow> bool" where
  "deals_raise evs v \<longleftrightarrow>
    (\<forall>k. (\<forall>w \<in> set (deals_of k evs). 0 < w) \<and> sum_list (deals_of k evs) < 2 ^ 63 \<and>
      (case fst v k of None \<Rightarrow> True
       | Some x \<Rightarrow> (case view_winnings x of None \<Rightarrow> True
                   | Some w \<Rightarrow> 0 \<le> w \<and> w + sum_list (deals_of k evs) < 2 ^ 63)))"

lemma deals_raise_fit: "deals_raise evs v \<Longrightarrow> deals_fit evs incoming_data_buffer_new"
  unfolding deals_raise_def deals_fit_def
  by (auto simp: tmap_at_def incoming_data_buffer_new_def less_imp_le)

lemma messages_minute_ok:
  assumes q: "job_queue_wf q" and raise: "deals_raise evs v"
    and run: "enter_all evs (incoming_data_buffer_new, q) = Inr (b', q')"
  shows "minute_ok dropOldRating v b'" and "job_queue_wf q'"
proof -
  let ?b = incoming_data_buffer_new
  have listening: "listening (?b, q)" using q buffer_wf_new by (simp add: listening_def)
  from enter_all_ok [OF listening deals_raise_fit [OF raise]] run
  have b': "listening (b', q')"
    and deals: "\<And>k. tmap_find k (dealsWon b') =
      (if deals_of k evs = [] then None else Some (sum_list (deals_of k evs)))"
    by (auto simp: incoming_data_buffer_new_def tmap_at_def)
  show "job_queue_wf q'" using b' by (simp add: listening_def)
  have wf: "buffer_wf b'" using b' by (simp add: listening_def)
  have "deal_ok v r" if r: "r \<in> set (dealsWon b')" for r
  proof -
    have "tmap_find (fst r) (dealsWon b') = Some (snd r)"
      using tmap.entry_iff_find [of "dealsWon b'" "fst r" "snd r"] wf r by (simp add: buffer_wf_def)
    then have ne: "deals_of (fst r) evs \<noteq> []" and sum: "snd r = sum_list (deals_of (fst r) evs)"
      using deals [of "fst r"] by (auto split: if_splits)
    have pos: "\<forall>w \<in> set (deals_of (fst r) evs). 0 < w" using raise unfolding deals_raise_def by blast
    have "0 < sum_list (deals_of (fst r) evs)"
    proof (cases "deals_of (fst r) evs")
      case (Cons w ws)
      have "0 \<le> sum_list ws" using pos Cons by (intro sum_list_nonneg) auto
      then show ?thesis using pos Cons by simp
    qed (use ne in simp)
    moreover have "case fst v (fst r) of None \<Rightarrow> True
       | Some x \<Rightarrow> (case view_winnings x of None \<Rightarrow> True
                   | Some w \<Rightarrow> 0 \<le> w \<and> w + sum_list (deals_of (fst r) evs) < 2 ^ 63)"
      using raise unfolding deals_raise_def by blast
    ultimately show ?thesis
      unfolding deal_ok_def sum by (auto simp: in_long_def split: option.splits)
  qed
  then show "minute_ok dropOldRating v b'"
    using wf by (auto simp: minute_ok_def buffer_wf_def connection_ok_def)
qed

section \<open>A run of minutes\<close>

fun minutes_ok :: "(bool \<times> incoming_data_buffer) list \<Rightarrow> rating_data \<Rightarrow> bool" where
  "minutes_ok [] d \<longleftrightarrow> True"
| "minutes_ok (m # ms) d \<longleftrightarrow>
    minute_ok (fst m) (data_view d) (snd m) \<and> room_for d (snd m) \<and>
    (case minute_step m d of Inl _ \<Rightarrow> True | Inr d' \<Rightarrow> minutes_ok ms d')"

lemma minutes_run:
  "data_wf d \<Longrightarrow> minutes_ok ms d \<Longrightarrow>
    \<exists>d'. fold_outcome minute_step ms d = Inr d' \<and> data_wf d' \<and>
      data_view d' = fold spec_minute ms (data_view d)"
proof (induction ms arbitrary: d)
  case (Cons m ms)
  then obtain d1 where d1: "minute_step m d = Inr d1" "data_wf d1" "data_view d1 = spec_minute m (data_view d)"
    using minute_step_ok [of d m] by auto
  then show ?case using Cons.IH [OF d1(2)] Cons.prems(2) by auto
qed simp

section \<open>From the recalculation to the workers\<close>

lemma core_wf_serving:
  assumes "core_wf c us" and "\<And>a u. objects c a = Some u \<Longrightarrow> valid_entry (entry_of u)"
  shows "serving c"
  using assms by (simp add: serving_def core_wf_def)

text \<open>The users on line of a second are users of the rating, so a worker can answer them.\<close>

lemma online_jobs_ok:
  assumes "core_wf c us" and "i < 60" and "a \<in> set (us ! i)"
  shows "a \<in> dom (objects c)" and "a \<noteq> nullptr"
proof -
  have "store_wf c" "online_wf (objects c) us" using assms(1) by (simp_all add: core_wf_def)
  then show "a \<in> dom (objects c)" using assms(2,3) unfolding online_wf_def by blast
  then show "a \<noteq> nullptr" using store_wfD(6) [OF \<open>store_wf c\<close>] by blast
qed

section \<open>Taking from a queue\<close>

text \<open>\<open>tryPop\<close> as often as asked, as a consumer alone with the queue would call it.\<close>

fun pop_times :: "nat \<Rightarrow> 'a mpsc_queue \<Rightarrow> ('a option list \<times> 'a mpsc_queue) outcome" where
  "pop_times 0 q = Inr ([], q)"
| "pop_times (Suc n) q =
    bind_outcome (tryPop q) (\<lambda>(r, q1). bind_outcome (pop_times n q1) (\<lambda>(rs, q2). Inr (r # rs, q2)))"

lemma pop_times_ok:
  "mpsc_wf q \<Longrightarrow> \<exists>q'. pop_times n q =
      Inr (map Some (take n (mpsc_contents q)) @ replicate (n - length (mpsc_contents q)) None, q') \<and>
    mpsc_wf q' \<and> mpsc_contents q' = drop n (mpsc_contents q)"
proof (induction n arbitrary: q)
  case (Suc n)
  from mpsc.pop_result [OF Suc.prems] obtain q1 where q1:
      "tryPop q = Inr (case mpsc_contents q of [] \<Rightarrow> None | v # _ \<Rightarrow> Some v, q1)" "mpsc_wf q1"
      "mpsc_contents q1 = tl (mpsc_contents q)"
    by blast
  from Suc.IH [OF q1(2)] show ?case
    using q1 by (cases "mpsc_contents q") auto
qed simp

end
