(* ===== verification/Samples.thy ===== *)
theory Samples
  imports Service_Minute
begin

text \<open>
  Concrete data on which the properties are applied: a service with two users in the rating and one who
  is not, the events of a minute, and the same service with users who tie.
\<close>

definition sample_user10 :: full_user_data where
  "sample_user10 =
    \<lparr> secondConnected = 5, user_name = [97], user_id = 10, amountWon = 50, user_rating = 1 \<rparr>"

definition sample_user20 :: full_user_data where
  "sample_user20 =
    \<lparr> secondConnected = 60, user_name = [98], user_id = 20, amountWon = 70, user_rating = 0 \<rparr>"

lemmas sample_users = sample_user10_def sample_user20_def

definition sample_core :: core_rating_data where
  "sample_core =
    \<lparr> objects = [1 \<mapsto> sample_user10, 2 \<mapsto> sample_user20], next_addr = 3,
      silentUsers = [(30, \<lparr> secondConnected = 60, user_name = [99] \<rparr>)],
      activeUsers = [(10, 1), (20, 2)], rating_vector = [2, 1] \<rparr>"

definition sample_online :: iteration_data where
  "sample_online = iteration_data_new[5 := [1]]"

definition sample_buffer :: incoming_data_buffer where
  "sample_buffer =
    \<lparr> usersRegistered = [(10, [97]), (40, [100])], usersRenamed = [(10, [120])],
      connectionChanges = [(30, 7)], dealsWon = [(10, 40), (30, 60), (50, 5)], bufferWriterCount = 0 \<rparr>"

definition sample_calc :: calc_state where
  "sample_calc = calc_start sample_core sample_online sample_buffer (job_queue_new 2)"

text \<open>A deal that takes \<open>x\<close> away from the first of the rating.\<close>

definition loss_buffer :: "int \<Rightarrow> incoming_data_buffer" where
  "loss_buffer x = incoming_data_buffer_new\<lparr>dealsWon := [(20, - x)]\<rparr>"

lemma sample_store: "store_wf sample_core"
  by (auto simp: store_wf_def sample_core_def sample_users hmap_wf_def hmap_find_def nullptr_def split: if_splits)

lemma sample_rating: "rating_wf (objects sample_core) (rating_vector sample_core)"
  by (auto simp: rating_wf_def sample_core_def sample_users ranked_def amount_in_def INT_MAX_def less_Suc_eq)

lemma sample_online_wf: "online_wf (objects sample_core) sample_online"
  by (auto simp: online_wf_def sample_core_def sample_users sample_online_def iteration_data_new_def
      nth_list_update split: if_splits)

lemma sample_core_wf: "core_wf sample_core sample_online"
  using sample_store sample_rating sample_online_wf by (simp add: core_wf_def)

lemma sample_queue_wf: "job_queue_wf (job_queue_new 2)"
  by (rule job_queue_new_wf) (simp_all add: INT_MAX_def)

lemma sample_inv: "length (dealsWon b) \<le> 10 \<Longrightarrow> calc_inv b (calc_start sample_core sample_online b (job_queue_new 2))"
  using sample_core_wf sample_queue_wf
  by (simp add: calc_inv_def calc_start_def sample_core_def INT_MAX_def)

lemma sample_view:
  "users_view sample_core 10 = Some \<lparr> view_name = [97], view_second = 5, view_winnings = Some 50 \<rparr>"
  "users_view sample_core 20 = Some \<lparr> view_name = [98], view_second = 60, view_winnings = Some 70 \<rparr>"
  "users_view sample_core 30 = Some \<lparr> view_name = [99], view_second = 60, view_winnings = None \<rparr>"
  "k \<notin> {10, 20, 30} \<Longrightarrow> users_view sample_core k = None"
  by (auto simp: users_view_def users_with_def sample_core_def sample_users hmap_find_def view_full_def
      view_basic_def amount_in_def)

lemma sample_winnings:
  "users_view sample_core k = Some x \<Longrightarrow> view_winnings x = Some w \<Longrightarrow> w = 50 \<or> w = 70"
  using sample_view by (cases "k \<in> {10, 20, 30}") auto

lemma sample_minute_ok: "minute_ok False (calc_view sample_calc) sample_buffer"
  using sample_view
  by (auto simp: minute_ok_def sample_buffer_def connection_ok_def tmap_wf_def deal_ok_def calc_view_def
      sample_calc_def calc_start_def in_long_def split: option.splits)

lemma sample_serving: "serving sample_core"
  by (rule core_wf_serving [OF sample_core_wf])
     (auto simp: sample_core_def sample_users valid_entry_def entry_of_def in_int_def in_long_def UCHAR_MAX_def
       split: if_splits)

end
