(* ===== verification/Rating_Loss.thy ===== *)
theory Rating_Loss
  imports Recalculation
begin

text \<open>
  What happens when a deal takes money from a user of the rating, which nothing in the code excludes. His
  new position lies behind his old one, so that the loop of the rebuilding comes to it first, before a
  place is free. As long as nobody ranked behind him has at least the new amount the two positions are the
  same and nothing is moved; otherwise the offset of the next block is negative and the assertion of
  \<open>ratingMoveBlock\<close> fails.
\<close>

text \<open>The two patches of one deal, carried out.\<close>

lemma loss_patches:
  assumes len: "int (length v) \<le> INT_MAX" and r: "r < p" "p \<le> length v" "v ! r = a" and a: "deref h a = Inr u"
  shows "p = Suc r \<Longrightarrow> \<exists>st. rebuild_rating 0
      [new_patch a (int (length v) - int p) NewPosition w, old_patch (int (length v) - int r - 1)] h v = Inr st \<and>
      rb_vector st = v \<and> rb_objects st = h(a \<mapsto> u\<lparr>amountWon := w\<rparr>)"
    and "p \<noteq> Suc r \<Longrightarrow> rebuild_rating 0
      [new_patch a (int (length v) - int p) NewPosition w, old_patch (int (length v) - int r - 1)] h v =
      Inl (Fault Assertion_Failed)"
proof -
  let ?n = "int (length v)"
  let ?s0 = "\<lparr> rb_offset = 0, rb_oldPositions = 0, rb_lengthDone = 0, rb_vector = v, rb_objects = h \<rparr>"
  let ?s1 = "\<lparr> rb_offset = -1, rb_oldPositions = 0, rb_lengthDone = ?n - int p, rb_vector = v[p - 1 := a],
    rb_objects = h(a \<mapsto> u\<lparr>amountWon := w\<rparr>) \<rparr>"
  have size: "int_of_size (length v) = ?n" using len by simp
  have start: "vector_resize (nat (?n + int 0)) nullptr v = v" by (simp add: vector_resize_def)
  have ins: "size_t_of (int p - 1) = int p - 1" using r(1,2) len by (simp add: size_t_of_def INT_MAX_def)
  have idx: "nat (int p - 1) = p - 1" by simp
  have new: "apply_patch ?n (new_patch a (?n - int p) NewPosition w) ?s0 = Inr ?s1"
    using r(1,2) a by (simp add: apply_patch_def new_patch_def ratingMoveBlock_def ratingInsert_def ins idx guard_def)
  have old: "apply_patch ?n (old_patch (?n - int r - 1)) ?s1 =
      bind_outcome (ratingMoveBlock (int r + 1) (int p - int r - 1) (- 1) (v[p - 1 := a])) (\<lambda>v'.
        Inr (?s1\<lparr>rb_oldPositions := 1, rb_lengthDone := ?n - int r - 1, rb_vector := v', rb_offset := 0\<rparr>))"
    by (simp add: apply_patch_def old_patch_def algebra_simps)
  have fold_nil: "fold_outcome f [] = Inr" for f :: "rating_patch_entry \<Rightarrow> rebuild_state \<Rightarrow> rebuild_state outcome"
    by (rule ext) simp
  have bind_Inr: "bind_outcome z Inr = z" for z :: "rebuild_state outcome" by (cases z) simp_all
  have run: "rebuild_rating 0 [new_patch a (?n - int p) NewPosition w, old_patch (?n - int r - 1)] h v =
      apply_patch ?n (old_patch (?n - int r - 1)) ?s1"
    unfolding rebuild_rating_def size Let_def start using new bind_Inr by (simp add: fold_nil)
  {
    assume p: "p = Suc r"
    have same: "v[r := a] = v" using r(3) by auto
    show "\<exists>st. rebuild_rating 0 [new_patch a (?n - int p) NewPosition w, old_patch (?n - int r - 1)] h v = Inr st \<and>
        rb_vector st = v \<and> rb_objects st = h(a \<mapsto> u\<lparr>amountWon := w\<rparr>)"
      unfolding run old using p same by (simp add: ratingMoveBlock_def)
  }
  assume "p \<noteq> Suc r"
  then have "ratingMoveBlock (int r + 1) (int p - int r - 1) (- 1) (v[p - 1 := a]) = Inl (Fault Assertion_Failed)"
    using r(1) by (simp add: ratingMoveBlock_def guard_def)
  then show "rebuild_rating 0 [new_patch a (?n - int p) NewPosition w, old_patch (?n - int r - 1)] h v =
      Inl (Fault Assertion_Failed)"
    unfolding run old by simp
qed

lemma one_deal:
  assumes "usersRegistered (cs_incoming s) = []" and "usersRenamed (cs_incoming s) = []"
    and "connectionChanges (cs_incoming s) = []" and "dealsWon (cs_incoming s) = [d]"
  shows "recalculate False s = bind_outcome (deal_step d s) (\<lambda>s1.
    rebuildRating (s1\<lparr>cs_incoming := (cs_incoming s1)\<lparr>dealsWon := []\<rparr>\<rparr>))"
proof -
  have "processRegistrations s = Inr s" "processRenames s = Inr s" "processConnectionChanges s = Inr s"
    using assms(1-3)
    by (cases s; cases "cs_incoming s";
        simp add: processRegistrations_def processRenames_def processConnectionChanges_def)+
  then show ?thesis using assms(4) by (simp add: recalculate_def processDeals_def bind_outcome_assoc)
qed

lemma one_deal_outcome:
  assumes inv: "calc_inv b s" and only: "usersRegistered b = []" "usersRenamed b = []" "connectionChanges b = []"
      "dealsWon b = [(k, x)]"
    and a: "hmap_find k (activeUsers (cs_core s)) = Some a" "objects (cs_core s) a = Some u"
    and sum: "in_long (amountWon u + x)" and loss: "x \<le> 0"
    and h: "h = objects (cs_core s)" and v: "v = rating_vector (cs_core s)"
  shows "(\<exists>i < length v. user_rating u < int i \<and> amountWon u + x \<le> amount_in h (v ! i)) \<Longrightarrow>
      recalculate False s = Inl (Fault Assertion_Failed)"
    and "\<not> (\<exists>i < length v. user_rating u < int i \<and> amountWon u + x \<le> amount_in h (v ! i)) \<Longrightarrow>
      \<exists>s'. recalculate False s = Inr s'"
proof -
  let ?n = "int (length v)" and ?w = "amountWon u + x"
  have wf: "store_wf (cs_core s)" "rating_wf h v" "cs_incoming s = b" "ratingPatches s = []" "freshRatings s = 0"
    using inv h v by (simp_all add: calc_inv_def core_wf_def)
  note R = rating_wfD [OF wf(2)]
  have null: "c \<in> set v \<Longrightarrow> c \<noteq> nullptr" for c
    using store_wfD(6) [OF wf(1)] R(1) h by blast
  have am: "amounts_of h v (amount_in h)"
    using R(1) null by (auto simp: amounts_of_def amount_in_def)
  have at_a: "a \<in> set v" "deref h a = Inr u" "amount_in h a = amountWon u"
    using a(2) R(1) null h by (auto simp: amount_in_def deref_Inr_iff)
  obtain r where r: "r < length v" "v ! r = a" using at_a(1) by (metis in_set_conv_nth)
  then have rank: "user_rating u = int r" using R(5) [OF r(1)] a(2) h by simp
  obtain p where p: "is_place (amount_in h) v ?w p" "ratingElementsAfter h v ?w = Inr (?n - int p)"
    using ratingElementsAfter_correct [OF am R(3,4)] by blast
  have P: "p \<le> length v" "\<And>j. j < p \<Longrightarrow> ?w \<le> amount_in h (v ! j)" "\<And>j. p \<le> j \<Longrightarrow> j < length v \<Longrightarrow> amount_in h (v ! j) < ?w"
    using p(1) by (simp_all add: is_place_def)
  have rp: "r < p"
  proof (rule ccontr)
    assume "\<not> r < p"
    then have "amount_in h (v ! r) < ?w" using P(3) [of r] r(1) by simp
    then show False using at_a(3) r(2) loss by simp
  qed
  let ?ps = "[new_patch a (?n - int p) NewPosition ?w, old_patch (?n - int r - 1)]"
  have less: "patch_less (new_patch a (?n - int p) NewPosition ?w) (old_patch (?n - int r - 1))"
    using rp by (auto simp: patch_less_def new_patch_def old_patch_def less_rating_change_type_def)
  have "deal_step (k, x) s = Inr (s\<lparr>ratingPatches := ?ps\<rparr>)"
    using a(1) at_a(2) p(2) rank sum R(4) wf(4) less unfolding h v
    by (simp add: deal_step_def Let_def long_add_def)
  then have rec: "recalculate False s =
      rebuildRating (s\<lparr>ratingPatches := ?ps, cs_incoming := b\<lparr>dealsWon := []\<rparr>\<rparr>)"
    using one_deal [of s "(k, x)"] only wf(3) by simp
  have behind: "(\<exists>i < length v. user_rating u < int i \<and> ?w \<le> amount_in h (v ! i)) \<longleftrightarrow> p \<noteq> Suc r"
  proof
    assume "\<exists>i < length v. user_rating u < int i \<and> ?w \<le> amount_in h (v ! i)"
    then obtain i where i: "i < length v" "r < i" "?w \<le> amount_in h (v ! i)" using rank by auto
    then have "i < p" using P(3) [of i] by (meson not_le)
    then show "p \<noteq> Suc r" using i(2) by simp
  next
    assume "p \<noteq> Suc r"
    then have "Suc r < p" using rp by simp
    then show "\<exists>i < length v. user_rating u < int i \<and> ?w \<le> amount_in h (v ! i)"
      using P(1) P(2) [of "Suc r"] rank by (intro exI [of _ "Suc r"]) simp
  qed
  note patches = loss_patches [OF R(4) rp P(1) r(2) at_a(2), of ?w]
  show "\<exists>i < length v. user_rating u < int i \<and> ?w \<le> amount_in h (v ! i) \<Longrightarrow>
      recalculate False s = Inl (Fault Assertion_Failed)"
    using patches(2) behind unfolding rec rebuildRating_def h v by (simp add: wf(5))
  assume "\<not> (\<exists>i < length v. user_rating u < int i \<and> ?w \<le> amount_in h (v ! i))"
  then obtain st where st: "rebuild_rating 0 ?ps h v = Inr st" "rb_vector st = v"
      "rb_objects st = h(a \<mapsto> u\<lparr>amountWon := ?w\<rparr>)"
    using patches(1) behind by blast
  obtain h' where "ratingRefreshPositions v (h(a \<mapsto> u\<lparr>amountWon := ?w\<rparr>)) = Inr h'"
    using ratingRefreshPositions_ok [OF R(2), of "h(a \<mapsto> u\<lparr>amountWon := ?w\<rparr>)"] null R(1) by auto
  then show "\<exists>s'. recalculate False s = Inr s'"
    using st unfolding rec rebuildRating_def h v by (simp add: wf(5))
qed

text \<open>With a deal that raises the amount the recalculation is in order (\<open>recalculate_ok\<close>).\<close>

lemma one_deal_aborts:
  assumes inv: "calc_inv b s" and only: "usersRegistered b = []" "usersRenamed b = []" "connectionChanges b = []"
      "dealsWon b = [(k, x)]"
    and a: "hmap_find k (activeUsers (cs_core s)) = Some a" "objects (cs_core s) a = Some u"
    and sum: "in_long (amountWon u + x)"
  shows "recalculate False s = Inl (Fault Assertion_Failed) \<longleftrightarrow>
    (\<exists>i < length (rating_vector (cs_core s)). user_rating u < int i \<and>
      amountWon u + x \<le> amount_in (objects (cs_core s)) (rating_vector (cs_core s) ! i))"
proof (cases "x \<le> 0")
  case True
  note out = one_deal_outcome [OF assms True refl refl]
  show ?thesis using out by fastforce
next
  case False
  have wf: "rating_wf (objects (cs_core s)) (rating_vector (cs_core s))"
    using inv by (simp add: calc_inv_def core_wf_def)
  note R = rating_wfD [OF wf]
  have "a \<in> set (rating_vector (cs_core s))" using a(2) R(1) by blast
  then obtain r where r: "r < length (rating_vector (cs_core s))" "rating_vector (cs_core s) ! r = a"
    by (metis in_set_conv_nth)
  then have rank: "user_rating u = int r" using R(5) [OF r(1)] a(2) by simp
  have "amount_in (objects (cs_core s)) (rating_vector (cs_core s) ! i) \<le> amountWon u"
    if "i < length (rating_vector (cs_core s))" "r < i" for i
    using R(3) r that a(2) sorted_wrt_nth_less [of _ "rating_vector (cs_core s)" r i]
    by (fastforce simp: ranked_def amount_in_def)
  then have "\<not> (\<exists>i < length (rating_vector (cs_core s)). user_rating u < int i \<and>
      amountWon u + x \<le> amount_in (objects (cs_core s)) (rating_vector (cs_core s) ! i))"
    using False rank by fastforce
  moreover have "fst (calc_view s) k = Some (view_full (amountWon u) u)"
    using a by (simp add: calc_view_def users_view_def users_with_def amount_in_def)
  then have "minute_ok False (calc_view s) b"
    using only False sum by (simp add: minute_ok_def tmap_wf_def deal_ok_def view_full_def)
  then have "\<exists>s'. recalculate False s = Inr s'" using recalculate_ok [OF inv] by blast
  ultimately show ?thesis by auto
qed

end
