(* ===== verification/Worker_Thread.thy ===== *)
theory Worker_Thread
  imports Worker_Jobs
begin

text \<open>
  \<open>WorkerPool::doWork\<close> (\<open>service/worker_pool.cpp\<close>) from the thread's start to its end: the caching of
  the top of the rating, the rounds, the emptying of the user data queue before a refresh and the caching
  anew behind it, and the handlers that turn an exception into a stop signal. What the thread reads from
  the shared state is an argument of each round: the stop flag, the rating data found after the refresh
  if one was in progress, and what other threads have enqueued. Waiting and the counter of the readers
  are in \<open>Refresh_Sync\<close>.
\<close>

section \<open>The thread\<close>

record worker_state =
  ws_core :: core_rating_data
  ws_queue :: job_queue
  ws_rating :: rating_buffer_data
  ws_error :: ostream

record round_input =
  ri_badFlag :: bool
  ri_refreshed :: "core_rating_data option"
  ri_arrived :: "job_queue \<Rightarrow> job_queue"

definition worker_refresh ::
    "nat \<Rightarrow> 'n asio_write \<Rightarrow> nat \<Rightarrow> core_rating_data option \<Rightarrow> worker_state \<Rightarrow> (worker_state option, 'n) io" where
  "worker_refresh fuel wr c refreshed st =
    (case refreshed of
       None \<Rightarrow> io_return (Some st)
     | Some core \<Rightarrow>
         io_some (depleteUserDataMessages fuel wr (ws_core st) c (ws_queue st) (ws_rating st)) (\<lambda>(_, q, bd).
         io_bind (io_lift (cacheTopRatings core bd)) (\<lambda>bd1.
           io_return (Some (st\<lparr>ws_core := core, ws_queue := q, ws_rating := bd1\<rparr>)))))"

definition worker_round ::
    "nat \<Rightarrow> 'n asio_write \<Rightarrow> nat \<Rightarrow> nat \<Rightarrow> round_input \<Rightarrow> worker_state \<Rightarrow> (worker_state option, 'n) io" where
  "worker_round fuel wr errorBufferBase c r st =
    io_some (worker_refresh fuel wr c (ri_refreshed r) (st\<lparr>ws_queue := ri_arrived r (ws_queue st)\<rparr>)) (\<lambda>st1.
    io_some (serve_jobs fuel wr errorBufferBase (ws_core st1) c (ws_queue st1) (ws_rating st1) (ws_error st1))
      (\<lambda>(newJobs, q, bd, eb). io_return (Some (st1\<lparr>ws_queue := q, ws_rating := bd, ws_error := eb\<rparr>))))"

fun worker_rounds ::
    "nat \<Rightarrow> 'n asio_write \<Rightarrow> nat \<Rightarrow> nat \<Rightarrow> round_input list \<Rightarrow> worker_state \<Rightarrow> (worker_state option, 'n) io" where
  "worker_rounds fuel wr base c [] st = io_return (Some st)"
| "worker_rounds fuel wr base c (r # rs) st =
    (if ri_badFlag r then io_return (Some st)
     else io_some (worker_round fuel wr base c r st) (worker_rounds fuel wr base c rs))"

definition worker_body ::
    "nat \<Rightarrow> 'n asio_write \<Rightarrow> nat \<Rightarrow> core_rating_data \<Rightarrow> job_queue \<Rightarrow> round_input list \<Rightarrow> (worker_state option, 'n) io" where
  "worker_body fuel wr c core q rs =
    (let ratingBuffer = rating_buffer_make createAdaptedRatingBuffer;
         errorBuffer = createAdaptedErrorBuffer;
         errorBufferBase = getPos errorBuffer
     in io_bind (io_lift (cacheTopRatings core ratingBuffer)) (\<lambda>bd.
          worker_rounds fuel wr errorBufferBase c rs
            \<lparr> ws_core = core, ws_queue = q, ws_rating = bd, ws_error = errorBuffer \<rparr>))"

text \<open>
  The handlers: what is thrown is thrown on, behind the signal; a fault ends the program. The last
  component is what is added to the counter of the readers.
\<close>

datatype worker_end =
    Finished "worker_state option"
  | Rethrown exn system_stop_signals int
  | Crashed fault

definition doWork ::
    "nat \<Rightarrow> 'n asio_write \<Rightarrow> nat \<Rightarrow> core_rating_data \<Rightarrow> job_queue \<Rightarrow> round_input list \<Rightarrow> system_stop_signals \<Rightarrow>
      'n \<Rightarrow> worker_end \<times> 'n" where
  "doWork fuel wr c core q rs sig n =
    (case worker_body fuel wr c core q rs n of
       (Inr st, n1) \<Rightarrow> (Finished st, n1)
     | (Inl (Throw e), n1) \<Rightarrow> (Rethrown e (signalError (e \<noteq> Transport_Error_Recoverable) sig) (-1), n1)
     | (Inl (Fault f), n1) \<Rightarrow> (Crashed f, n1))"

section \<open>What arrives in a worker's lanes\<close>

type_synonym arrivals = "error_ptr list \<times> user_id_promise list \<times> addr list"

definition brings :: "nat \<Rightarrow> nat \<Rightarrow> (job_queue \<Rightarrow> job_queue) \<Rightarrow> arrivals \<Rightarrow> bool" where
  "brings k c f x \<longleftrightarrow>
    (\<forall>q. job_queue_wf q \<longrightarrow> length (packs q) = k \<longrightarrow>
      job_queue_wf (f q) \<and> length (packs (f q)) = k \<and>
      error_lanes (f q) ! c = error_lanes q ! c @ fst x \<and>
      promise_lanes (f q) ! c = promise_lanes q ! c @ fst (snd x) \<and>
      user_data_lanes (f q) ! c = user_data_lanes q ! c @ snd (snd x))"

definition core_after :: "core_rating_data \<Rightarrow> round_input \<Rightarrow> core_rating_data" where
  "core_after core r = (case ri_refreshed r of None \<Rightarrow> core | Some core' \<Rightarrow> core')"

definition round_fits :: "nat \<Rightarrow> nat \<Rightarrow> nat \<Rightarrow> core_rating_data \<Rightarrow> round_input \<Rightarrow> arrivals \<Rightarrow> bool" where
  "round_fits fuel k c core r x \<longleftrightarrow>
    \<not> ri_badFlag r \<and> brings k c (ri_arrived r) x \<and> serving (core_after core r) \<and>
    (\<forall>e \<in> set (fst x). \<exists>y. e = Some y \<and> valid_error y) \<and>
    (\<forall>p \<in> set (fst (snd x)). in_int (fst p) \<and> fst p \<noteq> invalidId) \<and>
    (\<forall>a \<in> set (snd (snd x)). a \<in> dom (objects core)) \<and>
    length (fst x) < fuel \<and> length (fst (snd x)) < fuel \<and> length (snd (snd x)) < fuel"

text \<open>What a round sends; before a refresh the user data is answered first, from the old rating.\<close>

definition round_output :: "core_rating_data \<Rightarrow> round_input \<Rightarrow> arrivals \<Rightarrow> buffer_t" where
  "round_output core r x =
    (let errors = concat (map error_answer (fst x));
         promises = concat (map (promise_answer (core_after core r)) (fst (snd x)));
         users = concat (map (user_data_answer core) (snd (snd x)))
     in if ri_refreshed r = None then errors @ promises @ users else users @ errors @ promises)"

fun rounds_fit :: "nat \<Rightarrow> nat \<Rightarrow> nat \<Rightarrow> core_rating_data \<Rightarrow> (round_input \<times> arrivals) list \<Rightarrow> bool" where
  "rounds_fit fuel k c core [] = True"
| "rounds_fit fuel k c core (rx # rxs) =
    (round_fits fuel k c core (fst rx) (snd rx) \<and> rounds_fit fuel k c (core_after core (fst rx)) rxs)"

fun rounds_output :: "core_rating_data \<Rightarrow> (round_input \<times> arrivals) list \<Rightarrow> buffer_t" where
  "rounds_output core [] = []"
| "rounds_output core (rx # rxs) =
    round_output core (fst rx) (snd rx) @ rounds_output (core_after core (fst rx)) rxs"

section \<open>The thread serves its rounds\<close>

definition worker_ready ::
    "'n asio_write \<Rightarrow> 'n asio_read \<Rightarrow> ('n \<Rightarrow> buffer_t) \<Rightarrow> ('n \<Rightarrow> buffer_t) \<Rightarrow> nat \<Rightarrow> nat \<Rightarrow> worker_state \<Rightarrow> bool" where
  "worker_ready wr rd sent pending k c st \<longleftrightarrow>
    job_queue_wf (ws_queue st) \<and> length (packs (ws_queue st)) = k \<and> c < k \<and>
    error_lanes (ws_queue st) ! c = [] \<and> promise_lanes (ws_queue st) ! c = [] \<and>
    user_data_lanes (ws_queue st) ! c = [] \<and>
    ratings_inv wr rd sent pending (ws_core st) (ws_rating st) \<and> errors_inv wr rd sent pending (ws_error st)"

lemma serve_stage:
  assumes "job_queue_wf q" and "length (packs q) = k" and "c < k" and "lane_ok core q c"
    and "ratings_inv wr rd sent pending core bd" and "errors_inv wr rd sent pending eb"
    and "length (error_lanes q ! c) < fuel" "length (promise_lanes q ! c) < fuel"
      "length (user_data_lanes q ! c) < fuel"
  obtains (error) n' where "serve_jobs fuel wr 3 core c q bd eb n = (Inl (Throw Transport_Error_Recoverable), n')"
    | (run) new q' bd' eb' n' where
      "serve_jobs fuel wr 3 core c q bd eb n = (Inr (Some (new, q', bd', eb')), n')"
      "worker_ready wr rd sent pending k c \<lparr> ws_core = core, ws_queue = q', ws_rating = bd', ws_error = eb' \<rparr>"
      "sent n' = sent n @ round_answers core q c"
proof -
  have c: "c < length (packs q)" using assms(2,3) by simp
  from serve_jobs_ok [OF assms(1) c assms(4-9), of n] show thesis
  proof (elim disjE exE conjE)
    fix n' assume "serve_jobs fuel wr 3 core c q bd eb n = (Inl (Throw Transport_Error_Recoverable), n')"
    then show thesis by (rule error)
  next
    fix new q' bd' eb' n'
    assume r: "serve_jobs fuel wr 3 core c q bd eb n = (Inr (Some (new, q', bd', eb')), n')"
      "job_queue_wf q'" "error_lanes q' = (error_lanes q)[c := []]"
      "promise_lanes q' = (promise_lanes q)[c := []]" "user_data_lanes q' = (user_data_lanes q)[c := []]"
      "ratings_inv wr rd sent pending core bd'" "errors_inv wr rd sent pending eb'"
      "sent n' = sent n @ round_answers core q c"
    have "length (packs q') = k" using r(3) assms(2) by (metis lanes_length(1) length_list_update)
    then have "worker_ready wr rd sent pending k c \<lparr> ws_core = core, ws_queue = q', ws_rating = bd', ws_error = eb' \<rparr>"
      using r c assms(2,3) by (simp add: worker_ready_def)
    then show thesis using r(1,8) by (intro run)
  qed
qed

lemma refresh_stage:
  assumes "job_queue_wf q" and "length (packs q) = k" and "c < k"
    and "\<forall>a \<in> set (user_data_lanes q ! c). a \<in> dom (objects core)"
    and "ratings_inv wr rd sent pending core bd" and "length (user_data_lanes q ! c) < fuel" and "serving core'"
  obtains (error) n' where
      "depleteUserDataMessages fuel wr core c q bd n = (Inl (Throw Transport_Error_Recoverable), n')"
    | (run) new q' bd' bd'' n' where
      "depleteUserDataMessages fuel wr core c q bd n = (Inr (Some (new, q', bd')), n')"
      "cacheTopRatings core' bd' = Inr bd''" "ratings_inv wr rd sent pending core' bd''"
      "job_queue_wf q'" "length (packs q') = k" "user_data_lanes q' ! c = []"
      "error_lanes q' = error_lanes q" "promise_lanes q' = promise_lanes q"
      "sent n' = sent n @ concat (map (user_data_answer core) (user_data_lanes q ! c))"
proof -
  have c: "c < length (packs q)" using assms(2,3) by simp
  show thesis
  proof (cases rule: user_data_stage [OF assms(1) c assms(4,5,6), of n, case_names error run])
    case e: error
    then show thesis by (rule error)
  next
    case r: (run q1 bd1 n1)
    have "cached core bd1" "asio_stream wr rd sent pending" using r(6) by (simp_all add: ratings_inv_def)
    moreover obtain bd2 where bd2: "cacheTopRatings core' bd1 = Inr bd2" "cached core' bd2"
      using cacheTopRatings_again [OF serving_wire [OF assms(7)] calculation(1)] by blast
    ultimately have "ratings_inv wr rd sent pending core' bd2"
      using assms(7) by (simp add: ratings_inv_def)
    moreover have "length (packs q1) = k" using r(3) assms(2) by (metis lanes_length(3) length_list_update)
    moreover have "user_data_lanes q1 ! c = []" using r(3) c by simp
    ultimately show thesis using r(1,2,4,5,7) bd2(1) by (intro run)
  qed
qed

lemma worker_round_serves:
  assumes ready: "worker_ready wr rd sent pending k c st"
    and fits: "round_fits fuel k c (ws_core st) r x"
  shows "(\<exists>st' n'. worker_round fuel wr 3 c r st n = (Inr (Some st'), n') \<and>
      worker_ready wr rd sent pending k c st' \<and> ws_core st' = core_after (ws_core st) r \<and>
      sent n' = sent n @ round_output (ws_core st) r x) \<or>
    (\<exists>n'. worker_round fuel wr 3 c r st n = (Inl (Throw Transport_Error_Recoverable), n'))"
proof -
  define q where "q = ri_arrived r (ws_queue st)"
  have q: "job_queue_wf q" "length (packs q) = k" "error_lanes q ! c = fst x"
      "promise_lanes q ! c = fst (snd x)" "user_data_lanes q ! c = snd (snd x)"
    using ready fits unfolding worker_ready_def round_fits_def brings_def q_def by auto
  have c: "c < k" and inv: "ratings_inv wr rd sent pending (ws_core st) (ws_rating st)"
      "errors_inv wr rd sent pending (ws_error st)"
    using ready by (simp_all add: worker_ready_def)
  have lanes: "\<forall>e \<in> set (fst x). \<exists>y. e = Some y \<and> valid_error y"
      "\<forall>p \<in> set (fst (snd x)). in_int (fst p) \<and> fst p \<noteq> invalidId"
      "\<forall>a \<in> set (snd (snd x)). a \<in> dom (objects (ws_core st))"
      "length (fst x) < fuel" "length (fst (snd x)) < fuel" "length (snd (snd x)) < fuel"
    using fits by (auto simp: round_fits_def)
  show ?thesis
  proof (cases "ri_refreshed r")
    case None
    have ok: "lane_ok (ws_core st) q c" using lanes(1-3) by (simp add: lane_ok_def q)
    have fuels: "length (error_lanes q ! c) < fuel" "length (promise_lanes q ! c) < fuel"
      "length (user_data_lanes q ! c) < fuel" using lanes(4-6) by (simp_all add: q)
    have st1: "worker_round fuel wr 3 c r st = io_some
        (serve_jobs fuel wr 3 (ws_core st) c q (ws_rating st) (ws_error st))
        (\<lambda>(newJobs, q', bd, eb). io_return (Some (st\<lparr>ws_queue := q', ws_rating := bd, ws_error := eb\<rparr>)))"
      by (simp add: worker_round_def worker_refresh_def None io_some_def io_bind_def io_return_def fun_eq_iff q_def)
    show ?thesis
    proof (cases rule: serve_stage [OF q(1,2) c ok inv fuels, of n, case_names error run])
      case error
      then show ?thesis by (simp add: st1 io_some_def io_bind_def)
    next
      case (run new q' bd' eb' n')
      let ?st = "st\<lparr>ws_queue := q', ws_rating := bd', ws_error := eb'\<rparr>"
      have "worker_round fuel wr 3 c r st n = (Inr (Some ?st), n')"
        using run(1) by (simp add: st1 io_some_def io_bind_def io_return_def)
      moreover have "worker_ready wr rd sent pending k c ?st" using run(2) by (simp add: worker_ready_def)
      moreover have "sent n' = sent n @ round_output (ws_core st) r x"
        using run(3) None by (simp add: round_output_def core_after_def round_answers_def q)
      ultimately show ?thesis using None by (intro disjI1 exI conjI) (assumption | simp add: core_after_def)+
    qed
  next
    case (Some core)
    have u: "\<forall>a \<in> set (user_data_lanes q ! c). a \<in> dom (objects (ws_core st))"
      "length (user_data_lanes q ! c) < fuel" using lanes(3,6) by (simp_all add: q)
    have core: "serving core" using fits Some by (simp add: round_fits_def core_after_def)
    have st1: "worker_round fuel wr 3 c r st = io_some
        (io_some (depleteUserDataMessages fuel wr (ws_core st) c q (ws_rating st)) (\<lambda>(_, q1, bd).
         io_bind (io_lift (cacheTopRatings core bd)) (\<lambda>bd1.
           io_return (Some (st\<lparr>ws_core := core, ws_queue := q1, ws_rating := bd1\<rparr>)))))
        (\<lambda>st1. io_some (serve_jobs fuel wr 3 (ws_core st1) c (ws_queue st1) (ws_rating st1) (ws_error st1))
          (\<lambda>(newJobs, q', bd, eb). io_return (Some (st1\<lparr>ws_queue := q', ws_rating := bd, ws_error := eb\<rparr>))))"
      by (simp add: worker_round_def worker_refresh_def Some q_def)
    show ?thesis
    proof (cases rule: refresh_stage [OF q(1,2) c u(1) inv(1) u(2) core, of n, case_names error run])
      case error
      then show ?thesis by (simp add: st1 io_some_def io_bind_def)
    next
      case d: (run new1 q1 bd1 bd2 n1)
      have ok: "lane_ok core q1 c" using lanes(1,2) by (simp add: lane_ok_def d(6,7,8) q)
      have fuels: "length (error_lanes q1 ! c) < fuel" "length (promise_lanes q1 ! c) < fuel"
        "length (user_data_lanes q1 ! c) < fuel" using lanes(4-6) by (simp_all add: d(6,7,8) q)
      show ?thesis
      proof (cases rule: serve_stage [OF d(4,5) c ok d(3) inv(2) fuels, of n1, case_names error run])
        case error
        then show ?thesis using d(1,2) by (simp add: st1 io_some_def io_bind_def io_return_def)
      next
        case (run new q' bd' eb' n')
        let ?st = "\<lparr> ws_core = core, ws_queue = q', ws_rating = bd', ws_error = eb' \<rparr>"
        have "worker_round fuel wr 3 c r st n = (Inr (Some ?st), n')"
          using run(1) d(1,2) unfolding st1 by (cases st) (simp add: io_some_def io_bind_def io_return_def)
        moreover have "sent n' = sent n @ round_output (ws_core st) r x"
          using run(3) d(6-9) Some by (simp add: round_output_def core_after_def round_answers_def q)
        ultimately show ?thesis
          using run(2) Some by (intro disjI1 exI conjI) (assumption | simp add: core_after_def)+
      qed
    qed
  qed
qed

lemma worker_rounds_serve:
  assumes "worker_ready wr rd sent pending k c st" and "rounds_fit fuel k c (ws_core st) rxs"
  shows "(\<exists>st' n'. worker_rounds fuel wr 3 c (map fst rxs) st n = (Inr (Some st'), n') \<and>
      worker_ready wr rd sent pending k c st' \<and> sent n' = sent n @ rounds_output (ws_core st) rxs) \<or>
    (\<exists>n'. worker_rounds fuel wr 3 c (map fst rxs) st n = (Inl (Throw Transport_Error_Recoverable), n'))"
  using assms
proof (induction rxs arbitrary: st n)
  case Nil
  then show ?case by (simp add: io_return_def)
next
  case (Cons rx rxs)
  obtain r x where rx: "rx = (r, x)" by (cases rx)
  have fits: "round_fits fuel k c (ws_core st) r x" "rounds_fit fuel k c (core_after (ws_core st) r) rxs"
    using Cons.prems(2) rx by simp_all
  then have bad: "\<not> ri_badFlag r" by (simp add: round_fits_def)
  from worker_round_serves [OF Cons.prems(1) fits(1), of n] show ?case
  proof (elim disjE exE conjE)
    fix n' assume "worker_round fuel wr 3 c r st n = (Inl (Throw Transport_Error_Recoverable), n')"
    then show ?thesis using bad rx by (simp add: io_some_def io_bind_def)
  next
    fix st1 n1
    assume s: "worker_round fuel wr 3 c r st n = (Inr (Some st1), n1)" "worker_ready wr rd sent pending k c st1"
      "ws_core st1 = core_after (ws_core st) r" "sent n1 = sent n @ round_output (ws_core st) r x"
    have "rounds_fit fuel k c (ws_core st1) rxs" using fits(2) s(3) by simp
    from Cons.IH [OF s(2) this, of n1] show ?thesis
      using s bad rx by (auto simp: io_some_def io_bind_def)
  qed
qed

end
