(* ===== verification/Overseer.thy ===== *)
theory Overseer
  imports Message_Dispatcher Transport
begin

text \<open>
  \<open>Overseer::run\<close> (\<open>service/overseer.cpp\<close>) as its own thread sees it: the attempts at a session, the
  loop over the messages with its change between the two incoming buffers, and the handlers that decide
  between recovery and the end of the service. What the other threads and the connection do is an
  argument: the outcome of \<open>launch\<close>, for each turn of the loop the message received, the buffer found
  current and the clock, what the threads do to the stop signals, and whether they ever end, which the
  destructors wait for. How the threads interleave is the matter of \<open>Refresh_Sync\<close>, when they end that of
  \<open>Thread_Joins\<close>.
\<close>

section \<open>The loop over the messages\<close>

record listener_state =
  ls_buffers :: "incoming_data_buffer list"
  ls_inData :: nat
  ls_battery :: message_battery
  ls_queue :: job_queue

record listener_turn =
  lt_received :: "istream outcome"
  lt_current :: nat
  lt_now :: chrono_t

definition count_writer :: "int \<Rightarrow> nat \<Rightarrow> listener_state \<Rightarrow> listener_state" where
  "count_writer k b st =
    st\<lparr>ls_buffers := (ls_buffers st)[b := (ls_buffers st ! b)
      \<lparr>bufferWriterCount := bufferWriterCount (ls_buffers st ! b) + k\<rparr>]\<rparr>"

text \<open>\<open>PluggableInfrastructure\<close> and the claiming of the current buffer.\<close>

definition session_new :: "int \<Rightarrow> listener_state" where
  "session_new concurrency =
    \<lparr> ls_buffers = [incoming_data_buffer_new, incoming_data_buffer_new], ls_inData = 0,
      ls_battery = message_battery_new, ls_queue = job_queue_new concurrency \<rparr>"

definition claim_buffer :: "nat \<Rightarrow> listener_state \<Rightarrow> listener_state" where
  "claim_buffer current st = count_writer 1 current (st\<lparr>ls_inData := current\<rparr>)"

definition change_buffer :: "nat \<Rightarrow> listener_state \<Rightarrow> listener_state" where
  "change_buffer newBuffer st =
    (if newBuffer \<noteq> ls_inData st then
       let st1 = count_writer (-1) (ls_inData st) st;
           st2 = st1\<lparr>ls_inData := newBuffer\<rparr>
       in count_writer 1 (ls_inData st2) st2
     else st)"

definition listener_dispatch :: "chrono_t \<Rightarrow> client_message_code \<Rightarrow> (unit, listener_state) io" where
  "listener_dispatch now c st =
    (case dispatch_message now c (ls_battery st) (ls_buffers st ! ls_inData st) (ls_queue st) of
       Inl e \<Rightarrow> (Inl e, st)
     | Inr (b, q) \<Rightarrow> (Inr (), st\<lparr>ls_buffers := (ls_buffers st)[ls_inData st := b], ls_queue := q\<rparr>))"

definition listener_step :: "listener_turn \<Rightarrow> (unit, listener_state) io" where
  "listener_step t st =
    (case bind_outcome (lt_received t) (\<lambda>data. message_build data (ls_battery st)) of
       Inl e \<Rightarrow> (Inl e, st)
     | Inr (c, bat) \<Rightarrow>
         listener_dispatch (lt_now t) c (change_buffer (lt_current t) (st\<lparr>ls_battery := bat\<rparr>)))"

text \<open>The turns end where the stop flag is seen.\<close>

fun listener_loop :: "listener_turn list \<Rightarrow> (unit, listener_state) io" where
  "listener_loop [] st = (Inr (), st)"
| "listener_loop (t # ts) st = io_bind (listener_step t) (\<lambda>_. listener_loop ts) st"

section \<open>Attempts and recovery\<close>

text \<open>
  \<open>sa_others\<close> is what the other threads have done to the signals when the loop ends, \<open>sa_joined\<close> what they
  still do until \<open>m_pluggable.reset\<close> has joined them; it is \<open>None\<close> when one of them never ends.
\<close>

record session_attempt =
  sa_launch :: "unit outcome"
  sa_turns :: "listener_turn list"
  sa_others :: "system_stop_signals \<Rightarrow> system_stop_signals"
  sa_joined :: "(system_stop_signals \<Rightarrow> system_stop_signals) option"

definition workerPoolConcurrency :: int where "workerPoolConcurrency = 2"

text \<open>
  The handlers: \<open>inData\<close> is null as long as the launch has not succeeded, and the handlers do not ask.
\<close>

definition overseer_handler ::
    "failure \<Rightarrow> listener_state option \<Rightarrow> system_stop_signals \<Rightarrow>
      (system_stop_signals \<times> listener_state) outcome" where
  "overseer_handler e inData sig =
    (case e of
       Fault f \<Rightarrow> Inl (Fault f)
     | Throw x \<Rightarrow>
         (case inData of
            None \<Rightarrow> Inl (Fault Null_Dereference)
          | Some st \<Rightarrow>
              Inr (signalError (x \<noteq> Transport_Error_Recoverable) sig, count_writer (-1) (ls_inData st) st)))"

definition session :: "session_attempt \<Rightarrow> system_stop_signals \<Rightarrow> (system_stop_signals \<times> listener_state) outcome" where
  "session a sig =
    (let st = session_new workerPoolConcurrency in
     case sa_launch a of
       Inl e \<Rightarrow> overseer_handler e None sig
     | Inr _ \<Rightarrow>
         (case listener_loop (sa_turns a) (claim_buffer 0 st) of
            (Inr _, st1) \<Rightarrow> Inr (sa_others a sig, st1)
          | (Inl e, st1) \<Rightarrow> overseer_handler e (Some st1) (sa_others a sig)))"

text \<open>\<open>Hanging\<close>: the destructors of the session never return.\<close>

datatype run_result = Terminated system_stop_signals | Running system_stop_signals | Hanging

fun overseer_run :: "session_attempt list \<Rightarrow> system_stop_signals \<Rightarrow> run_result outcome" where
  "overseer_run [] sig = Inr (Running sig)"
| "overseer_run (a # as) sig =
    bind_outcome (session a sig) (\<lambda>(sig1, _).
      case sa_joined a of
        None \<Rightarrow> Inr Hanging
      | Some cleanup \<Rightarrow>
          let sig2 = cleanup sig1 in
          if unrecoverableError sig2 then Inr (Terminated sig2) else overseer_run as (reset_signals sig2))"

section \<open>Events go to the buffer that is current when they are received\<close>

definition turn_of :: "chrono_t \<times> nat \<times> client_event \<Rightarrow> listener_turn" where
  "turn_of x =
    \<lparr> lt_received = Inr (istream_of (enc_event (snd (snd x)))), lt_current = fst (snd x), lt_now = fst x \<rparr>"

definition enter_at ::
    "chrono_t \<times> nat \<times> client_event \<Rightarrow> incoming_data_buffer list \<times> job_queue \<Rightarrow>
      (incoming_data_buffer list \<times> job_queue) outcome" where
  "enter_at x bq =
    bind_outcome (enter_event (fst x) (snd (snd x)) (fst bq ! fst (snd x), snd bq)) (\<lambda>(b, q).
      Inr ((fst bq)[fst (snd x) := b], q))"

text \<open>The contents of a buffer: all of it but the count of its writers.\<close>

definition contents :: "incoming_data_buffer \<Rightarrow> incoming_data_buffer" where
  "contents b = b\<lparr>bufferWriterCount := 0\<rparr>"

definition holds_one :: "listener_state \<Rightarrow> bool" where
  "holds_one st \<longleftrightarrow> length (ls_buffers st) = 2 \<and> ls_inData st < 2 \<and>
    (\<forall>i < 2. bufferWriterCount (ls_buffers st ! i) = of_bool (i = ls_inData st))"

lemma enter_event_contents:
  "enter_event now e (contents b, q) =
    bind_outcome (enter_event now e (b, q)) (\<lambda>(b1, q1). Inr (contents b1, q1))"
  by (cases e) (auto simp: contents_def bind_outcome_def split: sum.splits)

lemma enter_event_writers:
  "enter_event now e (b, q) = Inr (b', q') \<Longrightarrow> bufferWriterCount b' = bufferWriterCount b"
  by (cases e) (auto simp: bind_outcome_Inr_iff)

lemma contents_idem [simp]: "contents (contents b) = contents b"
  by (simp add: contents_def)

lemma contents_writers: "contents (b\<lparr>bufferWriterCount := k\<rparr>) = contents b"
  by (simp add: contents_def)

lemma two_cases: "i < (2::nat) \<longleftrightarrow> i = 0 \<or> i = 1"
  by auto

lemma change_buffer_ok:
  assumes "holds_one st" and "cur < 2"
  shows "holds_one (change_buffer cur st)" and "ls_inData (change_buffer cur st) = cur"
    and "map contents (ls_buffers (change_buffer cur st)) = map contents (ls_buffers st)"
    and "ls_queue (change_buffer cur st) = ls_queue st" and "ls_battery (change_buffer cur st) = ls_battery st"
proof -
  obtain x y where xy: "ls_buffers st = [x, y]"
    using assms(1) by (auto simp: holds_one_def length_Suc_conv numeral_2_eq_2)
  have cases: "cur = ls_inData st \<or> ls_inData st = 0 \<and> cur = 1 \<or> ls_inData st = 1 \<and> cur = 0"
    using assms by (auto simp: holds_one_def two_cases)
  have counts: "\<And>i. i < 2 \<Longrightarrow> bufferWriterCount ([x, y] ! i) = of_bool (i = ls_inData st)"
    using assms(1) xy by (simp add: holds_one_def)
  have c: "bufferWriterCount x = of_bool (ls_inData st = 0)" "bufferWriterCount y = of_bool (ls_inData st = 1)"
    using counts [of 0] counts [of 1] by simp_all
  have st: "change_buffer cur st =
      st\<lparr>ls_inData := cur, ls_buffers := [x\<lparr>bufferWriterCount := of_bool (cur = 0)\<rparr>, y\<lparr>bufferWriterCount := of_bool (cur = 1)\<rparr>]\<rparr>"
    using cases
  proof (elim disjE conjE)
    assume "cur = ls_inData st"
    then show ?thesis using c xy by (cases x; cases y; cases st) (simp add: change_buffer_def)
  qed (simp_all add: change_buffer_def count_writer_def xy c Let_def)
  then show "holds_one (change_buffer cur st)"
    using assms(2) by (simp add: holds_one_def two_cases)
  show "ls_inData (change_buffer cur st) = cur"
    "map contents (ls_buffers (change_buffer cur st)) = map contents (ls_buffers st)"
    "ls_queue (change_buffer cur st) = ls_queue st" "ls_battery (change_buffer cur st) = ls_battery st"
    unfolding st by (simp_all add: xy contents_writers)
qed

lemma enter_event_on_contents:
  assumes "enter_event now e (contents b, q) = Inr (b1, q1)" and "contents b = contents b'"
  shows "\<exists>b2. enter_event now e (b', q) = Inr (b2, q1) \<and> contents b2 = contents b1 \<and>
    bufferWriterCount b2 = bufferWriterCount b'"
proof -
  have "enter_event now e (contents b', q) = Inr (b1, q1)" using assms by simp
  then obtain b2 where "enter_event now e (b', q) = Inr (b2, q1)" "b1 = contents b2"
    unfolding enter_event_contents by (auto simp: bind_outcome_Inr_iff)
  then show ?thesis using enter_event_writers [of now e b' q b2 q1] by auto
qed

lemma listener_step_event:
  assumes st: "holds_one st" "cur < 2" and valid: "valid_event e"
    and enter: "enter_event now e (contents (ls_buffers st ! cur), ls_queue st) = Inr (b1, q1)"
  shows "\<exists>st'. listener_step (turn_of (now, cur, e)) st = (Inr (), st') \<and> holds_one st' \<and>
    map contents (ls_buffers st') = (map contents (ls_buffers st))[cur := contents b1] \<and> ls_queue st' = q1"
proof -
  define st1 where "st1 = change_buffer cur st"
  have bat: "change_buffer cur (st\<lparr>ls_battery := bat\<rparr>) = st1\<lparr>ls_battery := bat\<rparr>" for bat
    by (simp add: st1_def change_buffer_def count_writer_def Let_def)
  note C = change_buffer_ok [OF st, folded st1_def]
  have len: "length (ls_buffers st1) = 2" "length (ls_buffers st) = 2" using C(1) st(1) by (simp_all add: holds_one_def)
  have "contents (ls_buffers st ! cur) = contents (ls_buffers st1 ! cur)"
    using arg_cong [OF C(3), of "\<lambda>l. l ! cur"] len st(2) by simp
  from enter_event_on_contents [OF enter this] obtain b2 where b2:
    "enter_event now e (ls_buffers st1 ! cur, ls_queue st) = Inr (b2, q1)" "contents b2 = contents b1"
    "bufferWriterCount b2 = bufferWriterCount (ls_buffers st1 ! cur)" by blast
  obtain bat' where "listen now (istream_of (enc_event e)) (ls_battery st) (ls_buffers st1 ! cur) (ls_queue st) =
      Inr (bat', b2, q1)"
    using listen_event [OF valid, of now "ls_battery st" "ls_buffers st1 ! cur" "ls_queue st"] b2(1) by auto
  then obtain c where c: "message_build (istream_of (enc_event e)) (ls_battery st) = Inr (c, bat')"
      "dispatch_message now c bat' (ls_buffers st1 ! cur) (ls_queue st) = Inr (b2, q1)"
    by (auto simp: listen_def bind_outcome_Inr_iff)
  let ?st = "st1\<lparr>ls_battery := bat', ls_buffers := (ls_buffers st1)[cur := b2], ls_queue := q1\<rparr>"
  have "listener_step (turn_of (now, cur, e)) st = (Inr (), ?st)"
    using c C(2,4) by (simp add: listener_step_def turn_of_def bat listener_dispatch_def)
  moreover have "holds_one ?st"
    using C(1,2) b2(3) st(2) by (auto simp: holds_one_def nth_list_update)
  moreover have "map contents (ls_buffers ?st) = (map contents (ls_buffers st))[cur := contents b1]"
    using C(3) b2(2) by (simp add: map_update)
  ultimately show ?thesis by (intro exI [of _ ?st]) simp
qed

lemma listener_loop_events:
  assumes "holds_one st" and "\<forall>x \<in> set xs. fst (snd x) < 2 \<and> valid_event (snd (snd x))"
    and "fold_outcome enter_at xs (map contents (ls_buffers st), ls_queue st) = Inr (bs, q)"
  shows "\<exists>st'. listener_loop (map turn_of xs) st = (Inr (), st') \<and> holds_one st' \<and>
    map contents (ls_buffers st') = bs \<and> ls_queue st' = q"
  using assms
proof (induction xs arbitrary: st)
  case (Cons x xs)
  obtain now cur e where x: "x = (now, cur, e)" by (cases x) auto
  have cur: "cur < 2" "valid_event e" using Cons.prems(2) x by simp_all
  have len: "length (ls_buffers st) = 2" using Cons.prems(1) by (simp add: holds_one_def)
  then obtain b1 q1 where e: "enter_event now e (contents (ls_buffers st ! cur), ls_queue st) = Inr (b1, q1)"
      "fold_outcome enter_at xs ((map contents (ls_buffers st))[cur := b1], q1) = Inr (bs, q)"
    using Cons.prems(3) cur(1) x
    by (auto simp: enter_at_def [of "(now, cur, e)"] bind_outcome_Inr_iff)
  have "contents b1 = b1"
    using enter_event_writers [OF e(1)] by (simp add: contents_def)
  with listener_step_event [OF Cons.prems(1) cur e(1)] obtain st1 where st1:
    "listener_step (turn_of (now, cur, e)) st = (Inr (), st1)" "holds_one st1"
    "map contents (ls_buffers st1) = (map contents (ls_buffers st))[cur := b1]" "ls_queue st1 = q1"
    by auto
  have "fold_outcome enter_at xs (map contents (ls_buffers st1), ls_queue st1) = Inr (bs, q)"
    using e(2) st1(3,4) by simp
  from Cons.IH [OF st1(2) _ this] Cons.prems(2) show ?case using st1(1) x by auto
qed simp

lemma claim_holds: "holds_one (claim_buffer 0 (session_new n))"
  and claim_contents: "map contents (ls_buffers (claim_buffer 0 (session_new n))) =
    [incoming_data_buffer_new, incoming_data_buffer_new]"
  and claim_queue: "ls_queue (claim_buffer 0 (session_new n)) = job_queue_new n"
  by (auto simp: holds_one_def claim_buffer_def session_new_def count_writer_def two_cases
      incoming_data_buffer_new_def contents_def)

text \<open>
  A session whose threads are joined leads to the next attempt, with fresh signals, unless an
  unrecoverable error was signalled by then; one whose threads are not joined is the last.
\<close>

lemma session_end:
  assumes "sa_launch a = Inr ()"
    and "listener_loop (sa_turns a) (claim_buffer 0 (session_new workerPoolConcurrency)) = (r, st1)"
    and "\<forall>f. r \<noteq> Inl (Fault f)"
  shows "overseer_run (a # as) sig =
    (case sa_joined a of
       None \<Rightarrow> Inr Hanging
     | Some cleanup \<Rightarrow>
         let sig1 = cleanup (case r of Inr _ \<Rightarrow> sa_others a sig
           | Inl e \<Rightarrow> signalError (e \<noteq> Throw Transport_Error_Recoverable) (sa_others a sig))
         in if unrecoverableError sig1 then Inr (Terminated sig1) else overseer_run as stop_signals_new)"
proof -
  have reset: "reset_signals s = stop_signals_new" for s
    by (cases s) (simp add: reset_signals_def stop_signals_new_def)
  show ?thesis
  proof (cases r)
    case (Inl e)
    then obtain x where "e = Throw x" using assms(3) by (cases e) auto
    then show ?thesis
      using assms(1,2) Inl
      by (simp add: session_def overseer_handler_def reset Let_def split: option.split)
  next
    case (Inr u)
    then show ?thesis using assms(1,2) by (simp add: session_def reset Let_def split: option.split)
  qed
qed

section \<open>The properties\<close>

text \<open>
  C20. Every event a client sends is entered into the buffer that is current when it has been received:
  the listener's loop, on the messages of any run of events that can be entered, ends without an
  exception, leaves in the two buffers and the job queue what entering the events one by one into their
  buffers leaves, and counts itself as a writer of the buffer it holds and of no other.
\<close>

theorem listener_loop_enters:
  assumes "\<forall>x \<in> set xs. fst (snd x) < 2 \<and> valid_event (snd (snd x))"
    and "fold_outcome enter_at xs ([incoming_data_buffer_new, incoming_data_buffer_new], job_queue_new n) =
      Inr (bs, q)"
  shows "\<exists>st'. listener_loop (map turn_of xs) (claim_buffer 0 (session_new n)) = (Inr (), st') \<and>
    map contents (ls_buffers st') = bs \<and> ls_queue st' = q \<and>
    (\<forall>i < 2. bufferWriterCount (ls_buffers st' ! i) = of_bool (i = ls_inData st'))"
proof -
  have "fold_outcome enter_at xs (map contents (ls_buffers (claim_buffer 0 (session_new n))),
      ls_queue (claim_buffer 0 (session_new n))) = Inr (bs, q)"
    using assms(2) by (simp only: claim_contents claim_queue)
  from listener_loop_events [OF claim_holds assms(1) this] show ?thesis by (auto simp: holds_one_def)
qed

theorem listener_loop_enters_witness:
  "\<exists>st'. listener_loop (map turn_of [(0, 0, Deal_Won 3 5), (1, 1, Deal_Won 3 6)])
      (claim_buffer 0 (session_new 2)) = (Inr (), st') \<and>
    map contents (ls_buffers st') =
      [incoming_data_buffer_new\<lparr>dealsWon := [(3, 5)]\<rparr>, incoming_data_buffer_new\<lparr>dealsWon := [(3, 6)]\<rparr>]"
proof -
  let ?xs = "[(0, 0, Deal_Won 3 5), (1, 1, Deal_Won 3 6)] :: (chrono_t \<times> nat \<times> client_event) list"
  have valid: "\<forall>x \<in> set ?xs. fst (snd x) < 2 \<and> valid_event (snd (snd x))"
    by (simp add: in_int_def in_long_def)
  have "fold_outcome enter_at ?xs ([incoming_data_buffer_new, incoming_data_buffer_new], job_queue_new 2) =
      Inr ([incoming_data_buffer_new\<lparr>dealsWon := [(3, 5)]\<rparr>, incoming_data_buffer_new\<lparr>dealsWon := [(3, 6)]\<rparr>],
        job_queue_new 2)"
    by (simp add: enter_at_def incoming_data_buffer_new_def tmap_at_def long_add_def in_long_def)
  from listener_loop_enters [OF valid this] show ?thesis by (elim exE conjE) (intro exI conjI)
qed

text \<open>
  C33. An exception out of the launch of the transport, the recoverable one included, reaches a handler
  that decrements the count of writers of a buffer not yet claimed, through the null pointer.
\<close>

theorem failed_launch_faults:
  assumes "sa_launch a = Inl (Throw e)"
  shows "overseer_run (a # as) sig = Inl (Fault Null_Dereference)"
  using assms by (simp add: session_def overseer_handler_def Let_def)

theorem failed_launch_faults_witness:
  "overseer_run [\<lparr> sa_launch = Inl (Throw Transport_Error_Recoverable), sa_turns = [], sa_others = id, sa_joined = Some id \<rparr>]
    stop_signals_new = Inl (Fault Null_Dereference)"
  by (rule failed_launch_faults) simp

end
