(* ===== verification/Service_Main.thy ===== *)
theory Service_Main
  imports Prelude
begin

text \<open>
  \<open>service/main.cpp\<close>: the check of the command line. The extraction of an \<open>int\<close> from a string stream is
  the standard's: white space is skipped, then an optional sign and digits are taken; no digits, or a
  value outside the type, set the fail bit. What follows the digits is not looked at.
\<close>

section \<open>Reading an int from a stream\<close>

definition is_space :: "char \<Rightarrow> bool" where
  "is_space c \<longleftrightarrow> c \<in> {CHR '' '', CHR 0x09, CHR 0x0A, CHR 0x0B, CHR 0x0C, CHR 0x0D}"

definition is_digit :: "char \<Rightarrow> bool" where
  "is_digit c \<longleftrightarrow> 48 \<le> (of_char c :: nat) \<and> (of_char c :: nat) \<le> 57"

definition digit_value :: "char \<Rightarrow> int" where
  "digit_value c = int (of_char c) - 48"

definition digits_value :: "string \<Rightarrow> int" where
  "digits_value ds = foldl (\<lambda>v c. 10 * v + digit_value c) 0 ds"

definition extract_int :: "string \<Rightarrow> int option" where
  "extract_int input =
    (let body = dropWhile is_space input;
         negative = (body \<noteq> [] \<and> hd body = CHR ''-'');
         unsigned = (if body \<noteq> [] \<and> (hd body = CHR ''-'' \<or> hd body = CHR ''+'') then tl body else body);
         digits = takeWhile is_digit unsigned;
         v = (if negative then - digits_value digits else digits_value digits)
     in if digits = [] then None
        else if - INT_MAX - 1 \<le> v \<and> v \<le> INT_MAX then Some v else None)"

section \<open>main\<close>

datatype main_result =
    Usage
  | Port_Not_Numeric
  | Port_Out_Of_Range
  | Run_On_Port nat

text \<open>The arguments with the program's name in front; every path returns 0.\<close>

definition service_main :: "string list \<Rightarrow> main_result" where
  "service_main argv =
    (if length argv \<noteq> 2 then Usage
     else case extract_int (argv ! 1) of
       None \<Rightarrow> Port_Not_Numeric
     | Some portNumber \<Rightarrow>
         if portNumber < 0 \<or> portNumber > USHRT_MAX then Port_Out_Of_Range
         else Run_On_Port (nat portNumber mod 2 ^ 16))"

section \<open>Decimal numerals\<close>

lemma digits_value_snoc: "digits_value (ds @ [c]) = 10 * digits_value ds + digit_value c"
  by (simp add: digits_value_def)

lemma digit_char: "d < 10 \<Longrightarrow> is_digit (char_of (48 + d)) \<and> digit_value (char_of (48 + d)) = int d"
  by (simp add: is_digit_def digit_value_def of_char_of)

lemma decimal_digits: "(\<forall>c \<in> set (decimal n). is_digit c) \<and> decimal n \<noteq> [] \<and> digits_value (decimal n) = int n"
proof (induction n rule: decimal.induct)
  case (1 n)
  show ?case
  proof (cases "n < 10")
    case True
    then show ?thesis using digit_char [of n] by (subst (1 2 3) decimal.simps) (simp add: digits_value_def)
  next
    case False
    have "int n = 10 * int (n div 10) + int (n mod 10)" by presburger
    then show ?thesis
      using 1 [OF False] False digit_char [of "n mod 10"]
      by (subst (1 2 3) decimal.simps) (auto simp: digits_value_snoc)
  qed
qed

lemma digit_not_space: "is_digit c \<Longrightarrow> \<not> is_space c \<and> c \<noteq> CHR ''-'' \<and> c \<noteq> CHR ''+''"
  by (auto simp: is_digit_def is_space_def)

lemma extract_decimal:
  assumes "int n \<le> INT_MAX" and "rest = [] \<or> \<not> is_digit (hd rest)"
  shows "extract_int (decimal n @ rest) = Some (int n)"
proof -
  have D: "\<forall>c \<in> set (decimal n). is_digit c" "decimal n \<noteq> []" "digits_value (decimal n) = int n"
    using decimal_digits [of n] by auto
  then obtain c cs where c: "decimal n = c # cs" by (cases "decimal n") auto
  then have "is_digit c" using D(1) by simp
  note c0 = digit_not_space [OF this]
  have "takeWhile is_digit (decimal n @ rest) = decimal n"
    using D(1) assms(2) by (cases rest) (auto simp: takeWhile_append)
  moreover have "dropWhile is_space (decimal n @ rest) = decimal n @ rest" using c c0 by simp
  moreover have "hd (decimal n @ rest) \<noteq> CHR ''-''" "hd (decimal n @ rest) \<noteq> CHR ''+''"
    using c c0 by simp_all
  ultimately show ?thesis using D(2,3) assms(1) by (simp add: extract_int_def INT_MAX_def)
qed

section \<open>The property\<close>

text \<open>
  C40. A decimal number given as the one argument is the port the service runs on when it is in the range of
  ports, and is refused when it is above; what follows the number is ignored.
\<close>

theorem main_takes_port:
  assumes "int n \<le> INT_MAX" and "rest = [] \<or> \<not> is_digit (hd rest)"
  shows "service_main [name, decimal n @ rest] = (if n \<le> 65535 then Run_On_Port n else Port_Out_Of_Range)"
  using extract_decimal [OF assms] by (simp add: service_main_def USHRT_MAX_def)

theorem main_takes_port_witness:
  "service_main [''service'', decimal 8080 @ ''x''] = Run_On_Port 8080"
proof -
  have "\<not> is_digit (hd ''x'')" by (simp add: is_digit_def)
  then show ?thesis using main_takes_port [of 8080 "''x''" "''service''"] by (simp add: INT_MAX_def)
qed

end
