(* ===== verification/Writer_Lock.thy ===== *)
theory Writer_Lock
  imports Prelude "HOL-Library.Multiset"
begin

text \<open>
  \<open>utils/spinlock.h\<close> and its two uses. The client's two threads guard every operation on the storage of
  the previous minute by a named \<open>std::lock_guard\<close> in a block of its own (\<open>test/strategy.cpp\<close>); the
  service's \<open>ServerSideTransport::blockedWriteMessage\<close> (\<open>ipc/transport.h\<close>) makes a temporary of it, which
  is destroyed before \<open>writeMessage\<close> is called. Threads are lists of atomic operations on the flag of the
  lock and on the shared data, an operation of the code being any number of accesses to the data. The
  guarded sections take effect one after the other; the frames of the service are not protected at all.
\<close>

section \<open>Spinlock\<close>

datatype 'a thread_op = Acquire | Release | Access "'a \<Rightarrow> 'a"

record 'a threads =
  locked :: bool
  shared :: 'a
  programs :: "nat \<Rightarrow> 'a thread_op list"

text \<open>\<open>test_and_set\<close> returns the old value; \<open>lock\<close> repeats it until that is false.\<close>

definition test_and_set :: "bool \<Rightarrow> bool \<times> bool" where
  "test_and_set flag = (flag, True)"

definition spinlock_lock :: "bool \<Rightarrow> bool option" where
  "spinlock_lock flag = (case test_and_set flag of (old, new) \<Rightarrow> if old then None else Some new)"

definition spinlock_unlock :: "bool \<Rightarrow> bool" where
  "spinlock_unlock flag = False"

definition thread_step :: "nat \<Rightarrow> 'a threads \<Rightarrow> 'a threads option" where
  "thread_step i s =
    (case programs s i of
       [] \<Rightarrow> None
     | op # ops \<Rightarrow>
         let s1 = s\<lparr>programs := (programs s)(i := ops)\<rparr> in
         (case op of
            Acquire \<Rightarrow> map_option (\<lambda>flag. s1\<lparr>locked := flag\<rparr>) (spinlock_lock (locked s))
          | Release \<Rightarrow> Some (s1\<lparr>locked := spinlock_unlock (locked s)\<rparr>)
          | Access f \<Rightarrow> Some (s1\<lparr>shared := f (shared s)\<rparr>)))"

fun thread_run :: "nat list \<Rightarrow> 'a threads \<Rightarrow> 'a threads option" where
  "thread_run [] s = Some s"
| "thread_run (i # is) s = (case thread_step i s of None \<Rightarrow> None | Some s' \<Rightarrow> thread_run is s')"

definition threads_start :: "'a \<Rightarrow> (nat \<Rightarrow> 'a thread_op list) \<Rightarrow> 'a threads" where
  "threads_start d ps = \<lparr> locked = False, shared = d, programs = ps \<rparr>"

lemma thread_run_append:
  "thread_run (is @ js) s = (case thread_run is s of None \<Rightarrow> None | Some s' \<Rightarrow> thread_run js s')"
  by (induction "is" arbitrary: s) (auto split: option.splits)

section \<open>Guarded sections\<close>

text \<open>
  \<open>{ std::lock_guard lg {m_dataAccess}; m_prevMinData.operation(...); }\<close>, the operation given by its
  accesses to the data, and a thread that goes through such sections.
\<close>

definition guarded_section :: "('a \<Rightarrow> 'a) list \<Rightarrow> 'a thread_op list" where
  "guarded_section accesses = [Acquire] @ map Access accesses @ [Release]"

definition guarded_thread :: "('a \<Rightarrow> 'a) list list \<Rightarrow> 'a thread_op list" where
  "guarded_thread sections = concat (map guarded_section sections)"

text \<open>The sections of the threads one after the other: \<open>order\<close> says whose next section is taken.\<close>

fun one_by_one :: "nat list \<Rightarrow> (nat \<Rightarrow> ('a \<Rightarrow> 'a) list list) \<times> 'a \<Rightarrow> ((nat \<Rightarrow> ('a \<Rightarrow> 'a) list list) \<times> 'a) option" where
  "one_by_one [] x = Some x"
| "one_by_one (i # order) (secs, d) =
    (case secs i of
       [] \<Rightarrow> None
     | accesses # rest \<Rightarrow> one_by_one order (secs(i := rest), fold (\<lambda>f. f) accesses d))"

lemma one_by_one_snoc:
  "one_by_one order x = Some (rem, d) \<Longrightarrow> rem i = accesses # rest \<Longrightarrow>
    one_by_one (order @ [i]) x = Some (rem(i := rest), fold (\<lambda>f. f) accesses d)"
  by (induction order x rule: one_by_one.induct) (auto split: list.splits)

text \<open>Between two sections, and in the middle of one: \<open>x\<close> holds the sections and the data of the start.\<close>

definition between_sections :: "(nat \<Rightarrow> ('a \<Rightarrow> 'a) list list) \<times> 'a \<Rightarrow> 'a threads \<Rightarrow> bool" where
  "between_sections x s \<longleftrightarrow> \<not> locked s \<and>
    (\<exists>order rem. one_by_one order x = Some (rem, shared s) \<and> (\<forall>i. programs s i = guarded_thread (rem i)))"

definition in_section :: "(nat \<Rightarrow> ('a \<Rightarrow> 'a) list list) \<times> 'a \<Rightarrow> 'a threads \<Rightarrow> bool" where
  "in_section x s \<longleftrightarrow> locked s \<and>
    (\<exists>order rem d i sent left rest. one_by_one order x = Some (rem, d) \<and> rem i = (sent @ left) # rest \<and>
      shared s = fold (\<lambda>f. f) sent d \<and> programs s i = map Access left @ [Release] @ guarded_thread rest \<and>
      (\<forall>j. j \<noteq> i \<longrightarrow> programs s j = guarded_thread (rem j)))"

lemma guarded_thread_simps:
  "guarded_thread [] = []"
  "guarded_thread (accesses # rest) = Acquire # map Access accesses @ [Release] @ guarded_thread rest"
  by (simp_all add: guarded_thread_def guarded_section_def)

lemma guarded_thread_waits:
  "locked s \<Longrightarrow> programs s i = guarded_thread secs \<Longrightarrow> thread_step i s = None"
  by (cases secs) (simp_all add: thread_step_def guarded_thread_simps spinlock_lock_def test_and_set_def)

lemma between_sections_step:
  assumes "between_sections x s" and "thread_step i s = Some s'"
  shows "in_section x s'"
proof -
  obtain order rem where B: "\<not> locked s" "one_by_one order x = Some (rem, shared s)"
      "\<And>j. programs s j = guarded_thread (rem j)"
    using assms(1) by (auto simp: between_sections_def)
  obtain accesses rest where r: "rem i = accesses # rest"
    using assms(2) B(3) [of i] by (cases "rem i") (simp_all add: thread_step_def guarded_thread_simps)
  have s': "s' = s\<lparr>programs := (programs s)(i := map Access accesses @ [Release] @ guarded_thread rest), locked := True\<rparr>"
    using assms(2) B(1) B(3) [of i] r
    by (simp add: thread_step_def guarded_thread_simps spinlock_lock_def test_and_set_def Let_def)
  show ?thesis
    unfolding in_section_def s'
  proof (intro conjI exI)
    show "one_by_one order x = Some (rem, shared s)" by (rule B(2))
    show "rem i = ([] @ accesses) # rest" using r by simp
  qed (simp_all add: B(3))
qed

lemma in_section_step:
  assumes "in_section x s" and "thread_step j s = Some s'"
  shows "in_section x s' \<or> between_sections x s'"
proof -
  obtain order rem d i sent left rest where I: "locked s" "one_by_one order x = Some (rem, d)"
      "rem i = (sent @ left) # rest" "shared s = fold (\<lambda>f. f) sent d"
      "programs s i = map Access left @ [Release] @ guarded_thread rest"
      "\<And>j. j \<noteq> i \<Longrightarrow> programs s j = guarded_thread (rem j)"
    using assms(1) by (auto simp: in_section_def)
  have j: "j = i" using guarded_thread_waits [OF I(1) I(6)] assms(2) by fastforce
  show ?thesis
  proof (cases left)
    case Nil
    then have s': "s' = s\<lparr>programs := (programs s)(i := guarded_thread rest), locked := False\<rparr>"
      using assms(2) I(5) j by (simp add: thread_step_def spinlock_unlock_def)
    have "one_by_one (order @ [i]) x = Some (rem(i := rest), shared s)"
      using one_by_one_snoc [OF I(2,3)] Nil I(4) by simp
    moreover have "programs s' k = guarded_thread ((rem(i := rest)) k)" for k
      using I(6) [of k] by (simp add: s')
    moreover have "\<not> locked s'" "shared s' = shared s" by (simp_all add: s')
    ultimately have "between_sections x s'" unfolding between_sections_def by metis
    then show ?thesis ..
  next
    case (Cons f left')
    then have s': "s' = s\<lparr>programs := (programs s)(i := map Access left' @ [Release] @ guarded_thread rest),
        shared := f (shared s)\<rparr>"
      using assms(2) I(5) j by (simp add: thread_step_def)
    have "in_section x s'"
      unfolding in_section_def
    proof (intro conjI exI)
      show "rem i = ((sent @ [f]) @ left') # rest" using I(3) Cons by simp
    qed (use I in \<open>simp_all add: s'\<close>)
    then show ?thesis ..
  qed
qed

lemma sections_run:
  "between_sections x s \<or> in_section x s \<Longrightarrow> thread_run is s = Some s' \<Longrightarrow>
    between_sections x s' \<or> in_section x s'"
proof (induction "is" arbitrary: s)
  case (Cons i "is")
  then obtain s1 where s1: "thread_step i s = Some s1" "thread_run is s1 = Some s'" by (auto split: option.splits)
  have "between_sections x s1 \<or> in_section x s1"
    using Cons.prems(1) between_sections_step [OF _ s1(1)] in_section_step [OF _ s1(1)] by blast
  from Cons.IH [OF this s1(2)] show ?case .
qed simp

lemma sections_start: "between_sections (secs, d) (threads_start d (\<lambda>i. guarded_thread (secs i)))"
  unfolding between_sections_def
  by (intro conjI exI [of _ "[]"] exI [of _ secs]) (simp_all add: threads_start_def)

lemma sections_done:
  assumes "between_sections x s \<or> in_section x s" and "\<And>i. programs s i = []"
  shows "\<exists>order. one_by_one order x = Some (\<lambda>_. [], shared s)"
proof -
  have "\<not> in_section x s" using assms(2) by (auto simp: in_section_def)
  then obtain order rem where B: "one_by_one order x = Some (rem, shared s)"
      "\<And>i. guarded_thread (rem i) = []"
    using assms by (auto simp: between_sections_def)
  have "rem i = []" for i using B(2) [of i] by (cases "rem i") (simp_all add: guarded_thread_simps)
  then have "rem = (\<lambda>_. [])" by blast
  then show ?thesis using B(1) by blast
qed

lemma sections_go_on:
  assumes "between_sections x s \<or> in_section x s" and "programs s i \<noteq> []"
  shows "\<exists>j s'. thread_step j s = Some s'"
  using assms(1)
proof
  assume "between_sections x s"
  then obtain rem where B: "\<not> locked s" "\<And>i. programs s i = guarded_thread (rem i)"
    by (auto simp: between_sections_def)
  then obtain accesses rest where "rem i = accesses # rest"
    using assms(2) by (cases "rem i") (simp_all add: guarded_thread_simps)
  then have "\<exists>s'. thread_step i s = Some s'"
    using B by (simp add: thread_step_def guarded_thread_simps spinlock_lock_def test_and_set_def)
  then show ?thesis by blast
next
  assume "in_section x s"
  then obtain k left rest where "programs s k = map Access left @ [Release] @ guarded_thread rest"
    by (auto simp: in_section_def)
  then have "\<exists>s'. thread_step k s = Some s'" by (cases left) (simp_all add: thread_step_def)
  then show ?thesis by blast
qed

section \<open>Frames sent after the lock is given up\<close>

text \<open>\<open>blockedWriteMessage\<close> for a frame that is sent in pieces.\<close>

definition blocked_write_ops :: "buffer_t list \<Rightarrow> buffer_t thread_op list" where
  "blocked_write_ops pieces = [Acquire, Release] @ map (\<lambda>piece. Access (\<lambda>sent. sent @ piece)) pieces"

text \<open>The pieces in the order of the threads that send them.\<close>

fun mixed :: "nat list \<Rightarrow> (nat \<Rightarrow> buffer_t list) \<Rightarrow> buffer_t" where
  "mixed [] frames = []"
| "mixed (i # order) frames = hd (frames i) @ mixed order (frames(i := tl (frames i)))"

abbreviation sends :: "buffer_t list \<Rightarrow> buffer_t thread_op list" where
  "sends \<equiv> map (\<lambda>piece. Access (\<lambda>sent. sent @ piece))"

text \<open>First every thread takes the lock and gives it up.\<close>

definition past_lock :: "(nat \<Rightarrow> buffer_t list) \<Rightarrow> nat set \<Rightarrow> nat \<Rightarrow> buffer_t thread_op list" where
  "past_lock frames D i =
    (if i \<in> D then sends (frames i) else if frames i = [] then [] else blocked_write_ops (frames i))"

lemma locks_taken:
  assumes "distinct xs" and "\<forall>i \<in> set xs. i \<notin> D \<and> frames i \<noteq> []"
  shows "thread_run (concat (map (\<lambda>i. [i, i]) xs)) \<lparr> locked = False, shared = d, programs = past_lock frames D \<rparr> =
    Some \<lparr> locked = False, shared = d, programs = past_lock frames (D \<union> set xs) \<rparr>"
  using assms
proof (induction xs arbitrary: D)
  case (Cons x xs)
  have "(past_lock frames D)(x := sends (frames x)) = past_lock frames (insert x D)"
    by (auto simp: past_lock_def fun_eq_iff)
  then have "thread_run [x, x] \<lparr> locked = False, shared = d, programs = past_lock frames D \<rparr> =
      Some \<lparr> locked = False, shared = d, programs = past_lock frames (insert x D) \<rparr>"
    using Cons.prems(2)
    by (simp add: thread_step_def past_lock_def [of frames D x] blocked_write_ops_def spinlock_lock_def
        test_and_set_def spinlock_unlock_def)
  moreover have "concat (map (\<lambda>i. [i, i]) (x # xs)) = [x, x] @ concat (map (\<lambda>i. [i, i]) xs)" by simp
  ultimately show ?case
    using Cons.IH [of "insert x D"] Cons.prems by (simp only: thread_run_append option.case) auto
qed simp

lemma pieces_sent:
  assumes "\<forall>i. count_list order i = length (frames i)"
  shows "thread_run order \<lparr> locked = False, shared = d, programs = \<lambda>i. sends (frames i) \<rparr> =
    Some \<lparr> locked = False, shared = d @ mixed order frames, programs = \<lambda>_. [] \<rparr>"
  using assms
proof (induction order arbitrary: d frames)
  case (Cons i order)
  obtain p ps where p: "frames i = p # ps" using Cons.prems [rule_format, of i] by (cases "frames i") auto
  have "thread_step i \<lparr> locked = False, shared = d, programs = \<lambda>j. sends (frames j) \<rparr> =
      Some \<lparr> locked = False, shared = d @ p, programs = \<lambda>j. sends ((frames(i := ps)) j) \<rparr>"
    using p by (auto simp: thread_step_def fun_eq_iff)
  moreover have "\<forall>j. count_list order j = length ((frames(i := ps)) j)"
  proof
    fix j
    show "count_list order j = length ((frames(i := ps)) j)"
      using Cons.prems [rule_format, of j] p by (cases "j = i") auto
  qed
  ultimately show ?case
    using Cons.IH [of "frames(i := ps)" "d @ p"] p by (simp del: fun_upd_apply)
qed simp

section \<open>The properties\<close>

text \<open>
  C37. The spinlock serialises the guarded sections: however the threads interleave, a run that has ended
  leaves the data that the sections leave when they are taken whole, one after the other, in an order that
  keeps each thread's own; and a run that has not ended can go on.
\<close>

theorem guarded_sections_serialise:
  assumes "thread_run is (threads_start d (\<lambda>i. guarded_thread (secs i))) = Some s"
  shows "((\<forall>i. programs s i = []) \<longrightarrow> (\<exists>order. one_by_one order (secs, d) = Some (\<lambda>_. [], shared s))) \<and>
    ((\<exists>i. programs s i \<noteq> []) \<longrightarrow> (\<exists>j s'. thread_step j s = Some s'))"
proof -
  have "between_sections (secs, d) s \<or> in_section (secs, d) s"
    by (rule sections_run [OF disjI1 [OF sections_start] assms])
  from sections_done [OF this] sections_go_on [OF this] show ?thesis by blast
qed

theorem guarded_sections_serialise_witness:
  "\<exists>s order. thread_run [1, 1, 1, 1, 0, 0, 0]
      (threads_start (5::int) (\<lambda>i. guarded_thread
        (if i = 0 then [[\<lambda>x. 2 * x]] else if i = 1 then [[\<lambda>x. x + 1, \<lambda>x. x + 2]] else []))) = Some s \<and>
    one_by_one order
      (\<lambda>i. if i = 0 then [[\<lambda>x. 2 * x]] else if i = 1 then [[\<lambda>x. x + 1, \<lambda>x. x + 2]] else [], 5) =
      Some (\<lambda>_. [], shared s) \<and> shared s = 16"
proof -
  let ?secs = "\<lambda>i. if i = 0 then [[\<lambda>x. 2 * x]] else if i = 1 then [[\<lambda>x. x + 1, \<lambda>x. x + 2]] else [] :: (int \<Rightarrow> int) list list"
  have "\<exists>s. thread_run [1, 1, 1, 1, 0, 0, 0] (threads_start 5 (\<lambda>i. guarded_thread (?secs i))) = Some s \<and>
      (\<forall>i. programs s i = []) \<and> shared s = 16"
    by (simp add: threads_start_def thread_step_def guarded_thread_def guarded_section_def spinlock_lock_def
        test_and_set_def spinlock_unlock_def)
  then obtain s where s: "thread_run [1, 1, 1, 1, 0, 0, 0] (threads_start 5 (\<lambda>i. guarded_thread (?secs i))) = Some s"
      "\<forall>i. programs s i = []" "shared s = 16" by blast
  from guarded_sections_serialise [OF s(1)] s show ?thesis by blast
qed

text \<open>
  C36. \<open>blockedWriteMessage\<close> gives up the lock before it sends, so the lock protects nothing: whatever the
  number of the threads, the pieces in which their frames are sent, and the order of the pieces, there is
  a run of the threads that puts the pieces into the stream in that order.
\<close>

theorem blocked_writes_mix:
  assumes "\<forall>i. count_list order i = length (frames i)"
  shows "\<exists>sched s. thread_run sched
      (threads_start d (\<lambda>i. if frames i = [] then [] else blocked_write_ops (frames i))) = Some s \<and>
    (\<forall>i. programs s i = []) \<and> shared s = d @ mixed order frames"
proof -
  let ?first = "concat (map (\<lambda>i. [i, i]) (remdups order))"
  have some: "i \<in> set order \<longleftrightarrow> frames i \<noteq> []" for i
    using assms [rule_format, of i] by (metis count_list_0_iff length_0_conv)
  have "past_lock frames (set order) = (\<lambda>i. sends (frames i))"
    using some by (auto simp: past_lock_def fun_eq_iff)
  moreover have "threads_start d (\<lambda>i. if frames i = [] then [] else blocked_write_ops (frames i)) =
      \<lparr> locked = False, shared = d, programs = past_lock frames {} \<rparr>"
    by (auto simp: threads_start_def past_lock_def)
  ultimately have "thread_run (?first @ order)
      (threads_start d (\<lambda>i. if frames i = [] then [] else blocked_write_ops (frames i))) =
    Some \<lparr> locked = False, shared = d @ mixed order frames, programs = \<lambda>_. [] \<rparr>"
    using locks_taken [of "remdups order" "{}" frames d] pieces_sent [OF assms, of d] some
    by (simp add: thread_run_append)
  then show ?thesis by (intro exI conjI) (assumption | simp)+
qed

theorem blocked_writes_mix_witness:
  "\<exists>sched s. thread_run sched
      (threads_start [] (\<lambda>i. if i < 2 then blocked_write_ops ([[[1], [2]], [[3], [4]]] ! i) else [])) = Some s \<and>
    (\<forall>i. programs s i = []) \<and> shared s = [1, 3, 2, 4]"
proof -
  let ?f = "\<lambda>i. if i < 2 then [[[1], [2]], [[3], [4]]] ! i else [] :: buffer_t list"
  have "\<forall>i. count_list [0, 1, 0, 1] i = length (?f i)"
    by (auto simp: less_Suc_eq numeral_2_eq_2)
  from blocked_writes_mix [OF this, of "[]"] obtain sched s where
    s: "thread_run sched (threads_start [] (\<lambda>i. if ?f i = [] then [] else blocked_write_ops (?f i))) = Some s"
      "\<forall>i. programs s i = []" "shared s = mixed [0, 1, 0, 1] ?f" by auto
  have "(\<lambda>i. if ?f i = [] then [] else blocked_write_ops (?f i)) =
      (\<lambda>i. if i < 2 then blocked_write_ops ([[[1], [2]], [[3], [4]]] ! i) else [])"
    by (auto simp: fun_eq_iff less_Suc_eq numeral_2_eq_2)
  moreover have "mixed [0, 1, 0, 1] ?f = [1, 3, 2, 4]" by simp
  ultimately show ?thesis using s by auto
qed

end
