(* ===== verification/Rating_Announcer.thy ===== *)
theory Rating_Announcer
  imports Recalculation Message_Dispatcher
begin

text \<open>
  \<open>service/rating_announcer.cpp\<close>: the thread that starts a recalculation at the turn of the minute and
  then, second by second, asks the workers to send their ratings to the users who connected in that
  second of the minute. Once a week the rating is dropped.

  The loop is modelled minute by minute. What the thread reads from outside, the system clock at three
  places and the stop flag before each second, is an argument; sleeping has no effect on the data. The
  expiration date is a reference to \<open>CoreRatingData::expirationDate\<close>, which no other thread uses.
\<close>

section \<open>The state of the thread\<close>

record announcer_state =
  dropOldRating :: bool
  weekJustTurned :: bool
  chronoSetIndex :: nat
  ratingExpirationDate :: chrono_t

record minute_readings =
  updateTime :: chrono_t
  weekTime :: chrono_t
  syncTime :: chrono_t
  flagSeen :: "nat \<Rightarrow> bool"

text \<open>The first block of \<open>doWork\<close>: the date, and the second the thread wakes up in.\<close>

definition announcer_init :: "chrono_t \<Rightarrow> chrono_t \<Rightarrow> chrono_t \<Rightarrow> announcer_state" where
  "announcer_init started woken expiration =
    (let weekStart = currentWeekStart started;
         s = \<lparr> dropOldRating = False, weekJustTurned = False, chronoSetIndex = 0,
               ratingExpirationDate = expiration \<rparr>;
         s1 = (if expiration = 0 then s\<lparr>ratingExpirationDate := weekStart\<rparr>
               else if expiration \<noteq> weekStart then s\<lparr>dropOldRating := True\<rparr> else s)
     in s1\<lparr>chronoSetIndex := currentSecondIndex woken\<rparr>)"

section \<open>A minute of the loop\<close>

definition announce :: "addr hash_set \<Rightarrow> job_queue \<Rightarrow> job_queue outcome" where
  "announce userBundle q = fold_outcome (enqueueUserData Announcer) userBundle q"

text \<open>The inner loop: the index it stops at and the queue.\<close>

function announce_seconds ::
    "(nat \<Rightarrow> bool) \<Rightarrow> iteration_data \<Rightarrow> nat \<Rightarrow> job_queue \<Rightarrow> (nat \<times> job_queue) outcome" where
  "announce_seconds flag usersOnline i q =
    (if i < 60 \<and> \<not> flag i then
       bind_outcome (announce (usersOnline ! i) q) (\<lambda>q1. announce_seconds flag usersOnline (Suc i) q1)
     else Inr (i, q))"
  by pat_completeness auto
termination by (relation "measure (\<lambda>(_, _, i, _). 60 - i)") auto

declare announce_seconds.simps [simp del]

text \<open>What follows the inner loop when no flag was seen.\<close>

definition announcer_turn :: "minute_readings \<Rightarrow> announcer_state \<Rightarrow> announcer_state" where
  "announcer_turn rd s =
    (if weekJustTurned s then
       s\<lparr>dropOldRating := True, weekJustTurned := False, chronoSetIndex := currentSecondIndex (syncTime rd)\<rparr>
     else
       let s1 = (if currentWeekStart (weekTime rd) > ratingExpirationDate s
                 then s\<lparr>weekJustTurned := True\<rparr> else s)
       in s1\<lparr>chronoSetIndex := 0\<rparr>)"

text \<open>One round of the outer loop; the flag in the result says whether the loop goes on.\<close>

definition announcer_minute ::
    "minute_readings \<Rightarrow> incoming_data_buffer \<Rightarrow> announcer_state \<times> rating_data \<Rightarrow>
      (bool \<times> announcer_state \<times> rating_data) outcome" where
  "announcer_minute rd inData sd =
    (let s = fst sd in
     bind_outcome (minute_step (dropOldRating s, inData) (snd sd)) (\<lambda>d.
     let s1 = (if dropOldRating s
               then s\<lparr>dropOldRating := False, ratingExpirationDate := currentWeekStart (updateTime rd)\<rparr>
               else s)
     in bind_outcome (announce_seconds (flagSeen rd) (fst (snd d)) (chronoSetIndex s1) (snd (snd d))) (\<lambda>(i, q).
     let s2 = s1\<lparr>chronoSetIndex := i\<rparr>; d1 = (fst d, fst (snd d), q)
     in if i \<noteq> 60 then Inr (False, s2, d1) else Inr (True, announcer_turn rd s2, d1))))"

text \<open>\<open>doWork\<close> over the readings of its minutes; an exception or the flag ends it.\<close>

fun announcer_work ::
    "(minute_readings \<times> incoming_data_buffer) list \<Rightarrow> announcer_state \<times> rating_data \<Rightarrow>
      system_stop_signals \<Rightarrow> system_stop_signals \<times> (announcer_state \<times> rating_data) option" where
  "announcer_work [] sd sig = (sig, Some sd)"
| "announcer_work (m # ms) sd sig =
    (case announcer_minute (fst m) (snd m) sd of
       Inl _ \<Rightarrow> (signalError True sig, None)
     | Inr (False, sd1) \<Rightarrow> (sig, Some sd1)
     | Inr (True, sd1) \<Rightarrow> announcer_work ms sd1 sig)"

section \<open>What a recalculation leaves of the job queue\<close>

definition kept :: "job_queue \<Rightarrow> job_queue \<Rightarrow> bool" where
  "kept q q' \<longleftrightarrow>
    (job_queue_wf q \<longrightarrow> job_queue_wf q' \<and> user_data_lanes q' = user_data_lanes q \<and> promise_lanes q' = promise_lanes q)"

lemma kept_refl [simp]: "kept q q"
  by (simp add: kept_def)

lemma kept_trans: "kept q q1 \<Longrightarrow> kept q1 q2 \<Longrightarrow> kept q q2"
  by (auto simp: kept_def)

lemma kept_report: "report e s = Inr s' \<Longrightarrow> kept (cs_jobs s) (cs_jobs s')"
  using enqueueErrorJob_ok [of "cs_jobs s" Announcer "Some e"]
  by (auto simp: kept_def report_def bind_outcome_Inr_iff)

lemma kept_online: "online_update i f s = Inr s' \<Longrightarrow> cs_jobs s' = cs_jobs s"
  by (auto simp: online_update_def split: if_splits)

lemma kept_set_object [simp]: "cs_jobs (set_object a u s) = cs_jobs s"
  by (simp add: set_object_def)

lemmas kept_steps = bind_outcome_Inr_iff Let_def

lemma kept_events:
  "registration_step r s = Inr s' \<Longrightarrow> kept (cs_jobs s) (cs_jobs s')"
  "rename_step n s = Inr s' \<Longrightarrow> kept (cs_jobs s) (cs_jobs s')"
  by (auto simp: registration_step_def rename_step_def kept_steps intro: kept_report
      split: if_splits option.splits)

lemma kept_connection: "connection_step c s = Inr s' \<Longrightarrow> kept (cs_jobs s) (cs_jobs s')"
  by (auto simp: connection_step_def kept_steps intro: kept_report dest!: kept_online
      split: if_splits option.splits)

lemma kept_deal: "deal_step d s = Inr s' \<Longrightarrow> kept (cs_jobs s) (cs_jobs s')"
  by (auto simp: deal_step_def kept_steps intro: kept_report dest!: kept_online
      split: if_splits option.splits)

lemma kept_fold:
  assumes "\<And>x s s'. step x s = Inr s' \<Longrightarrow> kept (cs_jobs s) (cs_jobs s')" and "fold_outcome step xs s = Inr s'"
  shows "kept (cs_jobs s) (cs_jobs s')"
  using assms(2)
proof (induction xs arbitrary: s)
  case (Cons x xs)
  then show ?case using assms(1) kept_trans by (auto simp: bind_outcome_Inr_iff) blast
qed simp

lemma kept_processes:
  "dropRating s = Inr s' \<Longrightarrow> kept (cs_jobs s) (cs_jobs s')"
  "processRegistrations s = Inr s' \<Longrightarrow> kept (cs_jobs s) (cs_jobs s')"
  "processRenames s = Inr s' \<Longrightarrow> kept (cs_jobs s) (cs_jobs s')"
  "processConnectionChanges s = Inr s' \<Longrightarrow> kept (cs_jobs s) (cs_jobs s')"
  "processDeals s = Inr s' \<Longrightarrow> kept (cs_jobs s) (cs_jobs s')"
  "rebuildRating s = Inr s' \<Longrightarrow> kept (cs_jobs s) (cs_jobs s')"
  by (auto simp: dropRating_def processRegistrations_def processRenames_def processConnectionChanges_def
      processDeals_def rebuildRating_def bind_outcome_Inr_iff
      intro: kept_fold [where step = registration_step, OF kept_events(1)]
        kept_fold [where step = rename_step, OF kept_events(2)]
        kept_fold [where step = connection_step, OF kept_connection] kept_fold [where step = deal_step, OF kept_deal])

lemma kept_recalculate:
  assumes "recalculate dropOld s = Inr s'"
  shows "kept (cs_jobs s) (cs_jobs s')"
proof -
  obtain s1 s2 s3 s4 s5 where run: "(if dropOld then dropRating s else Inr s) = Inr s1"
      "processRegistrations s1 = Inr s2" "processRenames s2 = Inr s3" "processConnectionChanges s3 = Inr s4"
      "processDeals s4 = Inr s5" "rebuildRating s5 = Inr s'"
    using assms by (auto simp: recalculate_def bind_outcome_Inr_iff)
  have "kept (cs_jobs s) (cs_jobs s1)" using run(1) kept_processes(1) by (auto split: if_splits)
  then show ?thesis
    using kept_processes(2) [OF run(2)] kept_processes(3) [OF run(3)] kept_processes(4) [OF run(4)]
      kept_processes(5) [OF run(5)] kept_processes(6) [OF run(6)] by (blast intro: kept_trans)
qed

lemma minute_step_kept: "minute_step m d = Inr d' \<Longrightarrow> kept (snd (snd d)) (snd (snd d'))"
  using kept_recalculate by (fastforce simp: minute_step_def bind_outcome_Inr_iff calc_start_def)

section \<open>Announcing\<close>

lemma announce_ok:
  assumes "job_queue_wf q"
  shows "\<exists>q'. announce us q = Inr q' \<and> job_queue_wf q' \<and>
    mset (concat (user_data_lanes q')) = mset (concat (user_data_lanes q)) + mset us \<and>
    error_lanes q' = error_lanes q \<and> promise_lanes q' = promise_lanes q"
  using assms
proof (induction us arbitrary: q)
  case (Cons u us)
  from enqueueUserData_ok [OF Cons.prems, of Announcer u] obtain q1 where
    q1: "enqueueUserData Announcer u q = Inr q1" "job_queue_wf q1" "error_lanes q1 = error_lanes q"
      "promise_lanes q1 = promise_lanes q" by blast
  have "fold_outcome (enqueueUserData Announcer) [u] q = Inr q1" using q1(1) by simp
  from user_data_lane.nothing_lost [OF Cons.prems this]
  have "mset (concat (user_data_lanes q1)) = mset (concat (user_data_lanes q)) + {#u#}" by simp
  then show ?case using Cons.IH [OF q1(2)] q1 by (auto simp: announce_def)
qed (simp add: announce_def)

lemma announce_seconds_ok:
  assumes "job_queue_wf q" and "i \<le> 60" and "\<forall>j. i \<le> j \<and> j < k \<longrightarrow> \<not> flag j" and "i \<le> k" and "k \<le> 60"
    and "k < 60 \<Longrightarrow> flag k"
  shows "\<exists>q'. announce_seconds flag us i q = Inr (k, q') \<and> job_queue_wf q' \<and>
    mset (concat (user_data_lanes q')) =
      mset (concat (user_data_lanes q)) + mset (concat (map (nth us) [i..<k])) \<and>
    error_lanes q' = error_lanes q \<and> promise_lanes q' = promise_lanes q"
  using assms
proof (induction "k - i" arbitrary: i q)
  case 0
  then have "i = k" by simp
  then show ?case using 0 by (subst announce_seconds.simps) auto
next
  case (Suc n)
  then have i: "i < k" "i < 60" "\<not> flag i" by auto
  from announce_ok [OF Suc.prems(1), of "us ! i"] obtain q1 where
    q1: "announce (us ! i) q = Inr q1" "job_queue_wf q1"
      "mset (concat (user_data_lanes q1)) = mset (concat (user_data_lanes q)) + mset (us ! i)"
      "error_lanes q1 = error_lanes q" "promise_lanes q1 = promise_lanes q" by blast
  obtain q' where q': "announce_seconds flag us (Suc i) q1 = Inr (k, q')" "job_queue_wf q'"
      "mset (concat (user_data_lanes q')) =
        mset (concat (user_data_lanes q1)) + mset (concat (map (nth us) [Suc i..<k]))"
      "error_lanes q' = error_lanes q1" "promise_lanes q' = promise_lanes q1"
    using Suc.hyps(1) [of "Suc i", OF _ q1(2)] Suc.hyps(2) Suc.prems(3-6) i
    by (metis Suc_leD Suc_leI diff_Suc_Suc diff_diff_left plus_1_eq_Suc add.commute diff_Suc_1)
  have "[i..<k] = i # [Suc i..<k]" using i(1) by (rule upt_conv_Cons)
  then show ?case
    using q' q1 i by (subst announce_seconds.simps) auto
qed

lemma announce_seconds_kept:
  "announce_seconds flag us i q = Inr (k, q') \<Longrightarrow> job_queue_wf q \<Longrightarrow>
    job_queue_wf q' \<and> error_lanes q' = error_lanes q"
proof (induction flag us i q rule: announce_seconds.induct)
  case (1 flag us i q)
  show ?case
  proof (cases "i < 60 \<and> \<not> flag i")
    case True
    from announce_ok [OF 1(3), of "us ! i"] obtain q1 where
      q1: "announce (us ! i) q = Inr q1" "job_queue_wf q1" "error_lanes q1 = error_lanes q" by blast
    have "announce_seconds flag us (Suc i) q1 = Inr (k, q')"
      using 1(2) True q1(1) by (subst (asm) announce_seconds.simps) simp
    from 1(1) [OF True q1(1) this q1(2)] q1(3) show ?thesis by simp
  next
    case False
    then show ?thesis using 1(2,3) by (subst (asm) announce_seconds.simps) auto
  qed
qed

text \<open>The users of all seconds are the connected users of the rating, each once.\<close>

lemma online_all:
  assumes "online_wf h us"
  shows "distinct (concat (map (nth us) [0..<60]))"
    and "a \<in> set (concat (map (nth us) [0..<60])) \<longleftrightarrow> (\<exists>u. h a = Some u \<and> secondConnected u < 60)"
proof -
  have us: "length us = 60" "\<And>i. i < 60 \<Longrightarrow> distinct (us ! i)"
      "\<And>i a. i < 60 \<Longrightarrow> a \<in> set (us ! i) \<longleftrightarrow> (\<exists>u. h a = Some u \<and> secondConnected u = i)"
    using assms by (auto simp: online_wf_def)
  have "distinct (concat (map (nth us) [0..<n]))" if "n \<le> 60" for n
    using that
  proof (induction n)
    case (Suc n)
    have "set (us ! n) \<inter> set (us ! i) = {}" if "i < n" for i
      using us(3) [of n] us(3) [of i] that Suc.prems by fastforce
    then have "x \<notin> set (us ! i)" if "x \<in> set (us ! n)" "i < n" for x i using that by blast
    then show ?case using Suc us(2) [of n] by (auto dest: in_set_conv_nth [THEN iffD1])
  qed simp
  then show "distinct (concat (map (nth us) [0..<60]))" by blast
  show "a \<in> set (concat (map (nth us) [0..<60])) \<longleftrightarrow> (\<exists>u. h a = Some u \<and> secondConnected u < 60)"
    using us(3) [of _ a] by auto
qed

lemma minute_announces:
  assumes "data_wf d" and "minute_ok (dropOldRating s) (data_view d) inData" and "room_for d inData"
    and "chronoSetIndex s = 0" and "\<forall>i < 60. \<not> flagSeen rd i"
  shows "\<exists>s' d'. announcer_minute rd inData (s, d) = Inr (True, s', d') \<and> data_wf d' \<and>
    data_view d' = spec_minute (dropOldRating s, inData) (data_view d) \<and>
    mset (concat (user_data_lanes (snd (snd d')))) = mset (concat (user_data_lanes (snd (snd d)))) +
      mset_set {a. \<exists>u. objects (fst d') a = Some u \<and> secondConnected u < 60}"
proof -
  obtain d1 where d1: "minute_step (dropOldRating s, inData) d = Inr d1" "data_wf d1"
      "data_view d1 = spec_minute (dropOldRating s, inData) (data_view d)"
    using minute_step_ok [OF assms(1), of "(dropOldRating s, inData)"] assms(2,3) by auto
  obtain c us q where c: "d1 = (c, us, q)" by (cases d1) auto
  have wf: "core_wf c us" "job_queue_wf q" using d1(2) c by (simp_all add: data_wf_def)
  then have online: "online_wf (objects c) us" by (simp add: core_wf_def)
  have lanes: "user_data_lanes q = user_data_lanes (snd (snd d))"
    using minute_step_kept [OF d1(1)] c assms(1) by (simp add: kept_def data_wf_def)
  obtain q' where q': "announce_seconds (flagSeen rd) us 0 q = Inr (60, q')" "job_queue_wf q'"
      "mset (concat (user_data_lanes q')) =
        mset (concat (user_data_lanes q)) + mset (concat (map (nth us) [0..<60]))"
      "error_lanes q' = error_lanes q"
    using announce_seconds_ok [OF wf(2), of 0 60 "flagSeen rd" us] assms(5) by auto
  define xs where "xs = concat (map (nth us) [0..<60])"
  have "set xs = {a. \<exists>u. objects c a = Some u \<and> secondConnected u < 60}"
    using online_all(2) [OF online] unfolding xs_def by blast
  then have "mset xs = mset_set {a. \<exists>u. objects c a = Some u \<and> secondConnected u < 60}"
    using mset_set_set [of xs] online_all(1) [OF online] unfolding xs_def by simp
  moreover note q' [folded xs_def]
  moreover have "reported q' = reported q" using q'(4) by (simp add: reported_def)
  ultimately have
    "announcer_minute rd inData (s, d) = Inr (True, announcer_turn rd
      ((if dropOldRating s
        then s\<lparr>dropOldRating := False, ratingExpirationDate := currentWeekStart (updateTime rd)\<rparr>
        else s)\<lparr>chronoSetIndex := 60\<rparr>), c, us, q')"
    "data_wf (c, us, q')" "data_view (c, us, q') = data_view d1"
    "mset (concat (user_data_lanes q')) = mset (concat (user_data_lanes (snd (snd d)))) +
      mset_set {a. \<exists>u. objects c a = Some u \<and> secondConnected u < 60}"
    using wf lanes by (simp_all add: announcer_minute_def d1(1) c assms(4) data_wf_def data_view_def Let_def)
  then show ?thesis unfolding d1(3) by (intro exI conjI) (assumption, simp_all)
qed

section \<open>The turn of the week\<close>

lemma announcer_minute_state:
  assumes "announcer_minute rd b (s, d) = Inr (go, s', d')"
  shows "\<exists>i d1. minute_step (dropOldRating s, b) d = Inr d1 \<and>
    s' = (let s1 = (if dropOldRating s
        then s\<lparr>dropOldRating := False, ratingExpirationDate := currentWeekStart (updateTime rd)\<rparr> else s);
        s2 = s1\<lparr>chronoSetIndex := i\<rparr>
      in if go then announcer_turn rd s2 else s2) \<and> (go \<longleftrightarrow> i = 60)"
  using assms
  by (auto simp: announcer_minute_def bind_outcome_Inr_iff Let_def split: if_splits)

text \<open>
  When the week has turned the old rating is served for one more minute, then dropped, once, and the
  date moves to the week that has begun.
\<close>

lemma week_turn_steps:
  assumes "announcer_minute rd1 b1 (s, d) = Inr (True, s1, d1)"
    and "\<not> dropOldRating s" and "\<not> weekJustTurned s"
    and "ratingExpirationDate s < currentWeekStart (weekTime rd1)"
    and "announcer_minute rd2 b2 (s1, d1) = Inr (True, s2, d2)"
    and "announcer_minute rd3 b3 (s2, d2) = Inr (go, s3, d3)"
  shows "\<not> dropOldRating s1" and "dropOldRating s2" and "\<not> dropOldRating s3"
    and "ratingExpirationDate s2 = ratingExpirationDate s"
    and "ratingExpirationDate s3 = currentWeekStart (updateTime rd3)"
proof -
  have s1: "\<not> dropOldRating s1" "weekJustTurned s1" "ratingExpirationDate s1 = ratingExpirationDate s"
    using announcer_minute_state [OF assms(1)] assms(2-4) by (auto simp: announcer_turn_def Let_def)
  have s2: "dropOldRating s2" "\<not> weekJustTurned s2" "ratingExpirationDate s2 = ratingExpirationDate s1"
    using announcer_minute_state [OF assms(5)] s1 by (auto simp: announcer_turn_def Let_def)
  have s3: "\<not> dropOldRating s3" "ratingExpirationDate s3 = currentWeekStart (updateTime rd3)"
    using announcer_minute_state [OF assms(6)] s2 by (auto simp: announcer_turn_def Let_def split: if_splits)
  show "\<not> dropOldRating s1" "dropOldRating s2" "\<not> dropOldRating s3"
    "ratingExpirationDate s2 = ratingExpirationDate s"
    "ratingExpirationDate s3 = currentWeekStart (updateTime rd3)"
    using s1 s2 s3 by simp_all
qed

text \<open>What a minute that is gone through does to the data, wherever in it the announcer began or stopped.\<close>

lemma announcer_minute_data:
  assumes "data_wf d" and "minute_ok (dropOldRating s) (data_view d) b" and "room_for d b"
    and "announcer_minute rd b (s, d) = Inr (go, s', d')"
  shows "data_wf d' \<and> data_view d' = spec_minute (dropOldRating s, b) (data_view d)"
proof -
  obtain dm where dm: "minute_step (dropOldRating s, b) d = Inr dm" "data_wf dm"
      "data_view dm = spec_minute (dropOldRating s, b) (data_view d)"
    using minute_step_ok [OF assms(1), of "(dropOldRating s, b)"] assms(2,3) by auto
  obtain c us q where c: "dm = (c, us, q)" by (cases dm) auto
  obtain i j q' where q': "announce_seconds (flagSeen rd) us i q = Inr (j, q')" "d' = (c, us, q')"
    using assms(4) dm(1) c by (auto simp: announcer_minute_def bind_outcome_Inr_iff Let_def split: if_splits)
  have "job_queue_wf q" using dm(2) c by (simp add: data_wf_def)
  from announce_seconds_kept [OF q'(1) this] dm(2,3) c q'(2) show ?thesis
    by (simp add: data_wf_def data_view_def reported_def)
qed

lemma week_turn_data:
  assumes "announcer_minute rd1 b1 (s, d) = Inr (True, s1, d1)"
    and "\<not> dropOldRating s" and "\<not> weekJustTurned s"
    and "ratingExpirationDate s < currentWeekStart (weekTime rd1)"
    and "announcer_minute rd2 b2 (s1, d1) = Inr (True, s2, d2)"
    and "announcer_minute rd3 b3 (s2, d2) = Inr (go, s3, d3)"
    and "data_wf d" and "minute_ok False (data_view d) b1" and "room_for d b1"
    and "minute_ok False (data_view d1) b2" and "room_for d1 b2"
    and "minute_ok True (data_view d2) b3" and "room_for d2 b3"
  shows "data_view d2 = spec_minute (False, b2) (spec_minute (False, b1) (data_view d))"
    and "data_view d3 = spec_minute (True, b3) (data_view d2)"
    and "fst (data_view d3) k = Some x \<Longrightarrow> view_winnings x = tmap_find k (dealsWon b3)"
proof -
  note w = week_turn_steps [OF assms(1-6)]
  have 1: "data_wf d1 \<and> data_view d1 = spec_minute (False, b1) (data_view d)"
    using announcer_minute_data [OF assms(7) _ assms(9,1)] assms(2,8) by simp
  have 2: "data_wf d2 \<and> data_view d2 = spec_minute (False, b2) (data_view d1)"
    using announcer_minute_data [OF conjunct1 [OF 1] _ assms(11,5)] w(1) assms(10) by simp
  have 3: "data_view d3 = spec_minute (True, b3) (data_view d2)"
    using announcer_minute_data [OF conjunct1 [OF 2] _ assms(13,6)] w(2) assms(12) by simp
  show "data_view d2 = spec_minute (False, b2) (spec_minute (False, b1) (data_view d))" using 1 2 by simp
  show "data_view d3 = spec_minute (True, b3) (data_view d2)" by (rule 3)
  show "fst (data_view d3) k = Some x \<Longrightarrow> view_winnings x = tmap_find k (dealsWon b3)"
    using winnings_after_drop [of b3 "data_view d2" k x] assms(12)
    unfolding 3 by (simp add: spec_minute_def minute_ok_def)
qed

end
