(* ===== verification/Refresh_Sync.thy ===== *)
theory Refresh_Sync
  imports Core_Data
begin

text \<open>
  How the threads of the service keep off each other's data while a rating is recalculated:
  \<open>RatingCalculator::recalculate\<close> (\<open>service/rating_calculator.cpp\<close>), the flags and counters in
  \<open>WorkerPool::start\<close> and \<open>WorkerPool::doWork\<close> (\<open>service/worker_pool.cpp\<close>) and the listener's
  change of buffers in \<open>Overseer::run\<close> (\<open>service/overseer.cpp\<close>).

  Every thread is a step function with a program counter, one atomic access or one lock operation per
  step; a Boolean or a choice argument stands for what the thread's own data decides (an error, a
  spurious wake-up). A step of the system is a step of one thread. Interleaving is sequentially
  consistent: the effect of the relaxed memory orders is not modelled. What a thread does with data
  between two synchronisation points is the program counter named after it.
\<close>

section \<open>Threads and shared state\<close>

datatype calculator_pc =
    Calc_Off
  | Calc_Idle
  | Calc_Switch nat
  | Calc_Raise nat
  | Calc_Wait_Writer nat
  | Calc_Wait_Readers nat
  | Calc_Impl nat
  | Calc_Lock
  | Calc_Clear
  | Calc_Unlock
  | Calc_Notify
  | Calc_Fail
  | Calc_Dead
  | Calc_Stop

datatype worker_pc =
    W_Unborn
  | W_Start
  | W_Top
  | W_Refresh
  | W_Deplete
  | W_Lock
  | W_Dec
  | W_Pred
  | W_Block
  | W_Sleep
  | W_Woken
  | W_Unlock
  | W_Add
  | W_Cache
  | W_Serve
  | W_Signal
  | W_Fail_Dec
  | W_Quit
  | W_Dead

datatype overseer_pc =
    O_Claim
  | O_Count
  | O_Announcer
  | O_Pool
  | O_Launch nat
  | O_Top
  | O_Build
  | O_Load
  | O_Dec nat
  | O_Inc nat
  | O_Dispatch
  | O_Fail
  | O_Failed
  | O_Quit

datatype lock_owner = Free | By_Calculator | By_Worker nat

record sync_state =
  pool_size :: nat
  refreshInProgress :: bool
  dataReaderCount :: int
  dataLock :: lock_owner
  currentBuffer :: nat
  currentBufferIndex :: nat
  writerCount :: "nat \<Rightarrow> int"
  stopFlag :: bool
  calc_pc :: calculator_pc
  worker_pcs :: "nat \<Rightarrow> worker_pc"
  over_pc :: overseer_pc
  inData :: nat

definition sync_start :: "nat \<Rightarrow> sync_state" where
  "sync_start n =
    \<lparr> pool_size = n, refreshInProgress = False, dataReaderCount = 0, dataLock = Free,
      currentBuffer = 0, currentBufferIndex = 0, writerCount = (\<lambda>_. 0), stopFlag = False,
      calc_pc = Calc_Off, worker_pcs = (\<lambda>_. W_Unborn), over_pc = O_Claim, inData = 0 \<rparr>"

section \<open>RatingCalculator::recalculate\<close>

text \<open>
  The announcer's thread: between two recalculations it is idle; with \<open>err\<close> it sees the stop flag there,
  or the recalculation throws and the announcer's handler sets the flag.
\<close>

definition calc_step :: "bool \<Rightarrow> sync_state \<Rightarrow> sync_state option" where
  "calc_step err s =
    (case calc_pc s of
       Calc_Off \<Rightarrow> None
     | Calc_Idle \<Rightarrow>
         if err \<and> stopFlag s then Some (s\<lparr>calc_pc := Calc_Stop\<rparr>)
         else Some (s\<lparr>currentBuffer := 1 - currentBufferIndex s, calc_pc := Calc_Switch (currentBuffer s)\<rparr>)
     | Calc_Switch b \<Rightarrow>
         Some (s\<lparr>currentBufferIndex := 1 - currentBufferIndex s, calc_pc := Calc_Raise b\<rparr>)
     | Calc_Raise b \<Rightarrow> Some (s\<lparr>refreshInProgress := True, calc_pc := Calc_Wait_Writer b\<rparr>)
     | Calc_Wait_Writer b \<Rightarrow>
         if writerCount s b = 0 then Some (s\<lparr>calc_pc := Calc_Wait_Readers b\<rparr>) else None
     | Calc_Wait_Readers b \<Rightarrow>
         if dataReaderCount s = 0 then Some (s\<lparr>calc_pc := Calc_Impl b\<rparr>) else None
     | Calc_Impl b \<Rightarrow> Some (s\<lparr>calc_pc := (if err then Calc_Fail else Calc_Lock)\<rparr>)
     | Calc_Lock \<Rightarrow>
         if dataLock s = Free then Some (s\<lparr>dataLock := By_Calculator, calc_pc := Calc_Clear\<rparr>) else None
     | Calc_Clear \<Rightarrow> Some (s\<lparr>refreshInProgress := False, calc_pc := Calc_Unlock\<rparr>)
     | Calc_Unlock \<Rightarrow> Some (s\<lparr>dataLock := Free, calc_pc := Calc_Notify\<rparr>)
     | Calc_Notify \<Rightarrow>
         Some (s\<lparr>worker_pcs := (\<lambda>i. if worker_pcs s i = W_Sleep then W_Woken else worker_pcs s i),
                 calc_pc := Calc_Idle\<rparr>)
     | Calc_Fail \<Rightarrow> Some (s\<lparr>stopFlag := True, calc_pc := Calc_Dead\<rparr>)
     | Calc_Dead \<Rightarrow> None
     | Calc_Stop \<Rightarrow> None)"

section \<open>WorkerPool::doWork\<close>

text \<open>The argument \<open>err\<close> is true where an exception leaves the work the thread is at.\<close>

definition worker_goes :: "nat \<Rightarrow> worker_pc \<Rightarrow> sync_state \<Rightarrow> sync_state option" where
  "worker_goes i p s = Some (s\<lparr>worker_pcs := (worker_pcs s)(i := p)\<rparr>)"

definition worker_step :: "nat \<Rightarrow> bool \<Rightarrow> sync_state \<Rightarrow> sync_state option" where
  "worker_step i err s =
    (case worker_pcs s i of
       W_Unborn \<Rightarrow> None
     | W_Start \<Rightarrow> worker_goes i (if err then W_Signal else W_Top) s
     | W_Top \<Rightarrow> worker_goes i (if stopFlag s then W_Quit else W_Refresh) s
     | W_Refresh \<Rightarrow> worker_goes i (if refreshInProgress s then W_Deplete else W_Serve) s
     | W_Deplete \<Rightarrow> worker_goes i (if err then W_Signal else W_Lock) s
     | W_Lock \<Rightarrow> if dataLock s = Free then worker_goes i W_Dec (s\<lparr>dataLock := By_Worker i\<rparr>) else None
     | W_Dec \<Rightarrow> worker_goes i W_Pred (s\<lparr>dataReaderCount := dataReaderCount s - 1\<rparr>)
     | W_Pred \<Rightarrow> worker_goes i (if refreshInProgress s then W_Block else W_Unlock) s
     | W_Block \<Rightarrow> worker_goes i W_Sleep (s\<lparr>dataLock := Free\<rparr>)
     | W_Sleep \<Rightarrow> worker_goes i W_Woken s
     | W_Woken \<Rightarrow> if dataLock s = Free then worker_goes i W_Pred (s\<lparr>dataLock := By_Worker i\<rparr>) else None
     | W_Unlock \<Rightarrow> worker_goes i W_Add (s\<lparr>dataLock := Free\<rparr>)
     | W_Add \<Rightarrow> worker_goes i W_Cache (s\<lparr>dataReaderCount := dataReaderCount s + 1\<rparr>)
     | W_Cache \<Rightarrow> worker_goes i (if err then W_Signal else W_Serve) s
     | W_Serve \<Rightarrow> worker_goes i (if err then W_Signal else W_Top) s
     | W_Signal \<Rightarrow> worker_goes i W_Fail_Dec (s\<lparr>stopFlag := True\<rparr>)
     | W_Fail_Dec \<Rightarrow> worker_goes i W_Dead (s\<lparr>dataReaderCount := dataReaderCount s - 1\<rparr>)
     | W_Quit \<Rightarrow> None
     | W_Dead \<Rightarrow> None)"

section \<open>Overseer::run\<close>

text \<open>From the claiming of the first buffer to the end of the loop over the messages.\<close>

definition overseer_step :: "bool \<Rightarrow> sync_state \<Rightarrow> sync_state option" where
  "overseer_step err s =
    (case over_pc s of
       O_Claim \<Rightarrow> Some (s\<lparr>inData := currentBuffer s, over_pc := O_Count\<rparr>)
     | O_Count \<Rightarrow>
         Some (s\<lparr>writerCount := (writerCount s)(inData s := writerCount s (inData s) + 1),
                 over_pc := O_Announcer\<rparr>)
     | O_Announcer \<Rightarrow> Some (s\<lparr>calc_pc := Calc_Idle, over_pc := O_Pool\<rparr>)
     | O_Pool \<Rightarrow> Some (s\<lparr>dataReaderCount := int (pool_size s), over_pc := O_Launch 0\<rparr>)
     | O_Launch i \<Rightarrow>
         if i < pool_size s then
           Some (s\<lparr>worker_pcs := (worker_pcs s)(i := W_Start), over_pc := O_Launch (Suc i)\<rparr>)
         else Some (s\<lparr>over_pc := O_Top\<rparr>)
     | O_Top \<Rightarrow> Some (s\<lparr>over_pc := (if stopFlag s then O_Quit else O_Build)\<rparr>)
     | O_Build \<Rightarrow> Some (s\<lparr>over_pc := (if err then O_Fail else O_Load)\<rparr>)
     | O_Load \<Rightarrow>
         Some (s\<lparr>over_pc := (if currentBuffer s \<noteq> inData s then O_Dec (currentBuffer s) else O_Dispatch)\<rparr>)
     | O_Dec b \<Rightarrow>
         Some (s\<lparr>writerCount := (writerCount s)(inData s := writerCount s (inData s) - 1),
                 over_pc := O_Inc b\<rparr>)
     | O_Inc b \<Rightarrow>
         Some (s\<lparr>inData := b, writerCount := (writerCount s)(b := writerCount s b + 1),
                 over_pc := O_Dispatch\<rparr>)
     | O_Dispatch \<Rightarrow> Some (s\<lparr>over_pc := (if err then O_Fail else O_Top)\<rparr>)
     | O_Fail \<Rightarrow>
         Some (s\<lparr>writerCount := (writerCount s)(inData s := writerCount s (inData s) - 1),
                 stopFlag := True, over_pc := O_Failed\<rparr>)
     | O_Failed \<Rightarrow> None
     | O_Quit \<Rightarrow> None)"

section \<open>The system\<close>

datatype action = Calculator bool | Pool_Worker nat bool | Overseer bool

fun act :: "action \<Rightarrow> sync_state \<Rightarrow> sync_state option" where
  "act (Calculator err) s = calc_step err s"
| "act (Pool_Worker i err) s = (if i < pool_size s then worker_step i err s else None)"
| "act (Overseer err) s = overseer_step err s"

inductive sync_reach :: "nat \<Rightarrow> sync_state \<Rightarrow> bool" for n where
  start: "sync_reach n (sync_start n)"
| step: "sync_reach n s \<Longrightarrow> act a s = Some s' \<Longrightarrow> sync_reach n s'"

fun acts :: "action list \<Rightarrow> sync_state \<Rightarrow> sync_state option" where
  "acts [] s = Some s"
| "acts (a # as) s = (case act a s of None \<Rightarrow> None | Some s' \<Rightarrow> acts as s')"

lemma acts_reach: "sync_reach n s \<Longrightarrow> acts as s = Some s' \<Longrightarrow> sync_reach n s'"
  by (induction as arbitrary: s) (auto split: option.splits intro: sync_reach.step)

section \<open>The lock and the flag\<close>

definition holds_lock :: "worker_pc \<Rightarrow> bool" where
  "holds_lock p \<longleftrightarrow> p \<in> {W_Dec, W_Pred, W_Block, W_Unlock}"

definition refreshing :: "calculator_pc \<Rightarrow> bool" where
  "refreshing p =
    (case p of
       Calc_Wait_Writer _ \<Rightarrow> True | Calc_Wait_Readers _ \<Rightarrow> True | Calc_Impl _ \<Rightarrow> True
     | Calc_Lock \<Rightarrow> True | Calc_Clear \<Rightarrow> True | Calc_Fail \<Rightarrow> True | Calc_Dead \<Rightarrow> True | _ \<Rightarrow> False)"

definition lock_inv :: "sync_state \<Rightarrow> bool" where
  "lock_inv s \<longleftrightarrow>
    (dataLock s = By_Calculator \<longleftrightarrow> calc_pc s = Calc_Clear \<or> calc_pc s = Calc_Unlock) \<and>
    (\<forall>i. dataLock s = By_Worker i \<longleftrightarrow> holds_lock (worker_pcs s i)) \<and>
    (refreshInProgress s \<longleftrightarrow> refreshing (calc_pc s)) \<and>
    (\<forall>i. worker_pcs s i = W_Block \<longrightarrow> refreshInProgress s) \<and>
    (\<forall>i. worker_pcs s i = W_Sleep \<longrightarrow>
      refreshInProgress s \<or> calc_pc s = Calc_Unlock \<or> calc_pc s = Calc_Notify)"

lemma lock_invI:
  assumes "dataLock s = By_Calculator \<longleftrightarrow> calc_pc s = Calc_Clear \<or> calc_pc s = Calc_Unlock"
    and "\<And>i. dataLock s = By_Worker i \<longleftrightarrow> holds_lock (worker_pcs s i)"
    and "refreshInProgress s \<longleftrightarrow> refreshing (calc_pc s)"
    and "\<And>i. worker_pcs s i = W_Block \<Longrightarrow> refreshInProgress s"
    and "\<And>i. worker_pcs s i = W_Sleep \<Longrightarrow>
      refreshInProgress s \<or> calc_pc s = Calc_Unlock \<or> calc_pc s = Calc_Notify"
  shows "lock_inv s"
  using assms unfolding lock_inv_def by blast

lemma lock_inv_start: "lock_inv (sync_start n)"
  by (simp add: lock_inv_def sync_start_def holds_lock_def refreshing_def)

lemma lock_inv_calc: "lock_inv s \<Longrightarrow> calc_step err s = Some s' \<Longrightarrow> lock_inv s'"
  unfolding lock_inv_def calc_step_def
  by (cases "calc_pc s") (auto simp: holds_lock_def refreshing_def split: if_splits)

definition counted :: "worker_pc \<Rightarrow> bool" where
  "counted p \<longleftrightarrow> p \<notin> {W_Unborn, W_Pred, W_Block, W_Sleep, W_Woken, W_Unlock, W_Add, W_Dead}"

lemma worker_goes_Some: "worker_goes i p s = Some s' \<longleftrightarrow> s' = s\<lparr>worker_pcs := (worker_pcs s)(i := p)\<rparr>"
  by (auto simp: worker_goes_def)

text \<open>What a worker's step does to the state, by the program counters it leaves and reaches.\<close>

definition worker_moves :: "nat \<Rightarrow> worker_pc \<Rightarrow> worker_pc \<Rightarrow> sync_state \<Rightarrow> sync_state \<Rightarrow> bool" where
  "worker_moves i p q s s' \<longleftrightarrow>
    p \<noteq> W_Unborn \<and> p \<noteq> W_Dead \<and> q \<noteq> W_Unborn \<and> worker_pcs s' = (worker_pcs s)(i := q) \<and>
    dataLock s' =
      (if holds_lock q \<and> \<not> holds_lock p then By_Worker i
       else if holds_lock p \<and> \<not> holds_lock q then Free else dataLock s) \<and>
    (holds_lock q \<longrightarrow> holds_lock p \<or> dataLock s = Free) \<and>
    dataReaderCount s' = dataReaderCount s + of_bool (counted q) - of_bool (counted p) \<and>
    pool_size s' = pool_size s \<and> calc_pc s' = calc_pc s \<and> refreshInProgress s' = refreshInProgress s \<and>
    currentBuffer s' = currentBuffer s \<and> currentBufferIndex s' = currentBufferIndex s \<and>
    writerCount s' = writerCount s \<and> over_pc s' = over_pc s \<and> inData s' = inData s \<and>
    (q = W_Block \<longrightarrow> refreshInProgress s) \<and> (q = W_Sleep \<longrightarrow> p = W_Block) \<and>
    (q = W_Unlock \<longrightarrow> \<not> refreshInProgress s \<and> p = W_Pred) \<and> (q = W_Add \<longrightarrow> p = W_Unlock) \<and>
    (q = W_Woken \<longrightarrow> p = W_Sleep) \<and> (q = W_Pred \<longrightarrow> p = W_Dec \<or> p = W_Woken) \<and>
    (counted q \<longrightarrow> counted p \<or> p = W_Add) \<and>
    (counted p \<longrightarrow> counted q \<or> q = W_Dead \<or> p = W_Dec) \<and> (q = W_Deplete \<longrightarrow> refreshInProgress s) \<and>
    (q = W_Lock \<longrightarrow> p = W_Deplete) \<and> (q = W_Dec \<longrightarrow> p = W_Lock)"

lemma worker_step_moves:
  assumes "worker_step i err s = Some s'"
  shows "worker_moves i (worker_pcs s i) (worker_pcs s' i) s s'"
proof (cases "worker_pcs s i")
qed (use assms in \<open>simp_all add: worker_moves_def worker_step_def worker_goes_Some holds_lock_def
    counted_def split: if_splits\<close>)

lemma lock_invD:
  assumes "lock_inv s"
  shows "dataLock s = By_Calculator \<longleftrightarrow> calc_pc s = Calc_Clear \<or> calc_pc s = Calc_Unlock"
    and "dataLock s = By_Worker i \<longleftrightarrow> holds_lock (worker_pcs s i)"
    and "refreshInProgress s \<longleftrightarrow> refreshing (calc_pc s)"
    and "worker_pcs s i = W_Block \<Longrightarrow> refreshInProgress s"
    and "worker_pcs s i = W_Sleep \<Longrightarrow> refreshInProgress s \<or> calc_pc s = Calc_Unlock \<or> calc_pc s = Calc_Notify"
  using assms unfolding lock_inv_def by blast+

lemma lock_inv_worker:
  assumes inv: "lock_inv s" and step: "worker_step i err s = Some s'"
  shows "lock_inv s'"
proof -
  note I = lock_invD [OF inv]
  obtain p q where m: "worker_moves i p q s s'" "worker_pcs s i = p"
    using worker_step_moves [OF step] by blast
  have lk: "dataLock s' =
      (if holds_lock q \<and> \<not> holds_lock p then By_Worker i
       else if holds_lock p \<and> \<not> holds_lock q then Free else dataLock s)"
      "holds_lock q \<Longrightarrow> holds_lock p \<or> dataLock s = Free"
    using m(1) by (simp_all add: worker_moves_def)
  have p: "holds_lock p \<longleftrightarrow> dataLock s = By_Worker i" using I(2) [of i] m(2) by simp
  have lock: "dataLock s' = By_Calculator \<longleftrightarrow> dataLock s = By_Calculator"
      "dataLock s' = By_Worker j \<longleftrightarrow> holds_lock (if j = i then q else worker_pcs s j)" for j
    using lk p I(2) [of j] by (auto split: if_splits)
  have pcs: "worker_pcs s' j = (if j = i then q else worker_pcs s j)" for j
    using m(1) by (simp add: worker_moves_def)
  have sleep: "refreshInProgress s \<or> calc_pc s = Calc_Unlock \<or> calc_pc s = Calc_Notify"
    if "worker_pcs s' j = W_Sleep" for j
    using that m I(4) [of i] I(5) [of j] by (auto simp: worker_moves_def split: if_splits)
  have block: "refreshInProgress s" if "worker_pcs s' j = W_Block" for j
    using that m I(4) [of j] by (auto simp: worker_moves_def split: if_splits)
  have same: "calc_pc s' = calc_pc s" "refreshInProgress s' = refreshInProgress s"
    using m(1) by (simp_all add: worker_moves_def)
  show ?thesis
  proof (rule lock_invI)
    show "worker_pcs s' j = W_Sleep \<Longrightarrow>
        refreshInProgress s' \<or> calc_pc s' = Calc_Unlock \<or> calc_pc s' = Calc_Notify" for j
      using sleep [of j] by (simp only: same)
    show "worker_pcs s' j = W_Block \<Longrightarrow> refreshInProgress s'" for j
      using block [of j] by (simp only: same)
  qed (simp_all only: same lock pcs I(1,3))
qed

text \<open>An overseer's step that leaves the threads alone.\<close>

lemma lock_inv_cong:
  assumes "lock_inv s" and "dataLock s' = dataLock s" "calc_pc s' = calc_pc s"
    "worker_pcs s' = worker_pcs s" "refreshInProgress s' = refreshInProgress s"
  shows "lock_inv s'"
  using assms(1) unfolding lock_inv_def assms(2-5) .

lemma lock_inv_overseer:
  assumes inv: "lock_inv s" and step: "overseer_step err s = Some s'"
    and off: "over_pc s = O_Announcer \<Longrightarrow> calc_pc s = Calc_Off"
    and unborn: "\<And>k. over_pc s = O_Launch k \<Longrightarrow> k < pool_size s \<Longrightarrow> worker_pcs s k = W_Unborn"
  shows "lock_inv s'"
proof -
  note I = lock_invD [OF inv]
  show ?thesis
  proof (cases "over_pc s")
    case (O_Launch k)
    show ?thesis
    proof (cases "k < pool_size s")
      case True
      then have s': "s' = s\<lparr>worker_pcs := (worker_pcs s)(k := W_Start), over_pc := O_Launch (Suc k)\<rparr>"
        using step O_Launch by (simp add: overseer_step_def)
      have pcs: "holds_lock (((worker_pcs s)(k := W_Start)) j) = holds_lock (worker_pcs s j)" for j
        using unborn [OF O_Launch True] by (simp add: holds_lock_def)
      show ?thesis
        unfolding s' by (rule lock_invI) (use I pcs in \<open>auto split: if_splits\<close>)
    next
      case False
      then show ?thesis using step O_Launch by (intro lock_inv_cong [OF inv]) (auto simp: overseer_step_def)
    qed
  next
    case O_Announcer
    then have s': "s' = s\<lparr>calc_pc := Calc_Idle, over_pc := O_Pool\<rparr>" and "calc_pc s = Calc_Off"
      using step off by (simp_all add: overseer_step_def)
    then show ?thesis
      using I unfolding s' by (intro lock_invI) (simp_all add: refreshing_def, blast)
  qed (rule lock_inv_cong [OF inv]; use step in \<open>auto simp: overseer_step_def\<close>)+
qed

end
