(* ===== verification/Refresh_Safety.thy ===== *)
theory Refresh_Safety
  imports Refresh_Sync
begin

text \<open>
  What the synchronisation of \<open>Refresh_Sync\<close> guarantees. The counter of the readers is the number of
  the workers that count themselves in, the lock and the flag keep a worker from sleeping through the
  notification. While the recalculation changes the data no worker reads it and the listener does not
  write the buffer that is being processed, provided a recalculation is not begun before the threads
  of the one before have come to rest; without that proviso there are runs in which they do.
\<close>

section \<open>The counter of the readers\<close>

fun pool_stored :: "overseer_pc \<Rightarrow> bool" where
  "pool_stored O_Claim = False"
| "pool_stored O_Count = False"
| "pool_stored O_Announcer = False"
| "pool_stored O_Pool = False"
| "pool_stored _ = True"

fun launched :: "nat \<Rightarrow> overseer_pc \<Rightarrow> nat" where
  "launched n O_Claim = 0"
| "launched n O_Count = 0"
| "launched n O_Announcer = 0"
| "launched n O_Pool = 0"
| "launched n (O_Launch k) = min k n"
| "launched n _ = n"

definition counted_in :: "sync_state \<Rightarrow> int" where
  "counted_in s = (\<Sum>i < pool_size s. of_bool (counted (worker_pcs s i)))"

definition count_inv :: "nat \<Rightarrow> sync_state \<Rightarrow> bool" where
  "count_inv n s \<longleftrightarrow>
    pool_size s = n \<and>
    (\<forall>i. worker_pcs s i = W_Unborn \<longleftrightarrow> launched n (over_pc s) \<le> i) \<and>
    (\<forall>k. over_pc s = O_Launch k \<longrightarrow> k \<le> n) \<and>
    (over_pc s = O_Claim \<or> over_pc s = O_Count \<or> over_pc s = O_Announcer \<longrightarrow> calc_pc s = Calc_Off) \<and>
    (pool_stored (over_pc s) \<longrightarrow>
      dataReaderCount s = counted_in s + int n - int (launched n (over_pc s)))"

lemma count_invD:
  assumes "count_inv n s"
  shows "pool_size s = n"
    and "worker_pcs s i = W_Unborn \<longleftrightarrow> launched n (over_pc s) \<le> i"
    and "over_pc s = O_Launch k \<Longrightarrow> k \<le> n"
    and "over_pc s = O_Claim \<or> over_pc s = O_Count \<or> over_pc s = O_Announcer \<Longrightarrow> calc_pc s = Calc_Off"
    and "pool_stored (over_pc s) \<Longrightarrow>
      dataReaderCount s = counted_in s + int n - int (launched n (over_pc s))"
  using assms unfolding count_inv_def by blast+

lemma count_invI:
  assumes "pool_size s = n"
    and "\<And>i. worker_pcs s i = W_Unborn \<longleftrightarrow> launched n (over_pc s) \<le> i"
    and "\<And>k. over_pc s = O_Launch k \<Longrightarrow> k \<le> n"
    and "over_pc s = O_Claim \<or> over_pc s = O_Count \<or> over_pc s = O_Announcer \<Longrightarrow> calc_pc s = Calc_Off"
    and "pool_stored (over_pc s) \<Longrightarrow>
      dataReaderCount s = counted_in s + int n - int (launched n (over_pc s))"
  shows "count_inv n s"
  using assms unfolding count_inv_def by blast

lemma counted_in_cong:
  "pool_size s' = pool_size s \<Longrightarrow> worker_pcs s' = worker_pcs s \<Longrightarrow> counted_in s' = counted_in s"
  by (simp add: counted_in_def)

lemma count_inv_start: "count_inv n (sync_start n)"
  by (simp add: count_inv_def sync_start_def)

lemma sum_update:
  fixes f :: "'a \<Rightarrow> int"
  assumes "i < (n::nat)"
  shows "(\<Sum>j < n. f ((g(i := q)) j)) = (\<Sum>j < n. f (g j)) + f q - f (g i)"
proof -
  have fin: "finite {..<n}" and i: "i \<in> {..<n}" using assms by auto
  have rest: "(\<Sum>j \<in> {..<n} - {i}. f ((g(i := q)) j)) = (\<Sum>j \<in> {..<n} - {i}. f (g j))"
    by (rule sum.cong) auto
  have "(\<Sum>j < n. f ((g(i := q)) j)) = f q + (\<Sum>j \<in> {..<n} - {i}. f (g j))"
    using sum.remove [OF fin i, of "\<lambda>j. f ((g(i := q)) j)"] rest by simp
  moreover have "(\<Sum>j < n. f (g j)) = f (g i) + (\<Sum>j \<in> {..<n} - {i}. f (g j))"
    by (rule sum.remove [OF fin i])
  ultimately show ?thesis by simp
qed

lemma counted_in_update:
  assumes "i < pool_size s" and "worker_pcs s' = (worker_pcs s)(i := q)" and "pool_size s' = pool_size s"
  shows "counted_in s' = counted_in s + of_bool (counted q) - of_bool (counted (worker_pcs s i))"
  unfolding counted_in_def assms(2,3)
  by (rule sum_update [OF assms(1), of "\<lambda>p. of_bool (counted p)"])

text \<open>A step that leaves the workers, or wakes them, keeps the number.\<close>

lemma calc_step_frame:
  assumes "calc_step err s = Some s'"
  shows "pool_size s' = pool_size s" and "over_pc s' = over_pc s" and "inData s' = inData s"
    and "dataReaderCount s' = dataReaderCount s" and "writerCount s' = writerCount s"
    and "worker_pcs s' i = (if calc_pc s = Calc_Notify \<and> worker_pcs s i = W_Sleep then W_Woken else worker_pcs s i)"
  using assms by (cases "calc_pc s"; auto simp: calc_step_def split: if_splits)+

lemma count_inv_calc:
  assumes inv: "count_inv n s" and step: "calc_step err s = Some s'"
  shows "count_inv n s'"
proof -
  note I = count_invD [OF inv] and f = calc_step_frame [OF step]
  have "counted_in s' = counted_in s"
    unfolding counted_in_def f(1) by (rule sum.cong) (auto simp: f(6) counted_def)
  moreover have unb: "worker_pcs s' i = W_Unborn \<longleftrightarrow> worker_pcs s i = W_Unborn" for i by (simp add: f(6))
  moreover have "calc_pc s \<noteq> Calc_Off" using step by (auto simp: calc_step_def)
  ultimately show ?thesis
    using I unb unfolding count_inv_def f(1-5) by auto
qed

lemma count_inv_worker:
  assumes inv: "count_inv n s" and step: "worker_step i err s = Some s'" and i: "i < pool_size s"
  shows "count_inv n s'"
proof -
  note I = count_invD [OF inv]
  obtain q where m: "worker_moves i (worker_pcs s i) q s s'"
    using worker_step_moves [OF step] by blast
  have f: "pool_size s' = pool_size s" "over_pc s' = over_pc s" "calc_pc s' = calc_pc s"
      "worker_pcs s' = (worker_pcs s)(i := q)" "worker_pcs s i \<noteq> W_Unborn" "q \<noteq> W_Unborn"
      "dataReaderCount s' = dataReaderCount s + of_bool (counted q) - of_bool (counted (worker_pcs s i))"
    using m by (simp_all add: worker_moves_def)
  show ?thesis
    using I counted_in_update [OF i f(4,1)] f(5,6) i
    unfolding count_inv_def f(1-3,7) by (auto simp: f(4))
qed

lemma count_inv_overseer:
  assumes inv: "count_inv n s" and step: "overseer_step err s = Some s'"
  shows "count_inv n s'"
proof -
  note I = count_invD [OF inv]
  show ?thesis
  proof (cases "over_pc s")
    case (O_Launch k)
    show ?thesis
    proof (cases "k < n")
      case True
      then have s': "s' = s\<lparr>worker_pcs := (worker_pcs s)(k := W_Start), over_pc := O_Launch (Suc k)\<rparr>"
        using step O_Launch I(1) by (simp add: overseer_step_def)
      have "worker_pcs s k = W_Unborn" using I(2) [of k] True O_Launch by simp
      then have cnt: "counted_in s' = counted_in s + 1"
        using counted_in_update [of k s s' W_Start] True I(1) s' by (simp add: counted_def)
      show ?thesis
      proof (rule count_invI)
        show "worker_pcs s' i = W_Unborn \<longleftrightarrow> launched n (over_pc s') \<le> i" for i
          using I(2) [of i] O_Launch True by (cases "i = k") (auto simp: s' le_less)
      qed (use cnt I(1) I(5) O_Launch True in \<open>simp_all add: s'\<close>)
    next
      case False
      then have s': "s' = s\<lparr>over_pc := O_Top\<rparr>" "k = n"
        using step O_Launch I(1) I(3) [OF O_Launch] by (simp_all add: overseer_step_def)
      then have "counted_in s' = counted_in s" by (intro counted_in_cong) simp_all
      then show ?thesis using I(1,2,5) O_Launch s'(2) unfolding s'(1) by (intro count_invI) simp_all
    qed
  next
    case O_Pool
    then have s': "s' = s\<lparr>dataReaderCount := int (pool_size s), over_pc := O_Launch 0\<rparr>"
      using step by (simp add: overseer_step_def)
    have "counted_in s = 0" using I(1,2) O_Pool by (simp add: counted_in_def counted_def)
    then have "counted_in s' = 0" using counted_in_cong [of s' s] s' by simp
    then show ?thesis using I(1,2) O_Pool unfolding s' by (intro count_invI) simp_all
  qed (rule count_invI; use step I in \<open>auto simp: overseer_step_def counted_in_def split: if_splits\<close>)+
qed

lemma reach_invs: "sync_reach n s \<Longrightarrow> lock_inv s \<and> count_inv n s"
proof (induction rule: sync_reach.induct)
  case start
  then show ?case by (simp add: lock_inv_start count_inv_start)
next
  case (step s a s')
  then have I: "lock_inv s" "count_inv n s" by simp_all
  show ?case
  proof (cases a)
    case (Calculator err)
    then show ?thesis using step(2) lock_inv_calc [OF I(1)] count_inv_calc [OF I(2)] by simp
  next
    case (Pool_Worker i err)
    then show ?thesis
      using step(2) lock_inv_worker [OF I(1)] count_inv_worker [OF I(2)] by (simp split: if_splits)
  next
    case (Overseer err)
    have "worker_pcs s k = W_Unborn" if "over_pc s = O_Launch k" "k < pool_size s" for k
      using count_invD(1,2) [OF I(2)] that by simp
    then show ?thesis
      using Overseer step(2) lock_inv_overseer [OF I(1)] count_inv_overseer [OF I(2)] count_invD(4) [OF I(2)]
      by simp
  qed
qed

section \<open>Recalculations that begin when the threads are at rest\<close>

definition settled :: "sync_state \<Rightarrow> bool" where
  "settled s \<longleftrightarrow>
    (\<forall>i < pool_size s. counted (worker_pcs s i) \<or> worker_pcs s i = W_Dead \<or> worker_pcs s i = W_Unborn) \<and>
    (\<forall>b. over_pc s \<noteq> O_Inc b)"

definition begins :: "sync_state \<Rightarrow> sync_state \<Rightarrow> bool" where
  "begins s s' \<longleftrightarrow> calc_pc s = Calc_Idle \<and> (\<exists>b. calc_pc s' = Calc_Switch b)"

inductive settled_reach :: "nat \<Rightarrow> sync_state \<Rightarrow> bool" for n where
  start: "settled_reach n (sync_start n)"
| step: "settled_reach n s \<Longrightarrow> act a s = Some s' \<Longrightarrow> (begins s s' \<Longrightarrow> settled s) \<Longrightarrow> settled_reach n s'"

lemma settled_reach_reach: "settled_reach n s \<Longrightarrow> sync_reach n s"
  by (induction rule: settled_reach.induct) (auto intro: sync_reach.intros)

section \<open>The workers\<close>

fun before_raise :: "calculator_pc \<Rightarrow> bool" where
  "before_raise (Calc_Switch _) = True"
| "before_raise (Calc_Raise _) = True"
| "before_raise _ = False"

fun changing :: "calculator_pc \<Rightarrow> bool" where
  "changing (Calc_Impl _) = True"
| "changing Calc_Lock = True"
| "changing Calc_Clear = True"
| "changing Calc_Fail = True"
| "changing Calc_Dead = True"
| "changing _ = False"

definition worker_inv :: "nat \<Rightarrow> sync_state \<Rightarrow> bool" where
  "worker_inv n s \<longleftrightarrow>
    (before_raise (calc_pc s) \<longrightarrow>
      (\<forall>i < n. counted (worker_pcs s i) \<or> worker_pcs s i = W_Dead \<or> worker_pcs s i = W_Unborn)) \<and>
    (before_raise (calc_pc s) \<or> refreshing (calc_pc s) \<longrightarrow>
      (\<forall>i < n. worker_pcs s i \<notin> {W_Unlock, W_Add})) \<and>
    (\<not> refreshing (calc_pc s) \<longrightarrow> (\<forall>i < n. worker_pcs s i \<notin> {W_Deplete, W_Lock, W_Dec})) \<and>
    (changing (calc_pc s) \<longrightarrow> (\<forall>i < n. \<not> counted (worker_pcs s i)))"

lemma worker_invD:
  assumes "worker_inv n s" and "i < n"
  shows "before_raise (calc_pc s) \<Longrightarrow>
      counted (worker_pcs s i) \<or> worker_pcs s i = W_Dead \<or> worker_pcs s i = W_Unborn"
    and "before_raise (calc_pc s) \<or> refreshing (calc_pc s) \<Longrightarrow> worker_pcs s i \<notin> {W_Unlock, W_Add}"
    and "\<not> refreshing (calc_pc s) \<Longrightarrow> worker_pcs s i \<notin> {W_Deplete, W_Lock, W_Dec}"
    and "changing (calc_pc s) \<Longrightarrow> \<not> counted (worker_pcs s i)"
  using assms unfolding worker_inv_def by blast+

lemma worker_invI:
  assumes "\<And>i. i < n \<Longrightarrow> before_raise (calc_pc s) \<Longrightarrow>
      counted (worker_pcs s i) \<or> worker_pcs s i = W_Dead \<or> worker_pcs s i = W_Unborn"
    and "\<And>i. i < n \<Longrightarrow> before_raise (calc_pc s) \<or> refreshing (calc_pc s) \<Longrightarrow>
      worker_pcs s i \<notin> {W_Unlock, W_Add}"
    and "\<And>i. i < n \<Longrightarrow> \<not> refreshing (calc_pc s) \<Longrightarrow> worker_pcs s i \<notin> {W_Deplete, W_Lock, W_Dec}"
    and "\<And>i. i < n \<Longrightarrow> changing (calc_pc s) \<Longrightarrow> \<not> counted (worker_pcs s i)"
  shows "worker_inv n s"
  using assms unfolding worker_inv_def by blast

lemma worker_inv_worker:
  assumes inv: "worker_inv n s" and step: "worker_step i err s = Some s'" and i: "i < n"
    and flag: "refreshInProgress s \<longleftrightarrow> refreshing (calc_pc s)"
  shows "worker_inv n s'"
proof -
  note I = worker_invD [OF inv] and Ii = worker_invD [OF inv i]
  obtain q where m: "worker_moves i (worker_pcs s i) q s s'"
    using worker_step_moves [OF step] by blast
  have calc: "calc_pc s' = calc_pc s" and pcs: "worker_pcs s' j = (if j = i then q else worker_pcs s j)" for j
    using m by (simp_all add: worker_moves_def)
  have q: "q \<noteq> W_Unborn"
      "counted (worker_pcs s i) \<Longrightarrow> counted q \<or> q = W_Dead \<or> worker_pcs s i = W_Dec"
      "worker_pcs s i \<noteq> W_Dead" "worker_pcs s i \<noteq> W_Unborn"
      "q = W_Unlock \<Longrightarrow> \<not> refreshing (calc_pc s) \<and> worker_pcs s i = W_Pred"
      "q = W_Add \<Longrightarrow> worker_pcs s i = W_Unlock"
      "q = W_Deplete \<Longrightarrow> refreshing (calc_pc s)"
      "q = W_Lock \<Longrightarrow> worker_pcs s i = W_Deplete" "q = W_Dec \<Longrightarrow> worker_pcs s i = W_Lock"
      "counted q \<Longrightarrow> counted (worker_pcs s i) \<or> worker_pcs s i = W_Add"
    using m flag unfolding worker_moves_def by blast+
  have excl: "before_raise c \<Longrightarrow> \<not> refreshing c" "changing c \<Longrightarrow> refreshing c" for c
    by (cases c; simp add: refreshing_def)+
  have pred: "\<not> counted W_Pred" by (simp add: counted_def)
  show ?thesis
  proof (rule worker_invI; unfold calc pcs)
    fix j assume j: "j < n"
    show "before_raise (calc_pc s) \<Longrightarrow>
        counted (if j = i then q else worker_pcs s j) \<or> (if j = i then q else worker_pcs s j) = W_Dead \<or>
        (if j = i then q else worker_pcs s j) = W_Unborn"
      using I(1) [OF j] Ii(1,3) q(2-4) excl by auto
    show "before_raise (calc_pc s) \<or> refreshing (calc_pc s) \<Longrightarrow>
        (if j = i then q else worker_pcs s j) \<notin> {W_Unlock, W_Add}"
      using I(2) [OF j] Ii(1,2) q(5,6) pred by auto
    show "\<not> refreshing (calc_pc s) \<Longrightarrow> (if j = i then q else worker_pcs s j) \<notin> {W_Deplete, W_Lock, W_Dec}"
      using I(3) [OF j] Ii(3) q(7-9) by auto
    show "changing (calc_pc s) \<Longrightarrow> \<not> counted (if j = i then q else worker_pcs s j)"
      using I(4) [OF j] Ii(2,4) q(10) excl by auto
  qed
qed

lemma counted_none:
  assumes "count_inv n s" and "dataReaderCount s = 0" and "pool_stored (over_pc s)" and "launched n (over_pc s) = n"
    and "i < n"
  shows "\<not> counted (worker_pcs s i)"
proof -
  note I = count_invD [OF assms(1)]
  have "counted_in s = 0" using I(5) assms(2-4) by simp
  then have "(\<Sum>i < n. of_bool (counted (worker_pcs s i)) :: int) = 0"
    using I(1) by (simp add: counted_in_def)
  then have "\<forall>i \<in> {..<n}. of_bool (counted (worker_pcs s i)) = (0::int)"
    by (subst (asm) sum_nonneg_eq_0_iff) auto
  then show ?thesis using assms(5) by (cases "counted (worker_pcs s i)") auto
qed

text \<open>While the overseer starts the threads.\<close>

fun starting :: "overseer_pc \<Rightarrow> bool" where
  "starting O_Claim = True"
| "starting O_Count = True"
| "starting O_Announcer = True"
| "starting O_Pool = True"
| "starting (O_Launch _) = True"
| "starting _ = False"

lemma not_starting: "\<not> starting p \<Longrightarrow> pool_stored p \<and> launched n p = n"
  by (cases p) auto

lemma worker_inv_calc:
  assumes inv: "worker_inv n s" and cnt: "count_inv n s" and step: "calc_step err s = Some s'"
    and rest: "begins s s' \<Longrightarrow> settled s"
    and started: "\<And>b. calc_pc s = Calc_Wait_Readers b \<Longrightarrow> \<not> starting (over_pc s)"
  shows "worker_inv n s'"
proof -
  note I = worker_invD [OF inv] and f = calc_step_frame [OF step]
  have n: "pool_size s = n" using count_invD(1) [OF cnt] .
  have out: "\<not> counted p \<Longrightarrow> p \<notin> {W_Deplete, W_Lock, W_Dec}" "counted p \<or> p = W_Dead \<or> p = W_Unborn \<Longrightarrow> p \<notin> {W_Unlock, W_Add}"
    for p by (auto simp: counted_def)
  show ?thesis
  proof (cases "calc_pc s")
    case Calc_Idle
    show ?thesis
    proof (cases "begins s s'")
      case True
      have S: "counted (worker_pcs s i) \<or> worker_pcs s i = W_Dead \<or> worker_pcs s i = W_Unborn" if "i < n" for i
        using rest [OF True] that n by (simp add: settled_def)
      show ?thesis
        using I(3) Calc_Idle S out(2) step True
        by (intro worker_invI) (auto simp: f(6) begins_def refreshing_def)
    next
      case False
      then have "s' = s\<lparr>calc_pc := Calc_Stop\<rparr>"
        using step Calc_Idle by (auto simp: calc_step_def begins_def split: if_splits)
      then show ?thesis using I(3) Calc_Idle by (intro worker_invI) (auto simp: refreshing_def)
    qed
  next
    case (Calc_Wait_Readers b)
    then have s': "s' = s\<lparr>calc_pc := Calc_Impl b\<rparr>" and zero: "dataReaderCount s = 0"
      using step by (auto simp: calc_step_def split: if_splits)
    have "\<not> counted (worker_pcs s i)" if "i < n" for i
      using counted_none [OF cnt zero _ _ that] not_starting [OF started [OF Calc_Wait_Readers]] by blast
    then show ?thesis using I(2) Calc_Wait_Readers s' by (intro worker_invI) (auto simp: refreshing_def)
  next
    case Calc_Clear
    then have "s' = s\<lparr>refreshInProgress := False, calc_pc := Calc_Unlock\<rparr>"
      using step by (simp add: calc_step_def)
    then show ?thesis using I(4) Calc_Clear out(1) by (intro worker_invI) (auto simp: refreshing_def)
  next
    case Calc_Notify
    then have "calc_pc s' = Calc_Idle" using step by (auto simp: calc_step_def)
    then show ?thesis
      using I(3) Calc_Notify by (intro worker_invI) (auto simp: f(6) refreshing_def)
  qed (use step inv in \<open>auto simp: calc_step_def worker_inv_def refreshing_def split: if_splits\<close>)
qed

lemma worker_inv_cong:
  assumes "worker_inv n s" and "calc_pc s' = calc_pc s" and "worker_pcs s' = worker_pcs s"
  shows "worker_inv n s'"
  using assms(1) unfolding worker_inv_def assms(2,3) .

lemma worker_inv_overseer:
  assumes inv: "worker_inv n s" and cnt: "count_inv n s" and step: "overseer_step err s = Some s'"
    and starting: "starting (over_pc s) \<Longrightarrow> \<not> changing (calc_pc s)"
  shows "worker_inv n s'"
proof (cases "over_pc s")
  case (O_Launch k)
  show ?thesis
  proof (cases "k < n")
    case True
    then have s': "s' = s\<lparr>worker_pcs := (worker_pcs s)(k := W_Start), over_pc := O_Launch (Suc k)\<rparr>"
      using step O_Launch count_invD(1) [OF cnt] by (simp add: overseer_step_def)
    have "\<not> changing (calc_pc s)" using starting O_Launch by simp
    moreover have "counted W_Start" by (simp add: counted_def)
    ultimately show ?thesis using worker_invD [OF inv] unfolding s' by (intro worker_invI) auto
  next
    case False
    then show ?thesis
      using step O_Launch count_invD(1) [OF cnt]
      by (intro worker_inv_cong [OF inv]) (auto simp: overseer_step_def)
  qed
next
  case O_Announcer
  then have "calc_pc s = Calc_Off" "s' = s\<lparr>calc_pc := Calc_Idle, over_pc := O_Pool\<rparr>"
    using count_invD(4) [OF cnt] step by (simp_all add: overseer_step_def)
  then show ?thesis using inv by (auto simp: worker_inv_def refreshing_def)
qed (rule worker_inv_cong [OF inv]; use step in \<open>auto simp: overseer_step_def\<close>)+

section \<open>The buffers\<close>

fun holding :: "overseer_pc \<Rightarrow> bool" where
  "holding O_Claim = False"
| "holding O_Count = False"
| "holding (O_Inc _) = False"
| "holding O_Failed = False"
| "holding _ = True"

definition writer_inv :: "sync_state \<Rightarrow> bool" where
  "writer_inv s \<longleftrightarrow> (\<forall>b. writerCount s b = of_bool (holding (over_pc s) \<and> inData s = b))"

lemma writer_inv_calc: "writer_inv s \<Longrightarrow> calc_step err s = Some s' \<Longrightarrow> writer_inv s'"
  using calc_step_frame [of err s s'] by (simp add: writer_inv_def)

lemma writer_inv_worker: "writer_inv s \<Longrightarrow> worker_step i err s = Some s' \<Longrightarrow> writer_inv s'"
  by (drule worker_step_moves) (simp add: writer_inv_def worker_moves_def)

lemma writer_inv_overseer: "writer_inv s \<Longrightarrow> overseer_step err s = Some s' \<Longrightarrow> writer_inv s'"
  by (cases "over_pc s") (auto simp: writer_inv_def overseer_step_def split: if_splits)

lemma reach_writer_inv: "sync_reach n s \<Longrightarrow> writer_inv s"
proof (induction rule: sync_reach.induct)
  case start
  then show ?case by (simp add: writer_inv_def sync_start_def)
next
  case (step s a s')
  then show ?case
    by (cases a) (auto intro: writer_inv_calc writer_inv_worker writer_inv_overseer split: if_splits)
qed

text \<open>The buffer a recalculation has taken over and is waiting for, or processing.\<close>

fun waits_for :: "nat \<Rightarrow> calculator_pc \<Rightarrow> bool" where
  "waits_for b (Calc_Switch b') = (b' = b)"
| "waits_for b (Calc_Raise b') = (b' = b)"
| "waits_for b (Calc_Wait_Writer b') = (b' = b)"
| "waits_for b _ = False"

fun took :: "nat \<Rightarrow> calculator_pc \<Rightarrow> bool" where
  "took b (Calc_Wait_Readers b') = (b' = b)"
| "took b (Calc_Impl b') = (b' = b)"
| "took b p = waits_for b p"

fun index_for :: "calculator_pc \<Rightarrow> nat \<Rightarrow> nat" where
  "index_for (Calc_Switch _) cur = 1 - cur"
| "index_for _ cur = cur"

definition buffer_inv :: "sync_state \<Rightarrow> bool" where
  "buffer_inv s \<longleftrightarrow>
    currentBuffer s \<le> 1 \<and>
    currentBufferIndex s = index_for (calc_pc s) (currentBuffer s) \<and>
    (\<forall>b. took b (calc_pc s) \<longrightarrow> b = 1 - currentBuffer s) \<and>
    (over_pc s = O_Count \<or> over_pc s = O_Announcer \<longrightarrow> inData s = currentBuffer s) \<and>
    (holding (over_pc s) \<longrightarrow> inData s = currentBuffer s \<or> waits_for (inData s) (calc_pc s)) \<and>
    (\<forall>b. over_pc s = O_Dec b \<longrightarrow> b = currentBuffer s \<and> waits_for (inData s) (calc_pc s)) \<and>
    (\<forall>b. over_pc s = O_Inc b \<longrightarrow> b = currentBuffer s) \<and>
    (starting (over_pc s) \<longrightarrow>
      calc_pc s \<in> {Calc_Off, Calc_Idle, Calc_Stop} \<or> waits_for (inData s) (calc_pc s))"

lemma buffer_invD:
  assumes "buffer_inv s"
  shows "currentBuffer s = 0 \<or> currentBuffer s = 1"
    and "currentBufferIndex s = index_for (calc_pc s) (currentBuffer s)"
    and "took b (calc_pc s) \<Longrightarrow> b = 1 - currentBuffer s"
    and "over_pc s = O_Count \<or> over_pc s = O_Announcer \<Longrightarrow> inData s = currentBuffer s"
    and "holding (over_pc s) \<Longrightarrow> inData s = currentBuffer s \<or> waits_for (inData s) (calc_pc s)"
    and "over_pc s = O_Dec b \<Longrightarrow> b = currentBuffer s \<and> waits_for (inData s) (calc_pc s)"
    and "over_pc s = O_Inc b \<Longrightarrow> b = currentBuffer s"
    and "starting (over_pc s) \<Longrightarrow>
      calc_pc s \<in> {Calc_Off, Calc_Idle, Calc_Stop} \<or> waits_for (inData s) (calc_pc s)"
  using assms unfolding buffer_inv_def by (auto simp: le_Suc_eq)

lemma buffer_invI:
  assumes "currentBuffer s = 0 \<or> currentBuffer s = 1"
    and "currentBufferIndex s = index_for (calc_pc s) (currentBuffer s)"
    and "\<And>b. took b (calc_pc s) \<Longrightarrow> b = 1 - currentBuffer s"
    and "over_pc s = O_Count \<or> over_pc s = O_Announcer \<Longrightarrow> inData s = currentBuffer s"
    and "holding (over_pc s) \<Longrightarrow> inData s = currentBuffer s \<or> waits_for (inData s) (calc_pc s)"
    and "\<And>b. over_pc s = O_Dec b \<Longrightarrow> b = currentBuffer s \<and> waits_for (inData s) (calc_pc s)"
    and "\<And>b. over_pc s = O_Inc b \<Longrightarrow> b = currentBuffer s"
    and "starting (over_pc s) \<Longrightarrow>
      calc_pc s \<in> {Calc_Off, Calc_Idle, Calc_Stop} \<or> waits_for (inData s) (calc_pc s)"
  shows "buffer_inv s"
  using assms unfolding buffer_inv_def by auto

lemma buffer_inv_calc:
  assumes "buffer_inv s" and "writer_inv s" and "calc_step err s = Some s'" and "begins s s' \<Longrightarrow> settled s"
    and "over_pc s = O_Claim \<or> over_pc s = O_Count \<or> over_pc s = O_Announcer \<Longrightarrow> calc_pc s = Calc_Off"
  shows "buffer_inv s'"
proof -
  note I = buffer_invD [OF assms(1)] and f = calc_step_frame [OF assms(3)]
  have wt: "waits_for b c \<Longrightarrow> took b c" for b c by (cases c) auto
  have dec: "holding (over_pc s)" if "over_pc s = O_Dec b" for b using that by simp
  have st: "holding (over_pc s)" if "starting (over_pc s)" "calc_pc s \<noteq> Calc_Off"
    using that assms(5) by (cases "over_pc s") auto
  show ?thesis
  proof (cases "calc_pc s")
    case Calc_Idle
    show ?thesis
    proof (cases "begins s s'")
      case True
      then have s': "s' = s\<lparr>currentBuffer := 1 - currentBuffer s, calc_pc := Calc_Switch (currentBuffer s)\<rparr>"
        using assms(3) I(2) Calc_Idle by (auto simp: calc_step_def begins_def split: if_splits)
      have "over_pc s \<noteq> O_Inc b" for b using assms(4) [OF True] by (simp add: settled_def)
      moreover have "over_pc s \<noteq> O_Count" "over_pc s \<noteq> O_Announcer" using assms(5) Calc_Idle by auto
      moreover have "over_pc s \<noteq> O_Dec b" for b using I(6) [of b] Calc_Idle by auto
      ultimately show ?thesis
        using I(1,2,5) st Calc_Idle unfolding s' by (intro buffer_invI) auto
    next
      case False
      then have s': "s' = s\<lparr>calc_pc := Calc_Stop\<rparr>"
        using assms(3) Calc_Idle by (auto simp: calc_step_def begins_def split: if_splits)
      show ?thesis using I Calc_Idle unfolding s' by (intro buffer_invI) auto
    qed
  next
    case (Calc_Wait_Writer b)
    then have s': "s' = s\<lparr>calc_pc := Calc_Wait_Readers b\<rparr>" and "writerCount s b = 0"
      using assms(3) by (auto simp: calc_step_def split: if_splits)
    then have "\<not> (holding (over_pc s) \<and> inData s = b)" using assms(2) by (auto simp: writer_inv_def)
    then show ?thesis
      using I dec st Calc_Wait_Writer unfolding s' by (intro buffer_invI) auto
  next
    case (Calc_Switch b)
    then have s': "s' = s\<lparr>currentBufferIndex := 1 - currentBufferIndex s, calc_pc := Calc_Raise b\<rparr>"
      using assms(3) by (simp add: calc_step_def)
    show ?thesis using I Calc_Switch unfolding s' by (intro buffer_invI) auto
  qed (rule buffer_invI; use assms(3) I in \<open>auto simp: calc_step_def split: if_splits\<close>)+
qed

lemma buffer_inv_worker:
  assumes "buffer_inv s" and "worker_step i err s = Some s'"
  shows "buffer_inv s'"
proof -
  have same: "currentBuffer s' = currentBuffer s" "currentBufferIndex s' = currentBufferIndex s"
      "calc_pc s' = calc_pc s" "over_pc s' = over_pc s" "inData s' = inData s"
    using worker_step_moves [OF assms(2)] by (simp_all add: worker_moves_def)
  show ?thesis using assms(1) unfolding buffer_inv_def same .
qed

lemma buffer_inv_overseer:
  assumes "buffer_inv s" and "overseer_step err s = Some s'"
    and "over_pc s = O_Claim \<or> over_pc s = O_Count \<or> over_pc s = O_Announcer \<Longrightarrow> calc_pc s = Calc_Off"
  shows "buffer_inv s'"
proof -
  note I = buffer_invD [OF assms(1)]
  have took: "took b c" if "waits_for b c" for b c using that by (cases c) auto
  show ?thesis
  proof (cases "over_pc s")
    case O_Claim
    then have s': "s' = s\<lparr>inData := currentBuffer s, over_pc := O_Count\<rparr>" and "calc_pc s = Calc_Off"
      using assms(2,3) by (simp_all add: overseer_step_def)
    then show ?thesis using I(1-3) O_Claim unfolding s' by (intro buffer_invI) simp_all
  next
    case O_Announcer
    then have s': "s' = s\<lparr>calc_pc := Calc_Idle, over_pc := O_Pool\<rparr>" and "calc_pc s = Calc_Off"
      using assms(2,3) by (simp_all add: overseer_step_def)
    then show ?thesis using I(1,2,4) O_Announcer unfolding s' by (intro buffer_invI) simp_all
  next
    case O_Load
    then have s': "s' = s\<lparr>over_pc := (if currentBuffer s \<noteq> inData s then O_Dec (currentBuffer s) else O_Dispatch)\<rparr>"
      using assms(2) by (simp add: overseer_step_def)
    show ?thesis using I(1-3,5) O_Load unfolding s' by (intro buffer_invI) (simp_all split: if_splits)
  qed (rule buffer_invI; use assms(2) I in \<open>auto simp: overseer_step_def split: if_splits\<close>)+
qed

section \<open>All together\<close>

lemma settled_invs:
  "settled_reach n s \<Longrightarrow> worker_inv n s \<and> buffer_inv s"
proof (induction rule: settled_reach.induct)
  case start
  then show ?case by (simp add: worker_inv_def buffer_inv_def sync_start_def refreshing_def)
next
  case (step s a s')
  then have I: "worker_inv n s" "buffer_inv s" by simp_all
  have R: "lock_inv s" "count_inv n s" "writer_inv s"
    using reach_invs reach_writer_inv settled_reach_reach [OF step(1)] by blast+
  have off: "over_pc s = O_Claim \<or> over_pc s = O_Count \<or> over_pc s = O_Announcer \<Longrightarrow> calc_pc s = Calc_Off"
    by (rule count_invD(4) [OF R(2)])
  have started: "\<not> starting (over_pc s)" if "calc_pc s = Calc_Wait_Readers b" for b
    using buffer_invD(8) [OF I(2)] that by auto
  have unchanged: "\<not> changing (calc_pc s)" if "starting (over_pc s)"
    using buffer_invD(8) [OF I(2) that] by (cases "calc_pc s") auto
  show ?case
  proof (cases a)
    case (Calculator err)
    then show ?thesis
      using step(2,3) worker_inv_calc [OF I(1) R(2) _ _ started] buffer_inv_calc [OF I(2) R(3) _ _ off] by simp
  next
    case (Pool_Worker i err)
    then show ?thesis
      using step(2) worker_inv_worker [OF I(1) _ _ lock_invD(3) [OF R(1)]] buffer_inv_worker [OF I(2)]
        count_invD(1) [OF R(2)] by (simp split: if_splits)
  next
    case (Overseer err)
    then show ?thesis
      using step(2) worker_inv_overseer [OF I(1) R(2) _ unchanged] buffer_inv_overseer [OF I(2) _ off] by simp
  qed
qed

text \<open>The places at which a worker reads the rating data, and the listener the buffer it holds.\<close>

definition reading :: "worker_pc \<Rightarrow> bool" where
  "reading p \<longleftrightarrow> p = W_Start \<or> p = W_Deplete \<or> p = W_Cache \<or> p = W_Serve"

lemma exclusive:
  assumes "settled_reach n s" and "calc_pc s = Calc_Impl b"
  shows "i < n \<Longrightarrow> \<not> reading (worker_pcs s i)" and "over_pc s = O_Dispatch \<Longrightarrow> inData s \<noteq> b"
proof -
  have I: "worker_inv n s" "buffer_inv s" using settled_invs [OF assms(1)] by simp_all
  show "\<not> reading (worker_pcs s i)" if "i < n"
    using worker_invD(4) [OF I(1) that] assms(2) by (auto simp: reading_def counted_def)
  show "inData s \<noteq> b" if "over_pc s = O_Dispatch"
    using buffer_invD(1,3,5) [OF I(2)] that assms(2) by fastforce
qed

section \<open>Waiting for a thread that has gone\<close>

lemma acts_keep:
  assumes "P s" and "acts as s = Some s'"
    and "\<And>a s s'. P s \<Longrightarrow> act a s = Some s' \<Longrightarrow> P s'"
  shows "P s'"
  using assms(1,2) by (induction as arbitrary: s) (auto intro: assms(3) split: option.splits)

end
