(* ===== verification/Refresh_Waits.thy ===== *)
theory Refresh_Waits
  imports Refresh_Safety
begin

text \<open>
  What the waiting loops of \<open>RatingCalculator::recalculate\<close> wait for: as long as no thread has met an
  error the workers can always be scheduled so that the wait ends; but a worker that left its loop on
  the stop flag stays counted, and a listener that left its loop on it keeps its buffer, and the wait
  for either never ends. Runs that show a recalculation overlapping a worker's reading are at the end.
\<close>

section \<open>Waits that end\<close>

fun way_to_sleep :: "worker_pc \<Rightarrow> nat" where
  "way_to_sleep W_Cache = 10"
| "way_to_sleep W_Serve = 9"
| "way_to_sleep W_Start = 9"
| "way_to_sleep W_Top = 8"
| "way_to_sleep W_Refresh = 7"
| "way_to_sleep W_Deplete = 6"
| "way_to_sleep W_Lock = 5"
| "way_to_sleep W_Dec = 4"
| "way_to_sleep W_Woken = 4"
| "way_to_sleep W_Pred = 3"
| "way_to_sleep W_Block = 2"
| "way_to_sleep W_Sleep = 1"
| "way_to_sleep _ = 0"

definition ways :: "sync_state \<Rightarrow> nat" where
  "ways s = (\<Sum>i < pool_size s. way_to_sleep (worker_pcs s i))"

definition calm :: "sync_state \<Rightarrow> bool" where
  "calm s \<longleftrightarrow> \<not> stopFlag s \<and>
    (\<forall>i < pool_size s. worker_pcs s i \<notin> {W_Unborn, W_Unlock, W_Add, W_Signal, W_Fail_Dec, W_Quit})"

lemma pcs_sum_decreases:
  fixes f :: "worker_pc \<Rightarrow> nat"
  assumes "i < pool_size s" and "worker_pcs s' = (worker_pcs s)(i := q)" and "pool_size s' = pool_size s"
    and "f q < f (worker_pcs s i)"
  shows "(\<Sum>j < pool_size s'. f (worker_pcs s' j)) < (\<Sum>j < pool_size s. f (worker_pcs s j))"
  unfolding assms(2,3) by (rule sum_strict_mono_ex1) (use assms(1,4) in auto)

lemma ways_decreases:
  assumes "i < pool_size s" and "worker_pcs s' = (worker_pcs s)(i := q)" and "pool_size s' = pool_size s"
    and "way_to_sleep q < way_to_sleep (worker_pcs s i)"
  shows "ways s' < ways s"
  unfolding ways_def by (rule pcs_sum_decreases [OF assms])

text \<open>While a worker is counted in, some worker can take a step towards sleep.\<close>

lemma calm_step:
  assumes "calm s" and "refreshInProgress s" and "i < pool_size s"
    and "holds_lock (worker_pcs s i) \<or> dataLock s = Free \<and> counted (worker_pcs s i)"
  shows "\<exists>s'. act (Pool_Worker i False) s = Some s' \<and> calm s' \<and> refreshInProgress s' \<and>
    calc_pc s' = calc_pc s \<and> ways s' < ways s \<and> pool_size s' = pool_size s"
proof -
  have ok: "worker_pcs s i \<notin> {W_Unborn, W_Unlock, W_Add, W_Signal, W_Fail_Dec, W_Quit}" "\<not> stopFlag s"
    using assms(1,3) by (auto simp: calm_def)
  have dec: "ways s' < ways s"
    if "worker_pcs s' = (worker_pcs s)(i := q)" "pool_size s' = pool_size s"
      "way_to_sleep q < way_to_sleep (worker_pcs s i)" for s' q
    using ways_decreases [OF assms(3) that] .
  have calm: "calm s'"
    if "worker_pcs s' = (worker_pcs s)(i := q)" "pool_size s' = pool_size s" "stopFlag s' = stopFlag s"
      "q \<notin> {W_Unborn, W_Unlock, W_Add, W_Signal, W_Fail_Dec, W_Quit}" for s' q
    using assms(1) that by (auto simp: calm_def)
  show ?thesis
    using assms(2-4) ok
    by (cases "worker_pcs s i")
       (auto simp: worker_step_def worker_goes_def counted_def holds_lock_def intro!: calm dec)
qed

lemma acts_append: "acts (as @ bs) s = (case acts as s of None \<Rightarrow> None | Some s' \<Rightarrow> acts bs s')"
  by (induction as arbitrary: s) (auto split: option.splits)

lemma ways_bound: "ways s \<le> 10 * pool_size s"
proof -
  have "way_to_sleep p \<le> 10" for p by (cases p) simp_all
  then have "ways s \<le> (\<Sum>i < pool_size s. 10)" unfolding ways_def by (intro sum_mono) blast
  then show ?thesis by simp
qed

text \<open>A schedule of the workers alone, none of which meets an error, and then the recalculation goes on.\<close>

definition let_in :: "nat list \<Rightarrow> action list" where
  "let_in ws = map (\<lambda>i. Pool_Worker i False) ws @ [Calculator False]"

lemma wait_ends:
  assumes "sync_reach n s" and "calm s" and "calc_pc s = Calc_Wait_Readers b" and "\<not> starting (over_pc s)"
  shows "\<exists>ws s'. length ws \<le> ways s \<and> acts (let_in ws) s = Some s' \<and> calc_pc s' = Calc_Impl b"
  using assms
proof (induction "ways s" arbitrary: s rule: less_induct)
  case less
  have I: "lock_inv s" "count_inv n s" using reach_invs [OF less.prems(1)] by simp_all
  note C = count_invD [OF I(2)]
  show ?case
  proof (cases "dataReaderCount s = 0")
    case True
    then have "acts (let_in []) s = Some (s\<lparr>calc_pc := Calc_Impl b\<rparr>)"
      using less.prems(3) by (simp add: calc_step_def let_in_def)
    then show ?thesis by (intro exI [of _ "[]"] exI [of _ "s\<lparr>calc_pc := Calc_Impl b\<rparr>"]) simp
  next
    case False
    have "counted_in s \<noteq> 0" using False C(5) not_starting [OF less.prems(4)] by simp
    then obtain i where i: "i < pool_size s" "counted (worker_pcs s i)"
      unfolding counted_in_def by (metis (mono_tags, lifting) lessThan_iff of_bool_eq(1) sum.neutral)
    have flag: "refreshInProgress s" using lock_invD(3) [OF I(1)] less.prems(3) by (simp add: refreshing_def)
    have "\<exists>j < pool_size s. holds_lock (worker_pcs s j) \<or> dataLock s = Free \<and> counted (worker_pcs s j)"
    proof (cases "dataLock s")
      case Free
      then show ?thesis using i by blast
    next
      case By_Calculator
      then show ?thesis using lock_invD(1) [OF I(1)] less.prems(3) by simp
    next
      case (By_Worker j)
      then have "holds_lock (worker_pcs s j)" using lock_invD(2) [OF I(1)] by blast
      moreover then have "worker_pcs s j \<noteq> W_Unborn" by (auto simp: holds_lock_def)
      then have "j < pool_size s"
        using C(1,2) not_starting [OF less.prems(4)] by (metis not_le)
      ultimately show ?thesis by blast
    qed
    then obtain j where j: "j < pool_size s"
        "holds_lock (worker_pcs s j) \<or> dataLock s = Free \<and> counted (worker_pcs s j)" by blast
    from calm_step [OF less.prems(2) flag this] obtain s1 where
      s1: "act (Pool_Worker j False) s = Some s1" "calm s1" "calc_pc s1 = calc_pc s" "ways s1 < ways s"
      by blast
    moreover have "over_pc s1 = over_pc s"
      using s1(1) worker_step_moves [of j False s s1] j(1) by (simp add: worker_moves_def)
    ultimately obtain ws s' where
      ws: "length ws \<le> ways s1" "acts (let_in ws) s1 = Some s'" "calc_pc s' = Calc_Impl b"
      using less.hyps [of s1] sync_reach.step [OF less.prems(1) s1(1)] less.prems(3,4) by auto
    then have "acts (let_in (j # ws)) s = Some s'" using s1(1) by (simp add: let_in_def)
    moreover have "length (j # ws) \<le> ways s" using ws(1) s1(4) by simp
    ultimately show ?thesis using ws(3) by blast
  qed
qed

lemma settled_wait_ends:
  assumes "settled_reach n s" and "calc_pc s = Calc_Wait_Readers b" and "\<not> stopFlag s"
    and "\<forall>i < n. worker_pcs s i \<notin> {W_Signal, W_Fail_Dec, W_Quit}"
  shows "\<exists>ws s'. length ws \<le> 10 * n \<and> acts (let_in ws) s = Some s' \<and> calc_pc s' = Calc_Impl b"
proof -
  have I: "worker_inv n s" "buffer_inv s" using settled_invs [OF assms(1)] by simp_all
  have R: "sync_reach n s" by (rule settled_reach_reach [OF assms(1)])
  note C = count_invD [OF conjunct2 [OF reach_invs [OF R]]]
  have st: "\<not> starting (over_pc s)" using buffer_invD(8) [OF I(2)] assms(2) by auto
  have "worker_pcs s i \<noteq> W_Unborn" if "i < n" for i using C(2) not_starting [OF st] that by simp
  then have "calm s"
    using worker_invD(2) [OF I(1)] assms(2-4) C(1) by (auto simp: calm_def refreshing_def)
  from wait_ends [OF R this assms(2) st] obtain ws s' where
    "length ws \<le> ways s" "acts (let_in ws) s = Some s'" "calc_pc s' = Calc_Impl b" by blast
  moreover from this(1) have "length ws \<le> 10 * n" using ways_bound [of s] C(1) by simp
  ultimately show ?thesis by blast
qed

section \<open>Waits that do not end\<close>

lemma quit_worker_blocks:
  assumes "sync_reach n s" and "worker_pcs s i = W_Quit" and "calc_pc s = Calc_Wait_Readers b"
    and "act a s = Some s'"
  shows "worker_pcs s' i = W_Quit \<and> calc_pc s' = Calc_Wait_Readers b"
proof -
  note C = count_invD [OF conjunct2 [OF reach_invs [OF assms(1)]]]
  have born: "i < launched n (over_pc s)" using C(2) [of i] assms(2) by simp
  moreover have "launched n (over_pc s) \<le> n" by (cases "over_pc s") auto
  ultimately have i: "i < pool_size s" and stored: "pool_stored (over_pc s)"
    using C(1) by (simp_all, cases "over_pc s") simp_all
  have "0 < counted_in s"
    unfolding counted_in_def
    by (rule sum_pos2 [of _ i]) (use i assms(2) in \<open>auto simp: counted_def\<close>)
  then have pos: "dataReaderCount s \<noteq> 0"
    using C(5) [OF stored] \<open>launched n (over_pc s) \<le> n\<close> by simp
  show ?thesis
  proof (cases a)
    case (Calculator err)
    then show ?thesis using assms(3,4) pos by (simp add: calc_step_def)
  next
    case (Pool_Worker j err)
    then have step: "worker_step j err s = Some s'" using assms(4) by (simp split: if_splits)
    then have "j \<noteq> i" using assms(2) by (auto simp: worker_step_def)
    moreover obtain q where "worker_moves j (worker_pcs s j) q s s'" using worker_step_moves [OF step] by blast
    ultimately show ?thesis using assms(2,3) by (simp add: worker_moves_def)
  next
    case (Overseer err)
    then have step: "overseer_step err s = Some s'" using assms(4) by simp
    have "over_pc s \<noteq> O_Announcer" using C(4) assms(3) by auto
    moreover have "k \<noteq> i" if "over_pc s = O_Launch k" for k using born that by simp
    ultimately show ?thesis
      using step assms(2,3) by (cases "over_pc s") (auto simp: overseer_step_def split: if_splits)
  qed
qed

lemma waits_for_ever:
  assumes "sync_reach n s" and "worker_pcs s i = W_Quit" and "calc_pc s = Calc_Wait_Readers b"
    and "acts as s = Some s'"
  shows "calc_pc s' = Calc_Wait_Readers b"
  using assms
proof (induction as arbitrary: s)
  case (Cons a as)
  then obtain s1 where s1: "act a s = Some s1" "acts as s1 = Some s'" by (auto split: option.splits)
  then show ?case
    using Cons.IH [OF sync_reach.step [OF Cons.prems(1) s1(1)]] quit_worker_blocks [OF Cons.prems(1-3) s1(1)]
    by blast
qed simp

section \<open>Runs\<close>

text \<open>A worker fails and sets the flag, the other sees it and leaves; then a recalculation begins.\<close>

definition stuck_run :: "action list" where
  "stuck_run =
    replicate 8 (Overseer False) @
    [Pool_Worker 1 True, Pool_Worker 1 False, Pool_Worker 1 False, Pool_Worker 0 False, Pool_Worker 0 False] @
    replicate 3 (Calculator False) @ replicate 4 (Overseer False) @ [Calculator False]"

definition stuck_state :: sync_state where
  "stuck_state = the (acts stuck_run (sync_start 2))"

lemma stuck_run: "acts stuck_run (sync_start 2) = Some stuck_state"
  and stuck_state: "worker_pcs stuck_state 0 = W_Quit" "calc_pc stuck_state = Calc_Wait_Readers 0"
  by (simp_all add: stuck_state_def stuck_run_def sync_start_def calc_step_def worker_step_def
      worker_goes_def overseer_step_def eval_nat_numeral)

text \<open>
  The overlap: the worker is woken and released, but has not counted itself in again when the next
  recalculation begins.
\<close>

definition overlap_run :: "action list" where
  "overlap_run =
    replicate 6 (Overseer False) @ replicate 3 (Calculator False) @ replicate 6 (Overseer False) @
    [Calculator False] @ replicate 8 (Pool_Worker 0 False) @ replicate 6 (Calculator False) @
    replicate 2 (Pool_Worker 0 False) @ replicate 3 (Calculator False) @ replicate 6 (Overseer False) @
    replicate 2 (Calculator False) @ replicate 2 (Pool_Worker 0 False)"

definition overlap_state :: sync_state where
  "overlap_state = the (acts overlap_run (sync_start 1))"

lemma overlap_run: "acts overlap_run (sync_start 1) = Some overlap_state"
  and overlap_state: "calc_pc overlap_state = Calc_Impl 1" "worker_pcs overlap_state 0 = W_Cache"
  by (simp_all add: overlap_state_def overlap_run_def sync_start_def calc_step_def worker_step_def
      worker_goes_def overseer_step_def eval_nat_numeral)

text \<open>A run in which every recalculation begins from rest.\<close>

fun settled_acts :: "action list \<Rightarrow> sync_state \<Rightarrow> bool" where
  "settled_acts [] s = True"
| "settled_acts (a # as) s =
    (case act a s of
       None \<Rightarrow> False
     | Some s' \<Rightarrow> (calc_pc s = Calc_Idle \<longrightarrow> settled s) \<and> settled_acts as s')"

lemma settled_acts_reach:
  "settled_reach n s \<Longrightarrow> settled_acts as s \<Longrightarrow> acts as s = Some s' \<Longrightarrow> settled_reach n s'"
proof (induction as arbitrary: s)
  case (Cons a as)
  then obtain s1 where s1: "act a s = Some s1" "calc_pc s = Calc_Idle \<Longrightarrow> settled s" "settled_acts as s1"
      "acts as s1 = Some s'"
    by (auto split: option.splits)
  have "settled_reach n s1"
    by (rule settled_reach.step [OF Cons.prems(1) s1(1)]) (use s1(2) in \<open>simp add: begins_def\<close>)
  then show ?case by (rule Cons.IH [OF _ s1(3,4)])
qed simp

definition minute_run :: "action list" where
  "minute_run =
    replicate 6 (Overseer False) @ replicate 3 (Calculator False) @ replicate 6 (Overseer False) @
    [Calculator False] @ replicate 8 (Pool_Worker 0 False)"

definition waiting_run :: "action list" where
  "waiting_run =
    replicate 6 (Overseer False) @ replicate 3 (Calculator False) @ replicate 6 (Overseer False) @
    [Calculator False] @ replicate 2 (Pool_Worker 0 False)"

lemma settled_run:
  "settled_acts (minute_run @ [Calculator False]) (sync_start 1)"
  "settled_acts minute_run (sync_start 1)"
  "settled_acts waiting_run (sync_start 1)"
  by (simp_all add: minute_run_def waiting_run_def sync_start_def calc_step_def worker_step_def
      settled_def counted_def worker_goes_def overseer_step_def eval_nat_numeral)

lemma minute_state:
  "\<exists>s. acts (minute_run @ [Calculator False]) (sync_start 1) = Some s \<and> calc_pc s = Calc_Impl 0"
  "\<exists>s. acts minute_run (sync_start 1) = Some s \<and> calc_pc s = Calc_Wait_Readers 0 \<and> \<not> stopFlag s \<and>
    worker_pcs s 0 = W_Sleep"
  by (simp_all add: minute_run_def sync_start_def calc_step_def worker_step_def
      worker_goes_def overseer_step_def eval_nat_numeral)

lemma waiting_state:
  "\<exists>s. acts waiting_run (sync_start 1) = Some s \<and> calc_pc s = Calc_Wait_Readers 0 \<and> \<not> stopFlag s \<and>
    worker_pcs s 0 = W_Refresh"
  by (simp add: waiting_run_def sync_start_def calc_step_def worker_step_def
      worker_goes_def overseer_step_def eval_nat_numeral)

section \<open>The properties\<close>

text \<open>
  C10. While the recalculation changes the rating data no worker reads it, and the listener does not
  write the buffer that is being processed, in every run in which a recalculation is not begun before
  the threads of the one before are at rest: every started worker counted in or gone, the listener not
  between two buffers.
\<close>

theorem refresh_exclusive:
  assumes "settled_reach n s" and "calc_pc s = Calc_Impl b" and "i < n"
  shows "\<not> reading (worker_pcs s i) \<and> (over_pc s = O_Dispatch \<longrightarrow> inData s \<noteq> b)"
  using exclusive [OF assms(1,2)] assms(3) by blast

theorem refresh_exclusive_witness:
  "\<exists>s. settled_reach 1 s \<and> calc_pc s = Calc_Impl 0 \<and> \<not> reading (worker_pcs s 0)"
proof -
  obtain s where s: "acts (minute_run @ [Calculator False]) (sync_start 1) = Some s" "calc_pc s = Calc_Impl 0"
    using minute_state(1) by blast
  then have "settled_reach 1 s" using settled_acts_reach [OF settled_reach.start settled_run(1)] by blast
  then show ?thesis using refresh_exclusive [of 1 s 0 0] s(2) by auto
qed

text \<open>
  C14. No worker sleeps through the notification: in every run, a worker that sleeps on the condition
  does so while the refresh flag is up, or the notification is still to come.
\<close>

theorem no_lost_wakeup:
  assumes "sync_reach n s" and "worker_pcs s i = W_Sleep"
  shows "refreshInProgress s \<or> calc_pc s = Calc_Unlock \<or> calc_pc s = Calc_Notify"
  using lock_invD(5) [OF conjunct1 [OF reach_invs [OF assms(1)]] assms(2)] .

theorem no_lost_wakeup_witness:
  "\<exists>s. sync_reach 1 s \<and> worker_pcs s 0 = W_Sleep \<and>
    (refreshInProgress s \<or> calc_pc s = Calc_Unlock \<or> calc_pc s = Calc_Notify)"
proof -
  obtain s where s: "acts minute_run (sync_start 1) = Some s" "worker_pcs s 0 = W_Sleep"
    using minute_state(2) by blast
  then have "sync_reach 1 s" by (intro acts_reach [OF sync_reach.start])
  then show ?thesis using no_lost_wakeup [of 1 s 0] s(2) by blast
qed

text \<open>
  C15. A recalculation that waits for the workers can always be let in, as long as the stop flag is down
  and no worker has met an error: at most ten steps of each of the workers, in which none of them meets
  an error, and the recalculation goes on to change the data. As in C10, the runs are those in which
  every recalculation begins when the threads of the one before are at rest.
\<close>

theorem waiting_ends:
  assumes "settled_reach n s" and "calc_pc s = Calc_Wait_Readers b" and "\<not> stopFlag s"
    and "\<forall>i < n. worker_pcs s i \<notin> {W_Signal, W_Fail_Dec, W_Quit}"
  shows "\<exists>ws s'. length ws \<le> 10 * n \<and>
    acts (map (\<lambda>i. Pool_Worker i False) ws @ [Calculator False]) s = Some s' \<and> calc_pc s' = Calc_Impl b"
  using settled_wait_ends [OF assms] unfolding let_in_def .

theorem waiting_ends_witness:
  "\<exists>s ws s'. settled_reach 1 s \<and> calc_pc s = Calc_Wait_Readers 0 \<and> length ws \<le> 10 \<and>
    acts (map (\<lambda>i. Pool_Worker i False) ws @ [Calculator False]) s = Some s' \<and> calc_pc s' = Calc_Impl 0"
proof -
  obtain s where s: "acts waiting_run (sync_start 1) = Some s" "calc_pc s = Calc_Wait_Readers 0"
      "\<not> stopFlag s" "worker_pcs s 0 = W_Refresh"
    using waiting_state by blast
  then have "settled_reach 1 s" using settled_acts_reach [OF settled_reach.start settled_run(3)] by blast
  moreover have "\<forall>i < 1. worker_pcs s i \<notin> {W_Signal, W_Fail_Dec, W_Quit}" using s(4) by simp
  ultimately show ?thesis using waiting_ends [of 1 s 0] s(2,3) by auto
qed

text \<open>
  C31. A worker that left its loop on the stop flag is still counted in, so that a recalculation waiting
  for the workers waits for ever, whatever the threads do.
\<close>

theorem quit_worker_hangs:
  assumes "sync_reach n s" and "worker_pcs s i = W_Quit" and "calc_pc s = Calc_Wait_Readers b"
    and "acts as s = Some s'"
  shows "calc_pc s' = Calc_Wait_Readers b"
  by (rule waits_for_ever [OF assms])

theorem quit_worker_hangs_witness:
  "sync_reach 2 stuck_state \<and> worker_pcs stuck_state 0 = W_Quit \<and>
    (\<exists>s'. acts [Overseer False] stuck_state = Some s' \<and> calc_pc s' = Calc_Wait_Readers 0)"
proof -
  have reach: "sync_reach 2 stuck_state" by (rule acts_reach [OF sync_reach.start stuck_run])
  obtain s' where s': "acts [Overseer False] stuck_state = Some s'"
    by (simp add: stuck_state_def stuck_run_def sync_start_def calc_step_def worker_step_def
        worker_goes_def overseer_step_def eval_nat_numeral)
  from quit_worker_hangs [OF reach stuck_state this] reach stuck_state(1) s' show ?thesis by blast
qed

text \<open>
  C32. Without the proviso that a recalculation begins only from rest the exclusion fails: a worker that was released but has not yet counted
  itself in is not waited for by the next recalculation, and reads the data while it is changed.
\<close>

theorem refresh_overlap:
  "\<exists>s. sync_reach 1 s \<and> calc_pc s = Calc_Impl 1 \<and> reading (worker_pcs s 0)"
  using acts_reach [OF sync_reach.start overlap_run] overlap_state
  by (intro exI [of _ overlap_state]) (simp add: reading_def)

end
