(* ===== verification/Thread_Joins.thy ===== *)
theory Thread_Joins
  imports Refresh_Waits
begin

text \<open>
  What the end of a session waits for: \<open>m_pluggable.reset\<close> (\<open>service/overseer.cpp\<close>) runs the destructors of
  the worker pool and of the announcer, which wait for their threads. When the announcer has ended on the
  stop flag the workers end as well, whatever the order of their steps; when a recalculation was left by
  an exception the refresh flag stays up and the workers it has put to sleep never end.
\<close>

section \<open>Workers that end\<close>





lemma worker_step_pcs:
  assumes "worker_step i err s = Some s'"
  shows "worker_pcs s' = (worker_pcs s)(i := worker_pcs s' i)" and "pool_size s' = pool_size s"
    and "calc_pc s' = calc_pc s" and "over_pc s' = over_pc s" and "refreshInProgress s' = refreshInProgress s"
    and "stopFlag s \<Longrightarrow> stopFlag s'"
proof -
  have "worker_moves i (worker_pcs s i) (worker_pcs s' i) s s'" by (rule worker_step_moves [OF assms])
  then show "worker_pcs s' = (worker_pcs s)(i := worker_pcs s' i)" and "pool_size s' = pool_size s"
    and "calc_pc s' = calc_pc s" and "over_pc s' = over_pc s" and "refreshInProgress s' = refreshInProgress s"
    unfolding worker_moves_def by blast+
  show "stopFlag s \<Longrightarrow> stopFlag s'"
    using assms by (cases "worker_pcs s i") (auto simp: worker_step_def worker_goes_def split: if_splits)
qed





section \<open>Workers that never end\<close>

definition put_to_sleep :: "worker_pc \<Rightarrow> bool" where
  "put_to_sleep p \<longleftrightarrow> p \<in> {W_Pred, W_Block, W_Sleep, W_Woken}"

lemma dead_step:
  assumes reach: "sync_reach n s" and dead: "calc_pc s = Calc_Dead"
    and asleep: "put_to_sleep (worker_pcs s i)" and step: "act a s = Some s'"
  shows "calc_pc s' = Calc_Dead \<and> put_to_sleep (worker_pcs s' i)"
proof -
  have L: "lock_inv s" and C: "count_inv n s" using reach_invs [OF reach] by simp_all
  have flag: "refreshInProgress s" using lock_invD(3) [OF L] dead by (simp add: refreshing_def)
  have born: "i < launched n (over_pc s)"
    using count_invD(2) [OF C, of i] asleep by (auto simp: put_to_sleep_def not_le)
  show ?thesis
  proof (cases a)
    case (Calculator err)
    then show ?thesis using step dead by (simp add: calc_step_def)
  next
    case (Pool_Worker j err)
    then have w: "worker_step j err s = Some s'" using step by (simp split: if_splits)
    show ?thesis
    proof (cases "j = i")
      case True
      then show ?thesis
        using w asleep dead flag
        by (auto simp: put_to_sleep_def worker_step_def worker_goes_def split: if_splits)
    next
      case False
      have "worker_pcs s' i = worker_pcs s i"
        using fun_cong [OF worker_step_pcs(1) [OF w], of i] False by simp
      then show ?thesis using worker_step_pcs(3) [OF w] dead asleep by simp
    qed
  next
    case (Overseer err)
    then have o: "overseer_step err s = Some s'" using step by simp
    have "over_pc s \<noteq> O_Announcer" using count_invD(4) [OF C] dead by auto
    moreover have "k \<noteq> i" if "over_pc s = O_Launch k" for k using born that by simp
    ultimately show ?thesis
      using o dead asleep by (cases "over_pc s") (auto simp: overseer_step_def split: if_splits)
  qed
qed

lemma dead_acts:
  assumes "sync_reach n s" and "calc_pc s = Calc_Dead" and "put_to_sleep (worker_pcs s i)"
    and "acts as s = Some s'"
  shows "calc_pc s' = Calc_Dead \<and> put_to_sleep (worker_pcs s' i)"
  using assms
proof (induction as arbitrary: s)
  case (Cons a as)
  then obtain s1 where s1: "act a s = Some s1" "acts as s1 = Some s'" by (auto split: option.splits)
  note d = dead_step [OF Cons.prems(1-3) s1(1)]
  from Cons.IH [OF sync_reach.step [OF Cons.prems(1) s1(1)] _ _ s1(2)] d show ?case by blast
qed simp

lemma failed_recalculation_asleep:
  assumes "settled_reach n s" and "calc_pc s = Calc_Dead" and "i < n" and "worker_pcs s i \<noteq> W_Dead"
  shows "put_to_sleep (worker_pcs s i)"
proof -
  have I: "worker_inv n s" "buffer_inv s" using settled_invs [OF assms(1)] by simp_all
  have C: "count_inv n s" using reach_invs [OF settled_reach_reach [OF assms(1)]] by simp
  have st: "\<not> starting (over_pc s)" using buffer_invD(8) [OF I(2)] assms(2) by auto
  then have "worker_pcs s i \<noteq> W_Unborn"
    using count_invD(2) [OF C, of i] not_starting [OF st] assms(3) by simp
  moreover have "\<not> counted (worker_pcs s i)" "worker_pcs s i \<notin> {W_Unlock, W_Add}"
    using worker_invD(2,4) [OF I(1) assms(3)] assms(2) by (simp_all add: refreshing_def)
  ultimately show ?thesis using assms(4) by (auto simp: counted_def put_to_sleep_def)
qed

lemma dead_stop:
  assumes "sync_reach n s"
  shows "calc_pc s = Calc_Dead \<longrightarrow> stopFlag s"
  using assms
proof (induction rule: sync_reach.induct)
  case start
  then show ?case by (simp add: sync_start_def)
next
  case (step s a s')
  show ?case
  proof (cases a)
    case (Calculator err)
    then show ?thesis
      using step by (cases "calc_pc s") (auto simp: calc_step_def split: if_splits)
  next
    case (Pool_Worker i err)
    then have "worker_step i err s = Some s'" using step(2) by (simp split: if_splits)
    from worker_step_pcs(3,6) [OF this] step(3) show ?thesis by simp
  next
    case (Overseer err)
    then show ?thesis
      using step by (cases "over_pc s") (auto simp: overseer_step_def split: if_splits)
  qed
qed

section \<open>Runs\<close>



text \<open>A recalculation that throws.\<close>

definition throw_run :: "action list" where
  "throw_run = minute_run @ [Calculator False, Calculator True, Calculator False]"

lemma throw_settled: "settled_acts throw_run (sync_start 1)"
  by (simp add: throw_run_def minute_run_def sync_start_def calc_step_def worker_step_def settled_def counted_def
      worker_goes_def overseer_step_def eval_nat_numeral)

lemma throw_state:
  "\<exists>s. acts throw_run (sync_start 1) = Some s \<and> calc_pc s = Calc_Dead \<and> worker_pcs s 0 = W_Sleep \<and>
    (\<exists>s'. acts (replicate 3 (Pool_Worker 0 False)) s = Some s')"
  by (simp add: throw_run_def minute_run_def sync_start_def calc_step_def worker_step_def
      worker_goes_def overseer_step_def eval_nat_numeral)

section \<open>The properties\<close>



text \<open>
  A recalculation left by an exception never lowers the refresh flag, and nobody is left to do it:
  when every recalculation began from rest, every worker that has not ended stays in its wait for the flag,
  whatever the threads do and although the stop flag is up, so that the destructor that waits for it never
  returns.
\<close>

theorem failed_recalculation_hangs:
  assumes "settled_reach n s" and "calc_pc s = Calc_Dead" and "i < n" and "worker_pcs s i \<noteq> W_Dead"
    and "acts as s = Some s'"
  shows "stopFlag s' \<and> worker_pcs s' i \<in> {W_Pred, W_Block, W_Sleep, W_Woken}"
proof -
  have reach: "sync_reach n s" by (rule settled_reach_reach [OF assms(1)])
  note d = dead_acts [OF reach assms(2) failed_recalculation_asleep [OF assms(1-4)] assms(5)]
  from dead_stop [OF acts_reach [OF reach assms(5)]] d show ?thesis by (simp add: put_to_sleep_def)
qed

theorem failed_recalculation_hangs_witness:
  "\<exists>s s'. settled_reach 1 s \<and> calc_pc s = Calc_Dead \<and> acts (replicate 3 (Pool_Worker 0 False)) s = Some s' \<and>
    stopFlag s' \<and> worker_pcs s' 0 \<in> {W_Pred, W_Block, W_Sleep, W_Woken}"
proof -
  obtain s s' where s: "acts throw_run (sync_start 1) = Some s" "calc_pc s = Calc_Dead" "worker_pcs s 0 = W_Sleep"
      "acts (replicate 3 (Pool_Worker 0 False)) s = Some s'"
    using throw_state by blast
  have reach: "settled_reach 1 s" by (rule settled_acts_reach [OF settled_reach.start throw_settled s(1)])
  have "worker_pcs s 0 \<noteq> W_Dead" using s(3) by simp
  from failed_recalculation_hangs [OF reach s(2) _ this s(4)] reach s(2,4) show ?thesis by auto
qed

end
