(* ===== verification/Client_Storage.thy ===== *)
theory Client_Storage
  imports Rating_Message Core_Data
begin

text \<open>
  \<open>test/storage.cpp\<close>: the test client's own record of the users, against which it checks what the
  service sends. The four maps of users own the objects, the index and the rating point into them, so
  the objects live in a store like those of the service. The random numbers of \<open>std::mt19937\<close> come from
  a parameter \<open>dis\<close>, a function on the state of the generator that yields a number between two bounds.
  The counters of the report are unbounded here; they are reset every minute. What the client prints
  is not modelled, but for the numbers of the report of a minute.
\<close>

section \<open>Data\<close>

record client_user =
  cu_id :: int
  cu_name :: buffer_t
  cu_second :: connect_time_t
  cu_winnings :: int
  cu_rating :: int
  ratingReceived :: bool
  winningsHistory :: "int list"
  nameList :: "buffer_t list"

definition client_user_new :: client_user where
  "client_user_new =
    \<lparr> cu_id = invalidId, cu_name = [], cu_second = invalidSecond, cu_winnings = 0,
      cu_rating = invalidRating, ratingReceived = False, winningsHistory = [], nameList = [] \<rparr>"

definition historyLength :: nat where "historyLength = 6"

record validation_report =
  incomingRatings :: int
  incomingErrors :: int
  validRatings :: int
  validErrors :: int
  outdatedWinnings :: int
  ratingFullyMessed :: int
  ratingSizeWrong :: int
  userNotFound :: int
  userPositionWrong :: int
  topPositionsWrong :: int
  surroundingsWrong :: int
  failures :: int

definition validation_report_new :: validation_report where
  "validation_report_new =
    \<lparr> incomingRatings = 0, incomingErrors = 0, validRatings = 0, validErrors = 0,
      outdatedWinnings = 0, ratingFullyMessed = 0, ratingSizeWrong = 0, userNotFound = 0,
      userPositionWrong = 0, topPositionsWrong = 0, surroundingsWrong = 0, failures = 0 \<rparr>"

text \<open>The maps: 0 active and connected, 1 active, 2 silent and connected, 3 silent.\<close>

record client_storage =
  st_objects :: "addr \<rightharpoonup> client_user"
  st_next :: addr
  st_users :: "(int, addr) tree_map list"
  st_index :: "(int, addr) tree_map"
  st_rating :: "addr list"
  st_report :: validation_report

definition client_storage_new :: client_storage where
  "client_storage_new =
    \<lparr> st_objects = Map.empty, st_next = 1, st_users = replicate 4 [], st_index = [], st_rating = [],
      st_report = validation_report_new \<rparr>"

text \<open>
  A function that ends without its \<open>return\<close> is undefined. An unoptimised build leaves the value of
  the last call where the caller looks for it; the flag says whether the build is of that kind.
\<close>

definition flow_off :: "bool \<Rightarrow> 'a \<Rightarrow> 'a outcome" where
  "flow_off lenient x = (if lenient then Inr x else Inl (Fault Missing_Return))"

type_synonym 'g distribution = "int \<Rightarrow> int \<Rightarrow> 'g \<Rightarrow> int \<times> 'g"

definition uniform_draw :: "'g distribution \<Rightarrow> int \<Rightarrow> int \<Rightarrow> 'g \<Rightarrow> (int \<times> 'g) outcome" where
  "uniform_draw dis a b g =
    (if a \<le> b then Inr (dis a b g) else Inl (Fault Precondition_Violated))"

text \<open>A draw of the distribution lies between its bounds.\<close>

definition draws_between :: "'g distribution \<Rightarrow> bool" where
  "draws_between dis \<longleftrightarrow> (\<forall>a b g. a \<le> b \<longrightarrow> a \<le> fst (dis a b g) \<and> fst (dis a b g) \<le> b)"

lemma uniform_draw_ok:
  assumes "draws_between dis" and "a \<le> b"
  shows "\<exists>i g'. uniform_draw dis a b g = Inr (i, g') \<and> a \<le> i \<and> i \<le> b"
  using assms(1) [unfolded draws_between_def, rule_format, OF assms(2), of g] assms(2)
  by (cases "dis a b g") (simp add: uniform_draw_def)

section \<open>Access to the users\<close>

definition put_user :: "addr \<Rightarrow> client_user \<Rightarrow> client_storage \<Rightarrow> client_storage" where
  "put_user a u s = s\<lparr>st_objects := (st_objects s)(a \<mapsto> u)\<rparr>"

text \<open>\<open>m_index.find(id)\<close>, the assertion that it is there, and the object it points to.\<close>

definition indexed_user :: "int \<Rightarrow> client_storage \<Rightarrow> (addr \<times> client_user) outcome" where
  "indexed_user uid s =
    (case tmap_find uid (st_index s) of
       None \<Rightarrow> Inl (Fault Assertion_Failed)
     | Some a \<Rightarrow> bind_outcome (deref (st_objects s) a) (\<lambda>u. Inr (a, u)))"

definition forEachInMaps ::
    "nat list \<Rightarrow> client_storage \<Rightarrow> (addr \<Rightarrow> 'x \<Rightarrow> 'x outcome) \<Rightarrow> 'x \<Rightarrow> 'x outcome" where
  "forEachInMaps mapIndexes s proc =
    fold_outcome (\<lambda>mi. fold_outcome (\<lambda>user. proc (snd user)) (st_users s ! mi)) mapIndexes"

definition tmap_extract :: "'k \<Rightarrow> ('k, 'v) tree_map \<Rightarrow> ('k, 'v) tree_map" where
  "tmap_extract k m = filter (\<lambda>p. fst p \<noteq> k) m"

text \<open>A node whose key is in the target already is destroyed with the node handle.\<close>

definition findAndMigrate :: "nat \<Rightarrow> nat \<Rightarrow> int \<Rightarrow> client_storage \<Rightarrow> client_storage outcome" where
  "findAndMigrate mapFrom mapTo uid s =
    (case tmap_find uid (st_users s ! mapFrom) of
       None \<Rightarrow> Inl (Fault Assertion_Failed)
     | Some a \<Rightarrow>
         let users1 = (st_users s)[mapFrom := tmap_extract uid (st_users s ! mapFrom)];
             s1 = s\<lparr>st_users := users1[mapTo := tmap_emplace uid a (users1 ! mapTo)]\<rparr>
         in Inr (if tmap_find uid (users1 ! mapTo) = None then s1
                 else s1\<lparr>st_objects := (st_objects s)(a := None)\<rparr>))"

section \<open>Choosing users\<close>

type_synonym user_flags = "32 word"

definition flag_CONNECTED :: user_flags where "flag_CONNECTED = 1"
definition flag_DISCONNECTED :: user_flags where "flag_DISCONNECTED = 2"
definition flag_ACTIVE :: user_flags where "flag_ACTIVE = 4"
definition flag_SILENT :: user_flags where "flag_SILENT = 8"
definition flag_CONNECTED_ANY :: user_flags where
  "flag_CONNECTED_ANY = or flag_CONNECTED (or flag_ACTIVE flag_SILENT)"
definition flag_DISCONNECTED_ANY :: user_flags where
  "flag_DISCONNECTED_ANY = or flag_DISCONNECTED (or flag_ACTIVE flag_SILENT)"
definition flag_ACTIVE_ANY :: user_flags where
  "flag_ACTIVE_ANY = or flag_ACTIVE (or flag_CONNECTED flag_DISCONNECTED)"
definition flag_SILENT_ANY :: user_flags where
  "flag_SILENT_ANY = or flag_SILENT (or flag_CONNECTED flag_DISCONNECTED)"
definition flag_ANYONE :: user_flags where "flag_ANYONE = -1"

definition erase_maps :: "user_flags \<Rightarrow> user_flags \<Rightarrow> nat list \<Rightarrow> nat list \<Rightarrow> nat list" where
  "erase_maps userFlags flag gone maps =
    (if and userFlags flag = 0 then filter (\<lambda>i. i \<notin> set gone) maps else maps)"

definition random_maps :: "user_flags \<Rightarrow> nat list" where
  "random_maps userFlags =
    erase_maps userFlags flag_SILENT [2, 3]
      (erase_maps userFlags flag_ACTIVE [0, 1]
        (erase_maps userFlags flag_DISCONNECTED [1, 3]
          (erase_maps userFlags flag_CONNECTED [0, 2] [0, 1, 2, 3])))"

text \<open>\<open>getUserGroupSize\<close> does not look at the flag of the silent users.\<close>

definition group_maps :: "user_flags \<Rightarrow> nat list" where
  "group_maps userFlags =
    erase_maps userFlags flag_ACTIVE [0, 1]
      (erase_maps userFlags flag_DISCONNECTED [1, 3]
        (erase_maps userFlags flag_CONNECTED [0, 2] [0, 1, 2, 3]))"

definition getCumulativeSize :: "nat list \<Rightarrow> client_storage \<Rightarrow> int" where
  "getCumulativeSize mapIndexes s =
    fold (\<lambda>mi result. result + int_of_size (length (st_users s ! mi))) mapIndexes 0"

text \<open>The loop over one map: the key found, or the index that is left.\<close>

fun userInMap :: "(int, addr) tree_map \<Rightarrow> int \<Rightarrow> int + int" where
  "userInMap [] userIndex = Inl userIndex"
| "userInMap (user # m) userIndex =
    (if userIndex = 0 then Inr (fst user) else userInMap m (userIndex - 1))"

fun getUserByIndex :: "client_storage \<Rightarrow> nat list \<Rightarrow> int \<Rightarrow> int outcome" where
  "getUserByIndex s [] userIndex = Inl (Fault Assertion_Failed)"
| "getUserByIndex s (mi # mapIndexes) userIndex =
    (let m = st_users s ! mi in
     if size_t_of userIndex \<ge> int (length m)
     then getUserByIndex s mapIndexes (userIndex - int (length m))
     else (case userInMap m userIndex of
             Inr uid \<Rightarrow> Inr uid
           | Inl left \<Rightarrow> getUserByIndex s mapIndexes left))"

definition getRandomUser ::
    "'g distribution \<Rightarrow> user_flags \<Rightarrow> client_storage \<Rightarrow> 'g \<Rightarrow> (int \<times> 'g) outcome" where
  "getRandomUser dis userFlags s g =
    (let maps = random_maps userFlags; userCount = getCumulativeSize maps s in
     bind_outcome (uniform_draw dis 0 (userCount - 1) g) (\<lambda>(index, g1).
     bind_outcome (getUserByIndex s maps index) (\<lambda>uid. Inr (uid, g1))))"

definition getUserGroupSize :: "user_flags \<Rightarrow> client_storage \<Rightarrow> int" where
  "getUserGroupSize userFlags s = getCumulativeSize (group_maps userFlags) s"

text \<open>The two forwarding members of \<open>UserDataStorage\<close> that do not return what they call.\<close>

definition uds_getRandomUser ::
    "bool \<Rightarrow> 'g distribution \<Rightarrow> user_flags \<Rightarrow> client_storage \<Rightarrow> 'g \<Rightarrow> (int \<times> 'g) outcome" where
  "uds_getRandomUser lenient dis userFlags s g =
    bind_outcome (getRandomUser dis userFlags s g) (flow_off lenient)"

definition uds_getUserGroupSize :: "bool \<Rightarrow> user_flags \<Rightarrow> client_storage \<Rightarrow> int outcome" where
  "uds_getUserGroupSize lenient userFlags s = flow_off lenient (getUserGroupSize userFlags s)"

text \<open>The static counter starts at 0 and goes down; so do the identifiers, from -1.\<close>

definition getFakeUserId :: "int \<Rightarrow> (int \<times> int) outcome" where
  "getFakeUserId count =
    (if in_int (invalidId + count) \<and> in_int (count - 1) then Inr (invalidId + count, count - 1)
     else Inl (Fault Signed_Overflow))"

section \<open>Changes\<close>

definition add_user :: "client_user \<Rightarrow> client_storage \<Rightarrow> addr \<times> client_storage" where
  "add_user u s =
    (let a = st_next s;
         s1 = (put_user a u s)\<lparr>st_next := Suc a\<rparr>;
         s2 = (if tmap_find (cu_id u) (st_users s ! 3) = None
               then s1\<lparr>st_users := (st_users s)[3 := tmap_emplace (cu_id u) a (st_users s ! 3)]\<rparr>
               else s1\<lparr>st_objects := (st_objects s1)(a := None)\<rparr>)
     in (a, s2\<lparr>st_index := tmap_emplace (cu_id u) a (st_index s)\<rparr>))"

text \<open>\<open>newUserId\<close> is the static counter of the identifiers, the name comes from the generator.\<close>

definition generateNewUser ::
    "int \<Rightarrow> buffer_t \<Rightarrow> client_storage \<Rightarrow> (addr \<times> int \<times> client_storage) outcome" where
  "generateNewUser newUserId name s =
    (case add_user (client_user_new\<lparr>cu_id := newUserId, cu_name := name\<rparr>) s of
       (a, s1) \<Rightarrow>
         if in_int (newUserId + 1) then Inr (a, newUserId + 1, s1) else Inl (Fault Signed_Overflow))"

definition importNewUser :: "int \<Rightarrow> buffer_t \<Rightarrow> client_storage \<Rightarrow> client_storage" where
  "importNewUser uid name s = snd (add_user (client_user_new\<lparr>cu_id := uid, cu_name := name\<rparr>) s)"

definition push_history :: "'x \<Rightarrow> 'x list \<Rightarrow> 'x list" where
  "push_history x xs =
    (let xs1 = xs @ [x] in if length xs1 > historyLength then tl xs1 else xs1)"

definition renameUser :: "int \<Rightarrow> buffer_t \<Rightarrow> client_storage \<Rightarrow> (addr \<times> client_storage) outcome" where
  "renameUser uid newName s =
    bind_outcome (indexed_user uid s) (\<lambda>(a, u).
      Inr (a, put_user a (u\<lparr>nameList := push_history (cu_name u) (nameList u), cu_name := newName\<rparr>) s))"

definition connectUser ::
    "int \<Rightarrow> connect_time_t \<Rightarrow> client_storage \<Rightarrow> (addr \<times> client_storage) outcome" where
  "connectUser uid second s =
    bind_outcome (indexed_user uid s) (\<lambda>(a, u).
    let s1 = put_user a (u\<lparr>cu_second := second\<rparr>) s in
    bind_outcome
      (if cu_winnings u \<noteq> 0 then findAndMigrate 1 0 uid s1 else findAndMigrate 3 2 uid s1)
      (\<lambda>s2. Inr (a, s2)))"

definition disconnectUser :: "int \<Rightarrow> client_storage \<Rightarrow> (addr \<times> client_storage) outcome" where
  "disconnectUser uid s =
    bind_outcome (indexed_user uid s) (\<lambda>(a, u).
    let u1 = u\<lparr>cu_second := invalidSecond\<rparr>; s1 = put_user a u1 s in
    bind_outcome
      (if cu_winnings u \<noteq> 0
       then bind_outcome (findAndMigrate 0 1 uid s1)
              (\<lambda>s2. Inr (put_user a (u1\<lparr>ratingReceived := False\<rparr>) s2))
       else findAndMigrate 2 3 uid s1)
      (\<lambda>s2. Inr (a, s2)))"

text \<open>\<open>fixUserWinnings\<close> has no \<open>return\<close>; what it does up to its end, and the end.\<close>

definition fixUserWinnings_body :: "int \<Rightarrow> int \<Rightarrow> client_storage \<Rightarrow> client_storage outcome" where
  "fixUserWinnings_body uid winnings s =
    bind_outcome (indexed_user uid s) (\<lambda>(a, u).
    bind_outcome
      (if cu_winnings u = 0 then
         if cu_second u = invalidSecond then findAndMigrate 3 1 uid s else findAndMigrate 2 0 uid s
       else Inr s) (\<lambda>s1.
    bind_outcome (long_add (cu_winnings u) winnings) (\<lambda>w.
      Inr (put_user a (u\<lparr>winningsHistory := push_history (cu_winnings u) (winningsHistory u),
                         cu_winnings := w\<rparr>) s1))))"

definition fixUserWinnings :: "bool \<Rightarrow> int \<Rightarrow> int \<Rightarrow> client_storage \<Rightarrow> client_storage outcome" where
  "fixUserWinnings lenient uid winnings s =
    bind_outcome (fixUserWinnings_body uid winnings s) (flow_off lenient)"

end
