(* ===== verification/Client_Validation.thy ===== *)
theory Client_Validation
  imports Client_Storage
begin

text \<open>
  \<open>test/storage.cpp\<close>: the rating the client computes for itself at the turn of a minute, the check of
  a rating or an error the service sent against it, and the report.
\<close>

unbundle bit_operations_syntax

section \<open>The rating of a minute\<close>

text \<open>\<open>emplace\<close> into a multimap ordered by \<open>std::greater\<close>: behind the entries of the same key.\<close>

fun ratings_emplace :: "int \<Rightarrow> addr \<Rightarrow> (int \<times> addr) list \<Rightarrow> (int \<times> addr) list" where
  "ratings_emplace k a [] = [(k, a)]"
| "ratings_emplace k a ((k', a') # m) =
    (if k > k' then (k, a) # (k', a') # m else (k', a') # ratings_emplace k a m)"

definition collect_rating :: "client_storage \<Rightarrow> addr \<Rightarrow> (int \<times> addr) list \<Rightarrow> (int \<times> addr) list outcome" where
  "collect_rating s ud ratingBuilder =
    bind_outcome (deref (st_objects s) ud) (\<lambda>u. Inr (ratings_emplace (cu_winnings u) ud ratingBuilder))"

definition set_rating :: "addr \<Rightarrow> int \<Rightarrow> client_storage \<Rightarrow> client_storage outcome" where
  "set_rating ud place s =
    bind_outcome (deref (st_objects s) ud) (\<lambda>u. Inr (put_user ud (u\<lparr>cu_rating := place\<rparr>) s))"

definition place_user :: "addr \<Rightarrow> client_storage \<times> nat \<Rightarrow> (client_storage \<times> nat) outcome" where
  "place_user ud sp =
    bind_outcome (set_rating ud (int (snd sp)) (fst sp)) (\<lambda>s1.
      Inr (s1\<lparr>st_rating := (st_rating s1)[snd sp := ud]\<rparr>, Suc (snd sp)))"

text \<open>The vector is resized to the number of users before the loop sets its elements.\<close>

definition resize_rating :: "nat \<Rightarrow> addr list \<Rightarrow> addr list" where
  "resize_rating n v = take n v @ replicate (n - length v) nullptr"

definition recalculateRating :: "client_storage \<Rightarrow> client_storage outcome" where
  "recalculateRating s =
    bind_outcome (forEachInMaps [0, 1] s (collect_rating s) []) (\<lambda>ratingBuilder.
    bind_outcome (fold_outcome place_user (map snd ratingBuilder)
        (s\<lparr>st_rating := resize_rating (length ratingBuilder) (st_rating s)\<rparr>, 0)) (\<lambda>(s1, _).
      forEachInMaps [2, 3] s1 (\<lambda>ud. set_rating ud invalidRating) s1))"

section \<open>The report\<close>

definition count_user :: "bool \<Rightarrow> client_storage \<Rightarrow> addr \<Rightarrow> int \<Rightarrow> int outcome" where
  "count_user received s ud n =
    bind_outcome (deref (st_objects s) ud) (\<lambda>u. Inr (if ratingReceived u = received then n + 1 else n))"

text \<open>The numbers of the report, in the order of its lines.\<close>

record published_report =
  pub_ratings :: "int \<times> int"
  pub_errors :: "int \<times> int"
  pub_outdated :: int
  pub_invalid :: "int \<times> int"
  pub_unsolicited :: int
  pub_missed :: int
  pub_failures :: int
  pub_details :: "int list"

definition publishValidationReport :: "client_storage \<Rightarrow> published_report outcome" where
  "publishValidationReport s =
    bind_outcome (forEachInMaps [0] s (count_user False s) 0) (\<lambda>requestedRatingsMissed.
    bind_outcome (forEachInMaps [1, 3] s (count_user True s) 0) (\<lambda>unsolicitedRatingsReceived.
      let r = st_report s in
      Inr \<lparr> pub_ratings = (incomingRatings r, validRatings r),
            pub_errors = (incomingErrors r, validErrors r),
            pub_outdated = outdatedWinnings r,
            pub_invalid = (incomingRatings r - validRatings r, incomingErrors r - validErrors r),
            pub_unsolicited = unsolicitedRatingsReceived,
            pub_missed = requestedRatingsMissed,
            pub_failures = failures r,
            pub_details = [ratingFullyMessed r, ratingSizeWrong r, userNotFound r, userPositionWrong r,
                           topPositionsWrong r, surroundingsWrong r] \<rparr>))"

section \<open>The next minute\<close>

definition copy_user ::
    "client_storage \<Rightarrow> nat \<Rightarrow> int \<times> addr \<Rightarrow> client_storage \<Rightarrow> client_storage outcome" where
  "copy_user newData i user s =
    bind_outcome (deref (st_objects newData) (snd user)) (\<lambda>u.
      case tmap_find (fst user) (st_users s ! i) of
        Some a \<Rightarrow> Inr (s\<lparr>st_index := tmap_emplace (fst user) a (st_index s)\<rparr>)
      | None \<Rightarrow>
          let a = st_next s in
          Inr ((put_user a u s)\<lparr>st_next := Suc a,
                 st_users := (st_users s)[i := tmap_emplace (fst user) a (st_users s ! i)],
                 st_index := tmap_emplace (fst user) a (st_index s)\<rparr>))"

definition clear_map :: "nat \<Rightarrow> client_storage \<Rightarrow> client_storage" where
  "clear_map i s =
    (let gone = set (map snd (st_users s ! i)) in
     s\<lparr>st_objects := (\<lambda>a. if a \<in> gone then None else st_objects s a), st_users := (st_users s)[i := []]\<rparr>)"

definition copy_map :: "client_storage \<Rightarrow> nat \<Rightarrow> client_storage \<Rightarrow> client_storage outcome" where
  "copy_map newData i s = fold_outcome (copy_user newData i) (st_users newData ! i) (clear_map i s)"

definition setNextMinuteData ::
    "client_storage \<Rightarrow> client_storage \<Rightarrow> (published_report \<times> client_storage) outcome" where
  "setNextMinuteData newData s =
    bind_outcome (publishValidationReport s) (\<lambda>report.
    bind_outcome (fold_outcome (copy_map newData) [0..<4] (s\<lparr>st_index := []\<rparr>)) (\<lambda>s1.
    bind_outcome (recalculateRating (s1\<lparr>st_report := validation_report_new\<rparr>)) (\<lambda>s2.
      Inr (report, s2))))"

section \<open>Checking what the service sent\<close>

definition count_report :: "(validation_report \<Rightarrow> validation_report) \<Rightarrow> client_storage \<Rightarrow> client_storage" where
  "count_report f s = s\<lparr>st_report := f (st_report s)\<rparr>"

abbreviation plus1 :: "int \<Rightarrow> int" where "plus1 n \<equiv> n + 1"

definition validateError :: "protocol_error \<Rightarrow> client_storage \<Rightarrow> client_storage outcome" where
  "validateError error s =
    (let s1 = count_report (incomingErrors_update plus1) s in
     case error of
       MultipleRegistrationError _ \<Rightarrow> Inr (count_report (failures_update plus1) s1)
     | UserUnrecognizedError uid \<Rightarrow>
         if uid < 0 then Inr (count_report (validErrors_update plus1) s1)
         else Inr (count_report (failures_update plus1) s1)
     | _ \<Rightarrow> Inl (Fault Assertion_Failed))"

definition validateSingleRating ::
    "rating_entry \<Rightarrow> int \<Rightarrow> client_storage \<Rightarrow> (int \<times> client_storage) outcome" where
  "validateSingleRating rating expectedPlace s =
    (case tmap_find (entry_id rating) (st_index s) of
       None \<Rightarrow> Inr (1, s)
     | Some a \<Rightarrow>
         bind_outcome (deref (st_objects s) a) (\<lambda>u.
         let r0 = (if cu_rating u \<noteq> expectedPlace then 0 OR 2 else 0);
             (r1, s1) =
               (if cu_winnings u \<noteq> entry_winnings rating then
                  if entry_winnings rating \<in> set (winningsHistory u)
                  then (r0 AND NOT 2, count_report (outdatedWinnings_update plus1) s)
                  else (r0 OR 4, s)
                else (r0, s));
             r2 = (if cu_name u \<noteq> entry_name rating \<and> entry_name rating \<notin> set (nameList u)
                   then r1 OR 8 else r1)
         in Inr (r2, s1)))"

text \<open>The body of the two loops over entries; \<open>f\<close> counts the mistakes.\<close>

definition check_entry ::
    "(validation_report \<Rightarrow> validation_report) \<Rightarrow> rating_entry \<times> int \<Rightarrow> bool \<times> client_storage \<Rightarrow>
      (bool \<times> client_storage) outcome" where
  "check_entry f ep fs =
    bind_outcome (validateSingleRating (fst ep) (snd ep) (snd fs)) (\<lambda>(result, s1).
      Inr (if result \<noteq> 0 then (True, count_report f s1) else (fst fs, s1)))"

definition check_size :: "rating_pack_message \<Rightarrow> client_storage \<Rightarrow> bool \<times> client_storage" where
  "check_size rating s =
    (if size_t_of (rp_ratingLength rating) \<noteq> int (length (st_rating s))
     then (True, count_report (ratingSizeWrong_update plus1) s) else (False, s))"

definition check_place ::
    "rating_pack_message \<Rightarrow> bool \<times> client_storage \<Rightarrow> (bool \<times> client_storage) outcome" where
  "check_place rating fs =
    (case tmap_find (rp_userId rating) (st_index (snd fs)) of
       None \<Rightarrow> Inr (True, count_report (userNotFound_update plus1) (snd fs))
     | Some a \<Rightarrow>
         bind_outcome (deref (st_objects (snd fs)) a) (\<lambda>u.
         let s1 = put_user a (u\<lparr>ratingReceived := True\<rparr>) (snd fs);
             expected = (if cu_rating u \<noteq> invalidRating then cu_rating u else rp_ratingLength rating)
         in Inr (if expected \<noteq> rp_ratingPos rating
                 then (True, count_report (userPositionWrong_update plus1) s1) else (fst fs, s1))))"

definition check_top ::
    "rating_pack_message \<Rightarrow> bool \<times> client_storage \<Rightarrow> (bool \<times> client_storage) outcome" where
  "check_top rating fs =
    (let ratings = rp_ratings rating;
         topPosCount = min (int_of_size (length ratings)) topPositions
     in fold_outcome (check_entry (topPositionsWrong_update plus1))
          (map (\<lambda>i. (ratings ! i, int i)) [0..<nat topPosCount]) fs)"

definition check_surroundings ::
    "rating_pack_message \<Rightarrow> bool \<times> client_storage \<Rightarrow> (bool \<times> client_storage) outcome" where
  "check_surroundings rating fs =
    (if rp_ratingLength rating > topPositions then
       let ratings = rp_ratings rating;
           expectedPlace = max topPositions (rp_ratingPos rating - competitionDistance)
       in fold_outcome (check_entry (surroundingsWrong_update plus1))
            (map (\<lambda>i. (ratings ! i, expectedPlace + (int i - topPositions)))
              [nat topPositions..<length ratings]) fs
     else Inr fs)"

definition validateRating :: "rating_pack_message \<Rightarrow> client_storage \<Rightarrow> client_storage outcome" where
  "validateRating rating s =
    (let s1 = count_report (incomingRatings_update plus1) s in
     if rp_userId rating < 0 \<or> size_t_of (rp_userId rating) \<ge> int (length (st_index s)) then
       Inr (count_report (failures_update plus1) (count_report (ratingFullyMessed_update plus1) s1))
     else
       bind_outcome (check_place rating (check_size rating s1)) (\<lambda>fs2.
       bind_outcome (check_top rating fs2) (\<lambda>fs3.
       bind_outcome (check_surroundings rating fs3) (\<lambda>(failure, s4).
         Inr (if failure then count_report (failures_update plus1) s4
              else count_report (validRatings_update plus1) s4)))))"

end
