(* ===== verification/Client_Invariant.thy ===== *)
theory Client_Invariant
  imports Client_Validation
begin

text \<open>
  The client's storage is in order when the four maps are sorted, every user of the index is a live
  object under its own identifier, and a user is in the map his winnings and his second say, in no
  other. Every operation keeps the order and passes its assertions on the users it is meant for.
\<close>

section \<open>The invariant\<close>

definition user_class :: "client_user \<Rightarrow> nat" where
  "user_class u = (if cu_winnings u = 0 then 2 else 0) + (if cu_second u = invalidSecond then 1 else 0)"

text \<open>The user of the index under an identifier.\<close>

definition client_at :: "client_storage \<Rightarrow> int \<Rightarrow> addr \<Rightarrow> client_user \<Rightarrow> bool" where
  "client_at s uid a u \<longleftrightarrow> tmap_find uid (st_index s) = Some a \<and> st_objects s a = Some u"

definition index_ok :: "client_storage \<Rightarrow> bool" where
  "index_ok s \<longleftrightarrow> tmap_wf (st_index s) \<and>
    (\<forall>uid a. tmap_find uid (st_index s) = Some a \<longrightarrow>
      a \<noteq> nullptr \<and> a < st_next s \<and> (\<exists>u. st_objects s a = Some u \<and> cu_id u = uid))"

definition maps_ok :: "client_storage \<Rightarrow> bool" where
  "maps_ok s \<longleftrightarrow> length (st_users s) = 4 \<and>
    (\<forall>i < 4. tmap_wf (st_users s ! i) \<and>
      (\<forall>uid a. tmap_find uid (st_users s ! i) = Some a \<longleftrightarrow>
        (\<exists>u. client_at s uid a u \<and> user_class u = i)))"

definition client_wf :: "client_storage \<Rightarrow> bool" where
  "client_wf s \<longleftrightarrow> index_ok s \<and> maps_ok s \<and> 0 < st_next s"

lemma user_class_bound [simp]: "user_class u < 4"
  by (simp add: user_class_def)

lemma client_atD:
  assumes "client_wf s" and "client_at s uid a u"
  shows "a \<noteq> nullptr" and "a < st_next s" and "cu_id u = uid" and "st_objects s a = Some u"
    and "tmap_find uid (st_index s) = Some a"
proof -
  have "tmap_find uid (st_index s) = Some a" and obj: "st_objects s a = Some u"
    using assms(2) by (simp_all add: client_at_def)
  moreover from this have "a \<noteq> nullptr \<and> a < st_next s \<and> (\<exists>u. st_objects s a = Some u \<and> cu_id u = uid)"
    using assms(1) unfolding client_wf_def index_ok_def by blast
  ultimately show "a \<noteq> nullptr" "a < st_next s" "cu_id u = uid" "st_objects s a = Some u"
    "tmap_find uid (st_index s) = Some a"
    by simp_all
qed

lemma client_at_unique:
  "client_at s uid a u \<Longrightarrow> client_at s uid b v \<Longrightarrow> a = b \<and> u = v"
  by (auto simp: client_at_def)

lemma client_at_same_addr:
  "client_wf s \<Longrightarrow> client_at s uid a u \<Longrightarrow> client_at s uid' a v \<Longrightarrow> uid = uid'"
  by (metis client_atD(3) client_atD(4) option.inject)

lemma client_indexed:
  "client_wf s \<Longrightarrow> tmap_find uid (st_index s) = Some a \<Longrightarrow> \<exists>u. client_at s uid a u"
  by (auto simp: client_wf_def index_ok_def client_at_def)

lemma client_map_iff:
  "client_wf s \<Longrightarrow> i < 4 \<Longrightarrow>
    tmap_find uid (st_users s ! i) = Some a \<longleftrightarrow> (\<exists>u. client_at s uid a u \<and> user_class u = i)"
  by (simp add: client_wf_def maps_ok_def)

lemma client_map_None:
  "client_wf s \<Longrightarrow> i < 4 \<Longrightarrow> client_at s uid a u \<Longrightarrow> user_class u \<noteq> i \<Longrightarrow>
    tmap_find uid (st_users s ! i) = None"
  using client_map_iff client_at_unique by (metis not_None_eq)

lemma client_map_wf: "client_wf s \<Longrightarrow> i < 4 \<Longrightarrow> tmap_wf (st_users s ! i)"
  by (simp add: client_wf_def maps_ok_def)

lemma client_users_length: "client_wf s \<Longrightarrow> length (st_users s) = 4"
  by (simp add: client_wf_def maps_ok_def)

lemma indexed_user_ok: "client_wf s \<Longrightarrow> client_at s uid a u \<Longrightarrow> indexed_user uid s = Inr (a, u)"
  using client_atD by (simp add: indexed_user_def)

lemma client_wfI:
  assumes "tmap_wf (st_index s)" and "0 < st_next s" and "length (st_users s) = 4"
    and "\<And>uid a. tmap_find uid (st_index s) = Some a \<Longrightarrow>
      a \<noteq> nullptr \<and> a < st_next s \<and> (\<exists>u. st_objects s a = Some u \<and> cu_id u = uid)"
    and "\<And>i. i < 4 \<Longrightarrow> tmap_wf (st_users s ! i)"
    and "\<And>i uid a. i < 4 \<Longrightarrow> tmap_find uid (st_users s ! i) = Some a \<longleftrightarrow>
      (\<exists>u. client_at s uid a u \<and> user_class u = i)"
  shows "client_wf s"
  using assms by (simp add: client_wf_def index_ok_def maps_ok_def)

lemma client_wf_new: "client_wf client_storage_new"
proof (rule client_wfI)
  fix i :: nat and uid a
  assume "i < 4"
  then have "replicate 4 ([] :: (int, addr) tree_map) ! i = []" by (rule nth_replicate)
  then show "tmap_wf (st_users client_storage_new ! i)"
    and "tmap_find uid (st_users client_storage_new ! i) = Some a \<longleftrightarrow>
      (\<exists>u. client_at client_storage_new uid a u \<and> user_class u = i)"
    by (simp_all add: client_storage_new_def client_at_def)
qed (simp_all add: client_storage_new_def)

section \<open>Changes that keep the user's class\<close>

lemma put_user_sel [simp]:
  "st_next (put_user a u s) = st_next s" "st_users (put_user a u s) = st_users s"
  "st_index (put_user a u s) = st_index s" "st_rating (put_user a u s) = st_rating s"
  "st_report (put_user a u s) = st_report s" "st_objects (put_user a u s) = (st_objects s)(a \<mapsto> u)"
  by (simp_all add: put_user_def)

lemma put_user_twice: "put_user a v (put_user a u s) = put_user a v s"
  by (simp add: put_user_def)

lemma client_at_put:
  assumes "client_wf s" and "client_at s uid a u"
  shows "client_at (put_user a u' s) uid' b v \<longleftrightarrow>
    (if uid' = uid then b = a \<and> v = u' else client_at s uid' b v)"
  using assms client_at_same_addr [OF assms] unfolding client_at_def by auto

lemma client_put_indexed:
  assumes wf: "client_wf s" and at: "client_at s uid a u" and "cu_id u' = uid"
    and b: "tmap_find uid' (st_index s) = Some b"
  shows "b \<noteq> nullptr \<and> b < st_next s \<and> (\<exists>v. ((st_objects s)(a \<mapsto> u')) b = Some v \<and> cu_id v = uid')"
proof -
  obtain v where v: "client_at s uid' b v" using client_indexed [OF wf b] by blast
  then show ?thesis
    using client_atD [OF wf v] client_at_same_addr [OF wf at, of uid' v] assms(3) by (cases "b = a") auto
qed

lemma client_wf_put:
  assumes wf: "client_wf s" and at: "client_at s uid a u"
    and "cu_id u' = uid" and "user_class u' = user_class u"
  shows "client_wf (put_user a u' s)"
proof (rule client_wfI)
  fix i uid' b
  assume i: "i < (4::nat)"
  show "tmap_find uid' (st_users (put_user a u' s) ! i) = Some b \<longleftrightarrow>
      (\<exists>v. client_at (put_user a u' s) uid' b v \<and> user_class v = i)"
  proof (cases "uid' = uid")
    case True
    then show ?thesis
      using client_map_iff [OF wf i, of uid b] at assms(4) client_at_unique [OF at, of b]
      by (auto simp: client_at_put [OF wf at])
  next
    case False
    then show ?thesis using client_map_iff [OF wf i, of uid' b] by (simp add: client_at_put [OF wf at])
  qed
qed (use wf client_put_indexed [OF wf at assms(3)] in \<open>simp_all add: client_wf_def index_ok_def maps_ok_def\<close>)

section \<open>Moving a user\<close>

lemma tmap_wf_extract: "tmap_wf m \<Longrightarrow> tmap_wf (tmap_extract k m)"
  by (induction m) (auto simp: tmap_extract_def tmap_wf_Cons)

lemma tmap_find_extract: "tmap_find k' (tmap_extract k m) = (if k' = k then None else tmap_find k' m)"
  by (induction m) (auto simp: tmap_extract_def tmap_find_def)

definition migrated :: "nat \<Rightarrow> nat \<Rightarrow> int \<Rightarrow> addr \<Rightarrow> client_storage \<Rightarrow> client_storage" where
  "migrated i j uid a s =
    s\<lparr>st_users := (st_users s)[i := tmap_extract uid (st_users s ! i), j := tmap_emplace uid a (st_users s ! j)]\<rparr>"

lemma moved_sel [simp]:
  "st_next (migrated i j uid a s) = st_next s" "st_objects (migrated i j uid a s) = st_objects s"
  "st_index (migrated i j uid a s) = st_index s" "st_rating (migrated i j uid a s) = st_rating s"
  "st_report (migrated i j uid a s) = st_report s"
  by (simp_all add: migrated_def)

lemma moved_put: "migrated i j uid a (put_user b u s) = put_user b u (migrated i j uid a s)"
  by (simp add: migrated_def put_user_def)

lemma client_at_moved [simp]: "client_at (migrated i j uid a s) = client_at s"
  by (simp add: client_at_def fun_eq_iff)

lemma findAndMigrate_moved:
  assumes "tmap_find uid (st_users s ! i) = Some a" and "tmap_find uid (st_users s ! j) = None"
    and "i \<noteq> j" and "i < length (st_users s)"
  shows "findAndMigrate i j uid s = Inr (migrated i j uid a s)"
  using assms by (simp add: findAndMigrate_def Let_def migrated_def)

lemma findAndMigrate_ok:
  assumes "client_wf s" and "client_at s uid a u" and "user_class u = i" and "i \<noteq> j" and "j < 4"
    and "st_users s' = st_users s"
  shows "findAndMigrate i j uid s' = Inr (migrated i j uid a s')"
proof (rule findAndMigrate_moved)
  have i: "i < 4" using assms(3) by auto
  show "tmap_find uid (st_users s' ! i) = Some a"
    using client_map_iff [OF assms(1) i] assms(2,3,6) by auto
  show "tmap_find uid (st_users s' ! j) = None"
    using client_map_None [OF assms(1) \<open>j < 4\<close> assms(2)] assms(3,4,6) by simp
  show "i < length (st_users s')" using i client_users_length [OF assms(1)] assms(6) by simp
qed (rule assms(4))

lemma find_moved:
  assumes wf: "client_wf s" and at: "client_at s uid a u" and i: "user_class u = i"
    and ij: "i \<noteq> j" and j: "j < 4" and k: "k < 4"
  shows "tmap_wf (st_users (migrated i j uid a s) ! k)"
    and "tmap_find uid' (st_users (migrated i j uid a s) ! k) =
      (if uid' = uid then if k = j then Some a else None else tmap_find uid' (st_users s ! k))"
proof -
  have ij4: "i < 4" "length (st_users s) = 4"
    using i client_users_length [OF wf] by auto
  then have nth: "st_users (migrated i j uid a s) ! k =
      (if k = j then tmap_emplace uid a (st_users s ! j)
       else if k = i then tmap_extract uid (st_users s ! i) else st_users s ! k)"
    using ij k j by (simp add: migrated_def nth_list_update)
  then show "tmap_wf (st_users (migrated i j uid a s) ! k)"
    using client_map_wf [OF wf] j k ij4 by (simp add: tmap_wf_emplace tmap_wf_extract)
  have none: "tmap_find uid (st_users s ! k) = None" if "k \<noteq> i"
    using client_map_None [OF wf k at] i that by simp
  show "tmap_find uid' (st_users (migrated i j uid a s) ! k) =
      (if uid' = uid then if k = j then Some a else None else tmap_find uid' (st_users s ! k))"
    using nth none ij tmap.emplace_find [OF client_map_wf [OF wf j]]
    by (cases "k = j") (simp_all add: tmap_find_extract)
qed

lemma client_wf_moved:
  assumes wf: "client_wf s" and at: "client_at s uid a u" and i: "user_class u = i"
    and j: "user_class u' = j" and ij: "i \<noteq> j" and uid: "cu_id u' = uid"
  shows "client_wf (put_user a u' (migrated i j uid a s))"
proof (rule client_wfI)
  have j4: "j < 4" using j by auto
  have at': "client_at (put_user a u' (migrated i j uid a s)) uid' b v \<longleftrightarrow>
      (if uid' = uid then b = a \<and> v = u' else client_at s uid' b v)" for uid' b v
    using client_at_put [OF wf at, of u' uid' b v] by (simp add: client_at_def)
  fix k uid' b
  assume k: "k < (4::nat)"
  show "tmap_wf (st_users (put_user a u' (migrated i j uid a s)) ! k)"
    using find_moved(1) [OF wf at i ij j4 k] by simp
  show "tmap_find uid' (st_users (put_user a u' (migrated i j uid a s)) ! k) = Some b \<longleftrightarrow>
      (\<exists>v. client_at (put_user a u' (migrated i j uid a s)) uid' b v \<and> user_class v = k)"
    using client_map_iff [OF wf k, of uid' b] j
    by (cases "uid' = uid") (auto simp: find_moved(2) [OF wf at i ij j4 k] at')
qed (use wf client_put_indexed [OF wf at uid] in
      \<open>simp_all add: client_wf_def index_ok_def maps_ok_def, simp_all add: migrated_def\<close>)

section \<open>Adding a user\<close>

lemma add_user_new:
  assumes wf: "client_wf s" and fresh: "tmap_find (cu_id u) (st_index s) = None"
  shows "add_user u s = (st_next s, s\<lparr>st_objects := (st_objects s)(st_next s \<mapsto> u), st_next := Suc (st_next s),
      st_users := (st_users s)[3 := tmap_emplace (cu_id u) (st_next s) (st_users s ! 3)],
      st_index := tmap_emplace (cu_id u) (st_next s) (st_index s)\<rparr>)"
proof -
  have "tmap_find (cu_id u) (st_users s ! 3) = None"
    using client_map_iff [OF wf, of 3 "cu_id u"] fresh by (auto simp: client_at_def)
  then show ?thesis by (simp add: add_user_def Let_def put_user_def)
qed

lemma client_wf_add:
  assumes wf: "client_wf s" and fresh: "tmap_find (cu_id u) (st_index s) = None"
    and silent: "user_class u = 3"
  shows "client_wf (snd (add_user u s))"
    and "client_at (snd (add_user u s)) uid b v \<longleftrightarrow>
      (if uid = cu_id u then b = st_next s \<and> v = u else client_at s uid b v)"
proof -
  let ?s = "snd (add_user u s)"
  have index: "tmap_wf (st_index s)" "0 < st_next s"
    using wf by (simp_all add: client_wf_def index_ok_def)
  have find: "tmap_find uid (st_index ?s) =
      (if uid = cu_id u then Some (st_next s) else tmap_find uid (st_index s))" for uid
    using fresh tmap.emplace_find [OF index(1)] by (simp add: add_user_new [OF wf fresh])
  have old: "st_objects ?s b = st_objects s b" if "b < st_next s" for b
    using that by (simp add: add_user_new [OF wf fresh])
  have new: "st_objects ?s (st_next s) = Some u" "st_next ?s = Suc (st_next s)"
    by (simp_all add: add_user_new [OF wf fresh])
  have at: "client_at ?s uid b v \<longleftrightarrow>
      (if uid = cu_id u then b = st_next s \<and> v = u else client_at s uid b v)" for uid b v
  proof (cases "uid = cu_id u")
    case True
    then show ?thesis using find new by (auto simp: client_at_def)
  next
    case False
    show ?thesis
    proof (cases "tmap_find uid (st_index s) = Some b")
      case True
      then obtain w where "client_at s uid b w" using client_indexed [OF wf] by blast
      from client_atD(2) [OF wf this] show ?thesis using False find old by (simp add: client_at_def)
    qed (use False find in \<open>simp add: client_at_def\<close>)
  qed
  then show "client_at ?s uid b v \<longleftrightarrow>
      (if uid = cu_id u then b = st_next s \<and> v = u else client_at s uid b v)" .
  show "client_wf ?s"
  proof (rule client_wfI)
    fix uid b
    assume b: "tmap_find uid (st_index ?s) = Some b"
    show "b \<noteq> nullptr \<and> b < st_next ?s \<and> (\<exists>v. st_objects ?s b = Some v \<and> cu_id v = uid)"
    proof (cases "uid = cu_id u")
      case True
      then show ?thesis using b find new index by (simp add: nullptr_def)
    next
      case False
      with b find have "tmap_find uid (st_index s) = Some b" by simp
      then obtain v where "client_at s uid b v" using client_indexed [OF wf] by blast
      from client_atD [OF wf this] show ?thesis using old new by simp
    qed
  next
    fix i uid b
    assume i: "i < (4::nat)"
    have len: "length (st_users s) = 4" by (rule client_users_length [OF wf])
    have wf3: "tmap_wf (st_users s ! 3)" using client_map_wf [OF wf] by simp
    have none: "tmap_find (cu_id u) (st_users s ! i) = None"
      using client_map_iff [OF wf i, of "cu_id u"] fresh by (auto simp: client_at_def)
    have nth: "st_users ?s ! i =
        (if i = 3 then tmap_emplace (cu_id u) (st_next s) (st_users s ! 3) else st_users s ! i)"
      using len by (simp add: add_user_new [OF wf fresh])
    show "tmap_wf (st_users ?s ! i)"
      using nth client_map_wf [OF wf i] wf3 by (simp add: tmap_wf_emplace)
    show "tmap_find uid (st_users ?s ! i) = Some b \<longleftrightarrow> (\<exists>v. client_at ?s uid b v \<and> user_class v = i)"
      using nth none client_map_iff [OF wf i, of uid b] silent tmap.emplace_find [OF wf3, of uid]
      by (cases "uid = cu_id u") (auto simp: at)
  qed (use index client_users_length [OF wf] in
        \<open>simp_all add: add_user_new [OF wf fresh] tmap_wf_emplace\<close>)
qed

section \<open>The operations\<close>

lemma renameUser_ok:
  assumes "client_wf s" and "client_at s uid a u"
  shows "renameUser uid newName s = Inr (a, put_user a
      (u\<lparr>nameList := push_history (cu_name u) (nameList u), cu_name := newName\<rparr>) s)"
    and "client_wf (put_user a (u\<lparr>nameList := push_history (cu_name u) (nameList u), cu_name := newName\<rparr>) s)"
  using assms client_atD(3) [OF assms]
  by (simp_all add: renameUser_def indexed_user_ok client_wf_put user_class_def)

lemma connectUser_ok:
  assumes wf: "client_wf s" and at: "client_at s uid a u"
    and "cu_second u = invalidSecond" and "second \<noteq> invalidSecond"
  shows "\<exists>s'. connectUser uid second s = Inr (a, s') \<and> client_wf s' \<and>
    s' = put_user a (u\<lparr>cu_second := second\<rparr>)
           (migrated (user_class u) (user_class (u\<lparr>cu_second := second\<rparr>)) uid a s)"
proof -
  let ?u = "u\<lparr>cu_second := second\<rparr>"
  let ?i = "if cu_winnings u \<noteq> 0 then 1 else 3" and ?j = "if cu_winnings u \<noteq> 0 then 0 else 2"
  have c: "user_class u = ?i" "user_class ?u = ?j"
    using assms(3,4) by (simp_all add: user_class_def)
  have m: "findAndMigrate ?i ?j uid (put_user a ?u s) = Inr (migrated ?i ?j uid a (put_user a ?u s))"
    by (rule findAndMigrate_ok [OF wf at c(1)]) auto
  have "connectUser uid second s = bind_outcome (findAndMigrate ?i ?j uid (put_user a ?u s)) (\<lambda>s2. Inr (a, s2))"
    using indexed_user_ok [OF wf at] by (simp add: connectUser_def Let_def)
  then have "connectUser uid second s = Inr (a, put_user a ?u (migrated ?i ?j uid a s))"
    using m by (simp add: moved_put)
  moreover have "client_wf (put_user a ?u (migrated ?i ?j uid a s))"
    by (rule client_wf_moved [OF wf at c]) (use client_atD(3) [OF wf at] in auto)
  ultimately show ?thesis using c by simp
qed

lemma disconnectUser_ok:
  assumes wf: "client_wf s" and at: "client_at s uid a u"
    and "cu_second u \<noteq> invalidSecond"
  shows "\<exists>s' u'. disconnectUser uid s = Inr (a, s') \<and> client_wf s' \<and>
    u' = u\<lparr>cu_second := invalidSecond, ratingReceived := ratingReceived u \<and> cu_winnings u = 0\<rparr> \<and>
    s' = put_user a u' (migrated (user_class u) (user_class u') uid a s)"
proof -
  let ?u1 = "u\<lparr>cu_second := invalidSecond\<rparr>"
  let ?u = "u\<lparr>cu_second := invalidSecond, ratingReceived := ratingReceived u \<and> cu_winnings u = 0\<rparr>"
  let ?i = "if cu_winnings u \<noteq> 0 then 0 else 2" and ?j = "if cu_winnings u \<noteq> 0 then 1 else 3"
  have c: "user_class u = ?i" "user_class ?u = ?j"
    using assms(3) by (simp_all add: user_class_def)
  have m: "findAndMigrate ?i ?j uid (put_user a ?u1 s) = Inr (migrated ?i ?j uid a (put_user a ?u1 s))"
    by (rule findAndMigrate_ok [OF wf at c(1)]) auto
  have "disconnectUser uid s = Inr (a, put_user a ?u (migrated ?i ?j uid a s))"
  proof (cases "cu_winnings u = 0")
    case True
    then show ?thesis using indexed_user_ok [OF wf at] m
      by (simp add: disconnectUser_def Let_def moved_put)
  next
    case False
    then show ?thesis using indexed_user_ok [OF wf at] m
      by (simp add: disconnectUser_def Let_def moved_put put_user_twice)
  qed
  moreover have "client_wf (put_user a ?u (migrated ?i ?j uid a s))"
    by (rule client_wf_moved [OF wf at c]) (use client_atD(3) [OF wf at] in auto)
  ultimately show ?thesis using c by simp
qed

lemma fixUserWinnings_ok:
  assumes wf: "client_wf s" and at: "client_at s uid a u"
    and sum: "in_long (cu_winnings u + winnings)" and nonzero: "cu_winnings u + winnings \<noteq> 0"
  shows "\<exists>s' u'. fixUserWinnings_body uid winnings s = Inr s' \<and> client_wf s' \<and>
    u' = u\<lparr>winningsHistory := push_history (cu_winnings u) (winningsHistory u),
           cu_winnings := cu_winnings u + winnings\<rparr> \<and>
    s' = put_user a u' (if cu_winnings u = 0 then migrated (user_class u) (user_class u') uid a s else s)"
proof -
  let ?u = "u\<lparr>winningsHistory := push_history (cu_winnings u) (winningsHistory u),
           cu_winnings := cu_winnings u + winnings\<rparr>"
  show ?thesis
  proof (cases "cu_winnings u = 0")
    case True
    let ?i = "if cu_second u = invalidSecond then 3 else 2"
      and ?j = "if cu_second u = invalidSecond then 1 else 0"
    have c: "user_class u = ?i" "user_class ?u = ?j"
      using True nonzero by (simp_all add: user_class_def)
    have m: "findAndMigrate ?i ?j uid s = Inr (migrated ?i ?j uid a s)"
      by (rule findAndMigrate_ok [OF wf at c(1)]) auto
    have "fixUserWinnings_body uid winnings s = Inr (put_user a ?u (migrated ?i ?j uid a s))"
      using indexed_user_ok [OF wf at] m True sum
      by (cases "cu_second u = invalidSecond") (simp_all add: fixUserWinnings_body_def)
    moreover have "client_wf (put_user a ?u (migrated ?i ?j uid a s))"
      by (rule client_wf_moved [OF wf at c]) (use client_atD(3) [OF wf at] in auto)
    ultimately show ?thesis using c True by simp
  next
    case False
    have "fixUserWinnings_body uid winnings s = Inr (put_user a ?u s)"
      using indexed_user_ok [OF wf at] False sum by (simp add: fixUserWinnings_body_def)
    moreover have "client_wf (put_user a ?u s)"
      by (rule client_wf_put [OF wf at]) (use client_atD(3) [OF wf at] False nonzero in \<open>simp_all add: user_class_def\<close>)
    ultimately show ?thesis using False by simp
  qed
qed

section \<open>Choosing a user\<close>

lemma userInMap_found: "0 \<le> i \<Longrightarrow> i < int (length m) \<Longrightarrow> userInMap m i = Inr (fst (m ! nat i))"
proof (induction m i rule: userInMap.induct)
  case (2 user m i)
  then show ?case by (cases "i = 0") (simp_all add: nat_diff_distrib nth_Cons')
qed simp

lemma sum_sizes:
  "\<forall>mi \<in> set ms. int (length (st_users s ! mi)) \<le> INT_MAX \<Longrightarrow>
    fold (\<lambda>mi result. result + int_of_size (length (st_users s ! mi))) ms n =
    n + int (\<Sum>mi\<leftarrow>ms. length (st_users s ! mi))"
  by (induction ms arbitrary: n) simp_all

lemma getUserByIndex_found:
  assumes "0 \<le> i" and "i < int (\<Sum>mi\<leftarrow>ms. length (st_users s ! mi))" and "i < 2 ^ 64"
  shows "\<exists>mi \<in> set ms. \<exists>p \<in> set (st_users s ! mi). getUserByIndex s ms i = Inr (fst p)"
  using assms
proof (induction s ms i rule: getUserByIndex.induct)
  case (2 s mi ms i)
  let ?m = "st_users s ! mi"
  show ?case
  proof (cases "int (length ?m) \<le> i")
    case True
    then show ?thesis using 2 by auto
  next
    case False
    then have "getUserByIndex s (mi # ms) i = Inr (fst (?m ! nat i))"
      using 2 userInMap_found [of i ?m] by simp
    moreover have "?m ! nat i \<in> set ?m" using 2 False by simp
    ultimately show ?thesis by auto
  qed
qed simp

lemma getRandomUser_found:
  assumes "client_wf s" and "draws_between dis" and maps: "set (random_maps flags) \<subseteq> {..<4}"
    and small: "int (\<Sum>mi\<leftarrow>random_maps flags. length (st_users s ! mi)) \<le> INT_MAX"
    and some: "mi \<in> set (random_maps flags)" "st_users s ! mi \<noteq> []"
  shows "\<exists>uid a u g'. getRandomUser dis flags s g = Inr (uid, g') \<and> client_at s uid a u \<and>
    user_class u \<in> set (random_maps flags)"
proof -
  let ?n = "\<Sum>mi\<leftarrow>random_maps flags. length (st_users s ! mi)"
  have le: "length (st_users s ! mi) \<le> ?n" if "mi \<in> set (random_maps flags)" for mi
    using that by (intro member_le_sum_list) auto
  then have "\<forall>mi \<in> set (random_maps flags). int (length (st_users s ! mi)) \<le> INT_MAX"
    using small by fastforce
  from sum_sizes [OF this, of 0] have size: "getCumulativeSize (random_maps flags) s = int ?n"
    by (simp add: getCumulativeSize_def)
  have pos: "0 < ?n" using le [OF some(1)] some(2) by (cases "st_users s ! mi") auto
  obtain i g' where d: "dis 0 (int ?n - 1) g = (i, g')" by fastforce
  have "0 \<le> fst (dis 0 (int ?n - 1) g) \<and> fst (dis 0 (int ?n - 1) g) \<le> int ?n - 1"
    using pos by (intro assms(2) [unfolded draws_between_def, rule_format]) simp
  then have i: "0 \<le> i" "i < int ?n" "i < 2 ^ 64"
    using d small by (simp_all add: INT_MAX_def)
  obtain k p where k: "k \<in> set (random_maps flags)" "p \<in> set (st_users s ! k)"
      "getUserByIndex s (random_maps flags) i = Inr (fst p)"
    using getUserByIndex_found [OF i(1,2,3)] by blast
  have k4: "k < 4" using k(1) maps by auto
  have "tmap_find (fst p) (st_users s ! k) = Some (snd p)"
    using k(2) tmap_wf_distinct [OF client_map_wf [OF assms(1) k4]] by (simp add: tmap_find_def)
  then obtain u where u: "client_at s (fst p) (snd p) u" "user_class u = k"
    using client_map_iff [OF assms(1) k4] by blast
  have "getRandomUser dis flags s g = Inr (fst p, g')"
    using size pos d k(3) by (simp add: getRandomUser_def uniform_draw_def Let_def)
  then show ?thesis using u k(1) by blast
qed

lemma random_maps_cases:
  "random_maps flag_ANYONE = [0, 1, 2, 3]"
  "random_maps flag_CONNECTED_ANY = [0, 2]"
  "random_maps flag_DISCONNECTED_ANY = [1, 3]"
  by (simp_all add: random_maps_def erase_maps_def flag_ANYONE_def flag_CONNECTED_ANY_def
      flag_DISCONNECTED_ANY_def flag_CONNECTED_def flag_DISCONNECTED_def flag_ACTIVE_def flag_SILENT_def)

end
