(* ===== verification/Client_Rating.thy ===== *)
theory Client_Rating
  imports Client_Invariant "HOL-Library.Multiset"
begin

text \<open>
  The turn of a minute in the test client: the copy of the current data is in order and holds the same
  users, and the rating computed from it lists the users who have client_won something by their winnings,
  each of them knowing his place.
\<close>

section \<open>Loops over the maps\<close>

definition map_addrs :: "client_storage \<Rightarrow> nat list \<Rightarrow> addr list" where
  "map_addrs s ms = concat (map (\<lambda>i. map snd (st_users s ! i)) ms)"

lemma fold_outcome_map: "fold_outcome f (map g xs) x = fold_outcome (\<lambda>y. f (g y)) xs x"
  by (induction xs arbitrary: x) (simp_all add: bind_outcome_def split: sum.splits)

lemma forEachInMaps_flat: "forEachInMaps ms s proc x = fold_outcome proc (map_addrs s ms) x"
  by (induction ms arbitrary: x)
     (simp_all add: forEachInMaps_def map_addrs_def fold_outcome_append fold_outcome_map
       bind_outcome_def split: sum.splits)

lemma map_addrs_live:
  assumes "client_wf s" and "set ms \<subseteq> {..<4}"
  shows "a \<in> set (map_addrs s ms) \<longleftrightarrow> (\<exists>uid u. client_at s uid a u \<and> user_class u \<in> set ms)"
proof -
  have "a \<in> set (map snd (st_users s ! i)) \<longleftrightarrow> (\<exists>uid u. client_at s uid a u \<and> user_class u = i)"
    if "i < 4" for i
  proof -
    have "a \<in> set (map snd (st_users s ! i)) \<longleftrightarrow> (\<exists>uid. tmap_find uid (st_users s ! i) = Some a)"
      using tmap.entry_iff_find [OF client_map_wf [OF assms(1) that]] by force
    then show ?thesis using client_map_iff [OF assms(1) that] by simp
  qed
  then show ?thesis using assms(2) by (auto simp: map_addrs_def subset_eq)
qed

lemma distinct_map_addrs:
  assumes wf: "client_wf s" and "set ms \<subseteq> {..<4}" and "distinct ms"
  shows "distinct (map_addrs s ms)"
  using assms(2,3)
proof (induction ms)
  case Nil
  then show ?case by (simp add: map_addrs_def)
next
  case (Cons i ms)
  have i: "i < 4" and ms: "set ms \<subseteq> {..<4}" using Cons.prems by auto
  have "inj_on snd (set (st_users s ! i))"
  proof (rule inj_onI)
    fix p q
    assume pq: "p \<in> set (st_users s ! i)" "q \<in> set (st_users s ! i)" "snd p = snd q"
    have "\<exists>u. client_at s (fst r) (snd r) u" if "r \<in> set (st_users s ! i)" for r
      using that tmap.entry_iff_find [OF client_map_wf [OF wf i], of "fst r" "snd r"]
        client_map_iff [OF wf i] by auto
    then show "p = q" using pq client_at_same_addr [OF wf] by (metis prod.expand)
  qed
  moreover have "distinct (st_users s ! i)"
    using tmap_wf_distinct [OF client_map_wf [OF wf i]] by (simp add: distinct_map)
  moreover have "set (map_addrs s [i]) \<inter> set (map_addrs s ms) = {}"
    using map_addrs_live [OF wf, of "[i]"] map_addrs_live [OF wf ms] i Cons.prems(2)
      client_at_same_addr [OF wf] client_at_unique
    by (auto, metis)
  ultimately show ?case using Cons ms by (simp add: map_addrs_def distinct_map)
qed

section \<open>Collecting the rating\<close>

definition client_won :: "client_storage \<Rightarrow> addr \<Rightarrow> int" where
  "client_won s a = (case st_objects s a of Some u \<Rightarrow> cu_winnings u | None \<Rightarrow> 0)"

lemma ratings_emplace_mset: "mset (ratings_emplace k a m) = add_mset (k, a) (mset m)"
  by (induction k a m rule: ratings_emplace.induct) simp_all

lemma ratings_emplace_sorted:
  "sorted_wrt (\<lambda>p q. fst p \<ge> fst q) m \<Longrightarrow> sorted_wrt (\<lambda>p q. fst p \<ge> fst q) (ratings_emplace k a m)"
proof (induction k a m rule: ratings_emplace.induct)
  case (2 k a k' a' m)
  have "set (ratings_emplace k a m) = insert (k, a) (set m)"
    using arg_cong [OF ratings_emplace_mset [of k a m], of set_mset] by simp
  then show ?case using 2 by auto
qed simp

lemma collect_rating_all:
  assumes "\<And>a. a \<in> set as \<Longrightarrow> a \<noteq> nullptr \<and> (\<exists>u. st_objects s a = Some u)"
    and "sorted_wrt (\<lambda>p q. fst p \<ge> fst q) m"
  shows "\<exists>m'. fold_outcome (collect_rating s) as m = Inr m' \<and>
    mset m' = mset m + image_mset (\<lambda>a. (client_won s a, a)) (mset as) \<and> sorted_wrt (\<lambda>p q. fst p \<ge> fst q) m'"
  using assms
proof (induction as arbitrary: m)
  case (Cons a as)
  then obtain u where u: "a \<noteq> nullptr" "st_objects s a = Some u" by auto
  then have "collect_rating s a m = Inr (ratings_emplace (client_won s a) a m)"
    by (simp add: collect_rating_def client_won_def)
  moreover have "\<exists>m'. fold_outcome (collect_rating s) as (ratings_emplace (client_won s a) a m) = Inr m' \<and>
      mset m' = mset (ratings_emplace (client_won s a) a m) + image_mset (\<lambda>a. (client_won s a, a)) (mset as) \<and>
      sorted_wrt (\<lambda>p q. fst p \<ge> fst q) m'"
    by (rule Cons.IH) (use Cons.prems in \<open>simp_all add: ratings_emplace_sorted\<close>)
  ultimately show ?case by (auto simp: ratings_emplace_mset)
qed simp

section \<open>Writing the places\<close>

definition rated_object :: "addr \<Rightarrow> int \<Rightarrow> (addr \<rightharpoonup> client_user) \<Rightarrow> (addr \<rightharpoonup> client_user)" where
  "rated_object a place h = h(a := map_option (cu_rating_update (\<lambda>_. place)) (h a))"

lemma set_rating_ok:
  "a \<noteq> nullptr \<Longrightarrow> st_objects s a = Some u \<Longrightarrow>
    set_rating a place s = Inr (s\<lparr>st_objects := rated_object a place (st_objects s)\<rparr>)"
  by (simp add: set_rating_def rated_object_def put_user_def)

fun place_all :: "addr list \<Rightarrow> nat \<Rightarrow> (addr \<rightharpoonup> client_user) \<Rightarrow> (addr \<rightharpoonup> client_user)" where
  "place_all [] p h = h"
| "place_all (a # as) p h = place_all as (Suc p) (rated_object a (int p) h)"

lemma rated_object_apply:
  "rated_object a place h b =
    (if b = a then map_option (cu_rating_update (\<lambda>_. place)) (h b) else h b)"
  by (simp add: rated_object_def)

lemma dom_rated_object [simp]: "rated_object a place h b = None \<longleftrightarrow> h b = None"
  by (simp add: rated_object_def)

lemma place_all_other: "b \<notin> set as \<Longrightarrow> place_all as p h b = h b"
  by (induction as p h rule: place_all.induct) (simp_all add: rated_object_apply)

lemma place_all_at:
  "distinct as \<Longrightarrow> j < length as \<Longrightarrow>
    place_all as p h (as ! j) = map_option (cu_rating_update (\<lambda>_. int (p + j))) (h (as ! j))"
proof (induction as p h arbitrary: j rule: place_all.induct)
  case (2 a as p h)
  show ?case
  proof (cases j)
    case 0
    then show ?thesis using 2 by (simp add: place_all_other rated_object_apply)
  next
    case (Suc i)
    then have i: "i < length as" using 2 by simp
    then have "as ! i \<noteq> a" using 2 by auto
    then have "rated_object a (int p) h (as ! i) = h (as ! i)" by (simp add: rated_object_apply)
    then show ?thesis using 2(1) [of i] 2(2) i Suc by simp
  qed
qed simp

lemma place_users:
  assumes "\<And>a. a \<in> set as \<Longrightarrow> a \<noteq> nullptr \<and> st_objects s a \<noteq> None"
    and "p + length as \<le> length (st_rating s)"
  shows "fold_outcome place_user as (s, p) =
    Inr (s\<lparr>st_objects := place_all as p (st_objects s),
           st_rating := take p (st_rating s) @ as @ drop (p + length as) (st_rating s)\<rparr>, p + length as)"
  using assms
proof (induction as arbitrary: s p)
  case (Cons a as)
  let ?s = "s\<lparr>st_objects := rated_object a (int p) (st_objects s), st_rating := (st_rating s)[p := a]\<rparr>"
  obtain u where "a \<noteq> nullptr" "st_objects s a = Some u" using Cons.prems(1) by fastforce
  then have "place_user a (s, p) = Inr (?s, Suc p)"
    by (simp add: place_user_def set_rating_ok)
  moreover have "fold_outcome place_user as (?s, Suc p) =
      Inr (?s\<lparr>st_objects := place_all as (Suc p) (st_objects ?s),
             st_rating := take (Suc p) (st_rating ?s) @ as @ drop (Suc p + length as) (st_rating ?s)\<rparr>,
           Suc p + length as)"
    by (rule Cons.IH) (use Cons.prems in auto)
  moreover have "take (Suc p) ((st_rating s)[p := a]) = take p (st_rating s) @ [a]"
    using Cons.prems(2) by (simp add: take_Suc_conv_app_nth)
  ultimately show ?case using Cons.prems(2) by simp
qed simp

fun unrate_all :: "addr list \<Rightarrow> (addr \<rightharpoonup> client_user) \<Rightarrow> (addr \<rightharpoonup> client_user)" where
  "unrate_all [] h = h"
| "unrate_all (a # as) h = unrate_all as (rated_object a invalidRating h)"

lemma unrate_all_apply:
  "unrate_all as h b = (if b \<in> set as then map_option (cu_rating_update (\<lambda>_. invalidRating)) (h b) else h b)"
proof (induction as h rule: unrate_all.induct)
  case (2 a as h)
  then show ?case
    by (simp only: unrate_all.simps) (auto simp: rated_object_apply option.map_comp comp_def)
qed simp

lemma unrate_users:
  "(\<And>a. a \<in> set as \<Longrightarrow> a \<noteq> nullptr \<and> st_objects s a \<noteq> None) \<Longrightarrow>
    fold_outcome (\<lambda>ud. set_rating ud invalidRating) as s =
      Inr (s\<lparr>st_objects := unrate_all as (st_objects s)\<rparr>)"
proof (induction as arbitrary: s)
  case (Cons a as)
  let ?s = "s\<lparr>st_objects := rated_object a invalidRating (st_objects s)\<rparr>"
  obtain u where "a \<noteq> nullptr" "st_objects s a = Some u" using Cons.prems [of a] by auto
  then have "set_rating a invalidRating s = Inr ?s" by (rule set_rating_ok)
  moreover have "fold_outcome (\<lambda>ud. set_rating ud invalidRating) as ?s =
      Inr (?s\<lparr>st_objects := unrate_all as (st_objects ?s)\<rparr>)"
    by (rule Cons.IH) (use Cons.prems in simp)
  ultimately show ?case by simp
qed simp

section \<open>The rating is right\<close>

text \<open>Nothing but places and the rating vector differs.\<close>

definition same_users :: "client_storage \<Rightarrow> client_storage \<Rightarrow> bool" where
  "same_users s s' \<longleftrightarrow> st_index s' = st_index s \<and> st_users s' = st_users s \<and> st_next s' = st_next s \<and>
    st_report s' = st_report s \<and>
    (\<forall>a. map_option (cu_rating_update (\<lambda>_. 0)) (st_objects s' a) =
         map_option (cu_rating_update (\<lambda>_. 0)) (st_objects s a))"

lemma same_users_at:
  assumes "same_users s s'"
  shows "client_at s' uid a v \<longleftrightarrow>
    (\<exists>u. client_at s uid a u \<and> st_objects s' a = Some v \<and>
      cu_rating_update (\<lambda>_. 0) v = cu_rating_update (\<lambda>_. 0) u)"
proof -
  have "map_option (cu_rating_update (\<lambda>_. 0)) (st_objects s' a) =
      map_option (cu_rating_update (\<lambda>_. 0)) (st_objects s a)" and "st_index s' = st_index s"
    using assms by (simp_all add: same_users_def)
  then show ?thesis by (cases "st_objects s a"; cases "st_objects s' a") (auto simp: client_at_def)
qed

lemma rating_irrelevant:
  assumes "cu_rating_update (\<lambda>_. 0) v = cu_rating_update (\<lambda>_. 0) u"
  shows "cu_id v = cu_id u" "cu_winnings v = cu_winnings u" "cu_name v = cu_name u"
    "cu_second v = cu_second u" "nameList v = nameList u" "winningsHistory v = winningsHistory u"
    "ratingReceived v = ratingReceived u" "user_class v = user_class u"
  using assms by (cases u, cases v, simp_all add: user_class_def)+

lemma same_users_at':
  assumes "same_users s s'" and "client_at s uid a u"
  shows "\<exists>v. client_at s' uid a v \<and> cu_rating_update (\<lambda>_. 0) v = cu_rating_update (\<lambda>_. 0) u"
proof -
  have "map_option (cu_rating_update (\<lambda>_. 0)) (st_objects s' a) =
      Some (cu_rating_update (\<lambda>_. 0) u)" and "st_index s' = st_index s"
    using assms by (simp_all add: same_users_def client_at_def)
  then show ?thesis using assms(2) by (auto simp: client_at_def)
qed

lemma same_users_ex:
  assumes same: "same_users s s'"
    and P: "\<And>u v. cu_rating_update (\<lambda>_. 0) v = cu_rating_update (\<lambda>_. 0) u \<Longrightarrow> P v = P u"
  shows "(\<exists>u. client_at s uid a u \<and> P u) \<longleftrightarrow> (\<exists>v. client_at s' uid a v \<and> P v)"
proof
  assume "\<exists>u. client_at s uid a u \<and> P u"
  then obtain u where u: "client_at s uid a u" "P u" by blast
  obtain v where "client_at s' uid a v" "cu_rating_update (\<lambda>_. 0) v = cu_rating_update (\<lambda>_. 0) u"
    using same_users_at' [OF same u(1)] by blast
  then show "\<exists>v. client_at s' uid a v \<and> P v" using u(2) P [of v u] by auto
next
  assume "\<exists>v. client_at s' uid a v \<and> P v"
  then obtain v where v: "client_at s' uid a v" "P v" by blast
  obtain u where "client_at s uid a u" "cu_rating_update (\<lambda>_. 0) v = cu_rating_update (\<lambda>_. 0) u"
    using iffD1 [OF same_users_at [OF same] v(1)] by blast
  then show "\<exists>u. client_at s uid a u \<and> P u" using v(2) P [of v u] by auto
qed

lemma same_users_wf:
  assumes same: "same_users s s'" and wf: "client_wf s"
  shows "client_wf s'"
proof (rule client_wfI)
  have eq: "st_index s' = st_index s" "st_users s' = st_users s" "st_next s' = st_next s"
    using same by (simp_all add: same_users_def)
  show "tmap_wf (st_index s')" "0 < st_next s'" "length (st_users s') = 4"
    using wf eq by (simp_all add: client_wf_def index_ok_def maps_ok_def)
  fix uid a
  assume "tmap_find uid (st_index s') = Some a"
  then obtain u where u: "client_at s uid a u" using client_indexed [OF wf] eq by auto
  obtain v where "client_at s' uid a v" "cu_rating_update (\<lambda>_. 0) v = cu_rating_update (\<lambda>_. 0) u"
    using same_users_at' [OF same u] by blast
  then show "a \<noteq> nullptr \<and> a < st_next s' \<and> (\<exists>v. st_objects s' a = Some v \<and> cu_id v = uid)"
    using eq rating_irrelevant(1) [of v u] client_atD [OF wf u] by (simp add: client_at_def)
next
  fix i uid a
  assume i: "i < (4::nat)"
  have eq: "st_users s' = st_users s" using same by (simp add: same_users_def)
  show "tmap_wf (st_users s' ! i)" using client_map_wf [OF wf i] eq by simp
  show "tmap_find uid (st_users s' ! i) = Some a \<longleftrightarrow> (\<exists>v. client_at s' uid a v \<and> user_class v = i)"
  proof -
    have "(\<exists>u. client_at s uid a u \<and> user_class u = i) \<longleftrightarrow> (\<exists>v. client_at s' uid a v \<and> user_class v = i)"
      by (rule same_users_ex [OF same]) (drule rating_irrelevant(8), simp)
    then show ?thesis using client_map_iff [OF wf i, of uid a] eq by simp
  qed
qed

lemma same_users_won:
  assumes "same_users s s'"
  shows "client_won s' a = client_won s a"
proof -
  have "map_option (cu_rating_update (\<lambda>_. 0)) (st_objects s' a) =
      map_option (cu_rating_update (\<lambda>_. 0)) (st_objects s a)"
    using assms by (simp add: same_users_def)
  then show ?thesis
    by (cases "st_objects s a"; cases "st_objects s' a") (auto simp: client_won_def dest: rating_irrelevant(2))
qed

text \<open>The users of the rating know their places, the others that they have none.\<close>

definition places_known :: "client_storage \<Rightarrow> bool" where
  "places_known s \<longleftrightarrow>
    (\<forall>i < length (st_rating s). \<exists>uid u. client_at s uid (st_rating s ! i) u \<and> cu_rating u = int i) \<and>
    (\<forall>uid a u. client_at s uid a u \<longrightarrow> cu_rating u = invalidRating \<or>
      (\<exists>i < length (st_rating s). st_rating s ! i = a \<and> cu_rating u = int i))"

definition client_ranked :: "client_storage \<Rightarrow> bool" where
  "client_ranked s \<longleftrightarrow> distinct (st_rating s) \<and>
    set (st_rating s) = {a. \<exists>uid u. client_at s uid a u \<and> cu_winnings u \<noteq> 0} \<and>
    sorted_wrt (\<lambda>a b. client_won s a \<ge> client_won s b) (st_rating s)"

lemma place_all_same:
  "map_option (cu_rating_update (\<lambda>_. 0)) (place_all as p h b) = map_option (cu_rating_update (\<lambda>_. 0)) (h b)"
proof (induction as p h rule: place_all.induct)
  case (2 a as p h)
  then show ?case by (simp only: place_all.simps) (simp add: rated_object_apply option.map_comp comp_def)
qed simp

lemma unrate_all_same:
  "map_option (cu_rating_update (\<lambda>_. 0)) (unrate_all as h b) = map_option (cu_rating_update (\<lambda>_. 0)) (h b)"
  by (simp add: unrate_all_apply option.map_comp comp_def)

lemma rating_built:
  assumes wf: "client_wf s"
  shows "\<exists>m. forEachInMaps [0, 1] s (collect_rating s) [] = Inr m \<and> length m = length (map snd m) \<and>
    distinct (map snd m) \<and>
    set (map snd m) = {a. \<exists>uid u. client_at s uid a u \<and> cu_winnings u \<noteq> 0} \<and>
    sorted_wrt (\<lambda>a b. client_won s a \<ge> client_won s b) (map snd m)"
proof -
  let ?as = "map_addrs s [0, 1]"
  have live: "a \<in> set ?as \<longleftrightarrow> (\<exists>uid u. client_at s uid a u \<and> cu_winnings u \<noteq> 0)" for a
    using map_addrs_live [OF wf, of "[0, 1]" a] by (auto simp: user_class_def split: if_splits)
  have ok: "a \<noteq> nullptr \<and> (\<exists>u. st_objects s a = Some u)" if a: "a \<in> set ?as" for a
  proof -
    obtain uid u where "client_at s uid a u" using a live by blast
    then show ?thesis using client_atD [OF wf] by blast
  qed
  obtain m where m: "fold_outcome (collect_rating s) ?as [] = Inr m"
      "mset m = image_mset (\<lambda>a. (client_won s a, a)) (mset ?as)" "sorted_wrt (\<lambda>p q. fst p \<ge> fst q) m"
    using collect_rating_all [of ?as s "[]"] ok by auto
  have snd_m: "mset (map snd m) = mset ?as"
    using arg_cong [OF m(2), of "image_mset snd"] by (simp add: multiset.map_comp comp_def)
  have "set m = (\<lambda>a. (client_won s a, a)) ` set ?as"
    using arg_cong [OF m(2), of set_mset] by simp
  then have fst_m: "fst p = client_won s (snd p)" if "p \<in> set m" for p using that by auto
  have "sorted_wrt (\<lambda>p q. client_won s (snd p) \<ge> client_won s (snd q)) m"
    by (rule sorted_wrt_mono_rel [OF _ m(3)]) (simp add: fst_m)
  then have "sorted_wrt (\<lambda>a b. client_won s a \<ge> client_won s b) (map snd m)" by (simp add: sorted_wrt_map)
  moreover have "set (map snd m) = set ?as" using snd_m by (rule mset_eq_setD)
  moreover have "distinct (map snd m)"
    using snd_m distinct_map_addrs [OF wf, of "[0, 1]"] mset_eq_imp_distinct_iff by fastforce
  ultimately show ?thesis using m(1) live by (auto simp: forEachInMaps_flat)
qed

lemma rated_by:
  assumes wf: "client_wf s" and same: "same_users s s'" and L: "st_rating s' = L"
    and listed: "\<And>a. a \<in> set L \<Longrightarrow> \<exists>uid u. client_at s uid a u"
    and at: "\<And>i. i < length L \<Longrightarrow>
      st_objects s' (L ! i) = map_option (cu_rating_update (\<lambda>_. int i)) (st_objects s (L ! i))"
    and rest: "\<And>uid a u. client_at s uid a u \<Longrightarrow> a \<notin> set L \<Longrightarrow>
      st_objects s' a = map_option (cu_rating_update (\<lambda>_. invalidRating)) (st_objects s a)"
  shows "places_known s'"
  unfolding places_known_def
proof (intro conjI allI impI)
  have index: "st_index s' = st_index s" using same by (simp add: same_users_def)
  {
    fix i assume i: "i < length (st_rating s')"
    then obtain uid u where "client_at s uid (L ! i) u" using listed L nth_mem by metis
    then have "client_at s' uid (st_rating s' ! i) (u\<lparr>cu_rating := int i\<rparr>)"
      using at [of i] i L index by (simp add: client_at_def)
    then show "\<exists>uid u. client_at s' uid (st_rating s' ! i) u \<and> cu_rating u = int i"
      by (intro exI conjI) (assumption, simp)
  next
    fix uid a v
    assume v: "client_at s' uid a v"
    then obtain u where u: "client_at s uid a u" using iffD1 [OF same_users_at [OF same] v] by blast
    show "cu_rating v = invalidRating \<or> (\<exists>i < length (st_rating s'). st_rating s' ! i = a \<and> cu_rating v = int i)"
    proof (cases "a \<in> set L")
      case True
      then obtain i where i: "i < length L" "L ! i = a" by (auto simp: in_set_conv_nth)
      then have "cu_rating v = int i" using at [OF i(1)] u v by (auto simp: client_at_def)
      then show ?thesis using i L by blast
    next
      case False
      then show ?thesis using rest [OF u] u v by (auto simp: client_at_def)
    qed
  }
qed

lemma ranked_by:
  assumes same: "same_users s s'" and "distinct (st_rating s')"
    and "set (st_rating s') = {a. \<exists>uid u. client_at s uid a u \<and> cu_winnings u \<noteq> 0}"
    and "sorted_wrt (\<lambda>a b. client_won s a \<ge> client_won s b) (st_rating s')"
  shows "client_ranked s'"
proof -
  have "(\<exists>u. client_at s uid a u \<and> cu_winnings u \<noteq> 0) \<longleftrightarrow>
      (\<exists>v. client_at s' uid a v \<and> cu_winnings v \<noteq> 0)" for uid a
    by (rule same_users_ex [OF same]) (drule rating_irrelevant(2), simp)
  then show ?thesis using assms(2-4) by (simp add: client_ranked_def same_users_won [OF same])
qed

lemma rating_disjoint:
  assumes wf: "client_wf s" and "client_at s uid a u" "client_at s uid' a v"
  shows "u = v"
  using client_at_same_addr [OF assms] assms(2,3) client_at_unique by blast

lemma recalculateRating_ok:
  assumes wf: "client_wf s"
  shows "\<exists>s'. recalculateRating s = Inr s' \<and> same_users s s' \<and> client_wf s' \<and> places_known s' \<and> client_ranked s'"
proof -
  obtain m where m: "forEachInMaps [0, 1] s (collect_rating s) [] = Inr m" "distinct (map snd m)"
      "set (map snd m) = {a. \<exists>uid u. client_at s uid a u \<and> cu_winnings u \<noteq> 0}"
      "sorted_wrt (\<lambda>a b. client_won s a \<ge> client_won s b) (map snd m)"
    using rating_built [OF wf] by blast
  define L where "L = map snd m"
  define H where "H = place_all L 0 (st_objects s)"
  define S where "S = map_addrs s [2, 3]"
  define s1 where "s1 = s\<lparr>st_objects := H, st_rating := L\<rparr>"
  define s2 where "s2 = s\<lparr>st_objects := unrate_all S H, st_rating := L\<rparr>"
  have L: "\<exists>uid u. client_at s uid a u \<and> cu_winnings u \<noteq> 0" if "a \<in> set L" for a
    using m(3) that unfolding L_def by blast
  have S: "a \<in> set S \<longleftrightarrow> (\<exists>uid u. client_at s uid a u \<and> cu_winnings u = 0)" for a
    using map_addrs_live [OF wf, of "[2, 3]" a] by (auto simp: S_def user_class_def split: if_splits)
  have ok: "a \<noteq> nullptr \<and> st_objects s a \<noteq> None" if a: "a \<in> set L \<or> a \<in> set S" for a
  proof -
    obtain uid u where "client_at s uid a u" using a L [of a] S [of a] by blast
    then show ?thesis using client_atD(1,4) [OF wf, of uid a u] by simp
  qed
  have H_live: "H a \<noteq> None" if "st_objects s a \<noteq> None" for a
    using place_all_same [of L 0 "st_objects s" a] that unfolding H_def by (cases "st_objects s a") auto
  have placed: "fold_outcome place_user L (s\<lparr>st_rating := resize_rating (length L) (st_rating s)\<rparr>, 0) =
      Inr (s1, length L)"
    using place_users [of L "s\<lparr>st_rating := resize_rating (length L) (st_rating s)\<rparr>" 0] ok
    by (simp add: s1_def H_def resize_rating_def)
  have "fold_outcome (\<lambda>ud. set_rating ud invalidRating) S s1 = Inr s2"
    using unrate_users [of S s1] ok H_live by (simp add: s1_def s2_def)
  moreover have "map_addrs s1 [2, 3] = S" by (simp add: map_addrs_def S_def s1_def)
  ultimately have run: "recalculateRating s = Inr s2"
    using m(1) placed by (simp add: recalculateRating_def forEachInMaps_flat L_def)
  have same: "same_users s s2"
    by (simp add: same_users_def s2_def unrate_all_same H_def place_all_same)
  have disjoint: "a \<notin> set S" if "a \<in> set L" for a
    using L [OF that] S [of a] rating_disjoint [OF wf] by metis
  have "places_known s2"
  proof (rule rated_by [OF wf same])
    show "st_rating s2 = L" by (simp add: s2_def)
    show "\<exists>uid u. client_at s uid a u" if "a \<in> set L" for a using L [OF that] by blast
    show "st_objects s2 (L ! i) = map_option (cu_rating_update (\<lambda>_. int i)) (st_objects s (L ! i))"
      if "i < length L" for i
      using that place_all_at [OF m(2) [folded L_def], of i 0] disjoint [OF nth_mem [OF that]]
      by (simp add: s2_def unrate_all_apply H_def)
    fix uid a u
    assume u: "client_at s uid a u" and a: "a \<notin> set L"
    then have "cu_winnings u = 0" using m(3) unfolding L_def by blast
    then have "a \<in> set S" using S u by blast
    then show "st_objects s2 a = map_option (cu_rating_update (\<lambda>_. invalidRating)) (st_objects s a)"
      using a by (simp add: s2_def unrate_all_apply H_def place_all_other)
  qed
  moreover have "client_ranked s2"
    by (rule ranked_by [OF same]) (use m(2-4) in \<open>simp_all add: s2_def L_def\<close>)
  ultimately show ?thesis using run same same_users_wf [OF same wf] by blast
qed

end
