(* ===== verification/Client_Minute.thy ===== *)
theory Client_Minute
  imports Client_Rating
begin

text \<open>
  \<open>setNextMinuteData\<close> of \<open>test/storage.cpp\<close>: the deep copy, map by map, of the users of another
  storage, and the numbers of the report printed before it.
\<close>

section \<open>The report\<close>

definition got_rating :: "client_storage \<Rightarrow> addr \<Rightarrow> bool" where
  "got_rating s a = (case st_objects s a of Some u \<Rightarrow> ratingReceived u | None \<Rightarrow> False)"

lemma count_users:
  "(\<And>a. a \<in> set as \<Longrightarrow> a \<noteq> nullptr \<and> st_objects s a \<noteq> None) \<Longrightarrow>
    fold_outcome (count_user b s) as n = Inr (n + int (length (filter (\<lambda>a. got_rating s a = b) as)))"
proof (induction as arbitrary: n)
  case (Cons a as)
  obtain u where "a \<noteq> nullptr" "st_objects s a = Some u" using Cons.prems [of a] by auto
  then show ?case using Cons by (simp add: count_user_def got_rating_def)
qed simp

lemma map_addrs_ok:
  assumes "client_wf s" and "set ms \<subseteq> {..<4}" and "a \<in> set (map_addrs s ms)"
  shows "a \<noteq> nullptr \<and> st_objects s a \<noteq> None"
proof -
  obtain uid u where "client_at s uid a u" using map_addrs_live [OF assms(1,2)] assms(3) by blast
  from client_atD(1,4) [OF assms(1) this] show ?thesis by simp
qed

lemma publish_ok:
  assumes "client_wf s"
  shows "\<exists>r. publishValidationReport s = Inr r \<and>
    pub_missed r = int (length (filter (\<lambda>a. \<not> got_rating s a) (map_addrs s [0]))) \<and>
    pub_unsolicited r = int (length (filter (got_rating s) (map_addrs s [1, 3]))) \<and>
    pub_failures r = failures (st_report s)"
proof -
  have "forEachInMaps [0] s (count_user False s) 0 =
      Inr (int (length (filter (\<lambda>a. \<not> got_rating s a) (map_addrs s [0]))))"
    using count_users [of "map_addrs s [0]" s False 0] map_addrs_ok [OF assms, of "[0]"]
    by (simp add: forEachInMaps_flat)
  moreover have "forEachInMaps [1, 3] s (count_user True s) 0 =
      Inr (int (length (filter (got_rating s) (map_addrs s [1, 3]))))"
    using count_users [of "map_addrs s [1, 3]" s True 0] map_addrs_ok [OF assms, of "[1, 3]"]
    by (simp add: forEachInMaps_flat)
  ultimately show ?thesis by (simp add: publishValidationReport_def Let_def)
qed

section \<open>The copy\<close>

text \<open>
  Copying from \<open>N\<close>: the maps below \<open>k\<close> hold copies, at addresses from \<open>base\<close> on, of the users \<open>src\<close>
  says, the others still hold old users, at addresses below.
\<close>

definition users_copied ::
    "client_storage \<Rightarrow> addr \<Rightarrow> nat \<Rightarrow> (nat \<Rightarrow> int \<rightharpoonup> addr) \<Rightarrow> client_storage \<Rightarrow> bool" where
  "users_copied N base k src s \<longleftrightarrow>
    tmap_wf (st_index s) \<and> length (st_users s) = 4 \<and> base \<le> st_next s \<and>
    (\<forall>i < 4. tmap_wf (st_users s ! i)) \<and>
    (\<forall>i < 4. k \<le> i \<longrightarrow> (\<forall>p \<in> set (st_users s ! i). snd p < base)) \<and>
    (\<forall>uid a. tmap_find uid (st_index s) = Some a \<longleftrightarrow> (\<exists>i < k. tmap_find uid (st_users s ! i) = Some a)) \<and>
    (\<forall>i < k. \<forall>uid. tmap_find uid (st_users s ! i) = None \<longleftrightarrow> src i uid = None) \<and>
    (\<forall>i < k. \<forall>uid a b. tmap_find uid (st_users s ! i) = Some a \<longrightarrow> src i uid = Some b \<longrightarrow>
      base \<le> a \<and> a < st_next s \<and> st_objects s a = st_objects N b)"

lemma copiedD:
  assumes "users_copied N base k src s"
  shows "tmap_wf (st_index s)" "length (st_users s) = 4" "base \<le> st_next s"
    "\<And>i. i < 4 \<Longrightarrow> tmap_wf (st_users s ! i)"
    "\<And>i p. i < 4 \<Longrightarrow> k \<le> i \<Longrightarrow> p \<in> set (st_users s ! i) \<Longrightarrow> snd p < base"
    "\<And>uid a. tmap_find uid (st_index s) = Some a \<longleftrightarrow> (\<exists>i < k. tmap_find uid (st_users s ! i) = Some a)"
    "\<And>i uid. i < k \<Longrightarrow> tmap_find uid (st_users s ! i) = None \<longleftrightarrow> src i uid = None"
    "\<And>i uid a b. i < k \<Longrightarrow> tmap_find uid (st_users s ! i) = Some a \<Longrightarrow> src i uid = Some b \<Longrightarrow>
      base \<le> a \<and> a < st_next s \<and> st_objects s a = st_objects N b"
  using assms by (simp_all add: users_copied_def)

lemma copiedI:
  assumes "tmap_wf (st_index s)" "length (st_users s) = 4" "base \<le> st_next s"
    "\<And>i. i < 4 \<Longrightarrow> tmap_wf (st_users s ! i)"
    "\<And>i p. i < 4 \<Longrightarrow> k \<le> i \<Longrightarrow> p \<in> set (st_users s ! i) \<Longrightarrow> snd p < base"
    "\<And>uid a. tmap_find uid (st_index s) = Some a \<longleftrightarrow> (\<exists>i < k. tmap_find uid (st_users s ! i) = Some a)"
    "\<And>i uid. i < k \<Longrightarrow> tmap_find uid (st_users s ! i) = None \<longleftrightarrow> src i uid = None"
    "\<And>i uid a b. i < k \<Longrightarrow> tmap_find uid (st_users s ! i) = Some a \<Longrightarrow> src i uid = Some b \<Longrightarrow>
      base \<le> a \<and> a < st_next s \<and> st_objects s a = st_objects N b"
  shows "users_copied N base k src s"
  using assms by (simp add: users_copied_def)

lemma copied_start:
  assumes "client_wf s"
  shows "users_copied N (st_next s) 0 src (s\<lparr>st_index := []\<rparr>)"
proof (rule copiedI)
  fix i p
  assume i: "i < (4::nat)" and p: "p \<in> set (st_users (s\<lparr>st_index := []\<rparr>) ! i)"
  then have "tmap_find (fst p) (st_users s ! i) = Some (snd p)"
    using tmap.entry_iff_find [OF client_map_wf [OF assms i], of "fst p" "snd p"] by simp
  then obtain u where "client_at s (fst p) (snd p) u" using client_map_iff [OF assms i] by blast
  then show "snd p < st_next s" by (rule client_atD(2) [OF assms])
qed (use client_map_wf [OF assms] client_users_length [OF assms] in simp_all)

lemma copied_clear:
  assumes c: "users_copied N base k src s" and k: "k < 4"
  shows "users_copied N base (Suc k) (src(k := Map.empty)) (clear_map k s)"
proof (rule copiedI)
  note D = copiedD [OF c]
  have users: "st_users (clear_map k s) ! i = (if i = k then [] else st_users s ! i)" if "i < 4" for i
    using D(2) that by (simp add: clear_map_def Let_def nth_list_update)
  have sel: "st_next (clear_map k s) = st_next s" "st_index (clear_map k s) = st_index s"
    by (simp_all add: clear_map_def Let_def)
  have kept: "st_objects (clear_map k s) a = st_objects s a" if "base \<le> a" for a
    using D(5) [OF k order_refl] that by (fastforce simp: clear_map_def Let_def)
  show "tmap_wf (st_index (clear_map k s))" "length (st_users (clear_map k s)) = 4"
    "base \<le> st_next (clear_map k s)"
    using D(1-3) by (simp_all add: clear_map_def Let_def)
  show "tmap_wf (st_users (clear_map k s) ! i)" if "i < 4" for i
    using D(4) that users by simp
  show "snd p < base" if "i < 4" "Suc k \<le> i" "p \<in> set (st_users (clear_map k s) ! i)" for i p
    using D(5) [of i p] that users by simp
  show "tmap_find uid (st_index (clear_map k s)) = Some a \<longleftrightarrow>
      (\<exists>i < Suc k. tmap_find uid (st_users (clear_map k s) ! i) = Some a)" for uid a
    using D(6) [of uid a] users k by (auto simp: sel less_Suc_eq)
  show "tmap_find uid (st_users (clear_map k s) ! i) = None \<longleftrightarrow> (src(k := Map.empty)) i uid = None"
    if "i < Suc k" for i uid
    using D(7) [of i uid] that users k by (auto simp: less_Suc_eq)
  show "base \<le> a \<and> a < st_next (clear_map k s) \<and> st_objects (clear_map k s) a = st_objects N b"
    if "i < Suc k" "tmap_find uid (st_users (clear_map k s) ! i) = Some a" "(src(k := Map.empty)) i uid = Some b"
    for i uid a b
    using D(8) [of i uid a b] that users k kept by (auto simp: sel less_Suc_eq split: if_splits)
qed

lemma copied_step:
  assumes c: "users_copied N base (Suc k) src s" and k: "k < 4"
    and b: "b \<noteq> nullptr" "st_objects N b = Some u" and fresh: "tmap_find uid (st_index s) = None"
  shows "\<exists>s'. copy_user N k (uid, b) s = Inr s' \<and> users_copied N base (Suc k) (src(k := (src k)(uid \<mapsto> b))) s' \<and>
    (\<forall>uid'. tmap_find uid' (st_index s') = None \<longleftrightarrow> uid' \<noteq> uid \<and> tmap_find uid' (st_index s) = None) \<and>
    st_report s' = st_report s"
proof -
  note D = copiedD [OF c]
  let ?a = "st_next s"
  define s' where "s' = (put_user ?a u s)\<lparr>st_next := Suc ?a,
      st_users := (st_users s)[k := tmap_emplace uid ?a (st_users s ! k)],
      st_index := tmap_emplace uid ?a (st_index s)\<rparr>"
  have none: "tmap_find uid (st_users s ! i) = None" if "i < Suc k" for i
    using fresh D(6) [of uid] that by (cases "tmap_find uid (st_users s ! i)") auto
  then have run: "copy_user N k (uid, b) s = Inr s'"
    using b by (simp add: copy_user_def s'_def Let_def)
  have users: "st_users s' ! i = (if i = k then tmap_emplace uid ?a (st_users s ! k) else st_users s ! i)"
    if "i < 4" for i
    using D(2) that by (simp add: s'_def nth_list_update)
  have find: "tmap_find uid' (st_users s' ! i) =
      (if i = k \<and> uid' = uid then Some ?a else tmap_find uid' (st_users s ! i))" if "i < 4" for i uid'
    using users [OF that] none [of k] tmap.emplace_find [OF D(4) [OF k], of uid' uid ?a]
    by (cases "uid' = uid") simp_all
  have index: "tmap_find uid' (st_index s') = (if uid' = uid then Some ?a else tmap_find uid' (st_index s))"
    for uid'
    using fresh tmap.emplace_find [OF D(1), of uid' uid ?a] by (simp add: s'_def)
  have objects: "st_objects s' a = (if a = ?a then Some u else st_objects s a)" and next': "st_next s' = Suc ?a"
    for a
    by (simp_all add: s'_def)
  have "users_copied N base (Suc k) (src(k := (src k)(uid \<mapsto> b))) s'"
  proof (rule copiedI)
    show "tmap_wf (st_index s')" "length (st_users s') = 4" "base \<le> st_next s'"
      using D(1-3) by (simp_all add: s'_def tmap_wf_emplace)
    show "tmap_wf (st_users s' ! i)" if "i < 4" for i
      using D(4) k that users by (simp add: tmap_wf_emplace)
    show "snd p < base" if "i < 4" "Suc k \<le> i" "p \<in> set (st_users s' ! i)" for i p
      using D(5) [of i p] that users by simp
    fix uid' a
    show "tmap_find uid' (st_index s') = Some a \<longleftrightarrow> (\<exists>i < Suc k. tmap_find uid' (st_users s' ! i) = Some a)"
      using D(6) [of uid' a] none find k index by (cases "uid' = uid") (auto simp: less_Suc_eq)
  next
    fix i uid'
    assume "i < Suc k"
    then show "tmap_find uid' (st_users s' ! i) = None \<longleftrightarrow> (src(k := (src k)(uid \<mapsto> b))) i uid' = None"
      using D(7) [of i uid'] find [of i uid'] k by (cases "i = k") auto
    fix a b'
    assume "i < Suc k" "tmap_find uid' (st_users s' ! i) = Some a"
      and "(src(k := (src k)(uid \<mapsto> b))) i uid' = Some b'"
    then show "base \<le> a \<and> a < st_next s' \<and> st_objects s' a = st_objects N b'"
      using D(8) [of i uid' a b'] D(3) find [of i uid'] k b objects next' by (auto split: if_splits)
  qed
  then show ?thesis using run index by (intro exI [of _ s']) (simp add: s'_def)
qed

lemma copied_fold:
  assumes "users_copied N base (Suc k) src s" and k: "k < 4" and "distinct (map fst ps)"
    and "\<And>uid b. (uid, b) \<in> set ps \<Longrightarrow>
      b \<noteq> nullptr \<and> st_objects N b \<noteq> None \<and> tmap_find uid (st_index s) = None"
  shows "\<exists>s'. fold_outcome (copy_user N k) ps s = Inr s' \<and>
    users_copied N base (Suc k) (src(k := src k ++ map_of ps)) s' \<and> st_report s' = st_report s"
  using assms(1,3,4)
proof (induction ps arbitrary: s src)
  case Nil
  then show ?case by simp
next
  case (Cons p ps)
  obtain uid b where p: "p = (uid, b)" by fastforce
  then obtain u where u: "b \<noteq> nullptr" "st_objects N b = Some u" "tmap_find uid (st_index s) = None"
    using Cons.prems(3) by fastforce
  obtain s1 where s1: "copy_user N k (uid, b) s = Inr s1"
      "users_copied N base (Suc k) (src(k := (src k)(uid \<mapsto> b))) s1"
      "\<And>uid'. tmap_find uid' (st_index s1) = None \<longleftrightarrow> uid' \<noteq> uid \<and> tmap_find uid' (st_index s) = None"
      "st_report s1 = st_report s"
    using copied_step [OF Cons.prems(1) k u] by blast
  have "uid \<notin> fst ` set ps" using Cons.prems(2) p by simp
  have "b' \<noteq> nullptr \<and> st_objects N b' \<noteq> None \<and> tmap_find uid' (st_index s1) = None"
    if "(uid', b') \<in> set ps" for uid' b'
    using Cons.prems(3) [of uid' b'] that s1(3) \<open>uid \<notin> fst ` set ps\<close> by (metis fst_conv image_eqI list.set_intros(2))
  moreover have "distinct (map fst ps)" using Cons.prems(2) by simp
  ultimately have "\<exists>s'. fold_outcome (copy_user N k) ps s1 = Inr s' \<and>
      users_copied N base (Suc k) (src(k := (src k)(uid \<mapsto> b) ++ map_of ps)) s' \<and> st_report s' = st_report s1"
    using Cons.IH [OF s1(2), unfolded fun_upd_same fun_upd_upd] by blast
  moreover have "(src k)(uid \<mapsto> b) ++ map_of ps = src k ++ map_of (p # ps)"
    using \<open>uid \<notin> fst ` set ps\<close> p map_add_upd_left [of uid "map_of ps" "src k" b]
    by (simp add: dom_map_of_conv_image_fst)
  ultimately show ?case using s1(1,4) p by (simp del: fun_upd_apply map_of.simps)
qed

lemma copied_maps:
  assumes wf: "client_wf s" and N: "client_wf N" and "k \<le> 4"
  shows "\<exists>s'. fold_outcome (copy_map N) [0..<k] (s\<lparr>st_index := []\<rparr>) = Inr s' \<and>
    users_copied N (st_next s) k (\<lambda>i uid. tmap_find uid (st_users N ! i)) s'"
  using assms(3)
proof (induction k)
  case 0
  then show ?case using copied_start [OF wf] by simp
next
  case (Suc k)
  let ?src = "\<lambda>i uid. tmap_find uid (st_users N ! i)"
  have k: "k < 4" using Suc by simp
  obtain s1 where s1: "fold_outcome (copy_map N) [0..<k] (s\<lparr>st_index := []\<rparr>) = Inr s1"
      "users_copied N (st_next s) k ?src s1"
    using Suc by auto
  have clear: "users_copied N (st_next s) (Suc k) (?src(k := Map.empty)) (clear_map k s1)"
    by (rule copied_clear [OF s1(2) k])
  have src: "tmap_find uid (st_users N ! i) = Some b \<Longrightarrow> \<exists>u. client_at N uid b u \<and> user_class u = i"
    if "i < 4" for i uid b
    using client_map_iff [OF N that] by blast
  have "b \<noteq> nullptr \<and> st_objects N b \<noteq> None \<and> tmap_find uid (st_index (clear_map k s1)) = None"
    if p: "(uid, b) \<in> set (st_users N ! k)" for uid b
  proof -
    have "tmap_find uid (st_users N ! k) = Some b"
      using p tmap.entry_iff_find [OF client_map_wf [OF N k]] by blast
    then obtain u where u: "client_at N uid b u" "user_class u = k" using src [OF k] by blast
    have "tmap_find uid (st_index s1) \<noteq> Some a" for a
    proof
      assume "tmap_find uid (st_index s1) = Some a"
      then obtain i where i: "i < k" "tmap_find uid (st_users s1 ! i) = Some a"
        using copiedD(6) [OF s1(2)] by blast
      then have "tmap_find uid (st_users N ! i) \<noteq> None"
        using copiedD(7) [OF s1(2) i(1), of uid] by simp
      then show False using client_map_None [OF N, of i uid b u] u i k by simp
    qed
    then have "tmap_find uid (st_index s1) = None" by (cases "tmap_find uid (st_index s1)") auto
    then show ?thesis using client_atD(1,4) [OF N u(1)] by (simp add: clear_map_def Let_def)
  qed
  with copied_fold [OF clear k tmap_wf_distinct [OF client_map_wf [OF N k]]]
  obtain s2 where s2: "fold_outcome (copy_user N k) (st_users N ! k) (clear_map k s1) = Inr s2"
      "users_copied N (st_next s) (Suc k) ((?src(k := Map.empty))(k := (?src(k := Map.empty)) k ++ map_of (st_users N ! k))) s2"
    by blast
  moreover have "(?src(k := Map.empty))(k := (?src(k := Map.empty)) k ++ map_of (st_users N ! k)) = ?src"
    by (auto simp: fun_eq_iff tmap_find_def)
  moreover from s2(1) have "copy_map N k s1 = Inr s2" by (simp add: copy_map_def)
  ultimately show ?case using s1(1) by (simp add: fold_outcome_append)
qed

text \<open>A finished copy is in order and holds the users of the original, elsewhere.\<close>

lemma copied_done:
  assumes N: "client_wf N" and "0 < base"
    and c: "users_copied N base 4 (\<lambda>i uid. tmap_find uid (st_users N ! i)) s"
  shows "client_wf s" and "(\<exists>a. client_at s uid a u) \<longleftrightarrow> (\<exists>b. client_at N uid b u)"
proof -
  note D = copiedD [OF c]
  have in_map: "\<exists>u. client_at s uid a u \<and> user_class u = i \<and> (\<exists>b. client_at N uid b u) \<and> base \<le> a \<and> a < st_next s"
    if i: "i < 4" and a: "tmap_find uid (st_users s ! i) = Some a" for uid a i
  proof -
    obtain b where b: "tmap_find uid (st_users N ! i) = Some b"
      using D(7) [OF i, of uid] a by (cases "tmap_find uid (st_users N ! i)") auto
    then obtain u where u: "client_at N uid b u" "user_class u = i" using client_map_iff [OF N i] by blast
    have "base \<le> a \<and> a < st_next s \<and> st_objects s a = st_objects N b" by (rule D(8) [OF i a b])
    moreover have "tmap_find uid (st_index s) = Some a" using D(6) i a by blast
    ultimately show ?thesis using u by (auto simp: client_at_def)
  qed
  have in_index: "\<exists>i < 4. tmap_find uid (st_users s ! i) = Some a" if "client_at s uid a u" for uid a u
    using that D(6) [of uid a] by (simp add: client_at_def)
  show "client_wf s"
  proof (rule client_wfI)
    show "0 < st_next s" using assms(2) D(3) by simp
    fix uid a
    assume "tmap_find uid (st_index s) = Some a"
    then obtain i where i: "i < 4" "tmap_find uid (st_users s ! i) = Some a" using D(6) by blast
    from in_map [OF this] obtain u b where u: "client_at s uid a u" "client_at N uid b u" "base \<le> a" "a < st_next s"
      by blast
    then show "a \<noteq> nullptr \<and> a < st_next s \<and> (\<exists>u. st_objects s a = Some u \<and> cu_id u = uid)"
      using client_atD(3) [OF N u(2)] assms(2) by (auto simp: client_at_def nullptr_def)
  next
    fix i uid a
    assume i: "i < (4::nat)"
    show "tmap_find uid (st_users s ! i) = Some a \<longleftrightarrow> (\<exists>u. client_at s uid a u \<and> user_class u = i)"
    proof
      assume "tmap_find uid (st_users s ! i) = Some a"
      from in_map [OF i this] show "\<exists>u. client_at s uid a u \<and> user_class u = i" by blast
    next
      assume "\<exists>u. client_at s uid a u \<and> user_class u = i"
      then obtain u where u: "client_at s uid a u" "user_class u = i" by blast
      obtain j where j: "j < 4" "tmap_find uid (st_users s ! j) = Some a" using in_index [OF u(1)] by blast
      from in_map [OF this] have "user_class u = j" using client_at_unique [OF u(1)] by blast
      then show "tmap_find uid (st_users s ! i) = Some a" using j u(2) by simp
    qed
  qed (use D in simp_all)
  show "(\<exists>a. client_at s uid a u) \<longleftrightarrow> (\<exists>b. client_at N uid b u)"
  proof
    assume "\<exists>a. client_at s uid a u"
    then obtain a where a: "client_at s uid a u" by blast
    then obtain i where i: "i < 4" "tmap_find uid (st_users s ! i) = Some a" using in_index by blast
    from in_map [OF this] show "\<exists>b. client_at N uid b u" using client_at_unique [OF a] by blast
  next
    assume "\<exists>b. client_at N uid b u"
    then obtain b where b: "client_at N uid b u" by blast
    have i: "user_class u < 4" by simp
    have m: "tmap_find uid (st_users N ! user_class u) = Some b" using client_map_iff [OF N i] b by blast
    then obtain a where a: "tmap_find uid (st_users s ! user_class u) = Some a"
      using D(7) [OF i, of uid] by (cases "tmap_find uid (st_users s ! user_class u)") auto
    have "st_objects s a = st_objects N b" using D(8) [OF i a m] by blast
    moreover have "tmap_find uid (st_index s) = Some a" using D(6) i a by blast
    ultimately have "client_at s uid a u" using b by (simp add: client_at_def)
    then show "\<exists>a. client_at s uid a u" ..
  qed
qed

section \<open>The next minute\<close>

lemma setNextMinuteData_ok:
  assumes wf: "client_wf s" and N: "client_wf N"
  shows "\<exists>r s'. setNextMinuteData N s = Inr (r, s') \<and> client_wf s' \<and> places_known s' \<and> client_ranked s' \<and>
    st_report s' = validation_report_new \<and>
    (\<forall>uid. (\<exists>a v. client_at s' uid a v \<and> cu_rating_update (\<lambda>_. 0) v = u0) \<longleftrightarrow>
           (\<exists>b u. client_at N uid b u \<and> cu_rating_update (\<lambda>_. 0) u = u0))"
proof -
  obtain r where r: "publishValidationReport s = Inr r" using publish_ok [OF wf] by blast
  obtain s1 where s1: "fold_outcome (copy_map N) [0..<4] (s\<lparr>st_index := []\<rparr>) = Inr s1"
      "users_copied N (st_next s) 4 (\<lambda>i uid. tmap_find uid (st_users N ! i)) s1"
    using copied_maps [OF wf N, of 4] by auto
  have base: "0 < st_next s" using wf by (simp add: client_wf_def)
  let ?s1 = "s1\<lparr>st_report := validation_report_new\<rparr>"
  have at: "client_at ?s1 = client_at s1" by (simp add: client_at_def fun_eq_iff)
  have wf1: "client_wf ?s1"
    using copied_done(1) [OF N base s1(2)] by (simp add: client_wf_def index_ok_def maps_ok_def at)
  obtain s2 where s2: "recalculateRating ?s1 = Inr s2" "same_users ?s1 s2" "client_wf s2" "places_known s2" "client_ranked s2"
    using recalculateRating_ok [OF wf1] by blast
  have "setNextMinuteData N s = Inr (r, s2)"
    using r s1(1) s2(1) by (simp add: setNextMinuteData_def)
  moreover have "st_report s2 = validation_report_new" using s2(2) by (simp add: same_users_def)
  moreover have "(\<exists>a v. client_at s2 uid a v \<and> cu_rating_update (\<lambda>_. 0) v = u0) \<longleftrightarrow>
      (\<exists>b u. client_at N uid b u \<and> cu_rating_update (\<lambda>_. 0) u = u0)" for uid
  proof -
    have "(\<exists>u. client_at ?s1 uid a u \<and> cu_rating_update (\<lambda>_. 0) u = u0) \<longleftrightarrow>
        (\<exists>v. client_at s2 uid a v \<and> cu_rating_update (\<lambda>_. 0) v = u0)" for a
      by (rule same_users_ex [OF s2(2)]) simp
    then show ?thesis using copied_done(2) [OF N base s1(2), of uid] at by metis
  qed
  ultimately show ?thesis using s2(3-5) by blast
qed

end
