(* ===== verification/Client_Check.thy ===== *)
theory Client_Check
  imports Client_Minute Worker_Pool
begin

text \<open>
  What the client's check of a rating message means: on a storage in order it never fails, and it counts
  the rating as valid exactly when its size, the place of the user and every entry fit the client's own
  rating (\<open>rating_good\<close>). The message the service means for a user is such a one, when both sides rank
  the same users.
\<close>

section \<open>One entry\<close>

lemma client_at_iff: "client_at s uid a u \<Longrightarrow> client_at s uid b v \<longleftrightarrow> b = a \<and> v = u"
  using client_at_unique by blast

definition entry_good :: "client_storage \<Rightarrow> rating_entry \<Rightarrow> int \<Rightarrow> bool" where
  "entry_good s e pl \<longleftrightarrow>
    (\<exists>a u. client_at s (entry_id e) a u \<and>
      (if cu_winnings u = entry_winnings e then cu_rating u = pl
       else entry_winnings e \<in> set (winningsHistory u)) \<and>
      (cu_name u = entry_name e \<or> entry_name e \<in> set (nameList u)))"

text \<open>A change of the details of the report, and of nothing else.\<close>

definition only_details :: "client_storage \<Rightarrow> client_storage \<Rightarrow> bool" where
  "only_details s s' \<longleftrightarrow>
    (\<exists>r. s' = s\<lparr>st_report := r\<rparr> \<and> failures r = failures (st_report s) \<and>
      validRatings r = validRatings (st_report s) \<and> incomingRatings r = incomingRatings (st_report s))"

lemma only_details_refl [simp]: "only_details s s"
  by (auto simp: only_details_def intro: exI [of _ "st_report s"])

lemma only_details_trans: "only_details s s1 \<Longrightarrow> only_details s1 s2 \<Longrightarrow> only_details s s2"
  by (auto simp: only_details_def)

lemma only_details_count:
  "failures (f (st_report s)) = failures (st_report s) \<Longrightarrow>
   validRatings (f (st_report s)) = validRatings (st_report s) \<Longrightarrow>
   incomingRatings (f (st_report s)) = incomingRatings (st_report s) \<Longrightarrow> only_details s (count_report f s)"
  by (auto simp: only_details_def count_report_def)

lemma client_at_report [simp]: "client_at (s\<lparr>st_report := r\<rparr>) = client_at s"
  by (simp add: client_at_def fun_eq_iff)

lemma client_wf_report [simp]: "client_wf (s\<lparr>st_report := r\<rparr>) = client_wf s"
  by (simp add: client_wf_def index_ok_def maps_ok_def)

lemma only_detailsD:
  assumes "only_details s s'"
  shows "client_at s' = client_at s" "client_wf s' = client_wf s" "st_rating s' = st_rating s"
    "st_index s' = st_index s" "entry_good s' = entry_good s"
    "failures (st_report s') = failures (st_report s)"
    "validRatings (st_report s') = validRatings (st_report s)"
    "incomingRatings (st_report s') = incomingRatings (st_report s)"
proof -
  obtain r where "s' = s\<lparr>st_report := r\<rparr>" "failures r = failures (st_report s)"
      "validRatings r = validRatings (st_report s)" "incomingRatings r = incomingRatings (st_report s)"
    using assms by (auto simp: only_details_def)
  then show "client_at s' = client_at s" "client_wf s' = client_wf s" "st_rating s' = st_rating s"
    "st_index s' = st_index s" "entry_good s' = entry_good s"
    "failures (st_report s') = failures (st_report s)"
    "validRatings (st_report s') = validRatings (st_report s)"
    "incomingRatings (st_report s') = incomingRatings (st_report s)"
    by (simp_all add: entry_good_def [abs_def])
qed

lemma validateSingleRating_ok:
  assumes wf: "client_wf s"
  shows "\<exists>r s'. validateSingleRating e pl s = Inr (r, s') \<and> only_details s s' \<and>
    (r = 0 \<longleftrightarrow> entry_good s e pl)"
proof (cases "tmap_find (entry_id e) (st_index s)")
  case None
  then have "validateSingleRating e pl s = Inr (1, s)" and "\<not> entry_good s e pl"
    by (simp_all add: validateSingleRating_def entry_good_def client_at_def)
  then show ?thesis by simp
next
  case (Some a)
  then obtain u where u: "client_at s (entry_id e) a u" using client_indexed [OF wf] by blast
  have good: "entry_good s e pl \<longleftrightarrow>
      (if cu_winnings u = entry_winnings e then cu_rating u = pl
       else entry_winnings e \<in> set (winningsHistory u)) \<and>
      (cu_name u = entry_name e \<or> entry_name e \<in> set (nameList u))"
    by (simp add: entry_good_def client_at_iff [OF u])
  have d: "deref (st_objects s) a = Inr u" using client_atD [OF wf u] by simp
  have c: "only_details s (count_report (outdatedWinnings_update plus1) s)"
    by (rule only_details_count) simp_all
  let ?r0 = "if cu_rating u = pl then 0 else 2 :: int"
  let ?outdated = "cu_winnings u \<noteq> entry_winnings e \<and> entry_winnings e \<in> set (winningsHistory u)"
  let ?r1 = "if cu_winnings u = entry_winnings e then ?r0 else if ?outdated then ?r0 AND NOT 2 else ?r0 OR 4"
  let ?r2 = "if cu_name u = entry_name e \<or> entry_name e \<in> set (nameList u) then ?r1 else ?r1 OR 8"
  let ?s = "if ?outdated then count_report (outdatedWinnings_update plus1) s else s"
  have "validateSingleRating e pl s = Inr (?r2, ?s)"
    by (cases "cu_rating u = pl"; cases "cu_winnings u = entry_winnings e";
        cases "entry_winnings e \<in> set (winningsHistory u)";
        cases "cu_name u = entry_name e \<or> entry_name e \<in> set (nameList u)")
       (simp_all add: validateSingleRating_def Some d)
  moreover have "only_details s ?s" using c by simp
  moreover have "?r2 = 0 \<longleftrightarrow> entry_good s e pl"
    unfolding good
    by (cases "cu_rating u = pl"; cases "cu_winnings u = entry_winnings e";
        cases "entry_winnings e \<in> set (winningsHistory u)";
        cases "cu_name u = entry_name e \<or> entry_name e \<in> set (nameList u)") simp_all
  ultimately show ?thesis by blast
qed

section \<open>The loops over the entries\<close>

lemma check_entry_ok:
  assumes "client_wf s" and f: "\<And>r. failures (f r) = failures r"
    "\<And>r. validRatings (f r) = validRatings r" "\<And>r. incomingRatings (f r) = incomingRatings r"
  shows "\<exists>s'. check_entry f (e, pl) (failed, s) = Inr (failed \<or> \<not> entry_good s e pl, s') \<and>
    only_details s s'"
proof -
  obtain r s1 where s1: "validateSingleRating e pl s = Inr (r, s1)" "only_details s s1"
      "r = 0 \<longleftrightarrow> entry_good s e pl"
    using validateSingleRating_ok [OF assms(1)] by blast
  have "only_details s1 (count_report f s1)" by (rule only_details_count) (simp_all add: f)
  then show ?thesis using s1 only_details_trans by (auto simp: check_entry_def)
qed

lemma check_entries:
  assumes f: "\<And>r. failures (f r) = failures r"
    "\<And>r. validRatings (f r) = validRatings r" "\<And>r. incomingRatings (f r) = incomingRatings r"
  shows "client_wf s \<Longrightarrow> \<exists>s'. fold_outcome (check_entry f) eps (failed, s) =
      Inr (failed \<or> (\<exists>(e, pl) \<in> set eps. \<not> entry_good s e pl), s') \<and> only_details s s'"
proof (induction eps arbitrary: failed s)
  case (Cons ep eps)
  obtain e pl where ep: "ep = (e, pl)" by fastforce
  obtain s1 where s1: "check_entry f (e, pl) (failed, s) = Inr (failed \<or> \<not> entry_good s e pl, s1)"
      "only_details s s1"
    using check_entry_ok [OF Cons.prems f] by blast
  obtain s2 where s2: "fold_outcome (check_entry f) eps (failed \<or> \<not> entry_good s e pl, s1) =
      Inr ((failed \<or> \<not> entry_good s e pl) \<or> (\<exists>(e, pl) \<in> set eps. \<not> entry_good s1 e pl), s2)"
      "only_details s1 s2"
    using Cons.IH [of s1] Cons.prems only_detailsD(2) [OF s1(2)] by blast
  have "fold_outcome (check_entry f) (ep # eps) (failed, s) =
      Inr ((failed \<or> \<not> entry_good s e pl) \<or> (\<exists>(e, pl) \<in> set eps. \<not> entry_good s e pl), s2)"
    using s1 s2 ep only_detailsD(5) [OF s1(2)] by simp
  moreover have "only_details s s2" using only_details_trans [OF s1(2) s2(2)] .
  ultimately show ?case using ep by (intro exI [of _ s2]) auto
qed simp

section \<open>The verdict\<close>

definition place_good :: "client_storage \<Rightarrow> rating_pack_message \<Rightarrow> bool" where
  "place_good s r \<longleftrightarrow>
    (\<exists>a u. client_at s (rp_userId r) a u \<and>
      (if cu_rating u = invalidRating then rp_ratingLength r else cu_rating u) = rp_ratingPos r)"

definition top_good :: "client_storage \<Rightarrow> rating_pack_message \<Rightarrow> bool" where
  "top_good s r \<longleftrightarrow>
    (\<forall>i < nat (min (int_of_size (length (rp_ratings r))) topPositions). entry_good s (rp_ratings r ! i) (int i))"

definition surroundings_good :: "client_storage \<Rightarrow> rating_pack_message \<Rightarrow> bool" where
  "surroundings_good s r \<longleftrightarrow>
    (\<forall>i < length (rp_ratings r). topPositions \<le> int i \<longrightarrow>
      entry_good s (rp_ratings r ! i)
        (max topPositions (rp_ratingPos r - competitionDistance) + (int i - topPositions)))"

definition rating_good :: "client_storage \<Rightarrow> rating_pack_message \<Rightarrow> bool" where
  "rating_good s r \<longleftrightarrow>
    0 \<le> rp_userId r \<and> size_t_of (rp_userId r) < int (length (st_index s)) \<and>
    size_t_of (rp_ratingLength r) = int (length (st_rating s)) \<and>
    place_good s r \<and> top_good s r \<and> (rp_ratingLength r > topPositions \<longrightarrow> surroundings_good s r)"

text \<open>What the storage looks like after the check: the report, and the mark at the user.\<close>

definition rating_marked :: "client_storage \<Rightarrow> rating_pack_message \<Rightarrow> client_storage \<Rightarrow> bool" where
  "rating_marked s r s' \<longleftrightarrow>
    (case tmap_find (rp_userId r) (st_index s) of
       None \<Rightarrow> only_details s s'
     | Some a \<Rightarrow> \<exists>u. client_at s (rp_userId r) a u \<and> only_details (put_user a (u\<lparr>ratingReceived := True\<rparr>) s) s')"

lemma entry_good_mark:
  assumes wf: "client_wf s" and at: "client_at s uid a u"
  shows "entry_good (put_user a (u\<lparr>ratingReceived := True\<rparr>) s) = entry_good s"
proof -
  let ?s = "put_user a (u\<lparr>ratingReceived := True\<rparr>) s"
  have "entry_good ?s e pl \<longleftrightarrow> entry_good s e pl" for e pl
  proof (cases "entry_id e = uid")
    case True
    have "client_at s uid b v \<longleftrightarrow> b = a \<and> v = u" for b v
      using client_at_unique [OF at] at by blast
    then show ?thesis using True by (simp add: entry_good_def client_at_put [OF wf at])
  next
    case False
    then show ?thesis by (simp add: entry_good_def client_at_put [OF wf at])
  qed
  then show ?thesis by (simp add: fun_eq_iff)
qed

lemma check_place_ok:
  assumes wf: "client_wf s"
  shows "\<exists>s'. check_place r (failed, s) = Inr (failed \<or> \<not> place_good s r, s') \<and> rating_marked s r s' \<and>
    client_wf s' \<and> entry_good s' = entry_good s \<and> st_rating s' = st_rating s"
proof (cases "tmap_find (rp_userId r) (st_index s)")
  case None
  have "only_details s (count_report (userNotFound_update plus1) s)"
    by (rule only_details_count) simp_all
  note od = only_detailsD(2,3,5) [OF this] this
  have "check_place r (failed, s) = Inr (True, count_report (userNotFound_update plus1) s)"
    using None by (simp add: check_place_def)
  moreover have "\<not> place_good s r" using None by (simp add: place_good_def client_at_def)
  ultimately show ?thesis using None od wf
    by (intro exI [of _ "count_report (userNotFound_update plus1) s"]) (simp add: rating_marked_def)
next
  case (Some a)
  then obtain u where u: "client_at s (rp_userId r) a u" using client_indexed [OF wf] by blast
  let ?s = "put_user a (u\<lparr>ratingReceived := True\<rparr>) s"
  have wf': "client_wf ?s"
    by (rule client_wf_put [OF wf u]) (use client_atD(3) [OF wf u] in \<open>simp_all add: user_class_def\<close>)
  have c: "only_details ?s (count_report (userPositionWrong_update plus1) ?s)"
    by (rule only_details_count) simp_all
  have d: "deref (st_objects s) a = Inr u" using client_atD [OF wf u] by simp
  have good: "place_good s r \<longleftrightarrow>
      (if cu_rating u = invalidRating then rp_ratingLength r else cu_rating u) = rp_ratingPos r"
    by (simp add: place_good_def client_at_iff [OF u])
  let ?s' = "if place_good s r then ?s else count_report (userPositionWrong_update plus1) ?s"
  have od: "only_details ?s ?s'" using c by simp
  have "check_place r (failed, s) = Inr (failed \<or> \<not> place_good s r, ?s')"
    using good by (auto simp: check_place_def Some d Let_def)
  moreover have "rating_marked s r ?s'" using u od Some by (auto simp: rating_marked_def)
  ultimately show ?thesis
    using only_detailsD(2,3,5) [OF od] wf' entry_good_mark [OF wf u] by (intro exI [of _ ?s']) simp
qed

lemma check_top_ok:
  assumes "client_wf s"
  shows "\<exists>s'. check_top r (failed, s) = Inr (failed \<or> \<not> top_good s r, s') \<and> only_details s s'"
  using check_entries [of "topPositionsWrong_update plus1" s
      "map (\<lambda>i. (rp_ratings r ! i, int i)) [0..<nat (min (int_of_size (length (rp_ratings r))) topPositions)]" failed]
    assms
  by (auto simp: check_top_def Let_def top_good_def)

lemma check_surroundings_ok:
  assumes "client_wf s"
  shows "\<exists>s'. check_surroundings r (failed, s) =
      Inr (failed \<or> \<not> (rp_ratingLength r > topPositions \<longrightarrow> surroundings_good s r), s') \<and> only_details s s'"
proof -
  let ?pl = "\<lambda>i. max topPositions (rp_ratingPos r - competitionDistance) + (int i - topPositions)"
  let ?eps = "map (\<lambda>i. (rp_ratings r ! i, ?pl i)) [nat topPositions..<length (rp_ratings r)]"
  have "(\<exists>(e, pl) \<in> set ?eps. \<not> entry_good s e pl) \<longleftrightarrow> \<not> surroundings_good s r"
    by (auto simp: surroundings_good_def topPositions_def)
  then show ?thesis
    using check_entries [of "surroundingsWrong_update plus1" s ?eps failed] assms
    by (auto simp: check_surroundings_def Let_def)
qed

text \<open>The second a user is connected since.\<close>

definition user_second :: "client_storage \<Rightarrow> int \<Rightarrow> connect_time_t \<Rightarrow> bool" where
  "user_second s uid t \<longleftrightarrow> (\<exists>a u. client_at s uid a u \<and> cu_second u = t)"

lemma user_secondI: "client_at s uid a u \<Longrightarrow> user_second s uid (cu_second u)"
  by (auto simp: user_second_def)

lemma user_second_put:
  assumes "client_wf s" and "client_at s uid a u"
  shows "user_second (put_user a u' s) = (user_second s)(uid := (\<lambda>t. t = cu_second u'))"
  by (auto simp: fun_eq_iff user_second_def client_at_put [OF assms])

lemma user_second_here:
  assumes "client_at s uid a u"
  shows "user_second s uid = (\<lambda>t. t = cu_second u)"
  using assms client_at_iff [OF assms] by (auto simp: fun_eq_iff user_second_def)

lemma user_second_report [simp]: "user_second (s\<lparr>st_report := r\<rparr>) = user_second s"
  by (simp add: user_second_def fun_eq_iff)

lemma only_details_second: "only_details s s' \<Longrightarrow> user_second s' = user_second s"
  using only_detailsD(1) [of s s'] by (simp add: user_second_def fun_eq_iff)

lemma marked_second:
  assumes wf: "client_wf s" and "rating_marked s r s'"
  shows "user_second s' = user_second s"
proof (cases "tmap_find (rp_userId r) (st_index s)")
  case None
  then show ?thesis using assms(2) only_details_second by (simp add: rating_marked_def)
next
  case (Some a)
  then obtain u where u: "client_at s (rp_userId r) a u"
      "only_details (put_user a (u\<lparr>ratingReceived := True\<rparr>) s) s'"
    using assms(2) by (auto simp: rating_marked_def)
  show ?thesis
    unfolding only_details_second [OF u(2)] user_second_put [OF wf u(1)]
    using user_second_here [OF u(1)] by auto
qed

text \<open>
  The check always ends, marks the user, and counts the rating as valid or as a failure according to
  \<open>rating_good\<close>.
\<close>

definition verdict :: "bool \<Rightarrow> validation_report \<Rightarrow> validation_report \<Rightarrow> bool" where
  "verdict good r r' \<longleftrightarrow>
    incomingRatings r' = incomingRatings r + 1 \<and>
    validRatings r' = validRatings r + (if good then 1 else 0) \<and>
    failures r' = failures r + (if good then 0 else 1)"

lemma count_report_sel [simp]:
  "st_objects (count_report f s) = st_objects s" "st_next (count_report f s) = st_next s"
  "st_users (count_report f s) = st_users s" "st_index (count_report f s) = st_index s"
  "st_rating (count_report f s) = st_rating s" "st_report (count_report f s) = f (st_report s)"
  by (simp_all add: count_report_def)

lemma client_count_report [simp]:
  "client_at (count_report f s) = client_at s" "client_wf (count_report f s) = client_wf s"
  "entry_good (count_report f s) = entry_good s" "user_second (count_report f s) = user_second s"
  by (simp_all add: count_report_def entry_good_def [abs_def])

lemma marked_report:
  assumes "rating_marked s r s'"
  shows "failures (st_report s') = failures (st_report s)"
    "validRatings (st_report s') = validRatings (st_report s)"
    "incomingRatings (st_report s') = incomingRatings (st_report s)"
proof -
  obtain s1 where "only_details s1 s'" "st_report s1 = st_report s"
    using assms by (auto simp: rating_marked_def split: option.splits)
  then show "failures (st_report s') = failures (st_report s)"
    "validRatings (st_report s') = validRatings (st_report s)"
    "incomingRatings (st_report s') = incomingRatings (st_report s)"
    using only_detailsD(6-8) [of s1 s'] by simp_all
qed

lemma validateRating_ok:
  assumes wf: "client_wf s"
  shows "\<exists>s'. validateRating r s = Inr s' \<and> client_wf s' \<and> user_second s' = user_second s \<and>
    verdict (rating_good s r) (st_report s) (st_report s')"
proof (cases "rp_userId r < 0 \<or> size_t_of (rp_userId r) \<ge> int (length (st_index s))")
  case True
  then have "\<not> rating_good s r" by (auto simp: rating_good_def)
  then show ?thesis using True wf by (simp add: validateRating_def verdict_def Let_def)
next
  case False
  define bad where "bad \<longleftrightarrow> size_t_of (rp_ratingLength r) \<noteq> int (length (st_rating s))"
  define s1 where "s1 = count_report (incomingRatings_update plus1) s"
  define s2 where "s2 = (if bad then count_report (ratingSizeWrong_update plus1) s1 else s1)"
  define good where "good \<longleftrightarrow> rating_good s r"
  have size: "check_size r s1 = (bad, s2)" by (simp add: check_size_def s1_def s2_def bad_def)
  have s2: "client_wf s2" "entry_good s2 = entry_good s" "client_at s2 = client_at s"
      "failures (st_report s2) = failures (st_report s)"
      "validRatings (st_report s2) = validRatings (st_report s)"
      "incomingRatings (st_report s2) = incomingRatings (st_report s) + 1"
    using wf by (simp_all add: s1_def s2_def)
  have place: "place_good s2 r = place_good s r" by (simp add: place_good_def s2(3))
  obtain b3 s3 where s3: "check_place r (bad, s2) = Inr (b3, s3)" "b3 \<longleftrightarrow> bad \<or> \<not> place_good s r"
      "rating_marked s2 r s3" "client_wf s3" "entry_good s3 = entry_good s"
    using check_place_ok [OF s2(1), of r bad] unfolding s2(2) place by blast
  obtain b4 s4 where s4: "check_top r (b3, s3) = Inr (b4, s4)" "b4 \<longleftrightarrow> b3 \<or> \<not> top_good s3 r"
      "only_details s3 s4"
    using check_top_ok [OF s3(4)] by blast
  have wf4: "client_wf s4" using only_detailsD(2) [OF s4(3)] s3(4) by simp
  obtain b5 s5 where s5: "check_surroundings r (b4, s4) = Inr (b5, s5)"
      "b5 \<longleftrightarrow> b4 \<or> \<not> (rp_ratingLength r > topPositions \<longrightarrow> surroundings_good s4 r)" "only_details s4 s5"
    using check_surroundings_ok [OF wf4] by blast
  have top: "top_good s3 r = top_good s r" by (simp add: top_good_def s3(5))
  have sur: "surroundings_good s4 r = surroundings_good s r"
    by (simp add: surroundings_good_def only_detailsD(5) [OF s4(3)] s3(5))
  have b5: "b5 \<longleftrightarrow> \<not> good"
    using False unfolding s5(2) s4(2) s3(2) top sur good_def rating_good_def bad_def by auto
  have "validateRating r s =
      Inr (if b5 then count_report (failures_update plus1) s5 else count_report (validRatings_update plus1) s5)"
    using False size s3(1) s4(1) s5(1) by (simp add: validateRating_def s1_def [symmetric])
  moreover have "failures (st_report s5) = failures (st_report s)"
      "validRatings (st_report s5) = validRatings (st_report s)"
      "incomingRatings (st_report s5) = incomingRatings (st_report s) + 1"
    unfolding only_detailsD(6-8) [OF s5(3)] only_detailsD(6-8) [OF s4(3)] marked_report [OF s3(3)]
    using s2(4-6) by simp_all
  moreover have "client_wf s5" using only_detailsD(2) [OF s5(3)] wf4 by simp
  moreover have "user_second s5 = user_second s"
    unfolding only_details_second [OF s5(3)] only_details_second [OF s4(3)] marked_second [OF s2(1) s3(3)]
    by (simp add: s1_def s2_def)
  ultimately show ?thesis unfolding good_def [symmetric] b5 by (cases good) (simp_all add: verdict_def)
qed

section \<open>The service's message is accepted\<close>

text \<open>
  The client mirrors the service when the same users stand at the same places with the same amounts;
  a name the user had before is as good as the one he has.
\<close>

definition mirrors :: "client_storage \<Rightarrow> core_rating_data \<Rightarrow> bool" where
  "mirrors s c \<longleftrightarrow> length (st_rating s) = length (rating_vector c) \<and>
    (\<forall>i < length (rating_vector c). entry_good s (entry_at c i) (int i))"

lemma told_top:
  assumes "pos \<le> n" and "i < min 10 (length (told_positions n pos))"
  shows "told_positions n pos ! i = i" and "i < n"
proof -
  have "told_positions n pos ! i = i \<and> i < n"
  proof (cases "n \<le> 10")
    case True
    then show ?thesis using assms by (auto simp: told_positions_split nth_append min_def max_def split: if_splits)
  next
    case False
    then show ?thesis using assms(2) by (simp add: told_positions_split nth_append)
  qed
  then show "told_positions n pos ! i = i" "i < n" by simp_all
qed

lemma told_surroundings:
  assumes "10 < n" and "10 \<le> i" and "i < length (told_positions n pos)"
  shows "told_positions n pos ! i = max 10 (pos - 10) + (i - 10)" and "told_positions n pos ! i < n"
proof -
  show "told_positions n pos ! i = max 10 (pos - 10) + (i - 10)"
  proof -
    let ?a = "max 10 (pos - 10)" and ?b = "min n (pos + 11)"
    have "i < 10 + (?b - ?a)" using assms by (simp add: told_positions_split)
    then have "?a + (i - 10) < ?b" using assms(2) by linarith
    then have "[?a..<?b] ! (i - 10) = ?a + (i - 10)" by (rule nth_upt)
    then show ?thesis using assms by (simp add: told_positions_split nth_append)
  qed
  show "told_positions n pos ! i < n" using assms(3) told_positions_bound nth_mem by blast
qed

lemma pack_for_good:
  assumes mirror: "mirrors s c" and n: "int (length (rating_vector c)) \<le> INT_MAX"
    and pos: "pos \<le> length (rating_vector c)" and at: "client_at s uid a u"
    and place: "cu_rating u = int pos \<or> cu_rating u = invalidRating \<and> pos = length (rating_vector c)"
    and uid: "0 \<le> uid" "uid < int (length (st_index s))" "uid < 2 ^ 64"
  shows "rating_good s (pack_for c uid pos)"
proof -
  let ?n = "length (rating_vector c)" and ?told = "told_positions (length (rating_vector c)) pos"
  have len: "int (length ?told) \<le> 31"
    using length_told_positions [OF pos] ratingEntryCount_bound by simp
  have good: "entry_good s (entry_at c i) (int i)" if "i < ?n" for i
    using mirror that by (simp add: mirrors_def)
  have "top_good s (pack_for c uid pos)"
    unfolding top_good_def
  proof (intro allI impI)
    fix i
    assume "i < nat (min (int_of_size (length (rp_ratings (pack_for c uid pos)))) topPositions)"
    then have i: "i < min 10 (length ?told)"
      using len by (simp add: pack_for_def topPositions_def INT_MAX_def) linarith
    from told_top [OF pos i] show "entry_good s (rp_ratings (pack_for c uid pos) ! i) (int i)"
      using good i by (simp add: pack_for_def)
  qed
  moreover have "surroundings_good s (pack_for c uid pos)" if "10 < ?n"
    unfolding surroundings_good_def
  proof (intro allI impI)
    fix i
    assume i: "i < length (rp_ratings (pack_for c uid pos))" "topPositions \<le> int i"
    then have i': "10 \<le> i" "i < length ?told" by (simp_all add: pack_for_def topPositions_def)
    have "max topPositions (rp_ratingPos (pack_for c uid pos) - competitionDistance) + (int i - topPositions) =
        int (?told ! i)"
      using told_surroundings(1) [OF that i'] i'(1)
      by (simp add: pack_for_def topPositions_def competitionDistance_def of_nat_diff of_nat_max)
    then show "entry_good s (rp_ratings (pack_for c uid pos) ! i)
        (max topPositions (rp_ratingPos (pack_for c uid pos) - competitionDistance) + (int i - topPositions))"
      using told_surroundings(2) [OF that i'] good i'(2) by (simp add: pack_for_def)
  qed
  moreover have "place_good s (pack_for c uid pos)"
    using place by (auto simp: place_good_def client_at_iff [OF at] pack_for_def invalidRating_def)
  ultimately show ?thesis
    using mirror n uid by (simp add: rating_good_def pack_for_def mirrors_def size_t_of_small topPositions_def)
qed

end
