(* ===== verification/Name_Generator.thy ===== *)
theory Name_Generator
  imports Client_Storage
begin

text \<open>
  \<open>test/name_generator.cpp\<close>: the names of the client's users, a first name, a last name and a number.
  The two indexes run around their arrays, so no name is read behind an end and every name fits the
  length byte of a message.
\<close>

definition bytes_of_string :: "string \<Rightarrow> buffer_t" where
  "bytes_of_string s = map of_char s"

definition firstNames :: "string list" where
  "firstNames =
    [''Johnny'', ''David'', ''Maria'', ''Michael'', ''Hannah'', ''Jacob'', ''Alex'', ''Sarah'', ''Ashley'',
     ''Austin'', ''Rachel'', ''Tyler'', ''Taylor'', ''Andrew'', ''Jessica'', ''Daniel'', ''Katie'',
     ''Emma'', ''Matthew'', ''Lauren'', ''Ryan'', ''Samantha'', ''Bill'']"

definition lastNames :: "string list" where
  "lastNames =
    [''Smith'', ''Johnson'', ''Williams'', ''Jones'', ''Brown'', ''Davis'', ''Miller'', ''Wilson'',
     ''Moore'', ''Anderson'', ''Thomas'', ''Thomas'', ''Jackson'', ''White'', ''Harris'', ''Martin'',
     ''Thompson'', ''Garcia'', ''Martinez'', ''Robinson'', ''Clark'', ''Rodriguez'', ''Lewis'', ''Lee'',
     ''Walker'', ''Hall'', ''Allen'', ''Young'', ''King'', ''Hernandez'', ''Wright'']"

text \<open>The static variables of \<open>newName\<close>.\<close>

record 'g name_generator =
  ng_gen :: 'g
  nameIndex :: nat
  lastNameIndex :: nat

definition show_int :: "int \<Rightarrow> string" where
  "show_int i = (if i < 0 then CHR ''-'' # decimal (nat (- i)) else decimal (nat i))"

definition array_at :: "'a list \<Rightarrow> nat \<Rightarrow> 'a outcome" where
  "array_at xs i = (if i < length xs then Inr (xs ! i) else Inl (Fault Index_Out_Of_Range))"

definition newName :: "'g distribution \<Rightarrow> 'g name_generator \<Rightarrow> (string \<times> 'g name_generator) outcome" where
  "newName dis ng =
    bind_outcome (array_at firstNames (nameIndex ng)) (\<lambda>name.
    bind_outcome (array_at lastNames (lastNameIndex ng)) (\<lambda>lastName.
    bind_outcome (uniform_draw dis 2 10 (ng_gen ng)) (\<lambda>(n, g).
      let i = nameIndex ng + 1; j = lastNameIndex ng + 1 in
      Inr (name @ '' '' @ lastName @ '' '' @ show_int n,
           \<lparr> ng_gen = g, nameIndex = (if i = 23 then 0 else i), lastNameIndex = (if j = 31 then 0 else j) \<rparr>))))"

definition names_ok :: "'g name_generator \<Rightarrow> bool" where
  "names_ok ng \<longleftrightarrow> nameIndex ng < 23 \<and> lastNameIndex ng < 31"

lemma name_lengths:
  "length firstNames = 23" "length lastNames = 31"
  "\<forall>n \<in> set firstNames. length n \<le> 8" "\<forall>n \<in> set lastNames. length n \<le> 9"
  by (simp_all add: firstNames_def lastNames_def)

lemma length_decimal_digits: "n < 100 \<Longrightarrow> length (decimal n) \<le> 2"
proof (cases "n < 10")
  case True
  then show ?thesis by (simp add: decimal.simps [of n])
next
  case False
  assume "n < 100"
  then have "n div 10 < 10" by simp
  then have "decimal (n div 10) = [char_of (48 + n div 10)]" by (simp add: decimal.simps [of "n div 10"])
  then show ?thesis using False by (simp add: decimal.simps [of n])
qed

lemma newName_ok:
  assumes dis: "draws_between dis" and ok: "names_ok ng"
  shows "\<exists>name ng'. newName dis ng = Inr (name, ng') \<and> length name \<le> 21 \<and> names_ok ng'"
proof -
  obtain n g where n: "uniform_draw dis 2 10 (ng_gen ng) = Inr (n, g)" "2 \<le> n" "n \<le> 10"
    using uniform_draw_ok [OF dis, of 2 10 "ng_gen ng"] by auto
  have i: "nameIndex ng < length firstNames" "lastNameIndex ng < length lastNames"
    using ok by (simp_all add: names_ok_def name_lengths)
  then have "length (firstNames ! nameIndex ng) \<le> 8" "length (lastNames ! lastNameIndex ng) \<le> 9"
    using name_lengths(3,4) nth_mem by blast+
  moreover have "length (show_int n) \<le> 2"
    using n(2,3) length_decimal_digits [of "nat n"] by (simp add: show_int_def)
  ultimately show ?thesis
    using i n(1) ok by (simp add: newName_def array_at_def Let_def names_ok_def)
qed

end
