(* ===== verification/Client_Strategy.thy ===== *)
theory Client_Strategy
  imports Client_Check Name_Generator Date_Time Complex_Main
begin

text \<open>
  \<open>test/strategy.cpp\<close>: the test client's main thread, which sends a random mix of messages second by
  second and keeps two storages, the data of the running minute and those of the last one, and its
  response thread, which checks what comes back against the latter. The two threads share the last
  minute's storage under a spinlock and a stop flag. The model lets the response thread run between the
  messages of the main thread: what its calls of \<open>receive\<close> return at each of these points is an input
  (\<open>sg_replies\<close>). Random draws, \<open>asio::write\<close>, the readings of the clock and the rounding of \<open>double\<close>
  arithmetic are parameters.
\<close>

section \<open>The client's state\<close>

datatype message_kind =
    MC_USER_REGISTERED | MC_USER_RENAMED | MC_USER_CONNECTED | MC_USER_DISCONNECTED
  | MC_USER_DEAL_WON | MC_FAKE_USER

type_synonym message_minute_map = "message_kind list list"

record strategy_config =
  usersAtStart :: int
  newUsers :: rat
  renames :: rat
  connects :: rat
  disconnects :: rat
  wonDeals :: rat
  fakeUserOperations :: rat

text \<open>The defaults; \<open>fl\<close> rounds to the nearest \<open>double\<close>.\<close>

definition strategy_config_new :: "(rat \<Rightarrow> rat) \<Rightarrow> strategy_config" where
  "strategy_config_new fl =
    \<lparr> usersAtStart = 100, newUsers = fl (1 / 15), renames = fl (1 / 20), connects = fl (15 / 50),
      disconnects = fl (1 / 5), wonDeals = fl (1 / 2), fakeUserOperations = fl (1 / 20) \<rparr>"

record ('g, 'n) strategy =
  sg_config :: strategy_config
  sg_cur :: client_storage
  sg_prev :: client_storage
  sg_distrib :: message_minute_map
  sg_badFlag :: bool
  sg_answering :: bool
  sg_replies :: "istream outcome list list"
  sg_gen :: 'g
  sg_names :: "'g name_generator"
  sg_newUserId :: int
  sg_fakeCount :: int
  sg_buffer :: ostream
  sg_net :: 'n

type_synonym ('a, 'g, 'n) client_io = "('a, ('g, 'n) strategy) io"

definition on_cur :: "(client_storage \<Rightarrow> ('a \<times> client_storage) outcome) \<Rightarrow> ('a, 'g, 'n) client_io" where
  "on_cur f st =
    (case f (sg_cur st) of Inl e \<Rightarrow> (Inl e, st) | Inr (a, s) \<Rightarrow> (Inr a, st\<lparr>sg_cur := s\<rparr>))"

definition on_prev :: "(client_storage \<Rightarrow> ('a \<times> client_storage) outcome) \<Rightarrow> ('a, 'g, 'n) client_io" where
  "on_prev f st =
    (case f (sg_prev st) of Inl e \<Rightarrow> (Inl e, st) | Inr (a, s) \<Rightarrow> (Inr a, st\<lparr>sg_prev := s\<rparr>))"

definition draw :: "'g distribution \<Rightarrow> int \<Rightarrow> int \<Rightarrow> (int, 'g, 'n) client_io" where
  "draw dis a b st =
    (case uniform_draw dis a b (sg_gen st) of
       Inl e \<Rightarrow> (Inl e, st) | Inr (i, g) \<Rightarrow> (Inr i, st\<lparr>sg_gen := g\<rparr>))"

definition draw_name :: "'g distribution \<Rightarrow> (buffer_t, 'g, 'n) client_io" where
  "draw_name dis st =
    (case newName dis (sg_names st) of
       Inl e \<Rightarrow> (Inl e, st) | Inr (name, ng) \<Rightarrow> (Inr (bytes_of_string name), st\<lparr>sg_names := ng\<rparr>))"

definition random_user :: "bool \<Rightarrow> 'g distribution \<Rightarrow> user_flags \<Rightarrow> (int, 'g, 'n) client_io" where
  "random_user lenient dis flags st =
    (case uds_getRandomUser lenient dis flags (sg_cur st) (sg_gen st) of
       Inl e \<Rightarrow> (Inl e, st) | Inr (uid, g) \<Rightarrow> (Inr uid, st\<lparr>sg_gen := g\<rparr>))"

section \<open>The message buffer\<close>

definition store_message :: "(ostream \<Rightarrow> ostream outcome) \<Rightarrow> (unit, 'g, 'n) client_io" where
  "store_message f st =
    (case f (sg_buffer st) of Inl e \<Rightarrow> (Inl e, st) | Inr b \<Rightarrow> (Inr (), st\<lparr>sg_buffer := b\<rparr>))"

definition store_named :: "client_message_code \<Rightarrow> int \<Rightarrow> buffer_t \<Rightarrow> (unit, 'g, 'n) client_io" where
  "store_named c uid name = store_message (\<lambda>b.
    bind_outcome (generic_id_name_make uid name) (\<lambda>msg. generic_id_name_store msg (msg_code_prefix c b)))"

definition store_id :: "client_message_code \<Rightarrow> int \<Rightarrow> (unit, 'g, 'n) client_io" where
  "store_id c uid = store_message (\<lambda>b. Inr (generic_id_store \<lparr> m_userId = uid \<rparr> (msg_code_prefix c b)))"

definition store_deal :: "int \<Rightarrow> int \<Rightarrow> (unit, 'g, 'n) client_io" where
  "store_deal uid winnings = store_message (\<lambda>b.
    Inr (user_deal_won_store \<lparr> m_userId = uid, m_winnings = winnings \<rparr> (msg_code_prefix USER_DEAL_WON b)))"

definition write_message :: "'n asio_write \<Rightarrow> (unit, 'g, 'n) client_io" where
  "write_message wr st =
    (case writeMessage wr (sg_buffer st) (sg_net st) of
       (Inl e, n) \<Rightarrow> (Inl e, st\<lparr>sg_buffer := framed (sg_buffer st), sg_net := n\<rparr>)
     | (Inr b, n) \<Rightarrow> (Inr (), st\<lparr>sg_buffer := b, sg_net := n\<rparr>))"

definition rewind_message :: "nat \<Rightarrow> (unit, 'g, 'n) client_io" where
  "rewind_message pos st = (Inr (), st\<lparr>sg_buffer := snd (rewind pos (sg_buffer st))\<rparr>)"

section \<open>One message of each kind\<close>

definition import_user :: "addr \<Rightarrow> (client_user, 'g, 'n) client_io" where
  "import_user a st =
    (case deref (st_objects (sg_cur st)) a of
       Inl e \<Rightarrow> (Inl e, st)
     | Inr u \<Rightarrow> (Inr u, st\<lparr>sg_prev := importNewUser (cu_id u) (cu_name u) (sg_prev st)\<rparr>))"

definition generate_user :: "buffer_t \<Rightarrow> (addr, 'g, 'n) client_io" where
  "generate_user name st =
    (case generateNewUser (sg_newUserId st) name (sg_cur st) of
       Inl e \<Rightarrow> (Inl e, st)
     | Inr (a, newUserId, s) \<Rightarrow> (Inr a, st\<lparr>sg_newUserId := newUserId, sg_cur := s\<rparr>))"

definition register_user :: "'g distribution \<Rightarrow> (unit, 'g, 'n) client_io" where
  "register_user dis =
    io_bind (draw_name dis) (\<lambda>name.
    io_bind (generate_user name) (\<lambda>a.
    io_bind (import_user a) (\<lambda>newUser. store_named USER_REGISTERED (cu_id newUser) (cu_name newUser))))"

definition rename_random :: "bool \<Rightarrow> 'g distribution \<Rightarrow> (unit, 'g, 'n) client_io" where
  "rename_random lenient dis =
    io_bind (random_user lenient dis flag_ANYONE) (\<lambda>uid.
    io_bind (draw_name dis) (\<lambda>newName.
    io_bind (on_cur (renameUser uid newName)) (\<lambda>_.
    io_bind (on_prev (renameUser uid newName)) (\<lambda>_. store_named USER_RENAMED uid newName))))"

definition connect_random :: "bool \<Rightarrow> 'g distribution \<Rightarrow> nat \<Rightarrow> (unit, 'g, 'n) client_io" where
  "connect_random lenient dis currentSecond =
    io_bind (random_user lenient dis flag_DISCONNECTED_ANY) (\<lambda>uid.
    io_bind (on_cur (connectUser uid currentSecond)) (\<lambda>_.
    io_bind (on_prev (connectUser uid currentSecond)) (\<lambda>_. store_id USER_CONNECTED uid)))"

definition disconnect_random :: "bool \<Rightarrow> 'g distribution \<Rightarrow> (unit, 'g, 'n) client_io" where
  "disconnect_random lenient dis =
    io_bind (random_user lenient dis flag_CONNECTED_ANY) (\<lambda>uid.
    io_bind (on_cur (disconnectUser uid)) (\<lambda>_.
    io_bind (on_prev (disconnectUser uid)) (\<lambda>_. store_id USER_DISCONNECTED uid)))"

definition getRandomWinnings :: "'g distribution \<Rightarrow> (int, 'g, 'n) client_io" where
  "getRandomWinnings dis = draw dis 1 500"

definition win_random :: "bool \<Rightarrow> 'g distribution \<Rightarrow> (unit, 'g, 'n) client_io" where
  "win_random lenient dis =
    io_bind (random_user lenient dis flag_CONNECTED_ANY) (\<lambda>uid.
    io_bind (getRandomWinnings dis) (\<lambda>winnings.
    io_bind (on_cur (\<lambda>s. bind_outcome (fixUserWinnings lenient uid winnings s) (\<lambda>s1. Inr ((), s1)))) (\<lambda>_.
      store_deal uid winnings)))"

definition fake_user_id :: "(int, 'g, 'n) client_io" where
  "fake_user_id st =
    (case getFakeUserId (sg_fakeCount st) of
       Inl e \<Rightarrow> (Inl e, st) | Inr (fakeId, n) \<Rightarrow> (Inr fakeId, st\<lparr>sg_fakeCount := n\<rparr>))"

definition fake_random :: "'g distribution \<Rightarrow> (unit, 'g, 'n) client_io" where
  "fake_random dis =
    io_bind (draw dis 1 4) (\<lambda>selectFakeActionType.
    io_bind fake_user_id (\<lambda>fakeId.
      if selectFakeActionType = 1 then store_named USER_RENAMED fakeId (bytes_of_string ''Mr Fake'')
      else if selectFakeActionType = 2 then store_id USER_CONNECTED fakeId
      else if selectFakeActionType = 3 then store_id USER_DISCONNECTED fakeId
      else if selectFakeActionType = 4 then store_deal fakeId 666
      else io_lift (Inl (Fault Assertion_Failed))))"

fun make_message :: "bool \<Rightarrow> 'g distribution \<Rightarrow> nat \<Rightarrow> message_kind \<Rightarrow> (unit, 'g, 'n) client_io" where
  "make_message lenient dis currentSecond MC_USER_REGISTERED = register_user dis"
| "make_message lenient dis currentSecond MC_USER_RENAMED = rename_random lenient dis"
| "make_message lenient dis currentSecond MC_USER_CONNECTED = connect_random lenient dis currentSecond"
| "make_message lenient dis currentSecond MC_USER_DISCONNECTED = disconnect_random lenient dis"
| "make_message lenient dis currentSecond MC_USER_DEAL_WON = win_random lenient dis"
| "make_message lenient dis currentSecond MC_FAKE_USER = fake_random dis"

section \<open>The response thread\<close>

text \<open>
  One turn of \<open>processResponses\<close> on what \<open>receive\<close> returned. A code that is neither of the two is
  ignored; the version error throws.
\<close>

definition process_response :: "istream outcome \<Rightarrow> client_storage \<Rightarrow> client_storage outcome" where
  "process_response received prev =
    bind_outcome received (\<lambda>buffer.
    bind_outcome (get_pod buffer) (\<lambda>(mc, b1).
      if mc = service_code USER_RATING then
        bind_outcome (rating_pack_init b1) (\<lambda>(rating, b2). validateRating rating prev)
      else if mc = service_code PROTOCOL_ERROR then
        bind_outcome (get_pod b1) (\<lambda>(ec, b2).
          case protocol_error_of_number ec of
            None \<Rightarrow> Inl (Fault Assertion_Failed)
          | Some c \<Rightarrow> bind_outcome (error_init b2 (error_default c)) (\<lambda>(error, b3).
              if c = PROTOCOL_VERSION_UNSUPPORTED then Inl (Throw Other_Exception)
              else validateError error prev))
      else Inr prev))"

text \<open>
  An exception sets the flag and ends the thread; so does the flag when it is read before the next
  message.
\<close>

fun process_responses :: "istream outcome list \<Rightarrow> (unit, 'g, 'n) client_io" where
  "process_responses [] st = (Inr (), st)"
| "process_responses (r # rs) st =
    (if \<not> sg_answering st \<or> sg_badFlag st then (Inr (), st\<lparr>sg_answering := False\<rparr>)
     else (case process_response r (sg_prev st) of
             Inr prev \<Rightarrow> process_responses rs (st\<lparr>sg_prev := prev\<rparr>)
           | Inl (Throw e) \<Rightarrow> (Inr (), st\<lparr>sg_badFlag := True, sg_answering := False\<rparr>)
           | Inl (Fault f) \<Rightarrow> (Inl (Fault f), st)))"

text \<open>What the response thread does before the main thread's next message.\<close>

definition other_thread :: "(unit, 'g, 'n) client_io" where
  "other_thread st =
    (case sg_replies st of
       [] \<Rightarrow> (Inr (), st)
     | rs # later \<Rightarrow> process_responses rs (st\<lparr>sg_replies := later\<rparr>))"

section \<open>The distribution of a minute\<close>

text \<open>\<open>int count = size * factor * (60 - currentSecond) / 60.\<close>, every operation rounded.\<close>

definition truncate_rat :: "rat \<Rightarrow> int" where
  "truncate_rat x = (if 0 \<le> x then \<lfloor>x\<rfloor> else \<lceil>x\<rceil>)"

definition message_count :: "(rat \<Rightarrow> rat) \<Rightarrow> int \<Rightarrow> rat \<Rightarrow> nat \<Rightarrow> int" where
  "message_count fl users factor currentSecond =
    truncate_rat (fl (fl (fl (of_int users * factor) * of_int (60 - int currentSecond)) / 60))"

definition place_message ::
    "'g distribution \<Rightarrow> nat \<Rightarrow> message_kind \<Rightarrow> (unit, 'g, 'n) client_io" where
  "place_message dis currentSecond kind =
    io_bind (draw dis (int currentSecond) 59) (\<lambda>second st.
      if 0 \<le> second \<and> nat second < length (sg_distrib st)
      then (Inr (), st\<lparr>sg_distrib := (sg_distrib st)[nat second := sg_distrib st ! nat second @ [kind]]\<rparr>)
      else (Inl (Fault Index_Out_Of_Range), st))"

fun place_messages ::
    "nat \<Rightarrow> 'g distribution \<Rightarrow> nat \<Rightarrow> message_kind \<Rightarrow> (unit, 'g, 'n) client_io" where
  "place_messages 0 dis currentSecond kind = io_return ()"
| "place_messages (Suc n) dis currentSecond kind =
    io_bind (place_message dis currentSecond kind) (\<lambda>_. place_messages n dis currentSecond kind)"

definition distribute ::
    "bool \<Rightarrow> (rat \<Rightarrow> rat) \<Rightarrow> 'g distribution \<Rightarrow> nat \<Rightarrow> user_flags \<Rightarrow> (strategy_config \<Rightarrow> rat) \<Rightarrow> message_kind \<Rightarrow>
      (unit, 'g, 'n) client_io" where
  "distribute lenient fl dis currentSecond flags factor kind st =
    io_bind (io_lift (uds_getUserGroupSize lenient flags (sg_cur st)))
      (\<lambda>users. place_messages (nat (message_count fl users (factor (sg_config st)) currentSecond)) dis currentSecond kind) st"

definition generateNewDistribution ::
    "bool \<Rightarrow> (rat \<Rightarrow> rat) \<Rightarrow> 'g distribution \<Rightarrow> nat \<Rightarrow> (unit, 'g, 'n) client_io" where
  "generateNewDistribution lenient fl dis currentSecond st =
    io_bind (distribute lenient fl dis currentSecond flag_ANYONE newUsers MC_USER_REGISTERED) (\<lambda>_.
    io_bind (distribute lenient fl dis currentSecond flag_ANYONE renames MC_USER_RENAMED) (\<lambda>_.
    io_bind (distribute lenient fl dis currentSecond flag_DISCONNECTED_ANY connects MC_USER_CONNECTED) (\<lambda>_.
    io_bind (distribute lenient fl dis currentSecond flag_CONNECTED_ANY disconnects MC_USER_DISCONNECTED) (\<lambda>_.
    io_bind (distribute lenient fl dis currentSecond flag_CONNECTED_ANY wonDeals MC_USER_DEAL_WON) (\<lambda>_.
      distribute lenient fl dis currentSecond flag_ANYONE fakeUserOperations MC_FAKE_USER)))))
      (st\<lparr>sg_distrib := replicate 60 []\<rparr>)"

section \<open>The main thread\<close>

text \<open>One message: the buffer is cut back, the message made and sent.\<close>

definition send_message ::
    "bool \<Rightarrow> 'g distribution \<Rightarrow> 'n asio_write \<Rightarrow> nat \<Rightarrow> nat \<Rightarrow> message_kind \<Rightarrow> (unit, 'g, 'n) client_io" where
  "send_message lenient dis wr pos currentSecond kind =
    io_bind other_thread (\<lambda>_.
    io_bind (rewind_message pos) (\<lambda>_.
    io_bind (make_message lenient dis currentSecond kind) (\<lambda>_. write_message wr)))"

fun send_messages ::
    "bool \<Rightarrow> 'g distribution \<Rightarrow> 'n asio_write \<Rightarrow> nat \<Rightarrow> nat \<Rightarrow> message_kind list \<Rightarrow> (unit, 'g, 'n) client_io" where
  "send_messages lenient dis wr pos currentSecond [] = io_return ()"
| "send_messages lenient dis wr pos currentSecond (kind # kinds) =
    io_bind (send_message lenient dis wr pos currentSecond kind) (\<lambda>_.
      send_messages lenient dis wr pos currentSecond kinds)"

text \<open>The seconds of a minute; the flag is read before each.\<close>

fun run_seconds ::
    "bool \<Rightarrow> 'g distribution \<Rightarrow> 'n asio_write \<Rightarrow> nat \<Rightarrow> nat list \<Rightarrow> (unit, 'g, 'n) client_io" where
  "run_seconds lenient dis wr pos [] st = (Inr (), st)"
| "run_seconds lenient dis wr pos (currentSecond # seconds) st =
    (if sg_badFlag st then (Inr (), st)
     else io_bind (send_messages lenient dis wr pos currentSecond (sg_distrib st ! currentSecond))
            (\<lambda>_. run_seconds lenient dis wr pos seconds) st)"

definition next_minute :: "(unit, 'g, 'n) client_io" where
  "next_minute st = io_bind other_thread (\<lambda>_ st1.
    io_bind (on_prev (setNextMinuteData (sg_cur st1))) (\<lambda>_. io_return ()) st1) st"

text \<open>
  The loop over the minutes; the argument lists what \<open>currentSecondIndex\<close> returns at the start of each.
  The result says whether the flag ended the loop.
\<close>

fun run_minutes ::
    "bool \<Rightarrow> (rat \<Rightarrow> rat) \<Rightarrow> 'g distribution \<Rightarrow> 'n asio_write \<Rightarrow> nat \<Rightarrow> nat list \<Rightarrow> (bool, 'g, 'n) client_io" where
  "run_minutes lenient fl dis wr pos [] = io_return False"
| "run_minutes lenient fl dis wr pos (currentSecond # minutes) =
    io_bind (generateNewDistribution lenient fl dis currentSecond) (\<lambda>_.
    io_bind (run_seconds lenient dis wr pos [currentSecond..<60]) (\<lambda>_ st.
      if sg_badFlag st then (Inr True, st)
      else io_bind next_minute (\<lambda>_. run_minutes lenient fl dis wr pos minutes) st))"

fun register_users :: "nat \<Rightarrow> 'g distribution \<Rightarrow> 'n asio_write \<Rightarrow> nat \<Rightarrow> (unit, 'g, 'n) client_io" where
  "register_users 0 dis wr pos = io_return ()"
| "register_users (Suc n) dis wr pos =
    io_bind other_thread (\<lambda>_.
    io_bind (register_user dis) (\<lambda>_.
    io_bind (write_message wr) (\<lambda>_.
    io_bind (rewind_message pos) (\<lambda>_. register_users n dis wr pos))))"

definition launch_client :: "(unit, 'n) io \<Rightarrow> 'n asio_write \<Rightarrow> (unit, 'g, 'n) client_io" where
  "launch_client connect wr st =
    (case client_launch connect wr (sg_net st) of
       (Inl e, n) \<Rightarrow> (Inl e, st\<lparr>sg_net := n\<rparr>) | (Inr _, n) \<Rightarrow> (Inr (), st\<lparr>sg_net := n\<rparr>))"

text \<open>
  \<open>get\<close> on the future of the response thread, after the flag has been set: a thread that has ended
  is there at once; one that runs is waiting in \<open>receive\<close>, treats the next thing to arrive and then
  sees the flag. When nothing arrives any more it never returns, which is \<open>False\<close>.
\<close>

definition get_responses :: "(bool, 'g, 'n) client_io" where
  "get_responses st =
    (if \<not> sg_answering st then (Inr True, st)
     else case concat (sg_replies st) of
       [] \<Rightarrow> (Inr False, st)
     | r # _ \<Rightarrow>
         (case process_response r (sg_prev st) of
            Inl (Fault f) \<Rightarrow> (Inl (Fault f), st)
          | Inl (Throw e) \<Rightarrow> (Inr True, st\<lparr>sg_answering := False\<rparr>)
          | Inr prev \<Rightarrow> (Inr True, st\<lparr>sg_prev := prev, sg_answering := False\<rparr>)))"

text \<open>
  \<open>run\<close>: the launch, the start of the response thread, the first registrations, the minutes. The
  result are the two flags the last lines report, or nothing when the thread is never joined. When the
  launch throws there is no response thread and \<open>get\<close> of the empty future throws; the response thread
  catches everything itself, so \<open>get\<close> throws in no other case.
\<close>

definition strategy_run ::
    "bool \<Rightarrow> (rat \<Rightarrow> rat) \<Rightarrow> 'g distribution \<Rightarrow> (unit, 'n) io \<Rightarrow> 'n asio_write \<Rightarrow> nat list \<Rightarrow>
      ((bool \<times> bool) option, 'g, 'n) client_io" where
  "strategy_run lenient fl dis connect wr minutes st =
    (case launch_client connect wr st of
       (Inl (Fault f), st1) \<Rightarrow> (Inl (Fault f), st1)
     | (Inl (Throw e), st1) \<Rightarrow> (Inr (Some (True, True)), st1\<lparr>sg_badFlag := True\<rparr>)
     | (Inr _, st1) \<Rightarrow>
         let st2 = st1\<lparr>sg_answering := True, sg_buffer := createAdaptedMessageBuffer\<rparr>;
             pos = getPos (sg_buffer st2)
         in (case io_bind (register_users (nat (usersAtStart (sg_config st2))) dis wr pos)
                    (\<lambda>_. run_minutes lenient fl dis wr pos minutes) st2 of
               (Inl (Fault f), st3) \<Rightarrow> (Inl (Fault f), st3)
             | (Inl (Throw e), st3) \<Rightarrow>
                 io_bind get_responses (\<lambda>joined. io_return (if joined then Some (True, False) else None))
                   (st3\<lparr>sg_badFlag := True\<rparr>)
             | (Inr _, st3) \<Rightarrow> (Inr (Some (False, False)), st3)))"

definition strategy_new :: "strategy_config \<Rightarrow> 'g \<Rightarrow> 'g name_generator \<Rightarrow> istream outcome list list \<Rightarrow> 'n \<Rightarrow> ('g, 'n) strategy" where
  "strategy_new config g ng replies n =
    \<lparr> sg_config = config, sg_cur = client_storage_new, sg_prev = client_storage_new, sg_distrib = [],
      sg_badFlag = False, sg_answering = False, sg_replies = replies, sg_gen = g, sg_names = ng,
      sg_newUserId = 0, sg_fakeCount = 0, sg_buffer = ostream_new, sg_net = n \<rparr>"

text \<open>\<open>test/main.cpp\<close>: the usage is printed unless there are a host and a port; the run has the default configuration.\<close>

definition client_main ::
    "bool \<Rightarrow> (rat \<Rightarrow> rat) \<Rightarrow> 'g distribution \<Rightarrow> (string \<Rightarrow> string \<Rightarrow> (unit, 'n) io) \<Rightarrow> 'n asio_write \<Rightarrow> nat list \<Rightarrow>
      'g \<Rightarrow> 'g name_generator \<Rightarrow> istream outcome list list \<Rightarrow> string list \<Rightarrow> 'n \<Rightarrow>
      ((bool \<times> bool) option outcome \<times> ('g, 'n) strategy) option" where
  "client_main lenient fl dis connect wr minutes g ng replies argv n =
    (if length argv \<noteq> 3 then None
     else Some (strategy_run lenient fl dis (connect (argv ! 1) (argv ! 2)) wr minutes
                 (strategy_new (strategy_config_new fl) g ng replies n)))"

end
