(* ===== verification/Strategy_Groups.thy ===== *)
theory Strategy_Groups
  imports Client_Strategy
begin

text \<open>
  How the operations of a storage change the sizes of its groups and the seconds of its users, which is
  what the client's main thread relies on: it draws users from groups it believes are not empty, and
  repeats on the last minute's storage what it did on the current one.
\<close>

section \<open>Sizes of the groups\<close>

definition map_sizes :: "client_storage \<Rightarrow> nat list" where
  "map_sizes s = map length (st_users s)"

definition connected_count :: "client_storage \<Rightarrow> nat" where
  "connected_count s = map_sizes s ! 0 + map_sizes s ! 2"

definition disconnected_count :: "client_storage \<Rightarrow> nat" where
  "disconnected_count s = map_sizes s ! 1 + map_sizes s ! 3"

lemma map_sizes_put [simp]: "map_sizes (put_user a u s) = map_sizes s"
  by (simp add: map_sizes_def)

lemma counts_put [simp]:
  "connected_count (put_user a u s) = connected_count s"
  "disconnected_count (put_user a u s) = disconnected_count s"
  by (simp_all add: connected_count_def disconnected_count_def)

lemma length_tmap_emplace_new:
  "tmap_wf m \<Longrightarrow> tmap_find k m = None \<Longrightarrow> length (tmap_emplace k v m) = Suc (length m)"
  by (induction k v m rule: tmap_emplace.induct) (auto simp: tmap_find_def tmap_wf_Cons split: if_splits)

lemma length_tmap_extract:
  "tmap_wf m \<Longrightarrow> tmap_find k m = Some v \<Longrightarrow> Suc (length (tmap_extract k m)) = length m"
proof (induction m)
  case (Cons p m)
  show ?case
  proof (cases "fst p = k")
    case True
    then have "tmap_extract k m = m" using Cons.prems(1) by (auto simp: tmap_extract_def tmap_wf_Cons filter_id_conv)
    then show ?thesis using True by (simp add: tmap_extract_def)
  next
    case False
    then show ?thesis using Cons by (simp add: tmap_extract_def tmap_find_def tmap_wf_Cons)
  qed
qed (simp add: tmap_find_def)

lemma map_sizes_migrated:
  assumes wf: "client_wf s" and at: "client_at s uid a u" and i: "user_class u = i" and ij: "i \<noteq> j" and j: "j < 4"
  shows "0 < map_sizes s ! i"
    and "map_sizes (migrated i j uid a s) = (map_sizes s)[i := map_sizes s ! i - 1, j := Suc (map_sizes s ! j)]"
proof -
  have i4: "i < 4" using i by auto
  have len: "length (st_users s) = 4" by (rule client_users_length [OF wf])
  have "tmap_find uid (st_users s ! i) = Some a" using client_map_iff [OF wf i4] at i by blast
  from length_tmap_extract [OF client_map_wf [OF wf i4] this]
  have ex: "length (tmap_extract uid (st_users s ! i)) = length (st_users s ! i) - 1"
    and pos: "0 < length (st_users s ! i)" by (simp_all del: length_greater_0_conv)
  show "0 < map_sizes s ! i" using pos i4 len by (simp add: map_sizes_def)
  have "tmap_find uid (st_users s ! j) = None" using client_map_None [OF wf j at] i ij by simp
  from length_tmap_emplace_new [OF client_map_wf [OF wf j] this]
  show "map_sizes (migrated i j uid a s) = (map_sizes s)[i := map_sizes s ! i - 1, j := Suc (map_sizes s ! j)]"
    using ex i4 j len by (simp add: map_sizes_def migrated_def map_update)
qed

text \<open>All users have different identifiers, so the groups are not larger than the range of these.\<close>

lemma group_bound:
  assumes wf: "client_wf s" and range: "\<And>uid a u. client_at s uid a u \<Longrightarrow> 0 \<le> uid \<and> uid < n"
    and ms: "set ms \<subseteq> {..<4}" "distinct ms"
  shows "int (\<Sum>mi\<leftarrow>ms. length (st_users s ! mi)) \<le> max 0 n"
proof -
  have addrs: "(\<Sum>mi\<leftarrow>ms. length (st_users s ! mi)) = length (map_addrs s ms)"
    by (simp add: map_addrs_def length_concat comp_def)
  define key where "key a = (case st_objects s a of Some u \<Rightarrow> cu_id u | None \<Rightarrow> 0)" for a
  have key: "client_at s (key a) a (the (st_objects s a))" if a: "a \<in> set (map_addrs s ms)" for a
  proof -
    obtain uid u where u: "client_at s uid a u" using map_addrs_live [OF wf ms(1)] a by blast
    from client_atD(3,4) [OF wf u] u show ?thesis by (simp add: key_def)
  qed
  have inj: "inj_on key (set (map_addrs s ms))"
    by (rule inj_onI) (metis key client_at_unique)
  have "key ` set (map_addrs s ms) \<subseteq> {0..<n}"
    using key range by fastforce
  then have "card (key ` set (map_addrs s ms)) \<le> card {0..<n}" by (rule card_mono [rotated]) simp
  then have "card (set (map_addrs s ms)) \<le> nat n" using card_image [OF inj] by simp
  then show ?thesis using distinct_card [OF distinct_map_addrs [OF wf ms]] addrs by simp
qed

section \<open>Two storages in step\<close>

definition in_step :: "client_storage \<Rightarrow> client_storage \<Rightarrow> bool" where
  "in_step s s' \<longleftrightarrow> user_second s = user_second s'"

lemma user_second_migrated [simp]: "user_second (migrated i j uid a s) = user_second s"
  by (simp add: user_second_def fun_eq_iff)

lemma client_wf_put_migrated_at:
  assumes "client_wf s" and "client_at s uid a u"
  shows "client_at (put_user a u' (migrated i j uid a s)) uid' b v \<longleftrightarrow>
    (if uid' = uid then b = a \<and> v = u' else client_at s uid' b v)"
  using client_at_put [OF assms, of u' uid' b v] by (simp add: client_at_def)

lemma user_second_put_migrated:
  assumes "client_wf s" and "client_at s uid a u"
  shows "user_second (put_user a u' (migrated i j uid a s)) = (user_second s)(uid := (\<lambda>t. t = cu_second u'))"
  by (auto simp: fun_eq_iff user_second_def client_wf_put_migrated_at [OF assms])

lemma in_step_other:
  assumes "in_step s s'" and "client_at s uid a u"
  shows "\<exists>b v. client_at s' uid b v \<and> cu_second v = cu_second u"
  using assms by (metis in_step_def user_second_def)

lemma user_second_add:
  assumes "client_wf s" and "tmap_find (cu_id u) (st_index s) = None" and "user_class u = 3"
  shows "user_second (snd (add_user u s)) = (user_second s)(cu_id u := (\<lambda>t. t = cu_second u))"
  by (auto simp: fun_eq_iff user_second_def client_wf_add(2) [OF assms])

lemma user_second_none:
  "client_wf s \<Longrightarrow> tmap_find uid (st_index s) = None \<longleftrightarrow> (\<forall>t. \<not> user_second s uid t)"
  using client_indexed by (auto simp: user_second_def client_at_def) (metis not_None_eq)

lemma in_step_absent:
  "client_wf s \<Longrightarrow> client_wf s' \<Longrightarrow> in_step s s' \<Longrightarrow> tmap_find uid (st_index s) = None \<Longrightarrow>
    tmap_find uid (st_index s') = None"
  by (simp add: user_second_none in_step_def)

end
