(* ===== verification/Strategy_Steps.thy ===== *)
theory Strategy_Steps
  imports Strategy_Groups Message_Dispatcher
begin

text \<open>
  What one message of the client's main thread does (\<open>test/strategy.cpp\<close>): from storages in order and in
  step, with a user in the group it draws from, it passes every assertion, keeps order and step, and
  leaves the bytes of one event of the protocol in the message buffer.
\<close>

section \<open>Runs without a fault\<close>

text \<open>What \<open>receive\<close> may return: a message the service sends, or an exception.\<close>

fun reply_ok :: "istream outcome \<Rightarrow> bool" where
  "reply_ok (Inl (Throw e)) = True"
| "reply_ok (Inl (Fault f)) = False"
| "reply_ok (Inr b) = (\<exists>m. interpretIncomingData b = Inr m)"

definition replies_ok :: "('g, 'n) strategy \<Rightarrow> bool" where
  "replies_ok st \<longleftrightarrow> (\<forall>rs \<in> set (sg_replies st). \<forall>r \<in> set rs. reply_ok r)"

text \<open>What an exception of the main thread leaves to the response thread.\<close>

definition replies_safe :: "('g, 'n) strategy \<Rightarrow> bool" where
  "replies_safe st \<longleftrightarrow> replies_ok st \<and> client_wf (sg_prev st)"

text \<open>
  \<open>runs_ok P m Q\<close>: from a state that satisfies \<open>P\<close>, \<open>m\<close> meets no fault, and if it returns the result and
  the state satisfy \<open>Q\<close>. It may throw, and then the response thread is safe.
\<close>

definition runs_ok ::
    "(('g, 'n) strategy \<Rightarrow> bool) \<Rightarrow> ('a, 'g, 'n) client_io \<Rightarrow> ('a \<Rightarrow> ('g, 'n) strategy \<Rightarrow> bool) \<Rightarrow> bool" where
  "runs_ok P m Q \<longleftrightarrow>
    (\<forall>s. P s \<longrightarrow> (case m s of (Inr a, s') \<Rightarrow> Q a s' | (Inl (Throw e), s') \<Rightarrow> replies_safe s' | (Inl (Fault f), s') \<Rightarrow> False))"

lemma runs_okI:
  assumes "\<And>s. P s \<Longrightarrow> \<exists>a s'. m s = (Inr a, s') \<and> Q a s'"
  shows "runs_ok P m Q"
  unfolding runs_ok_def using assms by fastforce

lemma runs_ok_Inr: "runs_ok P m Q \<Longrightarrow> P s \<Longrightarrow> m s = (Inr a, s') \<Longrightarrow> Q a s'"
  by (auto simp: runs_ok_def)

lemma runs_ok_fault: "runs_ok P m Q \<Longrightarrow> P s \<Longrightarrow> m s \<noteq> (Inl (Fault f), s')"
  by (auto simp: runs_ok_def)

lemma runs_ok_throw: "runs_ok P m Q \<Longrightarrow> P s \<Longrightarrow> m s = (Inl (Throw e), s') \<Longrightarrow> replies_safe s'"
  by (auto simp: runs_ok_def)

lemma runs_ok_return: "(\<And>s. P s \<Longrightarrow> Q a s) \<Longrightarrow> runs_ok P (io_return a) Q"
  by (simp add: runs_ok_def)

lemma runs_ok_bind:
  assumes m: "runs_ok P m Q" and f: "\<And>a. runs_ok (Q a) (f a) R"
  shows "runs_ok P (io_bind m f) R"
  unfolding runs_ok_def
proof (intro allI impI)
  fix s assume s: "P s"
  obtain r s1 where r: "m s = (r, s1)" by fastforce
  show "case io_bind m f s of (Inr a, s') \<Rightarrow> R a s' | (Inl (Throw e), s') \<Rightarrow> replies_safe s' | (Inl (Fault x), s') \<Rightarrow> False"
  proof (cases r)
    case (Inr a)
    then have "Q a s1" using runs_ok_Inr [OF m s] r by simp
    then show ?thesis using f [of a] r Inr by (simp add: runs_ok_def)
  next
    case (Inl e)
    then show ?thesis using runs_ok_fault [OF m s] runs_ok_throw [OF m s] r by (cases e) auto
  qed
qed

lemma runs_ok_pre: "runs_ok P m Q \<Longrightarrow> (\<And>s. P' s \<Longrightarrow> P s) \<Longrightarrow> runs_ok P' m Q"
  by (simp add: runs_ok_def)

lemma runs_ok_post:
  assumes "runs_ok P m Q" and "\<And>a s. Q a s \<Longrightarrow> R a s"
  shows "runs_ok P m R"
  unfolding runs_ok_def
proof (intro allI impI)
  fix s assume "P s"
  with assms(1) have "case m s of (Inr a, s') \<Rightarrow> Q a s' | (Inl (Throw e), s') \<Rightarrow> replies_safe s' | (Inl (Fault f), s') \<Rightarrow> False"
    by (simp add: runs_ok_def)
  then show "case m s of (Inr a, s') \<Rightarrow> R a s' | (Inl (Throw e), s') \<Rightarrow> replies_safe s' | (Inl (Fault f), s') \<Rightarrow> False"
    using assms(2) by (auto split: prod.splits sum.splits failure.splits)
qed

section \<open>The message buffer\<close>

text \<open>Two bytes for the size, whatever they hold, and a body.\<close>

definition holds :: "buffer_t \<Rightarrow> ostream \<Rightarrow> bool" where
  "holds body b \<longleftrightarrow> (\<exists>sz. length sz = 2 \<and> b = append_bytes (sz @ body) ostream_new)"

lemma holds_append: "holds a b \<Longrightarrow> at_end b \<and> holds (a @ c) (append_bytes c b)"
  by (auto simp: holds_def)

lemma framed_holds:
  assumes "holds body b"
  shows "framed b = \<lparr> o_curPos = 2, o_storage = frame body \<rparr>"
proof -
  obtain sz where sz: "length sz = 2" "b = append_bytes (sz @ body) ostream_new"
    using assms by (auto simp: holds_def)
  have s: "snd (setPos 0 b) = \<lparr> o_curPos = 0, o_storage = sz @ body \<rparr>"
    using sz by (simp add: setPos_def append_bytes_def ostream_new_def)
  show ?thesis
    unfolding framed_def s Let_def using sz(1)
    by (subst put_pod_overwrite) (simp_all add: memcpy_at_def frame_def add.commute)
qed

text \<open>After \<open>rewind\<close> to the position behind the size the buffer is empty again.\<close>

lemma holds_rewind: "2 \<le> length (o_storage b) \<Longrightarrow> holds [] (snd (rewind 2 b))"
  by (auto simp: holds_def rewind_def vector_resize_def append_bytes_def ostream_new_def
      intro!: exI [of _ "take 2 (o_storage b)"])

lemma holds_named:
  assumes "in_int uid" and "length name \<le> UCHAR_MAX" and "holds [] b" and "c \<noteq> HANDSHAKE"
  shows "\<exists>b'. bind_outcome (generic_id_name_make uid name)
      (\<lambda>msg. generic_id_name_store msg (msg_code_prefix c b)) = Inr b' \<and>
    holds (bytes_of_word (client_code c) @ enc_int uid @ enc_buffer name) b'"
proof -
  have "msg_code_prefix c b = append_bytes (bytes_of_word (client_code c)) b"
    using holds_append [OF assms(3)] by (simp add: msg_code_prefix_def put_pod_at_end)
  then have "generic_id_name_store \<lparr> m_userId = uid, m_userName = name \<rparr> (msg_code_prefix c b) =
      Inr (append_bytes (enc_int uid @ enc_buffer name) (append_bytes (bytes_of_word (client_code c)) b))"
    using id_name_msgs.put_appends [of "\<lparr> m_userId = uid, m_userName = name \<rparr>"] assms(1,2)
    by simp
  then show ?thesis using assms(2) holds_append [OF assms(3)] by (simp add: generic_id_name_make_def)
qed

lemma holds_id:
  assumes "in_int uid" and "holds [] b"
  shows "holds (bytes_of_word (client_code c) @ enc_int uid) (generic_id_store \<lparr> m_userId = uid \<rparr> (msg_code_prefix c b))"
  using holds_append [OF assms(2)]
  by (simp add: msg_code_prefix_def put_pod_at_end generic_id_store_def put_int_at_end)

lemma holds_deal:
  assumes "in_int uid" and "in_long w" and "holds [] b"
  shows "holds (bytes_of_word (client_code c) @ enc_int uid @ enc_long w)
    (user_deal_won_store \<lparr> m_userId = uid, m_winnings = w \<rparr> (msg_code_prefix c b))"
  using holds_append [OF assms(3)]
  by (simp add: msg_code_prefix_def put_pod_at_end generic_id_store_def user_deal_won_store_def
      put_int_at_end put_long_at_end)

section \<open>The invariant\<close>

text \<open>
  \<open>N\<close> more messages can be made before an identifier, the fake ones or the winnings overflow.
\<close>

definition budget :: "nat \<Rightarrow> ('g, 'n) strategy \<Rightarrow> bool" where
  "budget N st \<longleftrightarrow>
    0 \<le> sg_newUserId st \<and> sg_newUserId st + int N \<le> INT_MAX \<and>
    sg_fakeCount st \<le> 0 \<and> int N - 2 ^ 31 \<le> sg_fakeCount st - 1 \<and>
    (\<forall>uid a u. client_at (sg_cur st) uid a u \<longrightarrow>
      0 \<le> uid \<and> uid < sg_newUserId st \<and> 0 \<le> cu_winnings u \<and> cu_winnings u + 500 * int N < 2 ^ 63)"

definition strategy_ok :: "nat \<Rightarrow> ('g, 'n) strategy \<Rightarrow> bool" where
  "strategy_ok N st \<longleftrightarrow>
    client_wf (sg_cur st) \<and> client_wf (sg_prev st) \<and> in_step (sg_cur st) (sg_prev st) \<and>
    budget N st \<and> names_ok (sg_names st)"

lemma strategy_okD:
  assumes "strategy_ok N st"
  shows "client_wf (sg_cur st)" "client_wf (sg_prev st)" "in_step (sg_cur st) (sg_prev st)"
    "budget N st" "names_ok (sg_names st)"
  using assms by (simp_all add: strategy_ok_def)

lemma budget_user:
  assumes "budget N st" and "client_at (sg_cur st) uid a u"
  shows "0 \<le> uid" "uid < sg_newUserId st" "0 \<le> cu_winnings u" "cu_winnings u + 500 * int N < 2 ^ 63"
    "in_int uid"
proof -
  show 1: "0 \<le> uid" "uid < sg_newUserId st" "0 \<le> cu_winnings u" "cu_winnings u + 500 * int N < 2 ^ 63"
    using assms by (auto simp: budget_def)
  show "in_int uid" using assms(1) 1 by (simp add: budget_def in_int_def INT_MAX_def)
qed

lemma budget_Suc: "budget (Suc N) st \<Longrightarrow> budget N st"
  unfolding budget_def by fastforce

lemma strategy_ok_Suc: "strategy_ok (Suc N) st \<Longrightarrow> strategy_ok N st"
  by (simp add: strategy_ok_def budget_Suc)

text \<open>An update of a present user that changes neither identifier nor amount keeps the budget.\<close>

lemma budget_cur:
  assumes "budget N st" and at: "client_at (sg_cur st) uid a u" and "cu_winnings u' = cu_winnings u"
    and s': "\<And>uid' b v. client_at s' uid' b v \<longleftrightarrow>
      (if uid' = uid then b = a \<and> v = u' else client_at (sg_cur st) uid' b v)"
    and st': "sg_cur st' = s'" "sg_newUserId st' = sg_newUserId st" "sg_fakeCount st' = sg_fakeCount st"
  shows "budget N st'"
  using assms(1,3) budget_user [OF assms(1) at] by (auto simp: budget_def st' s')

section \<open>Drawing a user\<close>

lemma random_user_ok:
  assumes dis: "draws_between dis" and ok: "strategy_ok N st"
    and maps: "set (random_maps flags) \<subseteq> {..<4}" "distinct (random_maps flags)"
    and some: "0 < (\<Sum>mi\<leftarrow>random_maps flags. map_sizes (sg_cur st) ! mi)"
  shows "\<exists>uid a u g. random_user True dis flags st = (Inr uid, st\<lparr>sg_gen := g\<rparr>) \<and>
    client_at (sg_cur st) uid a u \<and> user_class u \<in> set (random_maps flags)"
proof -
  let ?s = "sg_cur st"
  note wf = strategy_okD(1) [OF ok]
  have len: "map_sizes ?s ! mi = length (st_users ?s ! mi)" if "mi \<in> set (random_maps flags)" for mi
    using that maps(1) client_users_length [OF wf] by (auto simp: map_sizes_def)
  then have sum: "(\<Sum>mi\<leftarrow>random_maps flags. map_sizes ?s ! mi) = (\<Sum>mi\<leftarrow>random_maps flags. length (st_users ?s ! mi))"
    by (intro arg_cong [of _ _ sum_list] map_cong) simp_all
  have "int (\<Sum>mi\<leftarrow>random_maps flags. length (st_users ?s ! mi)) \<le> max 0 (sg_newUserId st)"
    by (rule group_bound [OF wf _ maps]) (use budget_user(1,2) [OF strategy_okD(4) [OF ok]] in blast)
  moreover have "0 \<le> sg_newUserId st" "sg_newUserId st + int N \<le> INT_MAX"
    using strategy_okD(4) [OF ok] by (simp_all add: budget_def)
  ultimately have small: "int (\<Sum>mi\<leftarrow>random_maps flags. length (st_users ?s ! mi)) \<le> INT_MAX"
    by linarith
  obtain mi where mi: "mi \<in> set (random_maps flags)" "st_users ?s ! mi \<noteq> []"
  proof (rule ccontr)
    assume "\<not> thesis"
    then have "\<forall>mi \<in> set (random_maps flags). length (st_users ?s ! mi) = 0" using that by auto
    then have "(\<Sum>mi\<leftarrow>random_maps flags. length (st_users ?s ! mi)) = 0" by (simp add: sum_list_eq_0_iff)
    with some [unfolded sum] show False by (metis less_irrefl)
  qed
  obtain uid a u g where "getRandomUser dis flags ?s (sg_gen st) = Inr (uid, g)" "client_at ?s uid a u"
      "user_class u \<in> set (random_maps flags)"
    using getRandomUser_found [OF wf dis maps(1) small mi] by blast
  then show ?thesis by (auto simp: random_user_def uds_getRandomUser_def flow_off_def)
qed

section \<open>The messages\<close>

text \<open>
  After a message the buffer holds the bytes of a valid event, and everything else the next message
  relies on is kept: the network is untouched, the counts of connected and disconnected users are as
  the kind says.
\<close>

definition made ::
    "('g, 'n) strategy \<Rightarrow> nat \<Rightarrow> nat \<Rightarrow> nat \<Rightarrow> ('g, 'n) strategy \<Rightarrow> bool" where
  "made st N c d st' \<longleftrightarrow>
    strategy_ok N st' \<and> (\<exists>ev. valid_event ev \<and> holds (enc_event ev) (sg_buffer st')) \<and>
    connected_count (sg_cur st') = c \<and> disconnected_count (sg_cur st') = d \<and>
    sg_net st' = sg_net st \<and> sg_distrib st' = sg_distrib st \<and> sg_config st' = sg_config st \<and>
    sg_replies st' = sg_replies st \<and> sg_badFlag st' = sg_badFlag st \<and> sg_answering st' = sg_answering st"

lemma store_message_ok: "f (sg_buffer st) = Inr b \<Longrightarrow> store_message f st = (Inr (), st\<lparr>sg_buffer := b\<rparr>)"
  by (simp add: store_message_def)

lemma connect_random_ok:
  assumes dis: "draws_between dis" and ok: "strategy_ok (Suc N) st" and buf: "holds [] (sg_buffer st)"
    and some: "0 < disconnected_count (sg_cur st)" and second: "currentSecond < 60"
  shows "\<exists>st'. connect_random True dis currentSecond st = (Inr (), st') \<and>
    made st N (Suc (connected_count (sg_cur st))) (disconnected_count (sg_cur st) - 1) st'"
proof -
  note D = strategy_okD [OF ok]
  have sum: "0 < (\<Sum>mi\<leftarrow>random_maps flag_DISCONNECTED_ANY. map_sizes (sg_cur st) ! mi)"
    using some by (simp add: random_maps_cases disconnected_count_def)
  obtain uid a u g where u: "random_user True dis flag_DISCONNECTED_ANY st = (Inr uid, st\<lparr>sg_gen := g\<rparr>)"
      "client_at (sg_cur st) uid a u" "user_class u \<in> {1, 3}"
    using random_user_ok [OF dis ok _ _ sum] by (auto simp: random_maps_cases)
  have off: "cu_second u = invalidSecond" using u(3) by (auto simp: user_class_def split: if_splits)
  obtain b v where v: "client_at (sg_prev st) uid b v" "cu_second v = invalidSecond"
    using in_step_other [OF D(3) u(2)] off by auto
  have sec: "currentSecond \<noteq> invalidSecond" using second by (simp add: invalidSecond_def)
  let ?u = "u\<lparr>cu_second := currentSecond\<rparr>" and ?v = "v\<lparr>cu_second := currentSecond\<rparr>"
  obtain s1 where s1: "connectUser uid currentSecond (sg_cur st) = Inr (a, s1)" "client_wf s1"
      "s1 = put_user a ?u (migrated (user_class u) (user_class ?u) uid a (sg_cur st))"
    using connectUser_ok [OF D(1) u(2) off sec] by blast
  obtain s2 where s2: "connectUser uid currentSecond (sg_prev st) = Inr (b, s2)" "client_wf s2"
      "s2 = put_user b ?v (migrated (user_class v) (user_class ?v) uid b (sg_prev st))"
    using connectUser_ok [OF D(2) v(1,2) sec] by blast
  let ?m = "\<lparr> m_userId = uid \<rparr>"
  let ?st = "st\<lparr>sg_gen := g, sg_cur := s1, sg_prev := s2,
      sg_buffer := generic_id_store ?m (msg_code_prefix USER_CONNECTED (sg_buffer st))\<rparr>"
  have run: "connect_random True dis currentSecond st = (Inr (), ?st)"
    using u(1) s1(1) s2(1) by (simp add: connect_random_def on_cur_def on_prev_def store_id_def store_message_def)
  have in_range: "in_int uid" by (rule budget_user(5) [OF D(4) u(2)])
  have step: "in_step s1 s2"
    using D(3) unfolding in_step_def s1(3) s2(3)
      user_second_put_migrated [OF D(1) u(2)] user_second_put_migrated [OF D(2) v(1)] by simp
  have cls: "user_class u \<noteq> user_class ?u" "user_class ?u < 4"
    using off sec by (simp_all add: user_class_def)
  note sizes = map_sizes_migrated [OF D(1) u(2) refl cls]
  have "length (map_sizes (sg_cur st)) = 4" using client_users_length [OF D(1)] by (simp add: map_sizes_def)
  then have counts: "connected_count s1 = Suc (connected_count (sg_cur st))"
      "disconnected_count s1 = disconnected_count (sg_cur st) - 1"
    using sizes off sec
    by (auto simp: s1(3) connected_count_def disconnected_count_def user_class_def nth_list_update split: if_splits)
  have "budget N ?st"
    by (rule budget_cur [OF budget_Suc [OF D(4)] u(2), where u' = ?u])
       (auto simp: s1(3) client_wf_put_migrated_at [OF D(1) u(2)])
  then have "strategy_ok N ?st" using s1(2) s2(2) step D(5) by (simp add: strategy_ok_def)
  moreover have "holds (enc_event (Connected uid)) (sg_buffer ?st)"
    using holds_id [OF in_range buf] by (simp del: client_code.simps)
  moreover have "valid_event (Connected uid)" using in_range by simp
  ultimately have "made st N (Suc (connected_count (sg_cur st))) (disconnected_count (sg_cur st) - 1) ?st"
    using counts unfolding made_def by (intro conjI exI [of _ "Connected uid"]) simp_all
  then show ?thesis using run by blast
qed

end
