(* ===== verification/Strategy_Messages.thy ===== *)
theory Strategy_Messages
  imports Strategy_Steps
begin

text \<open>
  The remaining kinds of messages of \<open>test/strategy.cpp\<close>, and the sending of one message of any kind.
\<close>

section \<open>Renaming\<close>

lemma draw_name_ok:
  assumes "draws_between dis" and "names_ok (sg_names st)"
  shows "\<exists>name ng. draw_name dis st = (Inr name, st\<lparr>sg_names := ng\<rparr>) \<and> length name \<le> UCHAR_MAX \<and> names_ok ng"
  using newName_ok [OF assms] by (auto simp: draw_name_def bytes_of_string_def UCHAR_MAX_def)

definition renamed :: "buffer_t \<Rightarrow> client_user \<Rightarrow> client_user" where
  "renamed name u = u\<lparr>nameList := push_history (cu_name u) (nameList u), cu_name := name\<rparr>"

lemma renamed_sel [simp]:
  "cu_second (renamed name u) = cu_second u" "cu_winnings (renamed name u) = cu_winnings u"
  by (simp_all add: renamed_def)

lemma rename_random_ok:
  assumes dis: "draws_between dis" and ok: "strategy_ok (Suc N) st" and buf: "holds [] (sg_buffer st)"
    and some: "0 < connected_count (sg_cur st) + disconnected_count (sg_cur st)"
  shows "\<exists>st'. rename_random True dis st = (Inr (), st') \<and>
    made st N (connected_count (sg_cur st)) (disconnected_count (sg_cur st)) st'"
proof -
  note D = strategy_okD [OF ok]
  have sum: "0 < (\<Sum>mi\<leftarrow>random_maps flag_ANYONE. map_sizes (sg_cur st) ! mi)"
    using some by (auto simp: random_maps_cases connected_count_def disconnected_count_def)
  obtain uid a u g where u: "random_user True dis flag_ANYONE st = (Inr uid, st\<lparr>sg_gen := g\<rparr>)"
      "client_at (sg_cur st) uid a u"
    using random_user_ok [OF dis ok _ _ sum] by (auto simp: random_maps_cases)
  let ?st1 = "st\<lparr>sg_gen := g\<rparr>"
  obtain name ng where name: "draw_name dis ?st1 = (Inr name, ?st1\<lparr>sg_names := ng\<rparr>)"
      "length name \<le> UCHAR_MAX" "names_ok ng"
    using draw_name_ok [OF dis, of ?st1] D(5) by auto
  obtain b v where v: "client_at (sg_prev st) uid b v" "cu_second v = cu_second u"
    using in_step_other [OF D(3) u(2)] by blast
  let ?s1 = "put_user a (renamed name u) (sg_cur st)" and ?s2 = "put_user b (renamed name v) (sg_prev st)"
  have s1: "renameUser uid name (sg_cur st) = Inr (a, ?s1)" "client_wf ?s1"
    using renameUser_ok [OF D(1) u(2)] by (simp_all add: renamed_def)
  have s2: "renameUser uid name (sg_prev st) = Inr (b, ?s2)" "client_wf ?s2"
    using renameUser_ok [OF D(2) v(1)] by (simp_all add: renamed_def)
  have in_range: "in_int uid" by (rule budget_user(5) [OF D(4) u(2)])
  obtain buffer where buffer: "bind_outcome (generic_id_name_make uid name)
        (\<lambda>msg. generic_id_name_store msg (msg_code_prefix USER_RENAMED (sg_buffer st))) = Inr buffer"
      "holds (enc_event (Renamed uid name)) buffer"
    using holds_named [OF in_range name(2) buf, of USER_RENAMED] by auto
  let ?st = "st\<lparr>sg_gen := g, sg_names := ng, sg_cur := ?s1, sg_prev := ?s2, sg_buffer := buffer\<rparr>"
  have run: "rename_random True dis st = (Inr (), ?st)"
    using u(1) name(1) s1(1) s2(1) buffer(1)
    by (simp add: rename_random_def on_cur_def on_prev_def store_named_def store_message_def)
  have step: "in_step ?s1 ?s2"
    using D(3) v(2) unfolding in_step_def user_second_put [OF D(1) u(2)] user_second_put [OF D(2) v(1)] by simp
  have "budget N ?st"
    by (rule budget_cur [OF budget_Suc [OF D(4)] u(2), where u' = "renamed name u"])
       (auto simp: client_at_put [OF D(1) u(2)])
  then have "strategy_ok N ?st" using s1(2) s2(2) step name(3) by (simp add: strategy_ok_def)
  moreover have "valid_event (Renamed uid name)" using in_range name(2) by simp
  ultimately have "made st N (connected_count (sg_cur st)) (disconnected_count (sg_cur st)) ?st"
    using buffer(2) unfolding made_def by (intro conjI exI [of _ "Renamed uid name"]) simp_all
  then show ?thesis using run by blast
qed

section \<open>Disconnecting\<close>

lemma disconnect_random_ok:
  assumes dis: "draws_between dis" and ok: "strategy_ok (Suc N) st" and buf: "holds [] (sg_buffer st)"
    and some: "0 < connected_count (sg_cur st)"
  shows "\<exists>st'. disconnect_random True dis st = (Inr (), st') \<and>
    made st N (connected_count (sg_cur st) - 1) (Suc (disconnected_count (sg_cur st))) st'"
proof -
  note D = strategy_okD [OF ok]
  have sum: "0 < (\<Sum>mi\<leftarrow>random_maps flag_CONNECTED_ANY. map_sizes (sg_cur st) ! mi)"
    using some by (simp add: random_maps_cases connected_count_def)
  obtain uid a u g where u: "random_user True dis flag_CONNECTED_ANY st = (Inr uid, st\<lparr>sg_gen := g\<rparr>)"
      "client_at (sg_cur st) uid a u" "user_class u \<in> {0, 2}"
    using random_user_ok [OF dis ok _ _ sum] by (auto simp: random_maps_cases)
  have on: "cu_second u \<noteq> invalidSecond" using u(3) by (auto simp: user_class_def split: if_splits)
  obtain b v where v: "client_at (sg_prev st) uid b v" "cu_second v \<noteq> invalidSecond"
    using in_step_other [OF D(3) u(2)] on by auto
  obtain s1 u' where s1: "disconnectUser uid (sg_cur st) = Inr (a, s1)" "client_wf s1"
      "u' = u\<lparr>cu_second := invalidSecond, ratingReceived := ratingReceived u \<and> cu_winnings u = 0\<rparr>"
      "s1 = put_user a u' (migrated (user_class u) (user_class u') uid a (sg_cur st))"
    using disconnectUser_ok [OF D(1) u(2) on] by blast
  obtain s2 v' where s2: "disconnectUser uid (sg_prev st) = Inr (b, s2)" "client_wf s2"
      "v' = v\<lparr>cu_second := invalidSecond, ratingReceived := ratingReceived v \<and> cu_winnings v = 0\<rparr>"
      "s2 = put_user b v' (migrated (user_class v) (user_class v') uid b (sg_prev st))"
    using disconnectUser_ok [OF D(2) v(1,2)] by blast
  let ?st = "st\<lparr>sg_gen := g, sg_cur := s1, sg_prev := s2,
      sg_buffer := generic_id_store \<lparr> m_userId = uid \<rparr> (msg_code_prefix USER_DISCONNECTED (sg_buffer st))\<rparr>"
  have run: "disconnect_random True dis st = (Inr (), ?st)"
    using u(1) s1(1) s2(1)
    by (simp add: disconnect_random_def on_cur_def on_prev_def store_id_def store_message_def)
  have in_range: "in_int uid" by (rule budget_user(5) [OF D(4) u(2)])
  have step: "in_step s1 s2"
    using D(3) unfolding in_step_def s1(4) s2(4)
      user_second_put_migrated [OF D(1) u(2)] user_second_put_migrated [OF D(2) v(1)] by (simp add: s1(3) s2(3))
  have cls: "user_class u \<noteq> user_class u'" "user_class u' < 4"
    using on by (simp_all add: user_class_def s1(3))
  note sizes = map_sizes_migrated [OF D(1) u(2) refl cls]
  have "length (map_sizes (sg_cur st)) = 4" using client_users_length [OF D(1)] by (simp add: map_sizes_def)
  then have counts: "connected_count s1 = connected_count (sg_cur st) - 1"
      "disconnected_count s1 = Suc (disconnected_count (sg_cur st))"
    using sizes on
    by (auto simp: s1(3,4) connected_count_def disconnected_count_def user_class_def nth_list_update split: if_splits)
  have "budget N ?st"
    by (rule budget_cur [OF budget_Suc [OF D(4)] u(2), where u' = u'])
       (auto simp: s1(3,4) client_wf_put_migrated_at [OF D(1) u(2)])
  then have "strategy_ok N ?st" using s1(2) s2(2) step D(5) by (simp add: strategy_ok_def)
  moreover have "holds (enc_event (Disconnected uid)) (sg_buffer ?st)"
    using holds_id [OF in_range buf] by (simp del: client_code.simps)
  moreover have "valid_event (Disconnected uid)" using in_range by simp
  ultimately have "made st N (connected_count (sg_cur st) - 1) (Suc (disconnected_count (sg_cur st))) ?st"
    using counts unfolding made_def by (intro conjI exI [of _ "Disconnected uid"]) simp_all
  then show ?thesis using run by blast
qed

section \<open>Winning\<close>

text \<open>A deal is entered into the current storage only, and does not change the second.\<close>

lemma draw_ok:
  assumes "draws_between dis" and "a \<le> b"
  shows "\<exists>i g. draw dis a b st = (Inr i, st\<lparr>sg_gen := g\<rparr>) \<and> a \<le> i \<and> i \<le> b"
  using uniform_draw_ok [OF assms, of "sg_gen st"] by (auto simp: draw_def)

lemma win_random_ok:
  assumes dis: "draws_between dis" and ok: "strategy_ok (Suc N) st" and buf: "holds [] (sg_buffer st)"
    and some: "0 < connected_count (sg_cur st)"
  shows "\<exists>st'. win_random True dis st = (Inr (), st') \<and>
    made st N (connected_count (sg_cur st)) (disconnected_count (sg_cur st)) st'"
proof -
  note D = strategy_okD [OF ok]
  have sum: "0 < (\<Sum>mi\<leftarrow>random_maps flag_CONNECTED_ANY. map_sizes (sg_cur st) ! mi)"
    using some by (simp add: random_maps_cases connected_count_def)
  obtain uid a u g where u: "random_user True dis flag_CONNECTED_ANY st = (Inr uid, st\<lparr>sg_gen := g\<rparr>)"
      "client_at (sg_cur st) uid a u" "user_class u \<in> {0, 2}"
    using random_user_ok [OF dis ok _ _ sum] by (auto simp: random_maps_cases)
  obtain w g' where w: "draw dis 1 500 (st\<lparr>sg_gen := g\<rparr>) = (Inr w, st\<lparr>sg_gen := g'\<rparr>)" "1 \<le> w" "w \<le> 500"
    using draw_ok [OF dis, of 1 500 "st\<lparr>sg_gen := g\<rparr>"] by auto
  note B = budget_user [OF D(4) u(2)]
  have fits: "in_long (cu_winnings u + w)" "cu_winnings u + w \<noteq> 0" "in_long w"
    using B(3,4) w(2,3) by (simp_all add: in_long_def)
  obtain s1 u' where s1: "fixUserWinnings_body uid w (sg_cur st) = Inr s1" "client_wf s1"
      "u' = u\<lparr>winningsHistory := push_history (cu_winnings u) (winningsHistory u), cu_winnings := cu_winnings u + w\<rparr>"
      "s1 = put_user a u' (if cu_winnings u = 0 then migrated (user_class u) (user_class u') uid a (sg_cur st) else sg_cur st)"
    using fixUserWinnings_ok [OF D(1) u(2) fits(1,2)] by blast
  let ?st = "st\<lparr>sg_gen := g', sg_cur := s1,
      sg_buffer := user_deal_won_store \<lparr> m_userId = uid, m_winnings = w \<rparr> (msg_code_prefix USER_DEAL_WON (sg_buffer st))\<rparr>"
  have run: "win_random True dis st = (Inr (), ?st)"
    using u(1) w(1) s1(1)
    by (simp add: win_random_def getRandomWinnings_def on_cur_def store_deal_def store_message_def
        fixUserWinnings_def flow_off_def)
  have at: "client_at s1 uid' b v \<longleftrightarrow> (if uid' = uid then b = a \<and> v = u' else client_at (sg_cur st) uid' b v)"
    for uid' b v
    using client_at_put [OF D(1) u(2), of u' uid' b v] client_wf_put_migrated_at [OF D(1) u(2), of u' _ _ uid' b v]
    by (cases "uid' = uid") (simp_all add: s1(4))
  have "user_second s1 = user_second (sg_cur st)"
  proof -
    have "user_second s1 uid' t = user_second (sg_cur st) uid' t" for uid' t
    proof (cases "uid' = uid")
      case True
      then show ?thesis using user_second_here [OF u(2)] by (auto simp: user_second_def at s1(3))
    qed (simp add: user_second_def at)
    then show ?thesis by (simp add: fun_eq_iff)
  qed
  then have step: "in_step s1 (sg_prev st)" using D(3) by (simp add: in_step_def)
  have counts: "connected_count s1 = connected_count (sg_cur st)"
      "disconnected_count s1 = disconnected_count (sg_cur st)"
  proof -
    have "connected_count s1 = connected_count (sg_cur st) \<and> disconnected_count s1 = disconnected_count (sg_cur st)"
    proof (cases "cu_winnings u = 0")
      case True
      have cls: "user_class u \<noteq> user_class u'" "user_class u' < 4"
        using True fits(2) by (simp_all add: user_class_def s1(3))
      note sizes = map_sizes_migrated [OF D(1) u(2) refl cls]
      have "length (map_sizes (sg_cur st)) = 4" using client_users_length [OF D(1)] by (simp add: map_sizes_def)
      then show ?thesis
        using sizes True fits(2)
        by (auto simp: s1(3,4) numeral_2_eq_2 numeral_3_eq_3 connected_count_def disconnected_count_def user_class_def nth_list_update split: if_splits)
    qed (simp add: s1(4))
    then show "connected_count s1 = connected_count (sg_cur st)"
      "disconnected_count s1 = disconnected_count (sg_cur st)" by simp_all
  qed
  have "0 \<le> uid' \<and> uid' < sg_newUserId st \<and> 0 \<le> cu_winnings v \<and> cu_winnings v + 500 * int N < 2 ^ 63"
    if v: "client_at s1 uid' b v" for uid' b v
  proof (cases "uid' = uid")
    case True
    then have "cu_winnings v = cu_winnings u + w" using v by (simp add: at s1(3))
    then show ?thesis using True B w(2,3) by simp
  next
    case False
    then have "client_at (sg_cur st) uid' b v" using v by (simp add: at)
    from budget_user [OF D(4) this] show ?thesis by simp
  qed
  then have "budget N ?st" using D(4) unfolding budget_def by simp
  then have "strategy_ok N ?st" using s1(2) D(2,5) step by (simp add: strategy_ok_def)
  moreover have "holds (enc_event (Deal_Won uid w)) (sg_buffer ?st)"
    using holds_deal [OF B(5) fits(3) buf] by (simp del: client_code.simps)
  moreover have "valid_event (Deal_Won uid w)" using B(5) fits(3) by simp
  ultimately have "made st N (connected_count (sg_cur st)) (disconnected_count (sg_cur st)) ?st"
    using counts unfolding made_def by (intro conjI exI [of _ "Deal_Won uid w"]) simp_all
  then show ?thesis using run by blast
qed

section \<open>Registering\<close>

lemma register_user_ok:
  assumes dis: "draws_between dis" and ok: "strategy_ok (Suc N) st" and buf: "holds [] (sg_buffer st)"
  shows "\<exists>st'. register_user dis st = (Inr (), st') \<and>
    made st N (connected_count (sg_cur st)) (Suc (disconnected_count (sg_cur st))) st'"
proof -
  note D = strategy_okD [OF ok]
  obtain name ng where name: "draw_name dis st = (Inr name, st\<lparr>sg_names := ng\<rparr>)"
      "length name \<le> UCHAR_MAX" "names_ok ng"
    using draw_name_ok [OF dis D(5)] by auto
  let ?uid = "sg_newUserId st"
  let ?u = "client_user_new\<lparr>cu_id := ?uid, cu_name := name\<rparr>"
  have cls: "user_class ?u = 3" "cu_id ?u = ?uid" by (simp_all add: user_class_def client_user_new_def)
  have fresh: "tmap_find (cu_id ?u) (st_index (sg_cur st)) = None"
  proof (rule ccontr)
    assume "tmap_find (cu_id ?u) (st_index (sg_cur st)) \<noteq> None"
    then obtain a where "tmap_find ?uid (st_index (sg_cur st)) = Some a" by auto
    then obtain u where "client_at (sg_cur st) ?uid a u" using client_indexed [OF D(1)] by blast
    from budget_user(2) [OF D(4) this] show False by simp
  qed
  have fresh': "tmap_find (cu_id ?u) (st_index (sg_prev st)) = None"
    by (rule in_step_absent [OF D(1,2,3) fresh])
  let ?s1 = "snd (add_user ?u (sg_cur st))" and ?s2 = "snd (add_user ?u (sg_prev st))"
  note add = client_wf_add [OF D(1) fresh cls(1)] and add' = client_wf_add [OF D(2) fresh' cls(1)]
  have range: "in_int (?uid + 1)" "in_int ?uid"
    using D(4) by (simp_all add: budget_def in_int_def INT_MAX_def)
  have gen: "generate_user name (st\<lparr>sg_names := ng\<rparr>) =
      (Inr (st_next (sg_cur st)), st\<lparr>sg_names := ng, sg_newUserId := ?uid + 1, sg_cur := ?s1\<rparr>)"
    using range by (simp add: generate_user_def generateNewUser_def add_user_new [OF D(1) fresh])
  have obj: "deref (st_objects ?s1) (st_next (sg_cur st)) = Inr ?u"
    using client_atD(1,4) [OF add(1), of ?uid "st_next (sg_cur st)" ?u] add(2) cls(2) by simp
  obtain buffer where buffer: "bind_outcome (generic_id_name_make ?uid name)
        (\<lambda>msg. generic_id_name_store msg (msg_code_prefix USER_REGISTERED (sg_buffer st))) = Inr buffer"
      "holds (enc_event (Registered ?uid name)) buffer"
    using holds_named [OF range(2) name(2) buf, of USER_REGISTERED] by auto
  let ?st = "st\<lparr>sg_names := ng, sg_newUserId := ?uid + 1, sg_cur := ?s1, sg_prev := ?s2, sg_buffer := buffer\<rparr>"
  have run: "register_user dis st = (Inr (), ?st)"
    using name(1) gen obj buffer(1)
    by (simp add: register_user_def import_user_def importNewUser_def store_named_def store_message_def)
  have step: "in_step ?s1 ?s2"
    using D(3) unfolding in_step_def user_second_add [OF D(1) fresh cls(1)] user_second_add [OF D(2) fresh' cls(1)]
    by simp
  have "length (st_users (sg_cur st)) = 4" by (rule client_users_length [OF D(1)])
  moreover have "length (tmap_emplace ?uid (st_next (sg_cur st)) (st_users (sg_cur st) ! 3)) =
      Suc (length (st_users (sg_cur st) ! 3))"
    by (rule length_tmap_emplace_new [OF client_map_wf [OF D(1)]])
       (use client_map_iff [OF D(1), of 3 ?uid] fresh cls(2) in \<open>auto simp: client_at_def\<close>)
  ultimately have counts: "connected_count ?s1 = connected_count (sg_cur st)"
      "disconnected_count ?s1 = Suc (disconnected_count (sg_cur st))"
    by (simp_all add: add_user_new [OF D(1) fresh] connected_count_def disconnected_count_def map_sizes_def nth_list_update)
  have at: "client_at ?s1 uid b v \<longleftrightarrow>
      (if uid = ?uid then b = st_next (sg_cur st) \<and> v = ?u else client_at (sg_cur st) uid b v)" for uid b v
    using add(2) cls(2) by simp
  have left: "0 \<le> ?uid" "?uid + int (Suc N) \<le> INT_MAX" using D(4) by (simp_all add: budget_def)
  have "0 \<le> uid \<and> uid < ?uid + 1 \<and> 0 \<le> cu_winnings v \<and> cu_winnings v + 500 * int N < 2 ^ 63"
    if v: "client_at ?s1 uid b v" for uid b v
  proof (cases "uid = ?uid")
    case True
    then have "v = ?u" using v by (simp add: at)
    then have "cu_winnings v = 0" by (simp add: client_user_new_def)
    then show ?thesis using True left by (simp add: INT_MAX_def)
  next
    case False
    then have "client_at (sg_cur st) uid b v" using v by (simp add: at)
    from budget_user [OF D(4) this] show ?thesis by simp
  qed
  then have "budget N ?st" using D(4) unfolding budget_def by simp
  then have "strategy_ok N ?st" using add(1) add'(1) step name(3) by (simp add: strategy_ok_def)
  moreover have "valid_event (Registered ?uid name)" using range name(2) by simp
  ultimately have "made st N (connected_count (sg_cur st)) (Suc (disconnected_count (sg_cur st))) ?st"
    using counts buffer(2) unfolding made_def by (intro conjI exI [of _ "Registered ?uid name"]) simp_all
  then show ?thesis using run by blast
qed

section \<open>Users that do not exist\<close>

lemma fake_random_ok:
  assumes dis: "draws_between dis" and ok: "strategy_ok (Suc N) st" and buf: "holds [] (sg_buffer st)"
  shows "\<exists>st'. fake_random dis st = (Inr (), st') \<and>
    made st N (connected_count (sg_cur st)) (disconnected_count (sg_cur st)) st'"
proof -
  note D = strategy_okD [OF ok]
  obtain i g where i: "draw dis 1 4 st = (Inr i, st\<lparr>sg_gen := g\<rparr>)" "1 \<le> i" "i \<le> 4"
    using draw_ok [OF dis, of 1 4 st] by auto
  define fake where "fake = invalidId + sg_fakeCount st"
  have range: "in_int fake" "in_int (sg_fakeCount st - 1)"
    using D(4) by (simp_all add: fake_def budget_def in_int_def invalidId_def invalidUserId_def)
  have id: "fake_user_id (st\<lparr>sg_gen := g\<rparr>) = (Inr fake, st\<lparr>sg_gen := g, sg_fakeCount := sg_fakeCount st - 1\<rparr>)"
    using range by (simp add: fake_user_id_def getFakeUserId_def fake_def)
  let ?st1 = "st\<lparr>sg_gen := g, sg_fakeCount := sg_fakeCount st - 1\<rparr>"
  have left: "int (Suc N) - 2 ^ 31 \<le> sg_fakeCount st - 1" "sg_fakeCount st \<le> 0"
    using D(4) by (simp_all add: budget_def)
  have ok1: "strategy_ok N (?st1\<lparr>sg_buffer := b\<rparr>)" for b
    using D(1-3,5) budget_Suc [OF D(4)] left by (simp add: strategy_ok_def budget_def)
  have run: "fake_random dis st =
      (if i = 1 then store_named USER_RENAMED fake (bytes_of_string ''Mr Fake'')
       else if i = 2 then store_id USER_CONNECTED fake
       else if i = 3 then store_id USER_DISCONNECTED fake
       else store_deal fake 666) ?st1"
    using i id by (auto simp: fake_random_def)
  have fit: "length (bytes_of_string ''Mr Fake'') \<le> UCHAR_MAX" by (simp add: bytes_of_string_def UCHAR_MAX_def)
  obtain ev b where ev: "valid_event ev" "holds (enc_event ev) b"
      "fake_random dis st = (Inr (), ?st1\<lparr>sg_buffer := b\<rparr>)"
  proof -
    consider "i = 1" | "i = 2" | "i = 3" | "i = 4" using i(2,3) by linarith
    then show thesis
    proof cases
      case 1
      obtain b where "bind_outcome (generic_id_name_make fake (bytes_of_string ''Mr Fake''))
            (\<lambda>msg. generic_id_name_store msg (msg_code_prefix USER_RENAMED (sg_buffer st))) = Inr b"
          "holds (enc_event (Renamed fake (bytes_of_string ''Mr Fake''))) b"
        using holds_named [OF range(1) fit buf, of USER_RENAMED] by auto
      then show thesis using that [of "Renamed fake (bytes_of_string ''Mr Fake'')" b] run 1 range(1) fit
        by (simp add: store_named_def store_message_def)
    next
      case 2
      then show thesis using that [of "Connected fake"] run range(1) holds_id [OF range(1) buf, of USER_CONNECTED]
        by (simp add: store_id_def store_message_def del: client_code.simps)
    next
      case 3
      then show thesis using that [of "Disconnected fake"] run range(1) holds_id [OF range(1) buf, of USER_DISCONNECTED]
        by (simp add: store_id_def store_message_def del: client_code.simps)
    next
      case 4
      have "in_long 666" by (simp add: in_long_def)
      then show thesis using that [of "Deal_Won fake 666"] run 4 range(1) holds_deal [OF range(1) _ buf, of 666 USER_DEAL_WON]
        by (simp add: store_deal_def store_message_def del: client_code.simps)
    qed
  qed
  have "made st N (connected_count (sg_cur st)) (disconnected_count (sg_cur st)) (?st1\<lparr>sg_buffer := b\<rparr>)"
    using ev(1,2) ok1 unfolding made_def by (intro conjI exI [of _ ev]) simp_all
  then show ?thesis using ev(3) by blast
qed

end
