(* ===== verification/Strategy_Run.thy ===== *)
theory Strategy_Run
  imports Strategy_Messages
begin

text \<open>
  The threads of \<open>test/strategy.cpp\<close> together: the response thread keeps the last minute's storage in
  order, the distribution of a minute never asks for a user of an empty group, and a whole run of the
  client meets no failed assertion and puts only whole frames of valid events on the wire.
\<close>

section \<open>The response thread\<close>

lemma process_response_ok:
  assumes "reply_ok r" and wf: "client_wf prev"
  shows "(\<exists>prev'. process_response r prev = Inr prev' \<and> client_wf prev' \<and> user_second prev' = user_second prev) \<or>
    (\<exists>e. process_response r prev = Inl (Throw e))"
proof (cases r)
  case (Inl e)
  then show ?thesis using assms(1) by (cases e) (simp_all add: process_response_def)
next
  case (Inr b)
  then obtain m where m: "interpretIncomingData b = Inr m" using assms(1) by auto
  then obtain mc :: message_code_t and b1 where mc: "get_pod b = Inr (mc, b1)"
    by (auto simp: interpretIncomingData_def bind_outcome_Inr_iff)
  show ?thesis
  proof (cases "mc = service_code USER_RATING")
    case True
    then have "mc \<noteq> service_code PROTOCOL_ERROR" by simp
    then obtain rating b2 where "rating_pack_init b1 = Inr (rating, b2)"
      using m mc True by (auto simp: interpretIncomingData_def bind_outcome_Inr_iff simp del: service_code.simps)
    then show ?thesis
      using validateRating_ok [OF wf, of rating] mc True Inr
      by (auto simp: process_response_def simp del: service_code.simps)
  next
    case False
    then have pe: "mc = service_code PROTOCOL_ERROR"
      using m mc by (auto simp: interpretIncomingData_def split: if_splits)
    then obtain ec :: error_code_t and b2 where ec: "get_pod b1 = Inr (ec, b2)"
      using m mc by (auto simp: interpretIncomingData_def bind_outcome_Inr_iff)
    then obtain c where c: "protocol_error_of_number ec = Some c"
      using m mc pe by (auto simp: interpretIncomingData_def bind_outcome_Inr_iff split: option.splits)
    then obtain e b3 where e: "error_init b2 (error_default c) = Inr (e, b3)"
      using m mc pe ec by (auto simp: interpretIncomingData_def bind_outcome_Inr_iff)
    have code: "getErrorCode e = c"
      using e by (cases c) (auto simp: bind_outcome_Inr_iff)
    show ?thesis
    proof (cases "c = PROTOCOL_VERSION_UNSUPPORTED")
      case True
      then show ?thesis using mc pe ec c e Inr by (simp add: process_response_def)
    next
      case False
      then have "process_response r prev = validateError e prev"
        using mc pe ec c e Inr by (simp add: process_response_def)
      moreover have "\<exists>prev'. validateError e prev = Inr prev' \<and> client_wf prev' \<and> user_second prev' = user_second prev"
        using False code wf by (cases e) (auto simp: validateError_def Let_def)
      ultimately show ?thesis by simp
    qed
  qed
qed

lemma interpreted_rating:
  assumes "interpretIncomingData b = Inr (Rating_Message r, i)"
  shows "process_response (Inr b) s = validateRating r s"
proof -
  obtain mc :: message_code_t and b1 where mc: "get_pod b = Inr (mc, b1)"
    using assms by (auto simp: interpretIncomingData_def bind_outcome_Inr_iff)
  have "mc \<noteq> service_code PROTOCOL_ERROR"
    using assms mc by (auto simp: interpretIncomingData_def bind_outcome_Inr_iff split: option.splits)
  then have "mc = service_code USER_RATING \<and> (\<exists>b2. rating_pack_init b1 = Inr (r, b2))"
    using assms mc
    by (auto simp: interpretIncomingData_def bind_outcome_Inr_iff split: if_splits simp del: service_code.simps)
  then show ?thesis using mc by (auto simp: process_response_def simp del: service_code.simps)
qed

text \<open>Everything of the main thread is left as it was.\<close>

definition main_kept :: "('g, 'n) strategy \<Rightarrow> ('g, 'n) strategy \<Rightarrow> bool" where
  "main_kept st st' \<longleftrightarrow>
    sg_cur st' = sg_cur st \<and> sg_net st' = sg_net st \<and> sg_buffer st' = sg_buffer st \<and>
    sg_distrib st' = sg_distrib st \<and> sg_config st' = sg_config st"

lemma main_kept_refl: "main_kept st st"
  by (simp add: main_kept_def)

lemma process_responses_ok:
  assumes "strategy_ok N st" and "replies_ok st" and "\<forall>r \<in> set rs. reply_ok r"
  shows "\<exists>st'. process_responses rs st = (Inr (), st') \<and> strategy_ok N st' \<and> replies_ok st' \<and> main_kept st st'"
  using assms
proof (induction rs st rule: process_responses.induct)
  case (1 st)
  then show ?case by (simp add: main_kept_refl)
next
  case (2 r rs st)
  note D = strategy_okD [OF 2(2)]
  have same: "strategy_ok N (st\<lparr>sg_answering := b\<rparr>)" "strategy_ok N (st\<lparr>sg_badFlag := c, sg_answering := b\<rparr>)" for b c
    using 2(2) by (simp_all add: strategy_ok_def budget_def)
  show ?case
  proof (cases "\<not> sg_answering st \<or> sg_badFlag st")
    case True
    then show ?thesis using same 2(3) by (simp add: replies_ok_def main_kept_def)
  next
    case False
    have "reply_ok r" using 2(4) by simp
    from process_response_ok [OF this D(2)] show ?thesis
    proof (elim disjE exE conjE)
      fix prev'
      assume p: "process_response r (sg_prev st) = Inr prev'" "client_wf prev'"
        "user_second prev' = user_second (sg_prev st)"
      have "strategy_ok N (st\<lparr>sg_prev := prev'\<rparr>)"
        using D p(2,3) by (simp add: strategy_ok_def budget_def in_step_def)
      moreover have "replies_ok (st\<lparr>sg_prev := prev'\<rparr>)" using 2(3) by (simp add: replies_ok_def)
      ultimately obtain st' where "process_responses rs (st\<lparr>sg_prev := prev'\<rparr>) = (Inr (), st')"
          "strategy_ok N st'" "replies_ok st'" "main_kept (st\<lparr>sg_prev := prev'\<rparr>) st'"
        using 2(1) [OF False p(1)] 2(4) by auto
      then show ?thesis using False p(1) by (simp add: main_kept_def)
    next
      fix e
      assume "process_response r (sg_prev st) = Inl (Throw e)"
      then show ?thesis using False same(2) 2(3) by (simp add: replies_ok_def main_kept_def)
    qed
  qed
qed

lemma other_thread_ok:
  assumes "strategy_ok N st" and "replies_ok st"
  shows "\<exists>st'. other_thread st = (Inr (), st') \<and> strategy_ok N st' \<and> replies_ok st' \<and> main_kept st st'"
proof (cases "sg_replies st")
  case Nil
  then show ?thesis using assms by (simp add: other_thread_def main_kept_refl)
next
  case (Cons rs later)
  have "strategy_ok N (st\<lparr>sg_replies := later\<rparr>)" "replies_ok (st\<lparr>sg_replies := later\<rparr>)" "\<forall>r \<in> set rs. reply_ok r"
    using assms Cons by (simp_all add: strategy_ok_def budget_def replies_ok_def)
  from process_responses_ok [OF this] show ?thesis using Cons by (auto simp: other_thread_def main_kept_def)
qed

text \<open>Its end, too, is safe, and it comes unless nothing more arrives.\<close>

lemma get_responses_ok:
  assumes "replies_safe st"
  shows "\<exists>joined st'. get_responses st = (Inr joined, st') \<and>
    (\<not> joined \<longrightarrow> sg_answering st' \<and> concat (sg_replies st') = [])"
proof (cases "sg_answering st")
  case False
  then have "get_responses st = (Inr True, st)" by (simp add: get_responses_def)
  then show ?thesis by blast
next
  case True
  show ?thesis
  proof (cases "concat (sg_replies st)")
    case Nil
    have "get_responses st = (Inr False, st)" using True by (simp add: get_responses_def Nil)
    then show ?thesis using True Nil by blast
  next
    case (Cons r rs)
    then have "r \<in> set (concat (sg_replies st))" by simp
    then have "reply_ok r" using assms by (auto simp: replies_safe_def replies_ok_def)
    from process_response_ok [OF this, of "sg_prev st"] assms
    have "\<exists>st'. get_responses st = (Inr True, st')"
      using True by (auto simp: get_responses_def replies_safe_def Cons)
    then show ?thesis by blast
  qed
qed

section \<open>Messages of any kind\<close>

fun enabled :: "message_kind \<Rightarrow> nat \<Rightarrow> nat \<Rightarrow> bool" where
  "enabled MC_USER_RENAMED c d = (0 < c + d)"
| "enabled MC_USER_CONNECTED c d = (0 < d)"
| "enabled MC_USER_DISCONNECTED c d = (0 < c)"
| "enabled MC_USER_DEAL_WON c d = (0 < c)"
| "enabled _ c d = True"

fun counts_after :: "message_kind \<Rightarrow> nat \<times> nat \<Rightarrow> nat \<times> nat" where
  "counts_after MC_USER_REGISTERED (c, d) = (c, Suc d)"
| "counts_after MC_USER_CONNECTED (c, d) = (Suc c, d - 1)"
| "counts_after MC_USER_DISCONNECTED (c, d) = (c - 1, Suc d)"
| "counts_after _ (c, d) = (c, d)"

definition counts :: "('g, 'n) strategy \<Rightarrow> nat \<times> nat" where
  "counts st = (connected_count (sg_cur st), disconnected_count (sg_cur st))"

lemma make_message_ok:
  assumes "draws_between dis" and "strategy_ok (Suc N) st" and "holds [] (sg_buffer st)"
    and "enabled kind (fst (counts st)) (snd (counts st))" and "currentSecond < 60"
  shows "\<exists>st'. make_message True dis currentSecond kind st = (Inr (), st') \<and>
    made st N (fst (counts_after kind (counts st))) (snd (counts_after kind (counts st))) st'"
  using assms connect_random_ok [OF assms(1-3) _ assms(5)] rename_random_ok [OF assms(1-3)]
    disconnect_random_ok [OF assms(1-3)] win_random_ok [OF assms(1-3)] register_user_ok [OF assms(1-3)]
    fake_random_ok [OF assms(1-3)]
  by (cases kind) (simp_all add: counts_def)

text \<open>
  The remaining messages are feasible when there are users for them: a disconnected one for each
  connection to come, a connected one for each disconnection, and one more if deals are to come. \<open>B\<close> bounds the users
  there will be.
\<close>

definition feasible :: "nat \<Rightarrow> message_kind list \<Rightarrow> nat \<times> nat \<Rightarrow> bool" where
  "feasible B kinds cd \<longleftrightarrow>
    fst cd + snd cd + count_list kinds MC_USER_REGISTERED \<le> B \<and>
    count_list kinds MC_USER_CONNECTED \<le> snd cd \<and>
    count_list kinds MC_USER_DISCONNECTED \<le> fst cd \<and>
    (MC_USER_DEAL_WON \<in> set kinds \<longrightarrow> count_list kinds MC_USER_DISCONNECTED < fst cd) \<and>
    (MC_USER_RENAMED \<in> set kinds \<longrightarrow> 0 < fst cd + snd cd)"

lemma feasible_step:
  assumes "feasible B (kind # kinds) (c, d)"
  shows "enabled kind c d" and "feasible B kinds (counts_after kind (c, d))"
  using assms by (cases kind; auto simp: feasible_def split: if_splits)+

text \<open>The frames of a list of events, as they stand in the stream of bytes.\<close>

definition frames :: "client_event list \<Rightarrow> buffer_t" where
  "frames evs = concat (map (\<lambda>ev. frame (enc_event ev)) evs)"

definition sent_valid :: "('n \<Rightarrow> buffer_t) \<Rightarrow> buffer_t \<Rightarrow> ('g, 'n) strategy \<Rightarrow> bool" where
  "sent_valid sent out st \<longleftrightarrow> (\<exists>evs. (\<forall>ev \<in> set evs. valid_event ev) \<and> sent (sg_net st) = out @ frames evs)"

text \<open>What the main thread relies on between its messages.\<close>

definition main_ok ::
    "('n \<Rightarrow> buffer_t) \<Rightarrow> buffer_t \<Rightarrow> nat \<Rightarrow> ('g, 'n) strategy \<Rightarrow> bool" where
  "main_ok sent out N st \<longleftrightarrow>
    strategy_ok N st \<and> replies_ok st \<and> sent_valid sent out st \<and> 2 \<le> length (o_storage (sg_buffer st))"

lemma frames_snoc: "frames (evs @ [ev]) = frames evs @ frame (enc_event ev)"
  by (simp add: frames_def)

lemma write_message_ok:
  assumes asio: "asio_stream wr rd sent pending" and buf: "holds (enc_event ev) (sg_buffer st)"
    and ev: "valid_event ev" and ok: "strategy_ok N st" "replies_ok st" and sent: "sent_valid sent out st"
  shows "runs_ok (\<lambda>s. s = st) (write_message wr)
    (\<lambda>_ st'. main_ok sent out N st' \<and> sg_cur st' = sg_cur st \<and> sg_distrib st' = sg_distrib st \<and>
      sg_config st' = sg_config st)"
proof -
  let ?b = "\<lparr> o_curPos = 2, o_storage = frame (enc_event ev) \<rparr>"
  obtain sentok n1 where w: "wr (frame (enc_event ev)) (sg_net st) = (sentok, n1)" by fastforce
  have wm: "writeMessage wr (sg_buffer st) (sg_net st) =
      (if sentok then (Inr ?b, n1) else (Inl (Throw Transport_Error_Recoverable), n1))"
    using w by (simp add: writeMessage_def framed_holds [OF buf] layer_send_def io_bind_def Let_def)
  show ?thesis
  proof (cases sentok)
    case False
    then show ?thesis using wm ok strategy_okD(2) [OF ok(1)]
      by (simp add: runs_ok_def write_message_def replies_safe_def replies_ok_def)
  next
    case True
    have "sent n1 = sent (sg_net st) @ frame (enc_event ev)"
      using asio w True unfolding asio_stream_def by (metis fst_conv snd_conv)
    moreover obtain evs where "\<forall>ev \<in> set evs. valid_event ev" "sent (sg_net st) = out @ frames evs"
      using sent by (auto simp: sent_valid_def)
    ultimately have "sent_valid sent out (st\<lparr>sg_buffer := ?b, sg_net := n1\<rparr>)"
      using ev by (auto simp: sent_valid_def frames_snoc intro!: exI [of _ "evs @ [ev]"])
    moreover have "2 \<le> length (frame (enc_event ev))" by (simp add: frame_def)
    ultimately have "main_ok sent out N (st\<lparr>sg_buffer := ?b, sg_net := n1\<rparr>)"
      using ok by (simp add: main_ok_def strategy_ok_def budget_def replies_ok_def)
    then show ?thesis using wm True by (simp add: runs_ok_def write_message_def)
  qed
qed

lemma send_message_ok:
  fixes dis :: "'g distribution" and wr :: "'n asio_write"
  assumes asio: "asio_stream wr rd sent pending" and dis: "draws_between dis" and second: "currentSecond < 60"
  shows "runs_ok
    (\<lambda>st. main_ok sent out (Suc N) st \<and> feasible B (kind # kinds) (counts st) \<and> sg_distrib st = D \<and> sg_config st = C)
    (send_message True dis wr 2 currentSecond kind)
    (\<lambda>_ st. main_ok sent out N st \<and> feasible B kinds (counts st) \<and> sg_distrib st = D \<and> sg_config st = C)"
  unfolding runs_ok_def
proof (intro allI impI, elim conjE)
  fix st :: "('g, 'n) strategy"
  assume main: "main_ok sent out (Suc N) st" and f: "feasible B (kind # kinds) (counts st)"
    and D: "sg_distrib st = D" and C: "sg_config st = C"
  obtain st1 where st1: "other_thread st = (Inr (), st1)" "strategy_ok (Suc N) st1" "replies_ok st1" "main_kept st st1"
    using other_thread_ok [of "Suc N" st] main by (auto simp: main_ok_def)
  let ?st2 = "st1\<lparr>sg_buffer := snd (rewind 2 (sg_buffer st1))\<rparr>"
  have buf: "holds [] (sg_buffer ?st2)"
    using holds_rewind [of "sg_buffer st"] main st1(4) by (simp add: main_ok_def main_kept_def)
  have ok2: "strategy_ok (Suc N) ?st2" using st1(2) by (simp add: strategy_ok_def budget_def)
  have c2: "counts ?st2 = counts st" using st1(4) by (simp add: counts_def main_kept_def)
  obtain c d where cd: "counts st = (c, d)" by fastforce
  have en: "enabled kind (fst (counts ?st2)) (snd (counts ?st2))"
    using feasible_step(1) f cd c2 by simp
  obtain st3 where st3: "make_message True dis currentSecond kind ?st2 = (Inr (), st3)"
      "made ?st2 N (fst (counts_after kind (counts ?st2))) (snd (counts_after kind (counts ?st2))) st3"
    using make_message_ok [OF dis ok2 buf en second] by blast
  then obtain ev where ev: "valid_event ev" "holds (enc_event ev) (sg_buffer st3)" by (auto simp: made_def)
  have ok3: "strategy_ok N st3" "replies_ok st3" "sent_valid sent out st3"
      "counts st3 = counts_after kind (counts st)" "sg_distrib st3 = D" "sg_config st3 = C"
    using st3(2) st1(3,4) main c2 D C
    by (simp_all add: made_def replies_ok_def main_ok_def sent_valid_def main_kept_def counts_def)
  have "runs_ok (\<lambda>s. s = st3) (write_message wr)
      (\<lambda>_ st. main_ok sent out N st \<and> feasible B kinds (counts st) \<and> sg_distrib st = D \<and> sg_config st = C)"
    by (rule runs_ok_post [OF write_message_ok [OF asio ev(2,1) ok3(1-3)]])
       (use ok3(4-6) feasible_step(2) f cd in \<open>auto simp: counts_def\<close>)
  then show "case send_message True dis wr 2 currentSecond kind st of
      (Inr a, st') \<Rightarrow> main_ok sent out N st' \<and> feasible B kinds (counts st') \<and> sg_distrib st' = D \<and> sg_config st' = C
    | (Inl (Throw e), st') \<Rightarrow> replies_safe st' | (Inl (Fault x), st') \<Rightarrow> False"
    using st1(1) st3(1) by (simp add: send_message_def rewind_message_def runs_ok_def)
qed

end
