(* ===== verification/Strategy_Minutes.thy ===== *)
theory Strategy_Minutes
  imports Strategy_Run
begin

text \<open>
  The minutes of the client's main thread (\<open>test/strategy.cpp\<close>): the messages a minute's distribution
  asks for are feasible, so every minute is run to its end, and so is a whole run.
\<close>

section \<open>The messages of a minute\<close>

lemma send_messages_ok:
  fixes dis :: "'g distribution" and wr :: "'n asio_write"
  assumes asio: "asio_stream wr rd sent pending" and dis: "draws_between dis" and second: "currentSecond < 60"
  shows "runs_ok
    (\<lambda>st. main_ok sent out (N + length kinds) st \<and> feasible B (kinds @ later) (counts st) \<and>
      sg_distrib st = D \<and> sg_config st = C)
    (send_messages True dis wr 2 currentSecond kinds)
    (\<lambda>_ st. main_ok sent out N st \<and> feasible B later (counts st) \<and> sg_distrib st = D \<and> sg_config st = C)"
proof (induction kinds)
  case Nil
  show ?case by (simp add: runs_ok_def)
next
  case (Cons kind kinds)
  have "runs_ok
      (\<lambda>st. main_ok sent out (Suc (N + length kinds)) st \<and> feasible B (kind # kinds @ later) (counts st) \<and>
        sg_distrib st = D \<and> sg_config st = C)
      (send_message True dis wr 2 currentSecond kind)
      (\<lambda>_ st. main_ok sent out (N + length kinds) st \<and> feasible B (kinds @ later) (counts st) \<and>
        sg_distrib st = D \<and> sg_config st = C)"
    by (rule send_message_ok [OF asio dis second])
  from runs_ok_bind [OF this] show ?case using Cons by simp
qed

definition minute_messages :: "message_minute_map \<Rightarrow> nat list \<Rightarrow> message_kind list" where
  "minute_messages D seconds = concat (map (\<lambda>i. D ! i) seconds)"

lemma strategy_ok_mono: "strategy_ok (M + N) st \<Longrightarrow> strategy_ok N st"
  by (induction M) (simp_all add: strategy_ok_Suc)

lemma main_ok_mono: "main_ok sent out (M + N) st \<Longrightarrow> main_ok sent out N st"
  using strategy_ok_mono by (auto simp: main_ok_def)

lemma feasible_drop: "feasible B (kinds @ later) cd \<Longrightarrow> fst cd + snd cd \<le> B"
  by (simp add: feasible_def)

lemma run_seconds_ok:
  fixes dis :: "'g distribution" and wr :: "'n asio_write"
  assumes asio: "asio_stream wr rd sent pending" and dis: "draws_between dis" and "\<forall>i \<in> set seconds. i < 60"
  shows "runs_ok
    (\<lambda>st. main_ok sent out (N + length (minute_messages D seconds)) st \<and>
      feasible B (minute_messages D seconds) (counts st) \<and> sg_distrib st = D \<and> sg_config st = C)
    (run_seconds True dis wr 2 seconds)
    (\<lambda>_ st. main_ok sent out N st \<and> fst (counts st) + snd (counts st) \<le> B \<and> sg_config st = C)"
  using assms(3)
proof (induction seconds)
  case Nil
  show ?case by (auto simp: runs_ok_def minute_messages_def feasible_def)
next
  case (Cons i seconds)
  let ?later = "minute_messages D seconds"
  have msgs: "minute_messages D (i # seconds) = D ! i @ ?later" by (simp add: minute_messages_def)
  have one: "runs_ok
      (\<lambda>st. main_ok sent out (N + length ?later + length (D ! i)) st \<and> feasible B (D ! i @ ?later) (counts st) \<and>
        sg_distrib st = D \<and> sg_config st = C)
      (send_messages True dis wr 2 i (D ! i))
      (\<lambda>_ st. main_ok sent out (N + length ?later) st \<and> feasible B ?later (counts st) \<and>
        sg_distrib st = D \<and> sg_config st = C)"
    by (rule send_messages_ok [OF asio dis]) (use Cons.prems in simp)
  have rest: "runs_ok
      (\<lambda>st. main_ok sent out (N + length ?later) st \<and> feasible B ?later (counts st) \<and>
        sg_distrib st = D \<and> sg_config st = C)
      (run_seconds True dis wr 2 seconds)
      (\<lambda>_ st. main_ok sent out N st \<and> fst (counts st) + snd (counts st) \<le> B \<and> sg_config st = C)"
    using Cons by simp
  note both = runs_ok_bind [OF one rest]
  show ?case
    unfolding runs_ok_def
  proof (intro allI impI, elim conjE)
    fix st :: "('g, 'n) strategy"
    assume st: "main_ok sent out (N + length (minute_messages D (i # seconds))) st"
      "feasible B (minute_messages D (i # seconds)) (counts st)" "sg_distrib st = D" "sg_config st = C"
    show "case run_seconds True dis wr 2 (i # seconds) st of
        (Inr a, st') \<Rightarrow> main_ok sent out N st' \<and> fst (counts st') + snd (counts st') \<le> B \<and> sg_config st' = C
      | (Inl (Throw e), st') \<Rightarrow> replies_safe st' | (Inl (Fault f), st') \<Rightarrow> False"
    proof (cases "sg_badFlag st")
      case True
      have "main_ok sent out N st" using st(1) main_ok_mono by (metis add.commute)
      then show ?thesis using True st(2,4) by (simp add: feasible_def)
    next
      case False
      have pre: "main_ok sent out (N + length ?later + length (D ! i)) st \<and> feasible B (D ! i @ ?later) (counts st) \<and>
          sg_distrib st = D \<and> sg_config st = C"
        using st by (simp add: msgs ac_simps)
      show ?thesis using both [unfolded runs_ok_def, rule_format, OF pre] False st(3) by simp
    qed
  qed
qed

section \<open>The rounding of the counts\<close>

text \<open>What is used of the arithmetic of \<open>double\<close>: rounding is monotone, and halves of integers are exact.\<close>

definition rounding_ok :: "(rat \<Rightarrow> rat) \<Rightarrow> bool" where
  "rounding_ok fl \<longleftrightarrow>
    (\<forall>x y. x \<le> y \<longrightarrow> fl x \<le> fl y) \<and> (\<forall>k::int. \<bar>k\<bar> \<le> 2 ^ 52 \<longrightarrow> fl (of_int k / 2) = of_int k / 2)"

lemma fl_bounds:
  assumes "rounding_ok fl" and "0 \<le> x" and "x \<le> of_int k / 2" and "k \<le> 2 ^ 52"
  shows "0 \<le> fl x" and "fl x \<le> of_int k / 2"
proof -
  have "0 \<le> (of_int k / 2 :: rat)" using assms(2,3) by linarith
  then have k: "0 \<le> k" by simp
  have "fl (of_int 0 / 2) = of_int 0 / 2" using assms(1) unfolding rounding_ok_def by (metis abs_zero zero_le_power zero_le_numeral)
  moreover have "fl 0 \<le> fl x" using assms(1,2) by (simp add: rounding_ok_def)
  ultimately show "0 \<le> fl x" by simp
  have "fl (of_int k / 2) = of_int k / 2" using assms(1,4) k by (simp add: rounding_ok_def)
  moreover have "fl x \<le> fl (of_int k / 2)" using assms(1,3) unfolding rounding_ok_def by blast
  ultimately show "fl x \<le> of_int k / 2" by simp
qed

text \<open>\<open>k / 2\<close> bounds the number of users times the factor.\<close>

lemma message_count_bounds:
  assumes fl: "rounding_ok fl" and "0 \<le> users" and "0 \<le> factor" and k: "of_int users * factor \<le> of_int k / 2"
    and small: "60 * k \<le> 2 ^ 52" and second: "currentSecond < 60"
  shows "0 \<le> message_count fl users factor currentSecond" and "2 * message_count fl users factor currentSecond \<le> k"
proof -
  let ?left = "of_int (60 - int currentSecond) :: rat"
  define x1 where "x1 = fl (of_int users * factor)"
  define x2 where "x2 = fl (x1 * ?left)"
  define x3 where "x3 = fl (x2 / 60)"
  have "0 \<le> of_int users * factor" using assms(2,3) by simp
  then have "0 \<le> (of_int k / 2 :: rat)" using k by linarith
  then have k0: "0 \<le> k" by simp
  have kk: "k \<le> 2 ^ 52" using small k0 by linarith
  have x1: "0 \<le> x1" "x1 \<le> of_int k / 2"
    unfolding x1_def using fl_bounds [OF fl \<open>0 \<le> of_int users * factor\<close> k kk] by simp_all
  have left: "0 \<le> ?left" "?left \<le> 60" using second by simp_all
  have "x1 * ?left \<le> of_int k / 2 * 60" using x1 left by (intro mult_mono) simp_all
  then have "x1 * ?left \<le> of_int (60 * k) / 2" by simp
  moreover have "0 \<le> x1 * ?left" using x1 left by simp
  ultimately have x2: "0 \<le> x2" "x2 \<le> of_int (60 * k) / 2"
    unfolding x2_def using fl_bounds [OF fl _ _ small] by simp_all
  have "0 \<le> x2 / 60" "x2 / 60 \<le> of_int k / 2" using x2 by simp_all
  then have x3: "0 \<le> x3" "x3 \<le> of_int k / 2"
    unfolding x3_def using fl_bounds [OF fl _ _ kk] by simp_all
  have c: "message_count fl users factor currentSecond = \<lfloor>x3\<rfloor>"
    using x3(1) by (simp add: message_count_def truncate_rat_def x1_def x2_def x3_def)
  show "0 \<le> message_count fl users factor currentSecond" using x3(1) by (simp add: c)
  have "of_int \<lfloor>x3\<rfloor> \<le> x3" by (rule of_int_floor_le)
  then have "2 * of_int \<lfloor>x3\<rfloor> \<le> (of_int k :: rat)" using x3(2) by linarith
  then have "of_int (2 * \<lfloor>x3\<rfloor>) \<le> (of_int k :: rat)" by simp
  then show "2 * message_count fl users factor currentSecond \<le> k" unfolding c by (simp only: of_int_le_iff)
qed

section \<open>The distribution of a minute\<close>

lemma mset_concat_update:
  "i < length D \<Longrightarrow> mset (concat (D[i := D ! i @ [k]])) = add_mset k (mset (concat D))"
proof (induction D arbitrary: i)
  case (Cons x D)
  then show ?case by (cases i) simp_all
qed simp

definition rest_of_minute :: "nat \<Rightarrow> message_minute_map \<Rightarrow> message_kind multiset" where
  "rest_of_minute currentSecond D = mset (concat (drop currentSecond D))"

lemma place_message_ok:
  assumes dis: "draws_between dis" and second: "currentSecond < 60" and "length (sg_distrib st) = 60"
  shows "\<exists>g D. place_message dis currentSecond kind st = (Inr (), st\<lparr>sg_gen := g, sg_distrib := D\<rparr>) \<and>
    length D = 60 \<and> rest_of_minute currentSecond D = add_mset kind (rest_of_minute currentSecond (sg_distrib st))"
proof -
  obtain i g where i: "draw dis (int currentSecond) 59 st = (Inr i, st\<lparr>sg_gen := g\<rparr>)" "int currentSecond \<le> i" "i \<le> 59"
    using draw_ok [OF dis, of "int currentSecond" 59 st] second by auto
  let ?D = "(sg_distrib st)[nat i := sg_distrib st ! nat i @ [kind]]"
  have n: "currentSecond \<le> nat i" "nat i < 60" using i(2,3) by linarith+
  have "place_message dis currentSecond kind st = (Inr (), st\<lparr>sg_gen := g, sg_distrib := ?D\<rparr>)"
    using i assms(3) n by (simp add: place_message_def)
  moreover have "length ?D = 60" using assms(3) by simp
  moreover have "drop currentSecond ?D =
      (drop currentSecond (sg_distrib st))[nat i - currentSecond :=
        drop currentSecond (sg_distrib st) ! (nat i - currentSecond) @ [kind]]"
    using n assms(3) by (simp add: drop_update_swap)
  ultimately show ?thesis
    using mset_concat_update [of "nat i - currentSecond" "drop currentSecond (sg_distrib st)" kind] n assms(3)
    unfolding rest_of_minute_def by (intro exI [of _ g] exI [of _ ?D]) simp
qed

lemma place_messages_ok:
  assumes dis: "draws_between dis" and second: "currentSecond < 60" and "length (sg_distrib st) = 60"
  shows "\<exists>g D. place_messages n dis currentSecond kind st = (Inr (), st\<lparr>sg_gen := g, sg_distrib := D\<rparr>) \<and>
    length D = 60 \<and>
    rest_of_minute currentSecond D = replicate_mset n kind + rest_of_minute currentSecond (sg_distrib st)"
  using assms(3)
proof (induction n arbitrary: st)
  case 0
  then show ?case by (intro exI [of _ "sg_gen st"] exI [of _ "sg_distrib st"]) simp
next
  case (Suc n)
  obtain g D where one: "place_message dis currentSecond kind st = (Inr (), st\<lparr>sg_gen := g, sg_distrib := D\<rparr>)"
      "length D = 60" "rest_of_minute currentSecond D = add_mset kind (rest_of_minute currentSecond (sg_distrib st))"
    using place_message_ok [OF dis second Suc.prems] by blast
  from Suc.IH [of "st\<lparr>sg_gen := g, sg_distrib := D\<rparr>"] one show ?case by auto
qed

lemma distribute_ok:
  assumes dis: "draws_between dis" and second: "currentSecond < 60" and "length (sg_distrib st) = 60"
    and users: "getUserGroupSize flags (sg_cur st) = int users"
  shows "\<exists>g D. distribute True fl dis currentSecond flags factor kind st = (Inr (), st\<lparr>sg_gen := g, sg_distrib := D\<rparr>) \<and>
    length D = 60 \<and>
    rest_of_minute currentSecond D =
      replicate_mset (nat (message_count fl (int users) (factor (sg_config st)) currentSecond)) kind +
      rest_of_minute currentSecond (sg_distrib st)"
  using place_messages_ok [OF dis second assms(3)]
  by (simp add: distribute_def uds_getUserGroupSize_def flow_off_def users)

lemma group_maps_cases:
  "group_maps flag_ANYONE = [0, 1, 2, 3]"
  "group_maps flag_CONNECTED_ANY = [0, 2]"
  "group_maps flag_DISCONNECTED_ANY = [1, 3]"
  by (simp_all add: group_maps_def erase_maps_def flag_ANYONE_def flag_CONNECTED_ANY_def
      flag_DISCONNECTED_ANY_def flag_CONNECTED_def flag_DISCONNECTED_def flag_ACTIVE_def flag_SILENT_def)

lemma group_sizes:
  assumes ok: "strategy_ok N st"
  shows "getUserGroupSize flag_ANYONE (sg_cur st) = int (fst (counts st) + snd (counts st))"
    and "getUserGroupSize flag_CONNECTED_ANY (sg_cur st) = int (fst (counts st))"
    and "getUserGroupSize flag_DISCONNECTED_ANY (sg_cur st) = int (snd (counts st))"
    and "int (fst (counts st) + snd (counts st)) \<le> INT_MAX"
proof -
  let ?s = "sg_cur st"
  note wf = strategy_okD(1) [OF ok]
  have len: "length (st_users ?s) = 4" by (rule client_users_length [OF wf])
  have "int (\<Sum>mi\<leftarrow>[0, 1, 2, 3]. length (st_users ?s ! mi)) \<le> max 0 (sg_newUserId st)"
    by (rule group_bound [OF wf]) (use budget_user(1,2) [OF strategy_okD(4) [OF ok]] in auto)
  moreover have "0 \<le> sg_newUserId st" "sg_newUserId st + int N \<le> INT_MAX"
    using strategy_okD(4) [OF ok] by (simp_all add: budget_def)
  ultimately have sum: "int (\<Sum>mi\<leftarrow>[0, 1, 2, 3]. length (st_users ?s ! mi)) \<le> INT_MAX" by linarith
  then have "\<forall>mi \<in> {0, 1, 2, 3}. int (length (st_users ?s ! mi)) \<le> INT_MAX" by auto
  then have size: "getCumulativeSize ms ?s = int (\<Sum>mi\<leftarrow>ms. length (st_users ?s ! mi))" if "set ms \<subseteq> {0, 1, 2, 3}" for ms
    using sum_sizes [of ms ?s 0] that by (auto simp: getCumulativeSize_def)
  show "getUserGroupSize flag_ANYONE ?s = int (fst (counts st) + snd (counts st))"
    "getUserGroupSize flag_CONNECTED_ANY ?s = int (fst (counts st))"
    "getUserGroupSize flag_DISCONNECTED_ANY ?s = int (snd (counts st))"
    "int (fst (counts st) + snd (counts st)) \<le> INT_MAX"
    using size [of "[0, 1, 2, 3]"] size [of "[0, 2]"] size [of "[1, 3]"] sum len
    by (simp_all add: getUserGroupSize_def group_maps_cases counts_def connected_count_def disconnected_count_def map_sizes_def)
qed

text \<open>The factors a configuration may have; the defaults are of this kind.\<close>

definition config_ok :: "strategy_config \<Rightarrow> bool" where
  "config_ok c \<longleftrightarrow>
    0 \<le> newUsers c \<and> newUsers c \<le> 1 \<and> 0 \<le> renames c \<and> renames c \<le> 1 \<and>
    0 \<le> connects c \<and> connects c \<le> 1 \<and> 0 \<le> disconnects c \<and> disconnects c \<le> 1 / 2 \<and>
    0 \<le> wonDeals c \<and> wonDeals c \<le> 1 \<and> 0 \<le> fakeUserOperations c \<and> fakeUserOperations c \<le> 1"

lemma config_default:
  assumes fl: "rounding_ok fl"
  shows "config_ok (strategy_config_new fl)"
proof -
  have "0 \<le> fl x \<and> fl x \<le> 1" if "0 \<le> x" "x \<le> 1" for x
    using fl_bounds [OF fl that(1), of 2] that(2) by simp
  moreover have "fl (1 / 5) \<le> 1 / 2" using fl_bounds(2) [OF fl, of "1 / 5" 1] by simp
  ultimately show ?thesis by (simp add: config_ok_def strategy_config_new_def)
qed

lemma count_bound:
  assumes fl: "rounding_ok fl" and "0 \<le> factor" "factor \<le> 1" and "int users \<le> INT_MAX" and "currentSecond < 60"
  shows "nat (message_count fl (int users) factor currentSecond) \<le> users"
proof -
  have "of_int (int users) * factor \<le> (of_int (2 * int users) / 2 :: rat)"
    using assms(2,3) mult_left_le [of factor "of_int (int users) :: rat"] by simp
  from message_count_bounds(2) [OF fl _ assms(2) this _ assms(5)] show ?thesis
    using assms(4) by (simp add: INT_MAX_def)
qed

lemma count_half_bound:
  assumes fl: "rounding_ok fl" and "0 \<le> factor" "factor \<le> 1 / 2" and "int users \<le> INT_MAX" and "currentSecond < 60"
  shows "2 * nat (message_count fl (int users) factor currentSecond) \<le> users"
proof -
  have "of_int (int users) * factor \<le> (of_int (int users) / 2 :: rat)"
    using assms(2,3) mult_left_mono [of factor "1 / 2" "of_int (int users) :: rat"] by simp
  from message_count_bounds [OF fl _ assms(2) this _ assms(5)] show ?thesis
    using assms(4) by (simp add: INT_MAX_def)
qed

text \<open>
  The distribution asks for at most six messages per user, and they are feasible: at most as many
  connections as disconnected users, at most half as many disconnections as connected ones, and deals
  and renamings only when there are users for them.
\<close>

lemma generateNewDistribution_ok:
  assumes fl: "rounding_ok fl" and dis: "draws_between dis" and second: "currentSecond < 60"
    and ok: "strategy_ok N st" and config: "config_ok (sg_config st)"
    and U: "fst (counts st) + snd (counts st) \<le> U"
  shows "\<exists>g D. generateNewDistribution True fl dis currentSecond st = (Inr (), st\<lparr>sg_gen := g, sg_distrib := D\<rparr>) \<and>
    length D = 60 \<and> size (rest_of_minute currentSecond D) \<le> 6 * U \<and>
    feasible (2 * U) (concat (drop currentSecond D)) (counts st)"
proof -
  let ?s = "sg_cur st" and ?C = "sg_config st"
  define c d where "c = fst (counts st)" and "d = snd (counts st)"
  note groups = group_sizes [OF ok, folded c_def d_def]
  let ?n = "\<lambda>users factor. nat (message_count fl (int users) (factor ?C) currentSecond)"
  let ?st0 = "st\<lparr>sg_distrib := replicate 60 []\<rparr>"
  note step = distribute_ok [OF dis second, where fl = fl]
  have rest0: "rest_of_minute currentSecond (replicate 60 []) = {#}" by (simp add: rest_of_minute_def)
  obtain g1 D1 where 1: "distribute True fl dis currentSecond flag_ANYONE newUsers MC_USER_REGISTERED ?st0 =
        (Inr (), st\<lparr>sg_gen := g1, sg_distrib := D1\<rparr>)" "length D1 = 60"
      "rest_of_minute currentSecond D1 = replicate_mset (?n (c + d) newUsers) MC_USER_REGISTERED"
    using step [of ?st0 flag_ANYONE "c + d" newUsers MC_USER_REGISTERED] groups(1) rest0 by auto
  obtain g2 D2 where 2: "distribute True fl dis currentSecond flag_ANYONE renames MC_USER_RENAMED
        (st\<lparr>sg_gen := g1, sg_distrib := D1\<rparr>) = (Inr (), st\<lparr>sg_gen := g2, sg_distrib := D2\<rparr>)" "length D2 = 60"
      "rest_of_minute currentSecond D2 =
        replicate_mset (?n (c + d) renames) MC_USER_RENAMED + rest_of_minute currentSecond D1"
    using step [of "st\<lparr>sg_gen := g1, sg_distrib := D1\<rparr>" flag_ANYONE "c + d" renames MC_USER_RENAMED] groups(1) 1(2) by auto
  obtain g3 D3 where 3: "distribute True fl dis currentSecond flag_DISCONNECTED_ANY connects MC_USER_CONNECTED
        (st\<lparr>sg_gen := g2, sg_distrib := D2\<rparr>) = (Inr (), st\<lparr>sg_gen := g3, sg_distrib := D3\<rparr>)" "length D3 = 60"
      "rest_of_minute currentSecond D3 =
        replicate_mset (?n d connects) MC_USER_CONNECTED + rest_of_minute currentSecond D2"
    using step [of "st\<lparr>sg_gen := g2, sg_distrib := D2\<rparr>" flag_DISCONNECTED_ANY d connects MC_USER_CONNECTED] groups(3) 2(2) by auto
  obtain g4 D4 where 4: "distribute True fl dis currentSecond flag_CONNECTED_ANY disconnects MC_USER_DISCONNECTED
        (st\<lparr>sg_gen := g3, sg_distrib := D3\<rparr>) = (Inr (), st\<lparr>sg_gen := g4, sg_distrib := D4\<rparr>)" "length D4 = 60"
      "rest_of_minute currentSecond D4 =
        replicate_mset (?n c disconnects) MC_USER_DISCONNECTED + rest_of_minute currentSecond D3"
    using step [of "st\<lparr>sg_gen := g3, sg_distrib := D3\<rparr>" flag_CONNECTED_ANY c disconnects MC_USER_DISCONNECTED] groups(2) 3(2) by auto
  obtain g5 D5 where 5: "distribute True fl dis currentSecond flag_CONNECTED_ANY wonDeals MC_USER_DEAL_WON
        (st\<lparr>sg_gen := g4, sg_distrib := D4\<rparr>) = (Inr (), st\<lparr>sg_gen := g5, sg_distrib := D5\<rparr>)" "length D5 = 60"
      "rest_of_minute currentSecond D5 =
        replicate_mset (?n c wonDeals) MC_USER_DEAL_WON + rest_of_minute currentSecond D4"
    using step [of "st\<lparr>sg_gen := g4, sg_distrib := D4\<rparr>" flag_CONNECTED_ANY c wonDeals MC_USER_DEAL_WON] groups(2) 4(2) by auto
  obtain g6 D6 where 6: "distribute True fl dis currentSecond flag_ANYONE fakeUserOperations MC_FAKE_USER
        (st\<lparr>sg_gen := g5, sg_distrib := D5\<rparr>) = (Inr (), st\<lparr>sg_gen := g6, sg_distrib := D6\<rparr>)" "length D6 = 60"
      "rest_of_minute currentSecond D6 =
        replicate_mset (?n (c + d) fakeUserOperations) MC_FAKE_USER + rest_of_minute currentSecond D5"
    using step [of "st\<lparr>sg_gen := g5, sg_distrib := D5\<rparr>" flag_ANYONE "c + d" fakeUserOperations MC_FAKE_USER] groups(1) 5(2) by auto
  have run: "generateNewDistribution True fl dis currentSecond st = (Inr (), st\<lparr>sg_gen := g6, sg_distrib := D6\<rparr>)"
    using 1(1) 2(1) 3(1) 4(1) 5(1) 6(1) by (simp add: generateNewDistribution_def)
  note rest = 6(3) [unfolded 5(3) 4(3) 3(3) 2(3) 1(3)]
  have small: "int c \<le> INT_MAX" "int d \<le> INT_MAX" "int (c + d) \<le> INT_MAX" using groups(4) by simp_all
  have n: "?n (c + d) newUsers \<le> c + d" "?n (c + d) renames \<le> c + d" "?n d connects \<le> d"
      "2 * ?n c disconnects \<le> c" "?n c wonDeals \<le> c" "?n (c + d) fakeUserOperations \<le> c + d"
    using config small second
    by (intro count_bound [OF fl] count_half_bound [OF fl]; simp add: config_ok_def)+
  have count: "count_list (concat (drop currentSecond D6)) k = count (rest_of_minute currentSecond D6) k" for k
    by (simp add: rest_of_minute_def count_mset)
  have "MC_USER_DEAL_WON \<in> set (concat (drop currentSecond D6)) \<longleftrightarrow> 0 < ?n c wonDeals"
    "MC_USER_RENAMED \<in> set (concat (drop currentSecond D6)) \<longleftrightarrow> 0 < ?n (c + d) renames"
    unfolding set_mset_mset [symmetric] rest_of_minute_def [symmetric] rest by auto
  then have "feasible (2 * U) (concat (drop currentSecond D6)) (counts st)"
    using n U unfolding feasible_def count rest c_def [symmetric] d_def [symmetric] by auto
  moreover have "size (rest_of_minute currentSecond D6) \<le> 6 * U"
    using n U unfolding rest c_def [symmetric] d_def [symmetric] by simp
  ultimately show ?thesis using run 6(2) by blast
qed

end
