(* ===== verification/Strategy_Whole.thy ===== *)
theory Strategy_Whole
  imports Strategy_Minutes
begin

text \<open>
  A whole run of the test client (\<open>test/strategy.cpp\<close>): from the first registrations through any number
  of minutes that its counters allow, whatever the service answers.
\<close>

section \<open>The turn of the minute\<close>

lemma next_minute_ok:
  assumes main: "main_ok sent out N st"
  shows "\<exists>st'. next_minute st = (Inr (), st') \<and> main_ok sent out N st' \<and> counts st' = counts st \<and>
    sg_config st' = sg_config st"
proof -
  obtain st1 where st1: "other_thread st = (Inr (), st1)" "strategy_ok N st1" "replies_ok st1" "main_kept st st1"
    using other_thread_ok [of N st] main by (auto simp: main_ok_def)
  note D = strategy_okD [OF st1(2)]
  obtain r s' where s': "setNextMinuteData (sg_cur st1) (sg_prev st1) = Inr (r, s')" "client_wf s'"
    using setNextMinuteData_ok [OF D(2,1)] by blast
  have "user_second s' = user_second (sg_cur st1)"
  proof -
    have "user_second s' uid t \<longleftrightarrow> user_second (sg_cur st1) uid t" for uid t
    proof -
      have same: "(\<exists>a v. client_at s' uid a v \<and> cu_rating_update (\<lambda>_. 0) v = u0) \<longleftrightarrow>
          (\<exists>b u. client_at (sg_cur st1) uid b u \<and> cu_rating_update (\<lambda>_. 0) u = u0)" for u0
        using setNextMinuteData_ok [OF D(2,1), of u0] s'(1) by auto
      show ?thesis
      proof
        assume "user_second s' uid t"
        then obtain a v where v: "client_at s' uid a v" "cu_second v = t" by (auto simp: user_second_def)
        then obtain b u where u: "client_at (sg_cur st1) uid b u" "cu_rating_update (\<lambda>_. 0) u = cu_rating_update (\<lambda>_. 0) v"
          using same [of "cu_rating_update (\<lambda>_. 0) v"] by blast
        from rating_irrelevant(4) [OF u(2)] show "user_second (sg_cur st1) uid t"
          using user_secondI [OF u(1)] v(2) by simp
      next
        assume "user_second (sg_cur st1) uid t"
        then obtain b u where u: "client_at (sg_cur st1) uid b u" "cu_second u = t" by (auto simp: user_second_def)
        then obtain a v where v: "client_at s' uid a v" "cu_rating_update (\<lambda>_. 0) v = cu_rating_update (\<lambda>_. 0) u"
          using same [of "cu_rating_update (\<lambda>_. 0) u"] by blast
        from rating_irrelevant(4) [OF v(2)] show "user_second s' uid t"
          using user_secondI [OF v(1)] u(2) by simp
      qed
    qed
    then show ?thesis by (simp add: fun_eq_iff)
  qed
  then have "strategy_ok N (st1\<lparr>sg_prev := s'\<rparr>)"
    using D s'(2) by (simp add: strategy_ok_def budget_def in_step_def)
  moreover have "next_minute st = (Inr (), st1\<lparr>sg_prev := s'\<rparr>)"
    using st1(1) s'(1) by (simp add: next_minute_def on_prev_def)
  ultimately show ?thesis
    using main st1(3,4) by (simp add: main_ok_def main_kept_def replies_ok_def sent_valid_def counts_def)
qed

section \<open>All minutes\<close>

text \<open>A minute with \<open>U\<close> users sends at most six messages per user and at most doubles their number.\<close>

definition need :: "nat \<Rightarrow> nat \<Rightarrow> nat" where
  "need minutes U = 6 * U * (2 ^ minutes - 1)"

lemma need_Suc: "need (Suc k) U = 6 * U + need k (2 * U)"
proof -
  obtain m where m: "(2::nat) ^ k = Suc m" by (cases "(2::nat) ^ k") simp_all
  show ?thesis by (simp add: need_def m)
qed

lemma minute_messages_drop:
  assumes "length D = 60" and "k \<le> 60"
  shows "minute_messages D [k..<60] = concat (drop k D)"
proof -
  have "map ((!) D) [k..<60] = drop k D"
    using assms by (intro nth_equalityI) simp_all
  then show ?thesis by (simp add: minute_messages_def)
qed

lemma run_minutes_ok:
  fixes dis :: "'g distribution" and wr :: "'n asio_write"
  assumes asio: "asio_stream wr rd sent pending" and fl: "rounding_ok fl" and dis: "draws_between dis"
    and "\<forall>i \<in> set minutes. i < 60"
  shows "runs_ok
    (\<lambda>st. main_ok sent out (need (length minutes) U) st \<and> fst (counts st) + snd (counts st) \<le> U \<and> config_ok (sg_config st))
    (run_minutes True fl dis wr 2 minutes)
    (\<lambda>_ st. sent_valid sent out st)"
  using assms(4)
proof (induction minutes arbitrary: U)
  case Nil
  show ?case by (simp add: runs_ok_def main_ok_def)
next
  case (Cons i minutes)
  let ?N = "need (length minutes) (2 * U)"
  have i: "i < 60" using Cons.prems by simp
  show ?case
    unfolding runs_ok_def
  proof (intro allI impI, elim conjE)
    fix st :: "('g, 'n) strategy"
    assume main: "main_ok sent out (need (length (i # minutes)) U) st"
      and U: "fst (counts st) + snd (counts st) \<le> U" and C: "config_ok (sg_config st)"
    obtain g D where D: "generateNewDistribution True fl dis i st = (Inr (), st\<lparr>sg_gen := g, sg_distrib := D\<rparr>)"
        "length D = 60" "size (rest_of_minute i D) \<le> 6 * U" "feasible (2 * U) (concat (drop i D)) (counts st)"
      using generateNewDistribution_ok [OF fl dis i _ C U] main unfolding main_ok_def by blast
    let ?st1 = "st\<lparr>sg_gen := g, sg_distrib := D\<rparr>"
    have msgs: "minute_messages D [i..<60] = concat (drop i D)" using minute_messages_drop D(2) i by simp
    have len: "length (minute_messages D [i..<60]) \<le> 6 * U"
      using D(3) by (simp add: rest_of_minute_def msgs)
    have "main_ok sent out (need (length (i # minutes)) U) ?st1"
      using main by (simp add: main_ok_def strategy_ok_def budget_def replies_ok_def sent_valid_def)
    moreover have "need (length (i # minutes)) U =
        (6 * U - length (minute_messages D [i..<60])) + (?N + length (minute_messages D [i..<60]))"
      using len by (simp add: need_Suc)
    ultimately have main1: "main_ok sent out (?N + length (minute_messages D [i..<60])) ?st1"
      by (metis main_ok_mono)
    have f1: "feasible (2 * U) (minute_messages D [i..<60]) (counts ?st1)" using D(4) msgs by (simp add: counts_def)
    have minute: "case run_seconds True dis wr 2 [i..<60] ?st1 of
        (Inr a, st') \<Rightarrow> main_ok sent out ?N st' \<and> fst (counts st') + snd (counts st') \<le> 2 * U \<and> sg_config st' = sg_config st
      | (Inl (Throw e), st') \<Rightarrow> replies_safe st' | (Inl (Fault f), st') \<Rightarrow> False"
      using run_seconds_ok [OF asio dis, where seconds = "[i..<60]" and out = out and N = ?N and D = D
          and B = "2 * U" and C = "sg_config st", unfolded runs_ok_def, rule_format, of ?st1] main1 f1 by simp
    obtain r st2 where r: "run_seconds True dis wr 2 [i..<60] ?st1 = (r, st2)" by fastforce
    show "case run_minutes True fl dis wr 2 (i # minutes) st of
        (Inr a, st') \<Rightarrow> sent_valid sent out st' | (Inl (Throw e), st') \<Rightarrow> replies_safe st' | (Inl (Fault f), st') \<Rightarrow> False"
    proof (cases r)
      case (Inl e)
      then show ?thesis using minute r D(1) by (cases e) simp_all
    next
      case (Inr a)
      then have st2: "main_ok sent out ?N st2" "fst (counts st2) + snd (counts st2) \<le> 2 * U" "config_ok (sg_config st2)"
        using minute r C by simp_all
      obtain st3 where st3: "next_minute st2 = (Inr (), st3)" "main_ok sent out ?N st3" "counts st3 = counts st2"
          "sg_config st3 = sg_config st2"
        using next_minute_ok [OF st2(1)] by blast
      have rec: "case run_minutes True fl dis wr 2 minutes st3 of
          (Inr a, st') \<Rightarrow> sent_valid sent out st' | (Inl (Throw e), st') \<Rightarrow> replies_safe st' | (Inl (Fault f), st') \<Rightarrow> False"
        using Cons.IH [of "2 * U", unfolded runs_ok_def, rule_format, of st3] Cons.prems st3 st2 by simp
      have "sent_valid sent out st2" using st2(1) by (simp add: main_ok_def)
      then show ?thesis using r Inr D(1) st3(1) rec by simp
    qed
  qed
qed

section \<open>The first registrations\<close>

lemma register_users_ok:
  fixes dis :: "'g distribution" and wr :: "'n asio_write"
  assumes asio: "asio_stream wr rd sent pending" and dis: "draws_between dis"
  shows "runs_ok
    (\<lambda>st. main_ok sent out (N + n) st \<and> holds [] (sg_buffer st) \<and> fst (counts st) + snd (counts st) + n \<le> U \<and> sg_config st = C)
    (register_users n dis wr 2)
    (\<lambda>_ st. main_ok sent out N st \<and> fst (counts st) + snd (counts st) \<le> U \<and> sg_config st = C)"
proof (induction n)
  case 0
  show ?case by (simp add: runs_ok_def)
next
  case (Suc n)
  show ?case
    unfolding runs_ok_def
  proof (intro allI impI, elim conjE)
    fix st :: "('g, 'n) strategy"
    assume main: "main_ok sent out (N + Suc n) st" and buf: "holds [] (sg_buffer st)"
      and U: "fst (counts st) + snd (counts st) + Suc n \<le> U" and C: "sg_config st = C"
    obtain st1 where st1: "other_thread st = (Inr (), st1)" "strategy_ok (Suc (N + n)) st1" "replies_ok st1" "main_kept st st1"
      using other_thread_ok [of "Suc (N + n)" st] main by (auto simp: main_ok_def)
    have buf1: "holds [] (sg_buffer st1)" using buf st1(4) by (simp add: main_kept_def)
    obtain st2 where st2: "register_user dis st1 = (Inr (), st2)"
        "made st1 (N + n) (connected_count (sg_cur st1)) (Suc (disconnected_count (sg_cur st1))) st2"
      using register_user_ok [OF dis st1(2) buf1] by blast
    then obtain ev where ev: "valid_event ev" "holds (enc_event ev) (sg_buffer st2)" by (auto simp: made_def)
    have ok2: "strategy_ok (N + n) st2" "replies_ok st2" "sent_valid sent out st2"
      using st2(2) st1(3,4) main by (simp_all add: made_def replies_ok_def main_ok_def sent_valid_def main_kept_def)
    have c2: "fst (counts st2) + snd (counts st2) + n \<le> U" "sg_config st2 = C"
      using st2(2) st1(4) U C by (simp_all add: made_def counts_def main_kept_def)
    obtain r st3 where r: "write_message wr st2 = (r, st3)" by fastforce
    have w: "case write_message wr st2 of
        (Inr a, st') \<Rightarrow> main_ok sent out (N + n) st' \<and> sg_cur st' = sg_cur st2 \<and> sg_distrib st' = sg_distrib st2 \<and>
          sg_config st' = sg_config st2
      | (Inl (Throw e), st') \<Rightarrow> replies_safe st' | (Inl (Fault f), st') \<Rightarrow> False"
      using write_message_ok [OF asio ev(2,1) ok2] by (simp add: runs_ok_def)
    show "case register_users (Suc n) dis wr 2 st of
        (Inr a, st') \<Rightarrow> main_ok sent out N st' \<and> fst (counts st') + snd (counts st') \<le> U \<and> sg_config st' = C
      | (Inl (Throw e), st') \<Rightarrow> replies_safe st' | (Inl (Fault f), st') \<Rightarrow> False"
    proof (cases r)
      case (Inl e)
      then show ?thesis using w r st1(1) st2(1) by (cases e) simp_all
    next
      case (Inr a)
      let ?st4 = "st3\<lparr>sg_buffer := snd (rewind 2 (sg_buffer st3))\<rparr>"
      have st3: "main_ok sent out (N + n) st3" "sg_cur st3 = sg_cur st2" "sg_config st3 = C"
        using w r Inr c2(2) by simp_all
      have buf4: "holds [] (sg_buffer ?st4)" using holds_rewind st3(1) by (simp add: main_ok_def)
      then have "2 \<le> length (o_storage (sg_buffer ?st4))" by (auto simp: holds_def)
      then have "main_ok sent out (N + n) ?st4"
        using st3(1) by (simp add: main_ok_def strategy_ok_def budget_def replies_ok_def sent_valid_def)
      then show ?thesis
        using Suc.IH [unfolded runs_ok_def, rule_format, of ?st4] buf4 c2(1) st3(2,3) r Inr st1(1) st2(1)
        by (simp add: rewind_message_def counts_def)
    qed
  qed
qed

section \<open>The run\<close>

lemma main_ok_start:
  assumes "names_ok ng" and replies: "\<forall>rs \<in> set replies. \<forall>r \<in> set rs. reply_ok r"
    and N: "int N \<le> INT_MAX"
  shows "main_ok sent (sent n) N ((strategy_new config g ng replies n')
      \<lparr>sg_net := n, sg_answering := True, sg_buffer := createAdaptedMessageBuffer\<rparr>)"
proof -
  have "sent_valid sent (sent n) ((strategy_new config g ng replies n')
      \<lparr>sg_net := n, sg_answering := True, sg_buffer := createAdaptedMessageBuffer\<rparr>)"
    by (auto simp: sent_valid_def frames_def intro!: exI [of _ "[]"])
  moreover have "2 \<le> length (o_storage createAdaptedMessageBuffer)"
    by (simp add: adapted_buffers sized_def append_bytes_def)
  moreover have "\<not> client_at client_storage_new uid a u" for uid a u
    by (simp add: client_at_def client_storage_new_def)
  ultimately show ?thesis
    using assms client_wf_new
    by (simp add: main_ok_def strategy_ok_def budget_def strategy_new_def in_step_def replies_ok_def INT_MAX_def)
qed

text \<open>A client whose arithmetic does not run out and whose service answers by its protocol.\<close>

definition client_setting ::
    "(rat \<Rightarrow> rat) \<Rightarrow> 'g distribution \<Rightarrow> strategy_config \<Rightarrow> 'g name_generator \<Rightarrow> istream outcome list list \<Rightarrow> nat list \<Rightarrow> bool" where
  "client_setting fl dis config ng replies minutes \<longleftrightarrow>
    rounding_ok fl \<and> draws_between dis \<and> config_ok config \<and> names_ok ng \<and>
    (\<forall>rs \<in> set replies. \<forall>r \<in> set rs. reply_ok r) \<and> (\<forall>i \<in> set minutes. i < 60) \<and>
    (let n = nat (usersAtStart config) in int (need (length minutes) n + n) \<le> INT_MAX)"

lemma strategy_run_ok:
  fixes dis :: "'g distribution" and wr :: "'n asio_write"
  assumes asio: "asio_stream wr rd sent pending" and setting: "client_setting fl dis config ng replies minutes"
    and launch: "client_launch connect wr n = (Inr b, n1)"
  shows "\<exists>ending st'. strategy_run True fl dis connect wr minutes (strategy_new config g ng replies n) = (Inr ending, st') \<and>
    (case ending of
       Some (failed, answers_failed) \<Rightarrow> \<not> answers_failed \<and> (failed \<or> sent_valid sent (sent n1) st')
     | None \<Rightarrow> sg_answering st' \<and> concat (sg_replies st') = [])"
proof -
  let ?init = "strategy_new config g ng replies n"
  let ?st = "?init\<lparr>sg_net := n1, sg_answering := True, sg_buffer := createAdaptedMessageBuffer\<rparr>"
  let ?u = "nat (usersAtStart config)" and ?N = "need (length minutes) (nat (usersAtStart config))"
  note S = setting [unfolded client_setting_def Let_def]
  have main: "main_ok sent (sent n1) (?N + ?u) ?st" by (rule main_ok_start) (use S in simp_all)
  have pos: "getPos (sg_buffer ?st) = 2" by (simp add: adapted_buffers getPos_sized)
  have "holds [] (sg_buffer ?st)"
    by (auto simp: adapted_buffers holds_def sized_def intro!: exI [of _ "bytes_of_word (0 :: message_size_t)"])
  moreover have "counts ?st = (0, 0)"
  proof -
    have z: "replicate 4 ([] :: (int, addr) tree_map) ! i = []" if "i < 4" for i using that by (rule nth_replicate)
    show ?thesis
      by (simp add: counts_def strategy_new_def connected_count_def disconnected_count_def map_sizes_def
          client_storage_new_def z)
  qed
  ultimately have pre: "main_ok sent (sent n1) (?N + ?u) ?st \<and> holds [] (sg_buffer ?st) \<and>
      fst (counts ?st) + snd (counts ?st) + ?u \<le> ?u \<and> sg_config ?st = config"
    using main by (simp add: strategy_new_def)
  have "runs_ok
    (\<lambda>st. main_ok sent (sent n1) (?N + ?u) st \<and> holds [] (sg_buffer st) \<and> fst (counts st) + snd (counts st) + ?u \<le> ?u \<and> sg_config st = config)
    (io_bind (register_users ?u dis wr 2) (\<lambda>_. run_minutes True fl dis wr 2 minutes))
    (\<lambda>_ st. sent_valid sent (sent n1) st)"
  proof (rule runs_ok_bind [OF register_users_ok [OF asio]])
    show "draws_between dis" using S by simp
    show "runs_ok (\<lambda>st. main_ok sent (sent n1) ?N st \<and> fst (counts st) + snd (counts st) \<le> ?u \<and> sg_config st = config)
        (run_minutes True fl dis wr 2 minutes) (\<lambda>_. sent_valid sent (sent n1))"
      by (rule runs_ok_pre [OF run_minutes_ok [OF asio, where U = ?u]]) (use S in auto)
  qed
  from this [unfolded runs_ok_def, rule_format, OF pre]
  have body: "case io_bind (register_users ?u dis wr 2) (\<lambda>_. run_minutes True fl dis wr 2 minutes) ?st of
      (Inr a, st') \<Rightarrow> sent_valid sent (sent n1) st' | (Inl (Throw e), st') \<Rightarrow> replies_safe st' | (Inl (Fault f), st') \<Rightarrow> False" .
  obtain r st3 where r: "io_bind (register_users ?u dis wr 2) (\<lambda>_. run_minutes True fl dis wr 2 minutes) ?st = (r, st3)"
    by fastforce
  have l: "launch_client connect wr ?init = (Inr (), ?init\<lparr>sg_net := n1\<rparr>)"
    using launch by (simp add: launch_client_def strategy_new_def)
  have c: "sg_config ?st = config" by (simp add: strategy_new_def)
  have run: "strategy_run True fl dis connect wr minutes ?init =
      (case (r, st3) of
         (Inl (Fault f), st3) \<Rightarrow> (Inl (Fault f), st3)
       | (Inl (Throw e), st3) \<Rightarrow>
           io_bind get_responses (\<lambda>joined. io_return (if joined then Some (True, False) else None))
             (st3\<lparr>sg_badFlag := True\<rparr>)
       | (Inr _, st3) \<Rightarrow> (Inr (Some (False, False)), st3))"
    unfolding strategy_run_def l prod.case sum.case Let_def using r pos c by simp
  show ?thesis
  proof (cases r)
    case (Inr a)
    then have "strategy_run True fl dis connect wr minutes ?init = (Inr (Some (False, False)), st3)"
      and "sent_valid sent (sent n1) st3"
      using run body r by simp_all
    then show ?thesis by auto
  next
    case (Inl e)
    then obtain x where x: "e = Throw x" "replies_safe st3" using body r by (cases e) simp_all
    have "replies_safe (st3\<lparr>sg_badFlag := True\<rparr>)" using x(2) by (simp add: replies_safe_def replies_ok_def)
    from get_responses_ok [OF this] obtain joined st4 where
        g: "get_responses (st3\<lparr>sg_badFlag := True\<rparr>) = (Inr joined, st4)"
          "\<not> joined \<longrightarrow> sg_answering st4 \<and> concat (sg_replies st4) = []"
      by blast
    have "strategy_run True fl dis connect wr minutes ?init = (Inr (if joined then Some (True, False) else None), st4)"
      using run Inl x(1) g(1) by simp
    then show ?thesis using g(2) by (cases joined) auto
  qed
qed

end
