(* ===== verification/Client_Ties.thy ===== *)
theory Client_Ties
  imports Client_Check
begin

text \<open>
  How the test client ranks users with equal amounts: the multimap the rating is built in keeps the order
  in which equal keys arrive, and they arrive map by map, the connected users before the disconnected, each
  map in the order of the identifiers. The service keeps the order of the deals. So there are users whom
  the two rank differently although both have the right amounts.
\<close>

section \<open>The rating keeps the order of equal amounts\<close>

lemma ratings_emplace_stable:
  "sorted_wrt (\<lambda>p q. fst p \<ge> fst q) m \<Longrightarrow>
    filter (\<lambda>p. fst p = w) (ratings_emplace k a m) =
      filter (\<lambda>p. fst p = w) m @ (if k = w then [(k, a)] else [])"
proof (induction k a m rule: ratings_emplace.induct)
  case (2 k a k' a' m)
  show ?case
  proof (cases "k > k'")
    case True
    have "filter (\<lambda>p. fst p = k) ((k', a') # m) = []"
      using 2(2) True by (auto simp: filter_empty_conv)
    then show ?thesis using True by auto
  next
    case False
    then show ?thesis using 2 by auto
  qed
qed simp

lemma collect_rating_stable:
  assumes "fold_outcome (collect_rating s) as m = Inr m'" and "sorted_wrt (\<lambda>p q. fst p \<ge> fst q) m"
  shows "filter (\<lambda>p. fst p = w) m' =
    filter (\<lambda>p. fst p = w) m @ map (Pair w) (filter (\<lambda>a. client_won s a = w) as)"
  using assms
proof (induction as arbitrary: m)
  case (Cons a as)
  obtain u where u: "st_objects s a = Some u"
      "fold_outcome (collect_rating s) as (ratings_emplace (cu_winnings u) a m) = Inr m'"
    using Cons.prems(1) by (auto simp: collect_rating_def [of s a] bind_outcome_Inr_iff deref_Inr_iff)
  have "client_won s a = cu_winnings u" using u(1) by (simp add: client_won_def)
  then show ?case
    using Cons.IH [OF u(2) ratings_emplace_sorted [OF Cons.prems(2)]]
      ratings_emplace_stable [OF Cons.prems(2), of w "cu_winnings u" a] by auto
qed simp

lemma set_ratings_vector:
  "fold_outcome (\<lambda>ud. set_rating ud p) as s = Inr s' \<Longrightarrow> st_rating s' = st_rating s"
  by (induction as arbitrary: s)
     (auto simp: set_rating_def put_user_def bind_outcome_Inr_iff)

text \<open>The users of an amount stand in the rating in the order of the maps.\<close>

lemma recalculateRating_stable:
  assumes wf: "client_wf s" and run: "recalculateRating s = Inr s'"
  shows "filter (\<lambda>a. client_won s a = w) (st_rating s') =
    filter (\<lambda>a. client_won s a = w) (map_addrs s [0, 1])"
proof -
  obtain m where m: "fold_outcome (collect_rating s) (map_addrs s [0, 1]) [] = Inr m"
      "set (map snd m) = {a. \<exists>uid u. client_at s uid a u \<and> cu_winnings u \<noteq> 0}"
    using rating_built [OF wf] by (auto simp: forEachInMaps_flat)
  have keys: "fst p = client_won s (snd p)" if "p \<in> set m" for p
  proof -
    have "\<forall>p \<in> set m'. fst p = client_won s (snd p)"
      if "fold_outcome (collect_rating s) as m0 = Inr m'" "\<forall>p \<in> set m0. fst p = client_won s (snd p)" for as m0 m'
      using that
    proof (induction as arbitrary: m0)
      case (Cons a as)
      obtain u where u: "st_objects s a = Some u"
          "fold_outcome (collect_rating s) as (ratings_emplace (cu_winnings u) a m0) = Inr m'"
        using Cons.prems(1) by (auto simp: collect_rating_def [of s a] bind_outcome_Inr_iff deref_Inr_iff)
      have "set (ratings_emplace (cu_winnings u) a m0) = insert (cu_winnings u, a) (set m0)"
        using arg_cong [OF ratings_emplace_mset [of "cu_winnings u" a m0], of set_mset] by simp
      then show ?case using Cons.IH [OF u(2)] Cons.prems(2) u(1) by (simp add: client_won_def)
    qed simp
    then show ?thesis using m(1) that by force
  qed
  have ok: "a \<noteq> nullptr \<and> st_objects s a \<noteq> None" if "a \<in> set (map snd m)" for a
    using that client_atD [OF wf] unfolding m(2) by blast
  obtain s1 where s1: "fold_outcome place_user (map snd m)
      (s\<lparr>st_rating := resize_rating (length m) (st_rating s)\<rparr>, 0) = Inr (s1, length m)"
      "st_rating s1 = map snd m"
    using place_users [of "map snd m" "s\<lparr>st_rating := resize_rating (length m) (st_rating s)\<rparr>" 0] ok
    by (simp add: resize_rating_def)
  then have "st_rating s' = map snd m"
    using run m(1)
    by (auto simp: recalculateRating_def forEachInMaps_flat bind_outcome_Inr_iff dest: set_ratings_vector)
  then have "filter (\<lambda>a. client_won s a = w) (st_rating s') = map snd (filter (\<lambda>p. client_won s (snd p) = w) m)"
    by (simp add: filter_map comp_def)
  also have "filter (\<lambda>p. client_won s (snd p) = w) m = filter (\<lambda>p. fst p = w) m"
    by (rule filter_cong) (simp_all add: keys)
  also have "map snd \<dots> = filter (\<lambda>a. client_won s a = w) (map_addrs s [0, 1])"
    using collect_rating_stable [OF m(1), of w] by (simp add: comp_def)
  finally show ?thesis .
qed

section \<open>Connected users first\<close>

lemma filter_split:
  "filter P xs = ys @ zs \<Longrightarrow> \<exists>xs1 xs2. xs = xs1 @ xs2 \<and> filter P xs1 = ys \<and> filter P xs2 = zs"
proof (induction ys arbitrary: xs)
  case Nil
  then show ?case by (intro exI [of _ "[]"] exI [of _ xs]) simp
next
  case (Cons y ys)
  then obtain us vs where uv: "xs = us @ y # vs" "\<forall>u \<in> set us. \<not> P u" "P y" "filter P vs = ys @ zs"
    by (auto simp: filter_eq_Cons_iff)
  from Cons.IH [OF uv(4)] obtain vs1 vs2 where "vs = vs1 @ vs2" "filter P vs1 = ys" "filter P vs2 = zs" by blast
  then show ?case using uv(1-3) by (intro exI [of _ "us @ y # vs1"] exI [of _ vs2]) (simp add: filter_empty_conv)
qed

lemma tied_users_ranked:
  assumes wf: "client_wf s" and run: "recalculateRating s = Inr s'"
    and u: "client_at s uid a u" and v: "client_at s vid b v"
    and tie: "cu_winnings u = cu_winnings v" "cu_winnings v \<noteq> 0"
    and seconds: "cu_second u = invalidSecond" "cu_second v \<noteq> invalidSecond"
  shows "\<exists>u' v'. client_at s' uid a u' \<and> client_at s' vid b v' \<and> 0 \<le> cu_rating v' \<and> cu_rating v' < cu_rating u'"
proof -
  let ?P = "\<lambda>c. client_won s c = cu_winnings v"
  obtain s1 where s1: "recalculateRating s = Inr s1" "same_users s s1" "client_wf s1" "places_known s1" "client_ranked s1"
    using recalculateRating_ok [OF wf] by blast
  then have s': "same_users s s'" "client_wf s'" "places_known s'" "client_ranked s'" using run by simp_all
  have "map_addrs s [0, 1] = map_addrs s [0] @ map_addrs s [1]" by (simp add: map_addrs_def)
  then have "filter ?P (st_rating s') = filter ?P (map_addrs s [0]) @ filter ?P (map_addrs s [1])"
    using recalculateRating_stable [OF wf run, of "cu_winnings v"] by simp
  from filter_split [OF this] obtain L1 L2 where L: "st_rating s' = L1 @ L2"
      "filter ?P L1 = filter ?P (map_addrs s [0])" "filter ?P L2 = filter ?P (map_addrs s [1])"
    by blast
  have classes: "user_class v = 0" "user_class u = 1" using tie seconds by (simp_all add: user_class_def)
  have "b \<in> set (map_addrs s [0])" using map_addrs_live [OF wf, of "[0]" b] v classes(1) by force
  moreover have "a \<in> set (map_addrs s [1])" using map_addrs_live [OF wf, of "[1]" a] u classes(2) by force
  moreover have "?P a" "?P b" using u v tie(1) by (simp_all add: client_won_def client_at_def)
  ultimately have "b \<in> set (filter ?P L1)" "a \<in> set (filter ?P L2)" unfolding L(2,3) by simp_all
  then have "b \<in> set L1" "a \<in> set L2" by simp_all
  obtain p where p: "p < length L1" "L1 ! p = b" using \<open>b \<in> set L1\<close> by (auto simp: in_set_conv_nth)
  obtain q where q: "q < length L2" "L2 ! q = a" using \<open>a \<in> set L2\<close> by (auto simp: in_set_conv_nth)
  have at: "st_rating s' ! p = b" "st_rating s' ! (length L1 + q) = a" "p < length (st_rating s')"
      "length L1 + q < length (st_rating s')"
    using p q L(1) by (simp_all add: nth_append)
  have dist: "distinct (st_rating s')" using s'(4) by (simp add: client_ranked_def)
  have place: "cu_rating w = int i" if w: "client_at s' xid (st_rating s' ! i) w" and i: "i < length (st_rating s')" for xid w i
  proof -
    obtain yid w' where "client_at s' yid (st_rating s' ! i) w'" "cu_rating w' = int i"
      using s'(3) i unfolding places_known_def by blast
    then show ?thesis using rating_disjoint [OF s'(2) w] by blast
  qed
  obtain u' where "client_at s' uid a u'" using same_users_at' [OF s'(1) u] by blast
  moreover obtain v' where "client_at s' vid b v'" using same_users_at' [OF s'(1) v] by blast
  moreover note uv = calculation
  have "cu_rating u' = int (length L1 + q)" "cu_rating v' = int p"
    using place [of uid "length L1 + q" u'] place [of vid p v'] uv at by simp_all
  then show ?thesis using uv p(1) by (intro exI [of _ u'] exI [of _ v']) simp
qed

text \<open>Messages that place such users the other way round cannot both be right.\<close>

lemma tied_messages_rejected:
  assumes wf: "client_wf s" and run: "recalculateRating s = Inr s'"
    and u: "client_at s uid a u" and v: "client_at s vid b v"
    and tie: "cu_winnings u = cu_winnings v" "cu_winnings v \<noteq> 0"
    and seconds: "cu_second u = invalidSecond" "cu_second v \<noteq> invalidSecond"
    and told: "rp_userId r = uid" "rp_userId r' = vid" "rp_ratingPos r < rp_ratingPos r'"
  shows "\<exists>x \<in> {r, r'}. \<exists>s''. validateRating x s' = Inr s'' \<and> validRatings (st_report s'') = validRatings (st_report s') \<and>
    failures (st_report s'') = failures (st_report s') + 1"
proof -
  obtain u' v' where uv: "client_at s' uid a u'" "client_at s' vid b v'" "0 \<le> cu_rating v'"
      "cu_rating v' < cu_rating u'"
    using tied_users_ranked [OF assms(1-8)] by blast
  have wf': "client_wf s'" using recalculateRating_ok [OF wf] run by auto
  have "\<not> (place_good s' r \<and> place_good s' r')"
    using uv told by (auto simp: place_good_def client_at_iff [OF uv(1)] client_at_iff [OF uv(2)] invalidRating_def)
  then obtain x where x: "x \<in> {r, r'}" "\<not> rating_good s' x" by (auto simp: rating_good_def)
  obtain s'' where "validateRating x s' = Inr s''" "verdict False (st_report s') (st_report s'')"
    using validateRating_ok [OF wf', of x] x(2) by auto
  then show ?thesis using x(1) by (auto simp: verdict_def)
qed

end
