(* ===== verification/Client_Claims.thy ===== *)
theory Client_Claims
  imports Strategy_Whole Samples Client_Ties
begin

text \<open>
  The properties of the test client (\<open>test/storage.cpp\<close>, \<open>test/strategy.cpp\<close>), each with a run of the
  model on concrete data.
\<close>

section \<open>A small client\<close>

definition sample_dis :: "nat distribution" where
  "sample_dis a b g = (min b (a + int g), Suc g)"

definition sample_names :: "nat name_generator" where
  "sample_names = \<lparr> ng_gen = 0, nameIndex = 0, lastNameIndex = 0 \<rparr>"

lemma sample_dis_between: "draws_between sample_dis"
  by (simp add: draws_between_def sample_dis_def)

text \<open>Two users, both disconnected, then one of them connected.\<close>

definition sample_silent :: client_storage where
  "sample_silent = importNewUser 1 [2] (importNewUser 0 [1] client_storage_new)"

definition sample_user :: "int \<Rightarrow> buffer_t \<Rightarrow> client_user" where
  "sample_user uid name = client_user_new\<lparr>cu_id := uid, cu_name := name\<rparr>"

lemma sample_silent_wf:
  "client_wf sample_silent" "client_at sample_silent 0 1 (sample_user 0 [1])"
  "client_at sample_silent 1 2 (sample_user 1 [2])"
proof -
  let ?u = "sample_user 0 [1]" and ?v = "sample_user 1 [2]"
  have cls: "user_class ?u = 3" "user_class ?v = 3" "cu_id ?u = 0" "cu_id ?v = 1"
    by (simp_all add: sample_user_def user_class_def client_user_new_def)
  have fresh: "tmap_find (cu_id ?u) (st_index client_storage_new) = None" by (simp add: client_storage_new_def)
  note one = client_wf_add [OF client_wf_new fresh cls(1)]
  let ?s = "snd (add_user ?u client_storage_new)"
  have u: "client_at ?s 0 1 ?u" using one(2) cls(3) by (simp add: client_storage_new_def)
  have fresh': "tmap_find (cu_id ?v) (st_index ?s) = None"
  proof (rule ccontr)
    assume "tmap_find (cu_id ?v) (st_index ?s) \<noteq> None"
    then obtain b w where "client_at ?s (cu_id ?v) b w" using client_indexed [OF one(1)] by blast
    then show False using one(2) cls(3,4) by (simp add: client_at_def client_storage_new_def)
  qed
  note two = client_wf_add [OF one(1) fresh' cls(2)]
  have next2: "st_next ?s = 2" by (simp add: add_user_def Let_def client_storage_new_def)
  have s: "sample_silent = snd (add_user ?v ?s)" by (simp add: sample_silent_def importNewUser_def sample_user_def)
  show "client_wf sample_silent" unfolding s by (rule two(1))
  show "client_at sample_silent 0 1 ?u" unfolding s using two(2) u cls(4) by simp
  show "client_at sample_silent 1 2 ?v" unfolding s using two(2) cls(4) next2 by simp
qed

section \<open>The storage\<close>

text \<open>
  C25. The operations of the client's storage keep it in order: on a user of the index renaming always
  succeeds, connecting does for a disconnected user, disconnecting for a connected one, and a deal that
  leaves the amount different from zero and in range does, in a build whose functions return without
  their \<open>return\<close>; the user is then in the map his amount and his second say, and in no other.
\<close>

theorem client_storage_typed:
  assumes "client_wf s" and "client_at s uid a u"
  shows "(\<exists>s'. renameUser uid name s = Inr (a, s') \<and> client_wf s') \<and>
    (cu_second u = invalidSecond \<and> second \<noteq> invalidSecond \<longrightarrow>
      (\<exists>s'. connectUser uid second s = Inr (a, s') \<and> client_wf s' \<and> client_at s' uid a (u\<lparr>cu_second := second\<rparr>))) \<and>
    (cu_second u \<noteq> invalidSecond \<longrightarrow>
      (\<exists>s'. disconnectUser uid s = Inr (a, s') \<and> client_wf s' \<and>
        client_at s' uid a (u\<lparr>cu_second := invalidSecond, ratingReceived := ratingReceived u \<and> cu_winnings u = 0\<rparr>))) \<and>
    (in_long (cu_winnings u + w) \<and> cu_winnings u + w \<noteq> 0 \<longrightarrow>
      (\<exists>s'. fixUserWinnings True uid w s = Inr s' \<and> client_wf s' \<and>
        client_at s' uid a (u\<lparr>winningsHistory := push_history (cu_winnings u) (winningsHistory u),
          cu_winnings := cu_winnings u + w\<rparr>)))"
proof (intro conjI impI, goal_cases)
  case 1
  show ?case using renameUser_ok [OF assms] by blast
next
  case 2
  then show ?case using connectUser_ok [OF assms] client_wf_put_migrated_at [OF assms] by fastforce
next
  case 3
  then show ?case using disconnectUser_ok [OF assms] client_wf_put_migrated_at [OF assms] by fastforce
next
  case 4
  then obtain s' where s': "fixUserWinnings_body uid w s = Inr s'" "client_wf s'"
      "client_at s' uid a (u\<lparr>winningsHistory := push_history (cu_winnings u) (winningsHistory u),
          cu_winnings := cu_winnings u + w\<rparr>)"
    using fixUserWinnings_ok [OF assms, of w] client_wf_put_migrated_at [OF assms] client_at_put [OF assms]
    by (cases "cu_winnings u = 0") auto
  then show ?case by (simp add: fixUserWinnings_def flow_off_def)
qed

theorem client_storage_typed_witness:
  "\<exists>s'. connectUser 1 7 sample_silent = Inr (2, s') \<and> client_wf s' \<and>
    client_at s' 1 2 ((sample_user 1 [2])\<lparr>cu_second := 7\<rparr>)"
proof -
  have "cu_second (sample_user 1 [2]) = invalidSecond \<and> (7 :: nat) \<noteq> invalidSecond"
    by (simp add: sample_user_def client_user_new_def invalidSecond_def)
  then show ?thesis
    using client_storage_typed [OF sample_silent_wf(1) sample_silent_wf(3), of undefined 7 0] by blast
qed

text \<open>
  C26. At the turn of a minute the client's storage becomes a deep copy of the current data: it is in
  order, has the same users up to their places, its rating
  lists the users who have won something, each once, by falling winnings, every user knows his place,
  and the counters start again from zero.
\<close>

theorem client_next_minute:
  assumes "client_wf s" and "client_wf N"
  shows "\<exists>r s'. setNextMinuteData N s = Inr (r, s') \<and> client_wf s' \<and> places_known s' \<and> client_ranked s' \<and>
    st_report s' = validation_report_new \<and> pub_failures r = failures (st_report s) \<and>
    (\<forall>uid u0. (\<exists>a v. client_at s' uid a v \<and> cu_rating_update (\<lambda>_. 0) v = u0) \<longleftrightarrow>
           (\<exists>b u. client_at N uid b u \<and> cu_rating_update (\<lambda>_. 0) u = u0))"
proof -
  obtain r0 where r0: "publishValidationReport s = Inr r0" "pub_failures r0 = failures (st_report s)"
    using publish_ok [OF assms(1)] by blast
  obtain r s' where s': "setNextMinuteData N s = Inr (r, s')"
    using setNextMinuteData_ok [OF assms] by blast
  have all: "client_wf s' \<and> places_known s' \<and> client_ranked s' \<and> st_report s' = validation_report_new \<and>
    (\<forall>uid. (\<exists>a v. client_at s' uid a v \<and> cu_rating_update (\<lambda>_. 0) v = u0) \<longleftrightarrow>
           (\<exists>b u. client_at N uid b u \<and> cu_rating_update (\<lambda>_. 0) u = u0))" for u0
  proof -
    obtain r1 s1 where "setNextMinuteData N s = Inr (r1, s1)" "client_wf s1 \<and> places_known s1 \<and> client_ranked s1 \<and>
        st_report s1 = validation_report_new \<and>
        (\<forall>uid. (\<exists>a v. client_at s1 uid a v \<and> cu_rating_update (\<lambda>_. 0) v = u0) \<longleftrightarrow>
               (\<exists>b u. client_at N uid b u \<and> cu_rating_update (\<lambda>_. 0) u = u0))"
      using setNextMinuteData_ok [OF assms, of u0] by blast
    then show ?thesis using s' by simp
  qed
  have "publishValidationReport s = Inr r"
    using s' by (auto simp: setNextMinuteData_def bind_outcome_Inr_iff)
  then have "pub_failures r = failures (st_report s)" using r0 by simp
  then show ?thesis using s' all by blast
qed

theorem client_next_minute_witness:
  "\<exists>r s'. setNextMinuteData sample_silent client_storage_new = Inr (r, s') \<and> client_ranked s' \<and>
    pub_failures r = 0 \<and> (\<exists>a v. client_at s' 1 a v \<and> cu_name v = [2])"
proof -
  let ?same = "\<lambda>s'. \<forall>uid u0. (\<exists>a v. client_at s' uid a v \<and> cu_rating_update (\<lambda>_. 0) v = u0) \<longleftrightarrow>
           (\<exists>b u. client_at sample_silent uid b u \<and> cu_rating_update (\<lambda>_. 0) u = u0)"
  obtain r s' where s': "setNextMinuteData sample_silent client_storage_new = Inr (r, s')" "client_ranked s'"
      "pub_failures r = failures (st_report client_storage_new)" "?same s'"
    using client_next_minute [OF client_wf_new sample_silent_wf(1)] by blast
  have "\<exists>b u. client_at sample_silent 1 b u \<and> cu_rating_update (\<lambda>_. 0) u = cu_rating_update (\<lambda>_. 0) (sample_user 1 [2])"
    using sample_silent_wf(3) by blast
  then obtain a v where v: "client_at s' 1 a v" "cu_rating_update (\<lambda>_. 0) v = cu_rating_update (\<lambda>_. 0) (sample_user 1 [2])"
    using s'(4) by blast
  from rating_irrelevant(3) [OF v(2)] have "cu_name v = [2]" by (simp add: sample_user_def)
  moreover have "failures (st_report client_storage_new) = 0"
    by (simp add: client_storage_new_def validation_report_new_def)
  ultimately show ?thesis using s'(1-3) v(1) by auto
qed

section \<open>The check of the service's messages\<close>

text \<open>
  C13. The client counts every rating it receives once, as valid exactly when its length is that of the
  client's own rating, the user's place is the one the client knows (the end, for a user who is not
  rated), and every entry names a user at that place with his amount and his name, or with an amount or
  a name of his recent past; else as a failure. The check itself never fails on a storage in order.
\<close>

theorem client_verdict:
  assumes "client_wf s"
  shows "\<exists>s'. validateRating r s = Inr s' \<and> client_wf s' \<and> verdict (rating_good s r) (st_report s) (st_report s')"
  using validateRating_ok [OF assms] by blast

theorem client_verdict_witness:
  "\<exists>s'. validateRating rating_pack_default sample_silent = Inr s' \<and> failures (st_report s') = 1 \<and>
    validRatings (st_report s') = 0"
proof -
  have "\<not> rating_good sample_silent rating_pack_default"
    by (simp add: rating_good_def rating_pack_default_def invalidUserId_def)
  moreover have "st_report sample_silent = validation_report_new"
    by (simp add: sample_silent_def importNewUser_def add_user_def Let_def client_storage_new_def)
  ultimately show ?thesis
    using client_verdict [OF sample_silent_wf(1), of rating_pack_default]
    by (auto simp: verdict_def validation_report_new_def)
qed

text \<open>
  The client on the frame of the rating message for a user it ranks like the service: the response thread
  reads it, checks it against the storage of the last minute and counts it as valid.
\<close>

lemma rating_checked:
  assumes "serving c" and "pos \<le> length (rating_vector c)" and "in_int uid"
    and "asio_stream wr rd sent pending" and "pending m = frame (rating_body c uid pos) @ rest"
    and "client_wf s" and "mirrors s c" and "client_at s uid a u"
    and "cu_rating u = int pos \<or> cu_rating u = invalidRating \<and> pos = length (rating_vector c)"
    and "0 \<le> uid" and "uid < int (length (st_index s))"
  shows "\<exists>b m' s'. layer_receive rd m = (Inr b, m') \<and> pending m' = rest \<and>
    process_response (Inr b) s = Inr s' \<and> client_wf s' \<and>
    validRatings (st_report s') = validRatings (st_report s) + 1 \<and>
    failures (st_report s') = failures (st_report s)"
proof -
  note wire = serving_wire [OF assms(1)]
  obtain m' where m': "layer_receive rd m = (Inr (istream_of (rating_body c uid pos)), m')" "pending m' = rest"
    using layer_receive_frame [OF assms(4,5) rating_body_small [OF wire assms(2)]] by blast
  let ?b = "istream_of (rating_body c uid pos)" and ?r = "pack_for c uid pos"
  obtain i where i: "interpretIncomingData ?b = Inr (Rating_Message ?r, i)"
    using rating_body_read [OF wire assms(2,3)] by blast
  have "process_response (Inr ?b) s = validateRating ?r s"
    by (rule interpreted_rating [OF i])
  moreover have "rating_good s ?r"
  proof (rule pack_for_good [OF assms(7) _ assms(2,8,9,10,11)])
    show "int (length (rating_vector c)) \<le> INT_MAX" using wire by (simp add: wire_ok_def)
    show "uid < 2 ^ 64" using assms(3) by (simp add: in_int_def)
  qed
  moreover obtain s' where "validateRating ?r s = Inr s'" "client_wf s'"
      "verdict (rating_good s ?r) (st_report s) (st_report s')"
    using validateRating_ok [OF assms(6)] by blast
  ultimately show ?thesis using m' by (auto simp: verdict_def)
qed

text \<open>
  C12. What a worker sends for a user is accepted by the client whose rating agrees with the service's:
  the response thread reads the frame, checks it against the storage of the last minute and counts it
  as valid, with no failure.
\<close>

theorem service_rating_accepted:
  assumes "serving c" and "cached c bd" and "pos \<le> length (rating_vector c)" and "in_int uid"
    and "asio_stream wr rd sent pending"
    and "processRatingImpl wr c uid (int pos) bd n = (Inr bd', n')"
    and "pending m = drop (length (sent n)) (sent n') @ rest"
    and "client_wf s" and "mirrors s c" and "client_at s uid a u"
    and "cu_rating u = int pos \<or> cu_rating u = invalidRating \<and> pos = length (rating_vector c)"
    and "0 \<le> uid" and "uid < int (length (st_index s))"
  shows "\<exists>b m' s'. layer_receive rd m = (Inr b, m') \<and> pending m' = rest \<and>
    process_response (Inr b) s = Inr s' \<and> client_wf s' \<and>
    validRatings (st_report s') = validRatings (st_report s) + 1 \<and>
    failures (st_report s') = failures (st_report s)"
proof -
  have "sent n' = sent n @ frame (rating_body c uid pos)"
    using processRatingImpl_ok [OF serving_wire [OF assms(1)] assms(2,3,5), of uid n] assms(6) by auto
  then have "pending m = frame (rating_body c uid pos) @ rest" using assms(7) by simp
  from rating_checked [OF assms(1,3,4,5) this assms(8-13)] show ?thesis .
qed

text \<open>Two rated users as the service has them, and as the client has them.\<close>

definition pair_core :: "int \<Rightarrow> core_rating_data" where
  "pair_core w =
    \<lparr> objects = [1 \<mapsto> \<lparr> secondConnected = 60, user_name = [97], user_id = 0, amountWon = w, user_rating = 0 \<rparr>,
                 2 \<mapsto> \<lparr> secondConnected = 60, user_name = [98], user_id = 1, amountWon = 5, user_rating = 1 \<rparr>],
      next_addr = 3, silentUsers = [], activeUsers = [(0, 1), (1, 2)], rating_vector = [1, 2] \<rparr>"

definition pair_user :: "int \<Rightarrow> buffer_t \<Rightarrow> nat \<Rightarrow> int \<Rightarrow> int \<Rightarrow> client_user" where
  "pair_user uid name second w pl =
    \<lparr> cu_id = uid, cu_name = name, cu_second = second, cu_winnings = w, cu_rating = pl,
      ratingReceived = False, winningsHistory = [], nameList = [] \<rparr>"

definition pair_storage :: "client_user \<Rightarrow> client_user \<Rightarrow> addr list \<Rightarrow> client_storage" where
  "pair_storage u v r =
    \<lparr> st_objects = [1 \<mapsto> u, 2 \<mapsto> v], st_next = 3,
      st_users = map (\<lambda>i. (if user_class u = i then [(0, 1)] else []) @ (if user_class v = i then [(1, 2)] else [])) [0..<4],
      st_index = [(0, 1), (1, 2)], st_rating = r, st_report = validation_report_new \<rparr>"

definition pair_client :: client_storage where
  "pair_client = pair_storage (pair_user 0 [97] 60 7 0) (pair_user 1 [98] 60 5 1) [1, 2]"

lemma pair_storage_at:
  "client_at (pair_storage u v r) uid a w \<longleftrightarrow> uid = 0 \<and> a = 1 \<and> w = u \<or> uid = 1 \<and> a = 2 \<and> w = v"
  by (auto simp: client_at_def pair_storage_def tmap_find_def)

lemma pair_storage_wf:
  assumes "cu_id u = 0" and "cu_id v = 1"
  shows "client_wf (pair_storage u v r)"
proof (rule client_wfI)
  fix uid a
  assume "tmap_find uid (st_index (pair_storage u v r)) = Some a"
  then show "a \<noteq> nullptr \<and> a < st_next (pair_storage u v r) \<and>
      (\<exists>w. st_objects (pair_storage u v r) a = Some w \<and> cu_id w = uid)"
    using assms by (auto simp: pair_storage_def tmap_find_def nullptr_def split: if_splits)
next
  fix i uid a
  assume i: "i < (4::nat)"
  then have m: "st_users (pair_storage u v r) ! i =
      (if user_class u = i then [(0, 1)] else []) @ (if user_class v = i then [(1, 2)] else [])"
    by (simp add: pair_storage_def)
  show "tmap_wf (st_users (pair_storage u v r) ! i)" unfolding m by (simp add: tmap_wf_def)
  show "tmap_find uid (st_users (pair_storage u v r) ! i) = Some a \<longleftrightarrow>
      (\<exists>w. client_at (pair_storage u v r) uid a w \<and> user_class w = i)"
    unfolding m pair_storage_at by (auto simp: tmap_find_def)
qed (simp_all add: pair_storage_def tmap_wf_def)

lemma pair_serving: "5 \<le> w \<Longrightarrow> w < 100 \<Longrightarrow> serving (pair_core w)"
  by (auto simp: serving_def store_wf_def rating_wf_def pair_core_def hmap_wf_def hmap_find_def nullptr_def
      ranked_def amount_in_def INT_MAX_def less_Suc_eq valid_entry_def entry_of_def in_int_def in_long_def
      UCHAR_MAX_def split: if_splits)

lemma pair_client_wf: "client_wf pair_client"
  unfolding pair_client_def by (rule pair_storage_wf) (simp_all add: pair_user_def)

lemma pair_mirrors: "mirrors pair_client (pair_core 7)"
proof -
  have "length (st_rating pair_client) = 2" by (simp add: pair_client_def pair_storage_def)
  moreover have "entry_at (pair_core 7) 0 = \<lparr> entry_id = 0, entry_name = [97], entry_winnings = 7 \<rparr>"
    "entry_at (pair_core 7) 1 = \<lparr> entry_id = 1, entry_name = [98], entry_winnings = 5 \<rparr>"
    by (simp_all add: entry_at_def pair_core_def entry_of_def)
  ultimately show ?thesis
    by (simp add: mirrors_def pair_core_def less_Suc_eq all_conj_distrib entry_good_def pair_client_def
        pair_storage_at pair_user_def)
qed

lemma pair_ready:
  "serving (pair_core 7)" "1 \<le> length (rating_vector (pair_core 7))"
  "client_at pair_client 1 2 (pair_user 1 [98] 60 5 1)"
  "cu_rating (pair_user 1 [98] 60 5 1) = int 1 \<or>
    cu_rating (pair_user 1 [98] 60 5 1) = invalidRating \<and> 1 = length (rating_vector (pair_core 7))"
  "(0::int) \<le> 1" "(1::int) < int (length (st_index pair_client))"
  "validRatings (st_report pair_client) = 0" "failures (st_report pair_client) = 0"
proof -
  show "serving (pair_core 7)" by (rule pair_serving) simp_all
  show "1 \<le> length (rating_vector (pair_core 7))" by (simp add: pair_core_def)
  show "client_at pair_client 1 2 (pair_user 1 [98] 60 5 1)" by (simp add: pair_client_def pair_storage_at)
qed (simp_all add: pair_client_def pair_storage_def pair_user_def validation_report_new_def)

lemma in_int_1: "in_int 1" by (simp add: in_int_def)

theorem service_rating_accepted_witness:
  "\<exists>bd bd' n' b m' s'. processRatingImpl link_write (pair_core 7) 1 1 bd [] = (Inr bd', n') \<and>
    layer_receive link_read n' = (Inr b, m') \<and> process_response (Inr b) pair_client = Inr s' \<and>
    validRatings (st_report s') = 1 \<and> failures (st_report s') = 0"
proof -
  obtain bd where bd: "cached (pair_core 7) bd"
    using cacheTopRatings_fresh [OF serving_wire [OF pair_ready(1)]] by blast
  from processRatingImpl_runs [OF serving_wire [OF pair_ready(1)] bd pair_ready(2) asio_stream_link, of 1 "[]"]
  obtain bd' n' where run: "processRatingImpl link_write (pair_core 7) 1 (int 1) bd [] = (Inr bd', n')"
    by (auto simp: link_write_def)
  have n': "id n' = drop (length (id ([] :: buffer_t))) (id n') @ []" by simp
  from service_rating_accepted [OF pair_ready(1) bd pair_ready(2) in_int_1 asio_stream_link run n' pair_client_wf
      pair_mirrors pair_ready(3-6)]
  obtain b m' s' where "layer_receive link_read n' = (Inr b, m')" "process_response (Inr b) pair_client = Inr s'"
      "validRatings (st_report s') = 1" "failures (st_report s') = 0"
    unfolding pair_ready(7,8) by auto
  then show ?thesis using run by fastforce
qed

text \<open>Two users with the same amount, the first of them disconnected, as the client has them.\<close>

definition tie_client :: client_storage where
  "tie_client = pair_storage (pair_user 0 [97] 60 5 (-1)) (pair_user 1 [98] 3 5 (-1)) []"

text \<open>Every user of the client is one of the service, with the same name and amount.\<close>

definition users_agree :: "client_storage \<Rightarrow> core_rating_data \<Rightarrow> bool" where
  "users_agree s c \<longleftrightarrow> (\<forall>uid a u. client_at s uid a u \<longrightarrow> (\<exists>v. objects c a = Some v \<and>
    entry_of v = \<lparr> entry_id = cu_id u, entry_name = cu_name u, entry_winnings = cu_winnings u \<rparr>))"

lemma tie_client_at:
  "client_at tie_client uid a u \<longleftrightarrow>
    uid = 0 \<and> a = 1 \<and> u = pair_user 0 [97] 60 5 (-1) \<or> uid = 1 \<and> a = 2 \<and> u = pair_user 1 [98] 3 5 (-1)"
  unfolding tie_client_def by (rule pair_storage_at)

lemma tie_client_wf: "client_wf tie_client"
  unfolding tie_client_def by (rule pair_storage_wf) (simp_all add: pair_user_def)

text \<open>
  C38. Equal amounts. The client ranks users who tie with the connected ones first, the service does not
  look at connections. So for any data of the client in order with two users of the same amount, not zero,
  one disconnected and one connected, and any service that has the disconnected one at an earlier place
  than the connected one: of the two messages the service sends about these places the client, from its
  own rating of these data, counts at least one as a failure and not as valid.
\<close>

theorem tie_rejected:
  assumes "client_wf s" and "recalculateRating s = Inr s'"
    and "client_at s uid a u" and "client_at s vid b v"
    and "cu_winnings u = cu_winnings v" and "cu_winnings v \<noteq> 0"
    and "cu_second u = invalidSecond" and "cu_second v \<noteq> invalidSecond"
    and "i < j"
  shows "\<exists>x \<in> {pack_for c uid i, pack_for c vid j}. \<exists>s''. validateRating x s' = Inr s'' \<and>
    validRatings (st_report s'') = validRatings (st_report s') \<and>
    failures (st_report s'') = failures (st_report s') + 1"
  by (rule tied_messages_rejected [OF assms(1-8)]) (use assms(9) in \<open>simp_all add: pack_for_def\<close>)

theorem tie_rejected_witness:
  "serving (pair_core 5) \<and> users_agree tie_client (pair_core 5) \<and>
    (\<exists>s' s'' x. recalculateRating tie_client = Inr s' \<and>
      x \<in> {pack_for (pair_core 5) 0 0, pack_for (pair_core 5) 1 1} \<and> validateRating x s' = Inr s'' \<and>
      failures (st_report s'') = failures (st_report s') + 1)"
proof (intro conjI)
  show "serving (pair_core 5)" by (rule pair_serving) simp_all
  show "users_agree tie_client (pair_core 5)"
    by (auto simp: users_agree_def tie_client_at pair_core_def pair_user_def entry_of_def)
  obtain s' where s': "recalculateRating tie_client = Inr s'"
    using recalculateRating_ok [OF tie_client_wf] by blast
  have at: "client_at tie_client 0 1 (pair_user 0 [97] 60 5 (-1))" "client_at tie_client 1 2 (pair_user 1 [98] 3 5 (-1))"
    by (simp_all add: tie_client_at)
  have "cu_winnings (pair_user 0 [97] 60 5 (-1)) = cu_winnings (pair_user 1 [98] 3 5 (-1))"
      "cu_winnings (pair_user 1 [98] 3 5 (-1)) \<noteq> 0" "cu_second (pair_user 0 [97] 60 5 (-1)) = invalidSecond"
      "cu_second (pair_user 1 [98] 3 5 (-1)) \<noteq> invalidSecond"
    by (simp_all add: pair_user_def invalidSecond_def)
  from tie_rejected [OF tie_client_wf s' at this, of 0 1 "pair_core 5"] s' show "\<exists>s' s'' x.
      recalculateRating tie_client = Inr s' \<and> x \<in> {pack_for (pair_core 5) 0 0, pack_for (pair_core 5) 1 1} \<and>
      validateRating x s' = Inr s'' \<and> failures (st_report s'') = failures (st_report s') + 1"
    by auto
qed

section \<open>The run\<close>

text \<open>
  C18. A run of the test client never meets a failed assertion, a bad access or an end of the program:
  whatever random numbers are drawn, whatever well-formed messages the service sends and whenever they
  arrive, in a build whose functions return without their \<open>return\<close> and with users that do not exhaust
  the identifiers, the run comes to its last lines with its thread of responses joined, and unless an
  exception stopped it everything it sent after the greeting is a sequence of frames of messages of the
  protocol; or, when an exception stopped it and the service sends nothing more and keeps the connection
  open, it waits in \<open>get\<close> for the thread that waits in \<open>receive\<close>.
\<close>

theorem client_run_safe:
  fixes dis :: "'g distribution" and wr :: "'n asio_write"
  assumes "asio_stream wr rd sent pending" and "client_setting fl dis config ng replies minutes"
    and "client_launch connect wr n = (Inr b, n1)"
  shows "\<exists>ending st'. strategy_run True fl dis connect wr minutes (strategy_new config g ng replies n) = (Inr ending, st') \<and>
    (case ending of
       Some (failed, answers_failed) \<Rightarrow> \<not> answers_failed \<and> (failed \<or> sent_valid sent (sent n1) st')
     | None \<Rightarrow> sg_answering st' \<and> concat (sg_replies st') = [])"
  using strategy_run_ok [OF assms, of g] by blast

theorem client_run_safe_witness:
  "\<exists>ending st' b n1. client_launch (\<lambda>n. (Inr (), n)) link_write [] = (Inr b, n1) \<and>
    strategy_run True id sample_dis (\<lambda>n. (Inr (), n)) link_write [57, 0]
      (strategy_new (strategy_config_new id) 0 sample_names [] []) = (Inr ending, st') \<and>
    (case ending of
       Some (failed, answers_failed) \<Rightarrow> \<not> answers_failed \<and> (failed \<or> sent_valid id n1 st')
     | None \<Rightarrow> sg_answering st' \<and> concat (sg_replies st') = [])"
proof -
  have fl: "rounding_ok id" by (simp add: rounding_ok_def)
  have config: "config_ok (strategy_config_new id)" by (rule config_default [OF fl])
  have setting: "client_setting id sample_dis (strategy_config_new id) sample_names [] [57, 0]"
    using fl config sample_dis_between
    by (simp add: client_setting_def Let_def names_ok_def sample_names_def need_def strategy_config_new_def INT_MAX_def)
  obtain b n1 where launch: "client_launch (\<lambda>n. (Inr (), n)) link_write [] = (Inr b, n1)"
    by (simp add: client_launch_def writeMessage_def layer_send_def link_write_def io_bind_def io_return_def Let_def)
  from client_run_safe [OF asio_stream_link setting launch, of 0] show ?thesis
    using launch unfolding id_apply by blast
qed

text \<open>
  In a build that takes the missing \<open>return\<close> statements of the wrappers at their word, the client
  never gets past its first minute: making the distribution of messages is undefined behaviour at once,
  for every storage, and so is entering a deal.
\<close>

theorem strict_build_faults:
  "fst (generateNewDistribution False fl dis currentSecond st) = Inl (Fault Missing_Return) \<and>
    (\<forall>uid w s. \<exists>e. fixUserWinnings False uid w s = Inl e)"
proof
  show "fst (generateNewDistribution False fl dis currentSecond st) = Inl (Fault Missing_Return)"
    by (simp add: generateNewDistribution_def distribute_def uds_getUserGroupSize_def flow_off_def io_bind_def io_lift_def)
  show "\<forall>uid w s. \<exists>e. fixUserWinnings False uid w s = Inl e"
    by (auto simp: fixUserWinnings_def flow_off_def bind_outcome_def split: sum.splits)
qed

end
