(* ===== verification/Asio_Kernel.thy ===== *)
theory Asio_Kernel
  imports Prelude "HOL-Library.Signed_Division"
begin

unbundle bit_operations_syntax

text \<open>
  What asio's socket operations (\<open>asio/detail/impl/socket_ops.ipp\<close>) are built on, as compiled on Linux:
  error codes (\<open>asio/error.hpp\<close>, \<open>asio/error_code.hpp\<close>), the bits of a socket's state
  (\<open>asio/detail/socket_ops.hpp\<close>), and the kernel. The kernel is a parameter: a function from a system
  call and the state of the world to the call's result, the value of \<open>errno\<close> behind it and the next
  state. The program's memory is a map from addresses to bytes; a call that receives stores what the
  kernel delivers into the buffers it was given.
\<close>

section \<open>Error codes\<close>

datatype error_category = System_Category | Addrinfo_Category | Misc_Category

record error_code =
  ec_value :: int
  ec_category :: error_category

definition no_error :: error_code where
  "no_error = \<lparr> ec_value = 0, ec_category = System_Category \<rparr>"

definition failed :: "error_code \<Rightarrow> bool" where
  "failed ec \<longleftrightarrow> ec_value ec \<noteq> 0"

definition system_error :: "int \<Rightarrow> error_code" where
  "system_error e = \<lparr> ec_value = e, ec_category = System_Category \<rparr>"

text \<open>The values of \<open>errno\<close> the operations look at, as Linux numbers them.\<close>

definition interrupted :: error_code where "interrupted = system_error 4"
definition bad_descriptor :: error_code where "bad_descriptor = system_error 9"
definition try_again :: error_code where "try_again = system_error 11"
definition would_block :: error_code where "would_block = system_error 11"
definition invalid_argument :: error_code where "invalid_argument = system_error 22"
definition not_socket :: error_code where "not_socket = system_error 88"
definition connection_aborted :: error_code where "connection_aborted = system_error 103"
definition no_buffer_space :: error_code where "no_buffer_space = system_error 105"
definition in_progress :: error_code where "in_progress = system_error 115"
definition ENOTTY :: int where "ENOTTY = 25"
definition EPROTO :: int where "EPROTO = 71"

definition already_open :: error_code where
  "already_open = \<lparr> ec_value = 1, ec_category = Misc_Category \<rparr>"
definition eof :: error_code where
  "eof = \<lparr> ec_value = 2, ec_category = Misc_Category \<rparr>"
definition not_found :: error_code where
  "not_found = \<lparr> ec_value = 3, ec_category = Misc_Category \<rparr>"

lemmas error_code_defs =
  no_error_def failed_def system_error_def interrupted_def bad_descriptor_def try_again_def would_block_def
  invalid_argument_def not_socket_def connection_aborted_def no_buffer_space_def in_progress_def
  already_open_def eof_def not_found_def

section \<open>Sockets\<close>

type_synonym socket_type = int

definition invalid_socket :: socket_type where "invalid_socket = -1"
definition socket_error_retval :: int where "socket_error_retval = -1"

text \<open>An address with its length; what it says is for the kernel.\<close>

type_synonym socket_addr = "byte list"

type_synonym state_type = "8 word"

definition user_set_non_blocking :: state_type where "user_set_non_blocking = 1"
definition internal_non_blocking :: state_type where "internal_non_blocking = 2"
definition non_blocking :: state_type where
  "non_blocking = user_set_non_blocking OR internal_non_blocking"
definition enable_connection_aborted :: state_type where "enable_connection_aborted = 4"
definition user_set_linger :: state_type where "user_set_linger = 8"
definition stream_oriented :: state_type where "stream_oriented = 16"
definition datagram_oriented :: state_type where "datagram_oriented = 32"
definition possible_dup :: state_type where "possible_dup = 64"

abbreviation has_flag :: "state_type \<Rightarrow> state_type \<Rightarrow> bool" where
  "has_flag state flag \<equiv> state AND flag \<noteq> 0"

lemmas state_flag_defs =
  user_set_non_blocking_def internal_non_blocking_def non_blocking_def enable_connection_aborted_def
  user_set_linger_def stream_oriented_def datagram_oriented_def possible_dup_def

text \<open>The level is an \<open>int\<close> written as a hexadecimal number outside its range.\<close>

definition custom_socket_option_level :: int where
  "custom_socket_option_level = sint (0xA5100000 :: 32 word)"
definition enable_connection_aborted_option :: int where "enable_connection_aborted_option = 1"
definition always_fail_option :: int where "always_fail_option = 2"

text \<open>The numbers of the headers of Linux.\<close>

definition SOL_SOCKET :: int where "SOL_SOCKET = 1"
definition SO_REUSEADDR :: int where "SO_REUSEADDR = 2"
definition SO_ERROR :: int where "SO_ERROR = 4"
definition SO_SNDBUF :: int where "SO_SNDBUF = 7"
definition SO_RCVBUF :: int where "SO_RCVBUF = 8"
definition SO_LINGER :: int where "SO_LINGER = 13"
definition FIONREAD :: int where "FIONREAD = 0x541B"
definition FIONBIO :: int where "FIONBIO = 0x5421"
definition SIOCATMARK :: int where "SIOCATMARK = 0x8905"
definition MSG_NOSIGNAL :: "32 word" where "MSG_NOSIGNAL = 0x4000"
definition SOCK_STREAM :: int where "SOCK_STREAM = 1"
definition SOCK_DGRAM :: int where "SOCK_DGRAM = 2"
definition EPOLL_CTL_ADD :: int where "EPOLL_CTL_ADD = 1"
definition EPOLL_CTL_DEL :: int where "EPOLL_CTL_DEL = 2"
definition EPOLLIN :: "32 word" where "EPOLLIN = 1"
definition EPOLLPRI :: "32 word" where "EPOLLPRI = 2"
definition EPOLLERR :: "32 word" where "EPOLLERR = 8"
definition EPOLLHUP :: "32 word" where "EPOLLHUP = 16"
definition EPOLLET :: "32 word" where "EPOLLET = 0x80000000"

section \<open>System calls\<close>

datatype poll_event = Poll_In | Poll_Out

datatype syscall =
    Sys_accept socket_type
  | Sys_bind socket_type socket_addr
  | Sys_close socket_type
  | Sys_connect socket_type socket_addr
  | Sys_getpeername socket_type
  | Sys_getsockname socket_type
  | Sys_getsockopt socket_type int int nat
  | Sys_ioctl socket_type int int
  | Sys_listen socket_type int
  | Sys_poll socket_type poll_event int
  | Sys_recvmsg socket_type "nat list" "32 word"
  | Sys_sendmsg socket_type "byte list list" "socket_addr option" "32 word"
  | Sys_setsockopt socket_type int int "byte list"
  | Sys_shutdown socket_type int
  | Sys_socket int int int
  | Sys_socketpair int int int
  | Sys_epoll_ctl int socket_type "32 word"

text \<open>
  The result, \<open>errno\<close>, and what else a call hands out: bytes (the value of an option, the data received,
  in the order of the buffers), an address, a number (the argument of an \<open>ioctl\<close>, the flags of a message
  received), two sockets.
\<close>

record sysret =
  ret :: int
  errno :: int
  out_bytes :: "byte list"
  out_addr :: socket_addr
  out_num :: int
  out_pair :: "socket_type \<times> socket_type"

type_synonym 'n kernel = "syscall \<Rightarrow> 'n \<Rightarrow> sysret \<times> 'n"

text \<open>\<open>errno\<close> is set to zero, the call made and \<open>errno\<close> read.\<close>

definition error_wrapper :: "sysret \<Rightarrow> error_code" where
  "error_wrapper r = system_error (errno r)"

section \<open>Memory\<close>

type_synonym memory = "nat \<Rightarrow> byte"

record iovec =
  iov_base :: nat
  iov_len :: nat

definition load :: "memory \<Rightarrow> iovec \<Rightarrow> byte list" where
  "load m b = map m [iov_base b..<iov_base b + iov_len b]"

fun store_at :: "nat \<Rightarrow> byte list \<Rightarrow> memory \<Rightarrow> memory" where
  "store_at a [] m = m"
| "store_at a (x # xs) m = store_at (Suc a) xs (m(a := x))"

text \<open>What is received fills the buffers one after another.\<close>

fun scatter :: "byte list \<Rightarrow> iovec list \<Rightarrow> memory \<Rightarrow> memory" where
  "scatter bytes [] m = m"
| "scatter bytes (b # bs) m =
    scatter (drop (iov_len b) bytes) bs (store_at (iov_base b) (take (iov_len b) bytes) m)"

lemma length_load [simp]: "length (load m b) = iov_len b"
  by (simp add: load_def)

lemma store_at_nth: "store_at a xs m i = (if a \<le> i \<and> i < a + length xs then xs ! (i - a) else m i)"
  by (induction xs arbitrary: a m) (auto simp: nth_Cons')

lemma store_at_append: "store_at a (xs @ ys) m = store_at (a + length xs) ys (store_at a xs m)"
  by (rule ext) (auto simp: store_at_nth nth_append)

lemma load_store_at: "load (store_at a xs m) \<lparr> iov_base = a, iov_len = length xs \<rparr> = xs"
  by (rule nth_equalityI) (simp_all add: load_def store_at_nth)

end
