(* ===== verification/Asio_Buffers.thy ===== *)
theory Asio_Buffers
  imports Asio_Kernel
begin

text \<open>
  Buffers (\<open>asio/buffer.hpp\<close>), the view of a sequence of buffers that shrinks as a transfer goes on
  (\<open>asio/detail/consuming_buffers.hpp\<close>) and its translation for the kernel
  (\<open>asio/detail/buffer_sequence_adapter.hpp\<close>). A buffer of either kind is an address and a size; iterators
  of a sequence are indices. The lemmas describe the view by the list of the buffers that are left.
\<close>

section \<open>Buffers\<close>

type_synonym asio_buffer = iovec

definition buffer_new :: asio_buffer where
  "buffer_new = \<lparr> iov_base = 0, iov_len = 0 \<rparr>"

definition buffer_of :: "nat \<Rightarrow> nat \<Rightarrow> asio_buffer" where
  "buffer_of data size_in_bytes = \<lparr> iov_base = data, iov_len = size_in_bytes \<rparr>"

definition buffer_plus :: "asio_buffer \<Rightarrow> nat \<Rightarrow> asio_buffer" where
  "buffer_plus b start =
    (if iov_len b < start then buffer_new
     else \<lparr> iov_base = iov_base b + start, iov_len = iov_len b - start \<rparr>)"

definition buffer_limit :: "asio_buffer \<Rightarrow> nat \<Rightarrow> asio_buffer" where
  "buffer_limit b max_size_in_bytes =
    \<lparr> iov_base = iov_base b,
      iov_len = (if iov_len b < max_size_in_bytes then iov_len b else max_size_in_bytes) \<rparr>"

definition buffer_size :: "asio_buffer list \<Rightarrow> nat" where
  "buffer_size bs = foldl (\<lambda>t b. t + iov_len b) 0 bs"

section \<open>Consuming buffers\<close>

record consuming_iterator =
  ci_at_end :: bool
  ci_first :: asio_buffer
  ci_next :: nat
  ci_end :: nat
  ci_offset :: nat
  ci_max_size :: nat

record consuming_buffers =
  cb_buffers :: "asio_buffer list"
  cb_at_end :: bool
  cb_first :: asio_buffer
  cb_next :: nat
  cb_max_size :: nat

definition SIZE_MAX :: nat where "SIZE_MAX = 2 ^ 64 - 1"

definition consuming_new :: "asio_buffer list \<Rightarrow> consuming_buffers" where
  "consuming_new buffers =
    (if buffers = [] then
       \<lparr> cb_buffers = buffers, cb_at_end = True, cb_first = buffer_new, cb_next = 0, cb_max_size = SIZE_MAX \<rparr>
     else
       \<lparr> cb_buffers = buffers, cb_at_end = False, cb_first = buffers ! 0, cb_next = 1, cb_max_size = SIZE_MAX \<rparr>)"

definition iterator_new :: "bool \<Rightarrow> asio_buffer \<Rightarrow> nat \<Rightarrow> nat \<Rightarrow> nat \<Rightarrow> consuming_iterator" where
  "iterator_new at_end first begin_remainder end_remainder max_size =
    \<lparr> ci_at_end = (if 0 < max_size then at_end else True), ci_first = buffer_limit first max_size,
      ci_next = begin_remainder, ci_end = end_remainder, ci_offset = 0, ci_max_size = max_size \<rparr>"

definition iterator_end :: consuming_iterator where
  "iterator_end =
    \<lparr> ci_at_end = True, ci_first = buffer_new, ci_next = 0, ci_end = 0, ci_offset = 0, ci_max_size = 0 \<rparr>"

definition consuming_begin :: "consuming_buffers \<Rightarrow> consuming_iterator" where
  "consuming_begin c =
    iterator_new (cb_at_end c) (cb_first c) (cb_next c) (length (cb_buffers c)) (cb_max_size c)"

definition consuming_end :: "consuming_buffers \<Rightarrow> consuming_iterator" where
  "consuming_end c = iterator_end"

definition iterator_increment :: "asio_buffer list \<Rightarrow> consuming_iterator \<Rightarrow> consuming_iterator" where
  "iterator_increment buffers i =
    (if ci_at_end i then i
     else if ci_end i \<le> ci_next i \<or> ci_max_size i \<le> ci_offset i + iov_len (ci_first i) then i\<lparr>ci_at_end := True\<rparr>
     else let offset = ci_offset i + iov_len (ci_first i) in
       i\<lparr>ci_offset := offset, ci_first := buffer_limit (buffers ! ci_next i) (ci_max_size i - offset),
         ci_next := ci_next i + 1\<rparr>)"

definition iterator_equal :: "consuming_iterator \<Rightarrow> consuming_iterator \<Rightarrow> bool" where
  "iterator_equal i other \<longleftrightarrow>
    (if ci_at_end i \<and> ci_at_end other then True
     else \<not> ci_at_end i \<and> \<not> ci_at_end other \<and>
       iov_base (ci_first i) = iov_base (ci_first other) \<and> iov_len (ci_first i) = iov_len (ci_first other) \<and>
       ci_next i = ci_next other \<and> ci_end i = ci_end other)"

definition consuming_prepare :: "nat \<Rightarrow> consuming_buffers \<Rightarrow> consuming_buffers" where
  "consuming_prepare max_size c = c\<lparr>cb_max_size := max_size\<rparr>"

text \<open>The next buffer comes to the front; behind the last one the view is at its end.\<close>

definition next_front :: "consuming_buffers \<Rightarrow> consuming_buffers" where
  "next_front c =
    (if length (cb_buffers c) \<le> cb_next c then c\<lparr>cb_at_end := True\<rparr>
     else c\<lparr>cb_first := cb_buffers c ! cb_next c, cb_next := cb_next c + 1\<rparr>)"

definition front_left :: "consuming_buffers \<Rightarrow> nat" where
  "front_left c = (if cb_at_end c then 0 else Suc (length (cb_buffers c) - cb_next c))"

lemma front_left_next: "\<not> cb_at_end c \<Longrightarrow> front_left (next_front c) < front_left c"
  by (auto simp: front_left_def next_front_def)

function (sequential) consume_size :: "nat \<Rightarrow> consuming_buffers \<Rightarrow> consuming_buffers" where
  "consume_size n c =
    (if 0 < n \<and> \<not> cb_at_end c then
       if iov_len (cb_first c) \<le> n then consume_size (n - iov_len (cb_first c)) (next_front c)
       else c\<lparr>cb_first := buffer_plus (cb_first c) n\<rparr>
     else c)"
  by pat_completeness auto
termination
  by (relation "measure (\<lambda>(n, c). front_left c)") (simp_all add: front_left_next)

function (sequential) drop_empty :: "consuming_buffers \<Rightarrow> consuming_buffers" where
  "drop_empty c = (if \<not> cb_at_end c \<and> iov_len (cb_first c) = 0 then drop_empty (next_front c) else c)"
  by pat_completeness auto
termination
  by (relation "measure front_left") (simp_all add: front_left_next)

declare consume_size.simps [simp del] drop_empty.simps [simp del]

definition consume :: "nat \<Rightarrow> consuming_buffers \<Rightarrow> consuming_buffers" where
  "consume n c = drop_empty (consume_size n c)"

section \<open>Buffers for the kernel\<close>

text \<open>\<open>IOV_MAX\<close> is 1024.\<close>

definition max_buffers :: nat where "max_buffers = 64"

fun adapt_from :: "nat \<Rightarrow> asio_buffer list \<Rightarrow> consuming_iterator \<Rightarrow> iovec list" where
  "adapt_from 0 buffers iter = []"
| "adapt_from (Suc k) buffers iter =
    (if iterator_equal iter iterator_end then []
     else ci_first iter # adapt_from k buffers (iterator_increment buffers iter))"

definition buffer_sequence_adapter :: "consuming_buffers \<Rightarrow> iovec list" where
  "buffer_sequence_adapter c = adapt_from max_buffers (cb_buffers c) (consuming_begin c)"

definition all_empty :: "iovec list \<Rightarrow> bool" where
  "all_empty bufs \<longleftrightarrow> foldl (\<lambda>t b. t + iov_len b) 0 bufs = 0"

section \<open>What is left\<close>

definition remaining :: "consuming_buffers \<Rightarrow> asio_buffer list" where
  "remaining c = (if cb_at_end c then [] else cb_first c # drop (cb_next c) (cb_buffers c))"

definition bytes_in :: "memory \<Rightarrow> asio_buffer list \<Rightarrow> byte list" where
  "bytes_in m bs = concat (map (load m) bs)"

text \<open>The view of at most so many bytes, and the buffers behind so many bytes.\<close>

fun limited :: "nat \<Rightarrow> asio_buffer list \<Rightarrow> asio_buffer list" where
  "limited k [] = []"
| "limited k (b # bs) = (if k = 0 then [] else buffer_limit b k # limited (k - iov_len b) bs)"

fun dropped :: "nat \<Rightarrow> asio_buffer list \<Rightarrow> asio_buffer list" where
  "dropped k [] = []"
| "dropped k (b # bs) = (if iov_len b \<le> k then dropped (k - iov_len b) bs else buffer_plus b k # bs)"

lemma remaining_new: "remaining (consuming_new bs) = bs"
  by (cases bs) (simp_all add: remaining_def consuming_new_def)

lemma remaining_next: "\<not> cb_at_end c \<Longrightarrow> remaining (next_front c) = tl (remaining c)"
  by (auto simp: remaining_def next_front_def Cons_nth_drop_Suc)

lemma dropped_zero_nonempty: "0 < iov_len b \<Longrightarrow> dropped 0 (b # bs) = b # bs"
  by (simp add: buffer_plus_def)

lemma remaining_drop_empty: "remaining (drop_empty c) = dropped 0 (remaining c)"
proof (induction c rule: drop_empty.induct)
  case (1 c)
  show ?case
  proof (cases "\<not> cb_at_end c \<and> iov_len (cb_first c) = 0")
    case True
    then have "remaining (drop_empty c) = dropped 0 (tl (remaining c))"
      using 1 remaining_next [of c] by (simp add: drop_empty.simps [of c])
    then show ?thesis using True by (simp add: remaining_def)
  next
    case False
    then show ?thesis by (auto simp: drop_empty.simps [of c] remaining_def buffer_plus_def)
  qed
qed

lemma remaining_consume_size: "dropped 0 (remaining (consume_size n c)) = dropped n (remaining c)"
proof (induction n c rule: consume_size.induct)
  case (1 n c)
  consider "n = 0 \<or> cb_at_end c" | "0 < n" "\<not> cb_at_end c" "iov_len (cb_first c) \<le> n"
    | "0 < n" "\<not> cb_at_end c" "n < iov_len (cb_first c)" by linarith
  then show ?case
  proof cases
    case 1
    then show ?thesis by (auto simp: consume_size.simps [of n c] remaining_def)
  next
    case 2
    then have "dropped 0 (remaining (consume_size n c)) = dropped (n - iov_len (cb_first c)) (tl (remaining c))"
      using "1.IH" remaining_next [of c] by (simp add: consume_size.simps [of n c])
    then show ?thesis using 2 by (simp add: remaining_def)
  next
    case 3
    then have "consume_size n c = c\<lparr>cb_first := buffer_plus (cb_first c) n\<rparr>"
      by (simp add: consume_size.simps [of n c])
    then show ?thesis using 3 by (simp add: remaining_def buffer_plus_def)
  qed
qed

lemma remaining_consume: "remaining (consume n c) = dropped n (remaining c)"
  by (simp add: consume_def remaining_drop_empty remaining_consume_size)

lemma remaining_prepare [simp]: "remaining (consuming_prepare k c) = remaining c"
  by (simp add: remaining_def consuming_prepare_def)

lemma at_end_begin:
  "iterator_equal (consuming_begin (consuming_prepare k c)) (consuming_end c') \<longleftrightarrow> k = 0 \<or> remaining c = []"
  by (auto simp: iterator_equal_def consuming_begin_def consuming_end_def iterator_end_def iterator_new_def
      consuming_prepare_def remaining_def)

section \<open>The adapter\<close>

text \<open>What an iterator has before it.\<close>

definition iterator_left :: "asio_buffer list \<Rightarrow> consuming_iterator \<Rightarrow> asio_buffer list" where
  "iterator_left buffers i =
    (if ci_at_end i then []
     else ci_first i # limited (ci_max_size i - (ci_offset i + iov_len (ci_first i))) (drop (ci_next i) buffers))"

lemma limited_zero [simp]: "limited 0 bs = []"
  by (cases bs) simp_all

lemma iterator_left_increment:
  assumes "\<not> ci_at_end i" and "ci_end i = length buffers"
  shows "iterator_left buffers (iterator_increment buffers i) = tl (iterator_left buffers i)"
proof (cases "length buffers \<le> ci_next i \<or> ci_max_size i \<le> ci_offset i + iov_len (ci_first i)")
  case True
  then show ?thesis using assms by (auto simp: iterator_left_def iterator_increment_def)
next
  case False
  then have "drop (ci_next i) buffers = buffers ! ci_next i # drop (Suc (ci_next i)) buffers"
    by (simp add: Cons_nth_drop_Suc)
  then show ?thesis
    using False assms by (simp add: iterator_left_def iterator_increment_def Let_def buffer_limit_def)
qed

lemma adapt_from_left:
  "ci_end i = length buffers \<Longrightarrow> adapt_from k buffers i = take k (iterator_left buffers i)"
proof (induction k arbitrary: i)
  case 0
  then show ?case by simp
next
  case (Suc k)
  show ?case
  proof (cases "ci_at_end i")
    case True
    then show ?thesis by (simp add: iterator_equal_def iterator_end_def iterator_left_def)
  next
    case False
    have "ci_end (iterator_increment buffers i) = length buffers"
      using Suc.prems by (simp add: iterator_increment_def Let_def)
    then have "adapt_from k buffers (iterator_increment buffers i) = take k (tl (iterator_left buffers i))"
      using Suc.IH iterator_left_increment [OF False Suc.prems] by simp
    then show ?thesis using False by (simp add: iterator_equal_def iterator_end_def iterator_left_def)
  qed
qed

lemma adapter_limited:
  "buffer_sequence_adapter (consuming_prepare k c) = take max_buffers (limited k (remaining c))"
proof -
  let ?i = "consuming_begin (consuming_prepare k c)"
  have "ci_end ?i = length (cb_buffers c)"
    by (simp add: consuming_begin_def iterator_new_def consuming_prepare_def)
  moreover have "iterator_left (cb_buffers c) ?i = limited k (remaining c)"
    by (auto simp: iterator_left_def consuming_begin_def iterator_new_def consuming_prepare_def remaining_def
        buffer_limit_def)
  moreover have "cb_buffers (consuming_prepare k c) = cb_buffers c" by (simp add: consuming_prepare_def)
  ultimately show ?thesis by (simp add: buffer_sequence_adapter_def adapt_from_left)
qed

section \<open>Bytes\<close>

definition total_size :: "asio_buffer list \<Rightarrow> nat" where
  "total_size bs = sum_list (map iov_len bs)"

lemma total_size_simps [simp]: "total_size [] = 0" "total_size (b # bs) = iov_len b + total_size bs"
  by (simp_all add: total_size_def)

lemma foldl_total: "foldl (\<lambda>t b. t + iov_len b) k bs = k + total_size bs"
  by (induction bs arbitrary: k) simp_all

lemma buffer_size_total: "buffer_size bs = total_size bs"
  by (simp add: buffer_size_def foldl_total)

lemma all_empty_total: "all_empty bs \<longleftrightarrow> total_size bs = 0"
  by (simp add: all_empty_def foldl_total)

lemma bytes_in_simps [simp]: "bytes_in m [] = []" "bytes_in m (b # bs) = load m b @ bytes_in m bs"
  by (simp_all add: bytes_in_def)

lemma length_bytes_in [simp]: "length (bytes_in m bs) = total_size bs"
  by (induction bs) simp_all

lemma load_limit: "load m (buffer_limit b k) = take k (load m b)"
  by (simp add: load_def buffer_limit_def take_map min_def)

lemma load_plus: "k \<le> iov_len b \<Longrightarrow> load m (buffer_plus b k) = drop k (load m b)"
  by (simp add: load_def buffer_plus_def drop_map)

lemma bytes_limited: "bytes_in m (limited k bs) = take k (bytes_in m bs)"
  by (induction bs arbitrary: k) (simp_all add: load_limit)

lemma bytes_take: "bytes_in m (take j bs) = take (total_size (take j bs)) (bytes_in m bs)"
proof (induction bs arbitrary: j)
  case (Cons b bs)
  then show ?case by (cases j) simp_all
qed simp

lemma bytes_dropped: "bytes_in m (dropped k bs) = drop k (bytes_in m bs)"
  by (induction bs arbitrary: k) (simp_all add: load_plus)

lemma total_dropped: "total_size (dropped k bs) = total_size bs - k"
  using bytes_dropped [of m k bs for m] length_bytes_in by (metis length_drop)

lemma total_limited: "total_size (limited k bs) = min k (total_size bs)"
  by (induction bs arbitrary: k) (auto simp: buffer_limit_def)

lemma total_take_le: "total_size (take j bs) \<le> total_size bs"
proof (induction bs arbitrary: j)
  case (Cons b bs)
  then show ?case by (cases j) simp_all
qed simp

lemma bytes_adapter:
  "bytes_in m (take j (limited k bs)) = take (total_size (take j (limited k bs))) (bytes_in m bs)"
proof -
  have "total_size (take j (limited k bs)) \<le> k" using total_take_le [of j "limited k bs"] by (simp add: total_limited)
  then show ?thesis by (simp add: bytes_take [of m j] bytes_limited min_def)
qed

lemma total_adapter_le: "total_size (take j (limited k bs)) \<le> total_size bs"
  using total_take_le [of j "limited k bs"] by (simp add: total_limited)

text \<open>Behind \<open>consume\<close> the first buffer that is left has bytes, and then the adapter has.\<close>

definition front_full :: "asio_buffer list \<Rightarrow> bool" where
  "front_full bs \<longleftrightarrow> (case bs of [] \<Rightarrow> True | b # _ \<Rightarrow> 0 < iov_len b)"

lemma front_full_dropped: "front_full (dropped k bs)"
  by (induction bs arbitrary: k) (simp_all add: front_full_def buffer_plus_def)

lemma adapter_progress:
  assumes "front_full bs" and "bs \<noteq> []" and "0 < j" and "0 < k"
  shows "0 < total_size (take j (limited k bs))"
  using assms by (cases bs; cases j) (auto simp: front_full_def buffer_limit_def)

lemma front_full_total: "front_full bs \<Longrightarrow> total_size bs = 0 \<longleftrightarrow> bs = []"
  by (cases bs) (simp_all add: front_full_def)

text \<open>What arrives in pieces is stored as if it had arrived at once.\<close>

lemma scatter_nil [simp]: "scatter [] bs m = m"
  by (induction bs) simp_all

lemma scatter_split:
  "scatter (xs @ ys) bs m = scatter ys (dropped (length xs) bs) (scatter xs bs m)"
proof (induction bs arbitrary: xs m)
  case Nil
  then show ?case by simp
next
  case (Cons b bs)
  show ?case
  proof (cases "iov_len b \<le> length xs")
    case True
    then show ?thesis
      using Cons [of "drop (iov_len b) xs" "store_at (iov_base b) (take (iov_len b) xs) m"] by simp
  next
    case False
    then have "store_at (iov_base b) (xs @ take (iov_len b - length xs) ys) m =
        store_at (iov_base b + length xs) (take (iov_len b - length xs) ys) (store_at (iov_base b) xs m)"
      by (simp add: store_at_append)
    then show ?thesis using False by (simp add: buffer_plus_def)
  qed
qed

lemma scatter_limited: "length xs \<le> k \<Longrightarrow> scatter xs (limited k bs) m = scatter xs bs m"
proof (induction bs arbitrary: k xs m)
  case (Cons b bs)
  have "take (iov_len (buffer_limit b k)) xs = take (iov_len b) xs"
    using Cons.prems by (simp add: buffer_limit_def)
  moreover have "drop (iov_len (buffer_limit b k)) xs = drop (iov_len b) xs"
    using Cons.prems by (simp add: buffer_limit_def)
  moreover have "iov_base (buffer_limit b k) = iov_base b" by (simp add: buffer_limit_def)
  ultimately show ?case using Cons by (cases "k = 0") auto
qed simp

lemma scatter_take: "length xs \<le> total_size (take j bs) \<Longrightarrow> scatter xs (take j bs) m = scatter xs bs m"
proof (induction bs arbitrary: j xs m)
  case (Cons b bs)
  show ?case
  proof (cases j)
    case 0
    then show ?thesis using Cons.prems by simp
  next
    case (Suc i)
    have "length (drop (iov_len b) xs) \<le> total_size (take i bs)" using Cons.prems Suc by simp
    then show ?thesis using Cons.IH Suc by simp
  qed
qed simp

lemma scatter_adapter:
  assumes "length xs \<le> total_size (take j (limited k bs))"
  shows "scatter xs (take j (limited k bs)) m = scatter xs bs m"
proof -
  have "length xs \<le> k" using assms total_take_le [of j "limited k bs"] by (simp add: total_limited)
  then show ?thesis using scatter_take [OF assms] scatter_limited by simp
qed

end
