(* ===== verification/Asio_Socket_Ops.thy ===== *)
theory Asio_Socket_Ops
  imports Asio_Kernel Binary_Storage
begin

text \<open>
  The socket operations of \<open>asio/detail/impl/socket_ops.ipp\<close>, the branches compiled on Linux. Each gives
  its result, the error code it leaves in \<open>ec\<close> and the next state of the world; operations that store
  data or read it run on the memory as well. The loops that wait and try again may run for ever and are
  partial functions: \<open>None\<close> is not returning.
\<close>

section \<open>Error codes behind a call\<close>

definition zero_ok :: "sysret \<Rightarrow> error_code" where
  "zero_ok r = (if ret r = 0 then no_error else error_wrapper r)"

definition nonneg_ok :: "sysret \<Rightarrow> error_code" where
  "nonneg_ok r = (if 0 \<le> ret r then no_error else error_wrapper r)"

definition blocked :: "error_code \<Rightarrow> bool" where
  "blocked ec \<longleftrightarrow> ec = would_block \<or> ec = try_again"

definition int_bytes :: "int \<Rightarrow> byte list" where
  "int_bytes i = bytes_of_word (word_of_int i :: 32 word)"

definition int_of_bytes :: "byte list \<Rightarrow> int" where
  "int_of_bytes bs = sint (word_of_bytes bs :: 32 word)"

section \<open>Options\<close>

definition setsockopt_call ::
    "'n kernel \<Rightarrow> socket_type \<Rightarrow> int \<Rightarrow> int \<Rightarrow> byte list \<Rightarrow> 'n \<Rightarrow> (int \<times> error_code) \<times> 'n" where
  "setsockopt_call K s level optname optval n =
    (case K (Sys_setsockopt s level optname optval) n of (r, n1) \<Rightarrow> ((ret r, zero_ok r), n1))"

text \<open>The state comes back with its bits changed; the linger bit is set before the call.\<close>

definition so_setsockopt ::
    "'n kernel \<Rightarrow> socket_type \<Rightarrow> state_type \<Rightarrow> int \<Rightarrow> int \<Rightarrow> byte list \<Rightarrow> 'n \<Rightarrow> ((int \<times> state_type) \<times> error_code) \<times> 'n" where
  "so_setsockopt K s state level optname optval n =
    (if s = invalid_socket then (((socket_error_retval, state), bad_descriptor), n)
     else if level = custom_socket_option_level \<and> optname = always_fail_option then
       (((socket_error_retval, state), invalid_argument), n)
     else if level = custom_socket_option_level \<and> optname = enable_connection_aborted_option then
       (if length optval \<noteq> sizeof TYPE(32 word) then (((socket_error_retval, state), invalid_argument), n)
        else if int_of_bytes optval \<noteq> 0 then (((0, state OR enable_connection_aborted), no_error), n)
        else (((0, state AND NOT enable_connection_aborted), no_error), n))
     else
       let state1 = (if level = SOL_SOCKET \<and> optname = SO_LINGER then state OR user_set_linger else state)
       in case setsockopt_call K s level optname optval n of ((result, ec), n1) \<Rightarrow> (((result, state1), ec), n1))"

definition call_getsockopt ::
    "'n kernel \<Rightarrow> socket_type \<Rightarrow> int \<Rightarrow> int \<Rightarrow> byte list \<Rightarrow> 'n \<Rightarrow> sysret \<times> 'n" where
  "call_getsockopt K s level optname optval = K (Sys_getsockopt s level optname (length optval))"

text \<open>On Linux the sizes of the two buffers are read as twice what was set.\<close>

definition getsockopt_call ::
    "'n kernel \<Rightarrow> socket_type \<Rightarrow> int \<Rightarrow> int \<Rightarrow> byte list \<Rightarrow> 'n \<Rightarrow> ((int \<times> byte list) \<times> error_code) \<times> 'n" where
  "getsockopt_call K s level optname optval n =
    (case call_getsockopt K s level optname optval n of (r, n1) \<Rightarrow>
       let value =
         (if ret r = 0 \<and> level = SOL_SOCKET \<and> length (out_bytes r) = sizeof TYPE(32 word) \<and>
             (optname = SO_SNDBUF \<or> optname = SO_RCVBUF)
          then int_bytes (int_of_bytes (out_bytes r) sdiv 2) else out_bytes r)
       in (((ret r, value), zero_ok r), n1))"

definition so_getsockopt ::
    "'n kernel \<Rightarrow> socket_type \<Rightarrow> state_type \<Rightarrow> int \<Rightarrow> int \<Rightarrow> byte list \<Rightarrow> 'n \<Rightarrow> ((int \<times> byte list) \<times> error_code) \<times> 'n" where
  "so_getsockopt K s state level optname optval n =
    (if s = invalid_socket then (((socket_error_retval, optval), bad_descriptor), n)
     else if level = custom_socket_option_level \<and> optname = always_fail_option then
       (((socket_error_retval, optval), invalid_argument), n)
     else if level = custom_socket_option_level \<and> optname = enable_connection_aborted_option then
       (if length optval \<noteq> sizeof TYPE(32 word) then (((socket_error_retval, optval), invalid_argument), n)
        else (((0, int_bytes (if has_flag state enable_connection_aborted then 1 else 0)), no_error), n))
     else getsockopt_call K s level optname optval n)"

section \<open>Waiting\<close>

definition so_poll ::
    "'n kernel \<Rightarrow> poll_event \<Rightarrow> socket_type \<Rightarrow> state_type \<Rightarrow> 'n \<Rightarrow> (int \<times> error_code) \<times> 'n" where
  "so_poll K event s state n =
    (if s = invalid_socket then ((socket_error_retval, bad_descriptor), n)
     else case K (Sys_poll s event (if has_flag state user_set_non_blocking then 0 else -1)) n of (r, n1) \<Rightarrow>
       ((ret r,
         if ret r = 0 then (if has_flag state user_set_non_blocking then would_block else no_error)
         else if 0 < ret r then no_error else error_wrapper r), n1))"

definition poll_read :: "'n kernel \<Rightarrow> socket_type \<Rightarrow> state_type \<Rightarrow> 'n \<Rightarrow> (int \<times> error_code) \<times> 'n" where
  "poll_read K = so_poll K Poll_In"

definition poll_write :: "'n kernel \<Rightarrow> socket_type \<Rightarrow> state_type \<Rightarrow> 'n \<Rightarrow> (int \<times> error_code) \<times> 'n" where
  "poll_write K = so_poll K Poll_Out"

definition poll_connect :: "'n kernel \<Rightarrow> socket_type \<Rightarrow> 'n \<Rightarrow> (int \<times> error_code) \<times> 'n" where
  "poll_connect K s n =
    (if s = invalid_socket then ((socket_error_retval, bad_descriptor), n)
     else case K (Sys_poll s Poll_Out (-1)) n of (r, n1) \<Rightarrow> ((ret r, nonneg_ok r), n1))"

section \<open>Opening and closing\<close>

definition so_socket :: "'n kernel \<Rightarrow> int \<Rightarrow> int \<Rightarrow> int \<Rightarrow> 'n \<Rightarrow> (socket_type \<times> error_code) \<times> 'n" where
  "so_socket K af type protocol n =
    (case K (Sys_socket af type protocol) n of (r, n1) \<Rightarrow> ((ret r, nonneg_ok r), n1))"

definition so_socketpair ::
    "'n kernel \<Rightarrow> int \<Rightarrow> int \<Rightarrow> int \<Rightarrow> 'n \<Rightarrow> ((int \<times> socket_type \<times> socket_type) \<times> error_code) \<times> 'n" where
  "so_socketpair K af type protocol n =
    (case K (Sys_socketpair af type protocol) n of (r, n1) \<Rightarrow> (((ret r, out_pair r), zero_ok r), n1))"

text \<open>
  A destructor must not block on a socket that lingers. A close that would block is tried once more on the
  socket put back into blocking mode.
\<close>

definition so_close ::
    "'n kernel \<Rightarrow> socket_type \<Rightarrow> state_type \<Rightarrow> bool \<Rightarrow> 'n \<Rightarrow> ((int \<times> state_type) \<times> error_code) \<times> 'n" where
  "so_close K s state destruction n =
    (if s = invalid_socket then (((0, state), no_error), n)
     else
       let (state1, n1) =
         (if destruction \<and> has_flag state user_set_linger
          then case so_setsockopt K s state SOL_SOCKET SO_LINGER (int_bytes 0 @ int_bytes 0) n of
                 (((result, state1), ignored_ec), n1) \<Rightarrow> (state1, n1)
          else (state, n))
       in case K (Sys_close s) n1 of (r, n2) \<Rightarrow>
         if ret r \<noteq> 0 \<and> blocked (error_wrapper r) then
           (case K (Sys_ioctl s FIONBIO 0) n2 of (r', n3) \<Rightarrow>
            case K (Sys_close s) n3 of (r1, n4) \<Rightarrow>
              (((ret r1, state1 AND NOT non_blocking), zero_ok r1), n4))
         else (((ret r, state1), zero_ok r), n2))"

definition so_shutdown :: "'n kernel \<Rightarrow> socket_type \<Rightarrow> int \<Rightarrow> 'n \<Rightarrow> (int \<times> error_code) \<times> 'n" where
  "so_shutdown K s what n =
    (if s = invalid_socket then ((socket_error_retval, bad_descriptor), n)
     else case K (Sys_shutdown s what) n of (r, n1) \<Rightarrow> ((ret r, zero_ok r), n1))"

definition so_bind :: "'n kernel \<Rightarrow> socket_type \<Rightarrow> socket_addr \<Rightarrow> 'n \<Rightarrow> (int \<times> error_code) \<times> 'n" where
  "so_bind K s addr n =
    (if s = invalid_socket then ((socket_error_retval, bad_descriptor), n)
     else case K (Sys_bind s addr) n of (r, n1) \<Rightarrow> ((ret r, zero_ok r), n1))"

definition so_listen :: "'n kernel \<Rightarrow> socket_type \<Rightarrow> int \<Rightarrow> 'n \<Rightarrow> (int \<times> error_code) \<times> 'n" where
  "so_listen K s backlog n =
    (if s = invalid_socket then ((socket_error_retval, bad_descriptor), n)
     else case K (Sys_listen s backlog) n of (r, n1) \<Rightarrow> ((ret r, zero_ok r), n1))"

definition so_getpeername ::
    "'n kernel \<Rightarrow> socket_type \<Rightarrow> 'n \<Rightarrow> ((int \<times> socket_addr) \<times> error_code) \<times> 'n" where
  "so_getpeername K s n =
    (if s = invalid_socket then (((socket_error_retval, []), bad_descriptor), n)
     else case K (Sys_getpeername s) n of (r, n1) \<Rightarrow> (((ret r, out_addr r), zero_ok r), n1))"

definition so_getsockname ::
    "'n kernel \<Rightarrow> socket_type \<Rightarrow> 'n \<Rightarrow> ((int \<times> socket_addr) \<times> error_code) \<times> 'n" where
  "so_getsockname K s n =
    (if s = invalid_socket then (((socket_error_retval, []), bad_descriptor), n)
     else case K (Sys_getsockname s) n of (r, n1) \<Rightarrow> (((ret r, out_addr r), zero_ok r), n1))"

section \<open>Blocking modes\<close>

definition set_user_non_blocking ::
    "'n kernel \<Rightarrow> socket_type \<Rightarrow> state_type \<Rightarrow> bool \<Rightarrow> 'n \<Rightarrow> ((bool \<times> state_type) \<times> error_code) \<times> 'n" where
  "set_user_non_blocking K s state value n =
    (if s = invalid_socket then (((False, state), bad_descriptor), n)
     else case K (Sys_ioctl s FIONBIO (if value then 1 else 0)) n of (r, n1) \<Rightarrow>
       if 0 \<le> ret r then
         (((True, if value then state OR user_set_non_blocking
                  else state AND NOT (user_set_non_blocking OR internal_non_blocking)), no_error), n1)
       else (((False, state), error_wrapper r), n1))"

definition set_internal_non_blocking ::
    "'n kernel \<Rightarrow> socket_type \<Rightarrow> state_type \<Rightarrow> bool \<Rightarrow> 'n \<Rightarrow> ((bool \<times> state_type) \<times> error_code) \<times> 'n" where
  "set_internal_non_blocking K s state value n =
    (if s = invalid_socket then (((False, state), bad_descriptor), n)
     else if \<not> value \<and> has_flag state user_set_non_blocking then (((False, state), invalid_argument), n)
     else case K (Sys_ioctl s FIONBIO (if value then 1 else 0)) n of (r, n1) \<Rightarrow>
       if 0 \<le> ret r then
         (((True, if value then state OR internal_non_blocking else state AND NOT internal_non_blocking), no_error), n1)
       else (((False, state), error_wrapper r), n1))"

definition so_ioctl ::
    "'n kernel \<Rightarrow> socket_type \<Rightarrow> state_type \<Rightarrow> int \<Rightarrow> int \<Rightarrow> 'n \<Rightarrow> ((int \<times> state_type \<times> int) \<times> error_code) \<times> 'n" where
  "so_ioctl K s state cmd arg n =
    (if s = invalid_socket then (((socket_error_retval, state, arg), bad_descriptor), n)
     else case K (Sys_ioctl s cmd arg) n of (r, n1) \<Rightarrow>
       let state1 =
         (if 0 \<le> ret r \<and> cmd = FIONBIO then
            (if out_num r \<noteq> 0 then state OR user_set_non_blocking
             else state AND NOT (user_set_non_blocking OR internal_non_blocking))
          else state)
       in (((ret r, state1, out_num r), nonneg_ok r), n1))"

text \<open>\<open>errno\<close> is not set to zero before these two.\<close>

definition so_sockatmark :: "'n kernel \<Rightarrow> socket_type \<Rightarrow> 'n \<Rightarrow> (bool \<times> error_code) \<times> 'n" where
  "so_sockatmark K s n =
    (if s = invalid_socket then ((False, bad_descriptor), n)
     else case K (Sys_ioctl s SIOCATMARK 0) n of (r, n1) \<Rightarrow>
       let ec = zero_ok r; ec1 = (if ec_value ec = ENOTTY then not_socket else ec)
       in ((if failed ec1 then False else out_num r \<noteq> 0, ec1), n1))"

definition so_available :: "'n kernel \<Rightarrow> socket_type \<Rightarrow> 'n \<Rightarrow> (int \<times> error_code) \<times> 'n" where
  "so_available K s n =
    (if s = invalid_socket then ((0, bad_descriptor), n)
     else case K (Sys_ioctl s FIONREAD 0) n of (r, n1) \<Rightarrow>
       let ec = zero_ok r; ec1 = (if ec_value ec = ENOTTY then not_socket else ec)
       in ((if failed ec1 then 0 else size_t_of (out_num r), ec1), n1))"

section \<open>Connecting\<close>

definition so_connect :: "'n kernel \<Rightarrow> socket_type \<Rightarrow> socket_addr \<Rightarrow> 'n \<Rightarrow> (int \<times> error_code) \<times> 'n" where
  "so_connect K s addr n =
    (if s = invalid_socket then ((socket_error_retval, bad_descriptor), n)
     else case K (Sys_connect s addr) n of (r, n1) \<Rightarrow>
       ((ret r, if ret r = 0 then no_error
                else if error_wrapper r = try_again then no_buffer_space else error_wrapper r), n1))"

definition sync_connect :: "'n kernel \<Rightarrow> socket_type \<Rightarrow> socket_addr \<Rightarrow> 'n \<Rightarrow> error_code \<times> 'n" where
  "sync_connect K s addr n =
    (case so_connect K s addr n of ((result, ec), n1) \<Rightarrow>
     if ec \<noteq> in_progress \<and> ec \<noteq> would_block then (ec, n1)
     else case poll_connect K s n1 of ((ready, ec1), n2) \<Rightarrow>
     if ready < 0 then (ec1, n2)
     else case so_getsockopt K s 0 SOL_SOCKET SO_ERROR (int_bytes 0) n2 of (((got, connect_error), ec2), n3) \<Rightarrow>
     if got = socket_error_retval then (ec2, n3)
     else (system_error (int_of_bytes connect_error), n3))"

definition non_blocking_connect ::
    "'n kernel \<Rightarrow> socket_type \<Rightarrow> error_code \<Rightarrow> 'n \<Rightarrow> (bool \<times> error_code) \<times> 'n" where
  "non_blocking_connect K s ec n =
    (case K (Sys_poll s Poll_Out 0) n of (r, n1) \<Rightarrow>
     if ret r = 0 then ((False, ec), n1)
     else case so_getsockopt K s 0 SOL_SOCKET SO_ERROR (int_bytes 0) n1 of (((got, connect_error), ec1), n2) \<Rightarrow>
       ((True,
         if got = 0 then (if int_of_bytes connect_error \<noteq> 0 then system_error (int_of_bytes connect_error) else no_error)
         else ec1), n2))"

section \<open>Accepting\<close>

definition so_accept :: "'n kernel \<Rightarrow> socket_type \<Rightarrow> 'n \<Rightarrow> ((socket_type \<times> socket_addr) \<times> error_code) \<times> 'n" where
  "so_accept K s n =
    (if s = invalid_socket then (((invalid_socket, []), bad_descriptor), n)
     else case K (Sys_accept s) n of (r, n1) \<Rightarrow>
       if ret r = invalid_socket then (((ret r, out_addr r), error_wrapper r), n1)
       else (((ret r, out_addr r), no_error), n1))"

text \<open>Errors of a failed accept that are passed over: no connection is there, or it has gone again.\<close>

definition accept_retries :: "state_type \<Rightarrow> error_code \<Rightarrow> bool" where
  "accept_retries state ec \<longleftrightarrow>
    (if blocked ec then \<not> has_flag state user_set_non_blocking
     else if ec = connection_aborted then \<not> has_flag state enable_connection_aborted
     else if ec_value ec = EPROTO then \<not> has_flag state enable_connection_aborted
     else False)"

partial_function (option) sync_accept ::
    "'n kernel \<Rightarrow> socket_type \<Rightarrow> state_type \<Rightarrow> 'n \<Rightarrow> (((socket_type \<times> socket_addr) \<times> error_code) \<times> 'n) option" where
  "sync_accept K s state n =
    (case so_accept K s n of (((new_socket, addr), ec), n1) \<Rightarrow>
     if new_socket \<noteq> invalid_socket then Some (((new_socket, addr), ec), n1)
     else if \<not> accept_retries state ec then Some (((invalid_socket, addr), ec), n1)
     else case poll_read K s 0 n1 of ((ready, ec1), n2) \<Rightarrow>
       if ready < 0 then Some (((invalid_socket, addr), ec1), n2) else sync_accept K s state n2)"

text \<open>Whether the operation is complete; an interrupted accept is repeated at once.\<close>

partial_function (option) non_blocking_accept ::
    "'n kernel \<Rightarrow> socket_type \<Rightarrow> state_type \<Rightarrow> 'n \<Rightarrow>
      (((bool \<times> socket_type \<times> socket_addr) \<times> error_code) \<times> 'n) option" where
  "non_blocking_accept K s state n =
    (case so_accept K s n of (((new_socket, addr), ec), n1) \<Rightarrow>
     if new_socket \<noteq> invalid_socket then Some (((True, new_socket, addr), ec), n1)
     else if ec = interrupted then non_blocking_accept K s state n1
     else Some (((\<not> accept_retries state ec, new_socket, addr), ec), n1))"

end
