(* ===== verification/Asio_Transfer.thy ===== *)
theory Asio_Transfer
  imports Asio_Socket_Ops
begin

text \<open>
  Sending and receiving in \<open>asio/detail/impl/socket_ops.ipp\<close>, on buffers in the program's memory. Every
  kind of transfer comes as the call itself, as the blocking loop and as the attempt of a reactor.
\<close>

type_synonym 'n world = "memory \<times> 'n"

definition init_buf :: "nat \<Rightarrow> nat \<Rightarrow> iovec" where
  "init_buf data n = \<lparr> iov_base = data, iov_len = n \<rparr>"

text \<open>What is received is stored; a failed call stores nothing.\<close>

definition received :: "sysret \<Rightarrow> iovec list \<Rightarrow> memory \<Rightarrow> memory" where
  "received r bufs m = (if 0 \<le> ret r then scatter (take (nat (ret r)) (out_bytes r)) bufs m else m)"

section \<open>The calls\<close>

definition so_recv ::
    "'n kernel \<Rightarrow> socket_type \<Rightarrow> iovec list \<Rightarrow> 32 word \<Rightarrow> 'n world \<Rightarrow> (int \<times> error_code) \<times> 'n world" where
  "so_recv K s bufs flags w =
    (case w of (m, n) \<Rightarrow> case K (Sys_recvmsg s (map iov_len bufs) flags) n of (r, n1) \<Rightarrow>
       ((ret r, nonneg_ok r), (received r bufs m, n1)))"

definition so_recvfrom ::
    "'n kernel \<Rightarrow> socket_type \<Rightarrow> iovec list \<Rightarrow> 32 word \<Rightarrow> 'n world \<Rightarrow>
      ((int \<times> socket_addr) \<times> error_code) \<times> 'n world" where
  "so_recvfrom K s bufs flags w =
    (case w of (m, n) \<Rightarrow> case K (Sys_recvmsg s (map iov_len bufs) flags) n of (r, n1) \<Rightarrow>
       (((ret r, out_addr r), nonneg_ok r), (received r bufs m, n1)))"

definition so_recvmsg ::
    "'n kernel \<Rightarrow> socket_type \<Rightarrow> iovec list \<Rightarrow> 32 word \<Rightarrow> 'n world \<Rightarrow>
      ((int \<times> int) \<times> error_code) \<times> 'n world" where
  "so_recvmsg K s bufs in_flags w =
    (case w of (m, n) \<Rightarrow> case K (Sys_recvmsg s (map iov_len bufs) in_flags) n of (r, n1) \<Rightarrow>
       (((ret r, if 0 \<le> ret r then out_num r else 0), nonneg_ok r), (received r bufs m, n1)))"

definition so_send ::
    "'n kernel \<Rightarrow> socket_type \<Rightarrow> iovec list \<Rightarrow> 32 word \<Rightarrow> 'n world \<Rightarrow> (int \<times> error_code) \<times> 'n world" where
  "so_send K s bufs flags w =
    (case w of (m, n) \<Rightarrow> case K (Sys_sendmsg s (map (load m) bufs) None (flags OR MSG_NOSIGNAL)) n of (r, n1) \<Rightarrow>
       ((ret r, nonneg_ok r), (m, n1)))"

definition so_sendto ::
    "'n kernel \<Rightarrow> socket_type \<Rightarrow> iovec list \<Rightarrow> 32 word \<Rightarrow> socket_addr \<Rightarrow> 'n world \<Rightarrow>
      (int \<times> error_code) \<times> 'n world" where
  "so_sendto K s bufs flags addr w =
    (case w of (m, n) \<Rightarrow>
     case K (Sys_sendmsg s (map (load m) bufs) (Some addr) (flags OR MSG_NOSIGNAL)) n of (r, n1) \<Rightarrow>
       ((ret r, nonneg_ok r), (m, n1)))"

text \<open>Waiting does not touch the memory.\<close>

definition in_world :: "('n \<Rightarrow> 'a \<times> 'n) \<Rightarrow> 'n world \<Rightarrow> 'a \<times> 'n world" where
  "in_world f w = (case w of (m, n) \<Rightarrow> case f n of (a, n1) \<Rightarrow> (a, (m, n1)))"

section \<open>The blocking loops\<close>

definition gives_up :: "state_type \<Rightarrow> error_code \<Rightarrow> bool" where
  "gives_up state ec \<longleftrightarrow> has_flag state user_set_non_blocking \<or> (ec \<noteq> would_block \<and> ec \<noteq> try_again)"

partial_function (option) recv_loop ::
    "'n kernel \<Rightarrow> socket_type \<Rightarrow> state_type \<Rightarrow> iovec list \<Rightarrow> 32 word \<Rightarrow> 'n world \<Rightarrow>
      ((int \<times> error_code) \<times> 'n world) option" where
  "recv_loop K s state bufs flags w =
    (case so_recv K s bufs flags w of ((bytes, ec), w1) \<Rightarrow>
     if 0 < bytes then Some ((bytes, ec), w1)
     else if has_flag state stream_oriented \<and> bytes = 0 then Some ((0, eof), w1)
     else if gives_up state ec then Some ((0, ec), w1)
     else case in_world (poll_read K s 0) w1 of ((ready, ec1), w2) \<Rightarrow>
       if ready < 0 then Some ((0, ec1), w2) else recv_loop K s state bufs flags w2)"

definition sync_recv ::
    "'n kernel \<Rightarrow> socket_type \<Rightarrow> state_type \<Rightarrow> iovec list \<Rightarrow> 32 word \<Rightarrow> bool \<Rightarrow> 'n world \<Rightarrow>
      ((int \<times> error_code) \<times> 'n world) option" where
  "sync_recv K s state bufs flags all_empty w =
    (if s = invalid_socket then Some ((0, bad_descriptor), w)
     else if all_empty \<and> has_flag state stream_oriented then Some ((0, no_error), w)
     else recv_loop K s state bufs flags w)"

partial_function (option) send_loop ::
    "'n kernel \<Rightarrow> socket_type \<Rightarrow> state_type \<Rightarrow> iovec list \<Rightarrow> 32 word \<Rightarrow> 'n world \<Rightarrow>
      ((int \<times> error_code) \<times> 'n world) option" where
  "send_loop K s state bufs flags w =
    (case so_send K s bufs flags w of ((bytes, ec), w1) \<Rightarrow>
     if 0 \<le> bytes then Some ((bytes, ec), w1)
     else if gives_up state ec then Some ((0, ec), w1)
     else case in_world (poll_write K s 0) w1 of ((ready, ec1), w2) \<Rightarrow>
       if ready < 0 then Some ((0, ec1), w2) else send_loop K s state bufs flags w2)"

definition sync_send ::
    "'n kernel \<Rightarrow> socket_type \<Rightarrow> state_type \<Rightarrow> iovec list \<Rightarrow> 32 word \<Rightarrow> bool \<Rightarrow> 'n world \<Rightarrow>
      ((int \<times> error_code) \<times> 'n world) option" where
  "sync_send K s state bufs flags all_empty w =
    (if s = invalid_socket then Some ((0, bad_descriptor), w)
     else if all_empty \<and> has_flag state stream_oriented then Some ((0, no_error), w)
     else send_loop K s state bufs flags w)"

text \<open>The loops of the datagram calls have the form of \<open>send_loop\<close>; \<open>out\<close> is what they hand out beside the count.\<close>

partial_function (option) recvfrom_loop ::
    "'n kernel \<Rightarrow> socket_type \<Rightarrow> state_type \<Rightarrow> iovec list \<Rightarrow> 32 word \<Rightarrow> 'n world \<Rightarrow>
      (((int \<times> socket_addr) \<times> error_code) \<times> 'n world) option" where
  "recvfrom_loop K s state bufs flags w =
    (case so_recvfrom K s bufs flags w of (((bytes, addr), ec), w1) \<Rightarrow>
     if 0 \<le> bytes then Some (((bytes, addr), ec), w1)
     else if gives_up state ec then Some (((0, addr), ec), w1)
     else case in_world (poll_read K s 0) w1 of ((ready, ec1), w2) \<Rightarrow>
       if ready < 0 then Some (((0, addr), ec1), w2) else recvfrom_loop K s state bufs flags w2)"

definition sync_recvfrom ::
    "'n kernel \<Rightarrow> socket_type \<Rightarrow> state_type \<Rightarrow> iovec list \<Rightarrow> 32 word \<Rightarrow> 'n world \<Rightarrow>
      (((int \<times> socket_addr) \<times> error_code) \<times> 'n world) option" where
  "sync_recvfrom K s state bufs flags w =
    (if s = invalid_socket then Some (((0, []), bad_descriptor), w) else recvfrom_loop K s state bufs flags w)"

partial_function (option) recvmsg_loop ::
    "'n kernel \<Rightarrow> socket_type \<Rightarrow> state_type \<Rightarrow> iovec list \<Rightarrow> 32 word \<Rightarrow> 'n world \<Rightarrow>
      (((int \<times> int) \<times> error_code) \<times> 'n world) option" where
  "recvmsg_loop K s state bufs in_flags w =
    (case so_recvmsg K s bufs in_flags w of (((bytes, out_flags), ec), w1) \<Rightarrow>
     if 0 \<le> bytes then Some (((bytes, out_flags), ec), w1)
     else if gives_up state ec then Some (((0, out_flags), ec), w1)
     else case in_world (poll_read K s 0) w1 of ((ready, ec1), w2) \<Rightarrow>
       if ready < 0 then Some (((0, out_flags), ec1), w2) else recvmsg_loop K s state bufs in_flags w2)"

definition sync_recvmsg ::
    "'n kernel \<Rightarrow> socket_type \<Rightarrow> state_type \<Rightarrow> iovec list \<Rightarrow> 32 word \<Rightarrow> int \<Rightarrow> 'n world \<Rightarrow>
      (((int \<times> int) \<times> error_code) \<times> 'n world) option" where
  "sync_recvmsg K s state bufs in_flags out_flags w =
    (if s = invalid_socket then Some (((0, out_flags), bad_descriptor), w)
     else recvmsg_loop K s state bufs in_flags w)"

partial_function (option) sendto_loop ::
    "'n kernel \<Rightarrow> socket_type \<Rightarrow> state_type \<Rightarrow> iovec list \<Rightarrow> 32 word \<Rightarrow> socket_addr \<Rightarrow> 'n world \<Rightarrow>
      ((int \<times> error_code) \<times> 'n world) option" where
  "sendto_loop K s state bufs flags addr w =
    (case so_sendto K s bufs flags addr w of ((bytes, ec), w1) \<Rightarrow>
     if 0 \<le> bytes then Some ((bytes, ec), w1)
     else if gives_up state ec then Some ((0, ec), w1)
     else case in_world (poll_write K s 0) w1 of ((ready, ec1), w2) \<Rightarrow>
       if ready < 0 then Some ((0, ec1), w2) else sendto_loop K s state bufs flags addr w2)"

definition sync_sendto ::
    "'n kernel \<Rightarrow> socket_type \<Rightarrow> state_type \<Rightarrow> iovec list \<Rightarrow> 32 word \<Rightarrow> socket_addr \<Rightarrow> 'n world \<Rightarrow>
      ((int \<times> error_code) \<times> 'n world) option" where
  "sync_sendto K s state bufs flags addr w =
    (if s = invalid_socket then Some ((0, bad_descriptor), w) else sendto_loop K s state bufs flags addr w)"

section \<open>The attempts of the reactor\<close>

text \<open>
  Whether the operation is complete, and the bytes transferred, which stay as they were while it is not.
\<close>

definition transfer_done :: "int \<Rightarrow> error_code \<Rightarrow> int \<times> error_code" where
  "transfer_done bytes ec = (if 0 \<le> bytes then (bytes, no_error) else (0, ec))"

partial_function (option) non_blocking_recv ::
    "'n kernel \<Rightarrow> socket_type \<Rightarrow> iovec list \<Rightarrow> 32 word \<Rightarrow> bool \<Rightarrow> int \<Rightarrow> 'n world \<Rightarrow>
      (((bool \<times> int) \<times> error_code) \<times> 'n world) option" where
  "non_blocking_recv K s bufs flags is_stream transferred w =
    (case so_recv K s bufs flags w of ((bytes, ec), w1) \<Rightarrow>
     if is_stream \<and> bytes = 0 then Some (((True, transferred), eof), w1)
     else if ec = interrupted then non_blocking_recv K s bufs flags is_stream transferred w1
     else if blocked ec then Some (((False, transferred), ec), w1)
     else case transfer_done bytes ec of (t, ec1) \<Rightarrow> Some (((True, t), ec1), w1))"

partial_function (option) non_blocking_recvfrom ::
    "'n kernel \<Rightarrow> socket_type \<Rightarrow> iovec list \<Rightarrow> 32 word \<Rightarrow> int \<Rightarrow> 'n world \<Rightarrow>
      (((bool \<times> int \<times> socket_addr) \<times> error_code) \<times> 'n world) option" where
  "non_blocking_recvfrom K s bufs flags transferred w =
    (case so_recvfrom K s bufs flags w of (((bytes, addr), ec), w1) \<Rightarrow>
     if ec = interrupted then non_blocking_recvfrom K s bufs flags transferred w1
     else if blocked ec then Some (((False, transferred, addr), ec), w1)
     else case transfer_done bytes ec of (t, ec1) \<Rightarrow> Some (((True, t, addr), ec1), w1))"

partial_function (option) non_blocking_recvmsg ::
    "'n kernel \<Rightarrow> socket_type \<Rightarrow> iovec list \<Rightarrow> 32 word \<Rightarrow> int \<Rightarrow> 'n world \<Rightarrow>
      (((bool \<times> int \<times> int) \<times> error_code) \<times> 'n world) option" where
  "non_blocking_recvmsg K s bufs in_flags transferred w =
    (case so_recvmsg K s bufs in_flags w of (((bytes, out_flags), ec), w1) \<Rightarrow>
     if ec = interrupted then non_blocking_recvmsg K s bufs in_flags transferred w1
     else if blocked ec then Some (((False, transferred, out_flags), ec), w1)
     else case transfer_done bytes ec of (t, ec1) \<Rightarrow> Some (((True, t, out_flags), ec1), w1))"

partial_function (option) non_blocking_send ::
    "'n kernel \<Rightarrow> socket_type \<Rightarrow> iovec list \<Rightarrow> 32 word \<Rightarrow> int \<Rightarrow> 'n world \<Rightarrow>
      (((bool \<times> int) \<times> error_code) \<times> 'n world) option" where
  "non_blocking_send K s bufs flags transferred w =
    (case so_send K s bufs flags w of ((bytes, ec), w1) \<Rightarrow>
     if ec = interrupted then non_blocking_send K s bufs flags transferred w1
     else if blocked ec then Some (((False, transferred), ec), w1)
     else case transfer_done bytes ec of (t, ec1) \<Rightarrow> Some (((True, t), ec1), w1))"

partial_function (option) non_blocking_sendto ::
    "'n kernel \<Rightarrow> socket_type \<Rightarrow> iovec list \<Rightarrow> 32 word \<Rightarrow> socket_addr \<Rightarrow> int \<Rightarrow> 'n world \<Rightarrow>
      (((bool \<times> int) \<times> error_code) \<times> 'n world) option" where
  "non_blocking_sendto K s bufs flags addr transferred w =
    (case so_sendto K s bufs flags addr w of ((bytes, ec), w1) \<Rightarrow>
     if ec = interrupted then non_blocking_sendto K s bufs flags addr transferred w1
     else if blocked ec then Some (((False, transferred), ec), w1)
     else case transfer_done bytes ec of (t, ec1) \<Rightarrow> Some (((True, t), ec1), w1))"

end
