(* ===== verification/Asio_Stream.thy ===== *)
theory Asio_Stream
  imports Asio_Buffers Asio_Transfer Transport
begin

text \<open>
  Writing and reading a whole sequence of buffers (\<open>asio/impl/write.hpp\<close>, \<open>asio/impl/read.hpp\<close>) by
  transfers of part of it, under a condition that says when to stop (\<open>asio/completion_condition.hpp\<close>), and
  the four transfers of \<open>ipc/transport.h\<close> made of them. From what a kernel does with a connected socket in
  blocking mode it follows that the loops return and that the transport keeps the promise the message
  layer relies on.
\<close>

section \<open>Some of the bytes\<close>

record base_implementation =
  impl_socket :: socket_type
  impl_state :: state_type

definition socket_send ::
    "'n kernel \<Rightarrow> base_implementation \<Rightarrow> consuming_buffers \<Rightarrow> 32 word \<Rightarrow> 'n world \<Rightarrow> ((int \<times> error_code) \<times> 'n world) option" where
  "socket_send K impl buffers flags =
    (let bufs = buffer_sequence_adapter buffers
     in sync_send K (impl_socket impl) (impl_state impl) bufs flags (all_empty bufs))"

definition socket_receive ::
    "'n kernel \<Rightarrow> base_implementation \<Rightarrow> consuming_buffers \<Rightarrow> 32 word \<Rightarrow> 'n world \<Rightarrow> ((int \<times> error_code) \<times> 'n world) option" where
  "socket_receive K impl buffers flags =
    (let bufs = buffer_sequence_adapter buffers
     in sync_recv K (impl_socket impl) (impl_state impl) bufs flags (all_empty bufs))"

definition write_some ::
    "'n kernel \<Rightarrow> base_implementation \<Rightarrow> consuming_buffers \<Rightarrow> 'n world \<Rightarrow> ((int \<times> error_code) \<times> 'n world) option" where
  "write_some K impl buffers = socket_send K impl buffers 0"

definition read_some ::
    "'n kernel \<Rightarrow> base_implementation \<Rightarrow> consuming_buffers \<Rightarrow> 'n world \<Rightarrow> ((int \<times> error_code) \<times> 'n world) option" where
  "read_some K impl buffers = socket_receive K impl buffers 0"

section \<open>Completion conditions\<close>

type_synonym completion_condition = "error_code \<Rightarrow> nat \<Rightarrow> nat"

definition default_max_transfer_size :: nat where "default_max_transfer_size = 65536"

definition transfer_all :: completion_condition where
  "transfer_all err bytes_transferred = (if failed err then 0 else default_max_transfer_size)"

definition transfer_at_least :: "nat \<Rightarrow> completion_condition" where
  "transfer_at_least minimum err bytes_transferred =
    (if failed err \<or> minimum \<le> bytes_transferred then 0 else default_max_transfer_size)"

definition transfer_exactly :: "nat \<Rightarrow> completion_condition" where
  "transfer_exactly n err bytes_transferred =
    (if failed err \<or> n \<le> bytes_transferred then 0
     else if n - bytes_transferred < default_max_transfer_size then n - bytes_transferred
     else default_max_transfer_size)"

section \<open>All of the bytes\<close>

partial_function (option) write_loop ::
    "'n kernel \<Rightarrow> base_implementation \<Rightarrow> completion_condition \<Rightarrow> consuming_buffers \<Rightarrow> nat \<Rightarrow> error_code \<Rightarrow> 'n world \<Rightarrow>
      ((nat \<times> error_code) \<times> 'n world) option" where
  "write_loop K impl condition tmp total_transferred ec w =
    (if iterator_equal (consuming_begin tmp) (consuming_end tmp) then Some ((total_transferred, ec), w)
     else Option.bind (write_some K impl tmp w) (\<lambda>((bytes_transferred, ec1), w1).
       let total_transferred = total_transferred + nat bytes_transferred in
       write_loop K impl condition
         (consuming_prepare (condition ec1 total_transferred) (consume (nat bytes_transferred) tmp))
         total_transferred ec1 w1))"

definition sync_write ::
    "'n kernel \<Rightarrow> base_implementation \<Rightarrow> asio_buffer list \<Rightarrow> completion_condition \<Rightarrow> 'n world \<Rightarrow>
      ((nat \<times> error_code) \<times> 'n world) option" where
  "sync_write K impl buffers condition =
    write_loop K impl condition (consuming_prepare (condition no_error 0) (consuming_new buffers)) 0 no_error"

partial_function (option) read_loop ::
    "'n kernel \<Rightarrow> base_implementation \<Rightarrow> completion_condition \<Rightarrow> consuming_buffers \<Rightarrow> nat \<Rightarrow> error_code \<Rightarrow> 'n world \<Rightarrow>
      ((nat \<times> error_code) \<times> 'n world) option" where
  "read_loop K impl condition tmp total_transferred ec w =
    (if iterator_equal (consuming_begin tmp) (consuming_end tmp) then Some ((total_transferred, ec), w)
     else Option.bind (read_some K impl tmp w) (\<lambda>((bytes_transferred, ec1), w1).
       let total_transferred = total_transferred + nat bytes_transferred in
       read_loop K impl condition
         (consuming_prepare (condition ec1 total_transferred) (consume (nat bytes_transferred) tmp))
         total_transferred ec1 w1))"

definition sync_read ::
    "'n kernel \<Rightarrow> base_implementation \<Rightarrow> asio_buffer list \<Rightarrow> completion_condition \<Rightarrow> 'n world \<Rightarrow>
      ((nat \<times> error_code) \<times> 'n world) option" where
  "sync_read K impl buffers condition =
    read_loop K impl condition (consuming_prepare (condition no_error 0) (consuming_new buffers)) 0 no_error"

section \<open>The transfers of the transport\<close>

text \<open>The bytes to send lie at the address 0; a call that does not return counts as one that failed.\<close>

definition transport_send :: "'n kernel \<Rightarrow> base_implementation \<Rightarrow> 'n asio_write" where
  "transport_send K impl buf n =
    (case sync_write K impl [buffer_of 0 (length buf)] transfer_all (store_at 0 buf (\<lambda>_. 0), n) of
       None \<Rightarrow> (False, n)
     | Some ((_, ec), (_, n1)) \<Rightarrow> (\<not> failed ec, n1))"

definition transport_receive :: "'n kernel \<Rightarrow> base_implementation \<Rightarrow> 'n asio_read" where
  "transport_receive K impl k n =
    (case sync_read K impl [buffer_of 0 k] transfer_all (\<lambda>_. 0, n) of
       None \<Rightarrow> (None, n)
     | Some ((_, ec), (m, n1)) \<Rightarrow> (if failed ec then None else Some (load m (buffer_of 0 k)), n1))"

section \<open>A connection in blocking mode\<close>

text \<open>
  The kernel on a connected stream socket in blocking mode: a call with bytes to send takes over some of
  them, a call with room receives some of what is pending; a call that fails does nothing, and never for
  the reason that it would have to wait; behind the last byte a receive finds the end of the stream or an
  error.
\<close>

definition stream_kernel ::
    "'n kernel \<Rightarrow> socket_type \<Rightarrow> ('n \<Rightarrow> byte list) \<Rightarrow> ('n \<Rightarrow> byte list) \<Rightarrow> bool" where
  "stream_kernel K s sent pending \<longleftrightarrow>
    (\<forall>bufs flags n. concat bufs \<noteq> [] \<longrightarrow> (case K (Sys_sendmsg s bufs None flags) n of (r, n1) \<Rightarrow>
      (0 < ret r \<and> nat (ret r) \<le> length (concat bufs) \<and> sent n1 = sent n @ take (nat (ret r)) (concat bufs)) \<or>
      (ret r < 0 \<and> errno r \<noteq> 0 \<and> errno r \<noteq> 11 \<and> sent n1 = sent n))) \<and>
    (\<forall>lens flags n. 0 < sum_list lens \<longrightarrow> (case K (Sys_recvmsg s lens flags) n of (r, n1) \<Rightarrow>
      if pending n = [] then ret r = 0 \<or> (ret r < 0 \<and> errno r \<noteq> 0 \<and> errno r \<noteq> 11)
      else 0 < ret r \<and> nat (ret r) \<le> sum_list lens \<and> nat (ret r) \<le> length (pending n) \<and>
        out_bytes r = take (nat (ret r)) (pending n) \<and> pending n1 = drop (nat (ret r)) (pending n)))"

definition blocking_stream :: "base_implementation \<Rightarrow> bool" where
  "blocking_stream impl \<longleftrightarrow>
    impl_socket impl \<noteq> invalid_socket \<and> has_flag (impl_state impl) stream_oriented \<and>
    \<not> has_flag (impl_state impl) user_set_non_blocking"

lemma stream_kernel_send:
  assumes "stream_kernel K s sent pending" and "concat bufs \<noteq> []" and "K (Sys_sendmsg s bufs None flags) n = (r, n1)"
  shows "(0 < ret r \<and> nat (ret r) \<le> length (concat bufs) \<and> sent n1 = sent n @ take (nat (ret r)) (concat bufs)) \<or>
      (ret r < 0 \<and> errno r \<noteq> 0 \<and> errno r \<noteq> 11 \<and> sent n1 = sent n)"
proof -
  from assms(1) have "\<forall>bufs flags n. concat bufs \<noteq> [] \<longrightarrow> (case K (Sys_sendmsg s bufs None flags) n of (r, n1) \<Rightarrow>
      (0 < ret r \<and> nat (ret r) \<le> length (concat bufs) \<and> sent n1 = sent n @ take (nat (ret r)) (concat bufs)) \<or>
      (ret r < 0 \<and> errno r \<noteq> 0 \<and> errno r \<noteq> 11 \<and> sent n1 = sent n))"
    unfolding stream_kernel_def by (rule conjunct1)
  from this [rule_format, OF assms(2), where flags = flags and n = n] show ?thesis unfolding assms(3) prod.case .
qed

lemma stream_kernel_recv:
  assumes "stream_kernel K s sent pending" and "0 < sum_list lens" and "K (Sys_recvmsg s lens flags) n = (r, n1)"
  shows "if pending n = [] then ret r = 0 \<or> (ret r < 0 \<and> errno r \<noteq> 0 \<and> errno r \<noteq> 11)
      else 0 < ret r \<and> nat (ret r) \<le> sum_list lens \<and> nat (ret r) \<le> length (pending n) \<and>
        out_bytes r = take (nat (ret r)) (pending n) \<and> pending n1 = drop (nat (ret r)) (pending n)"
proof -
  from assms(1) have "\<forall>lens flags n. 0 < sum_list lens \<longrightarrow> (case K (Sys_recvmsg s lens flags) n of (r, n1) \<Rightarrow>
      if pending n = [] then ret r = 0 \<or> (ret r < 0 \<and> errno r \<noteq> 0 \<and> errno r \<noteq> 11)
      else 0 < ret r \<and> nat (ret r) \<le> sum_list lens \<and> nat (ret r) \<le> length (pending n) \<and>
        out_bytes r = take (nat (ret r)) (pending n) \<and> pending n1 = drop (nat (ret r)) (pending n))"
    unfolding stream_kernel_def by (rule conjunct2)
  from this [rule_format, OF assms(2), where flags = flags and n = n] show ?thesis unfolding assms(3) prod.case .
qed

section \<open>One step\<close>

lemma write_step:
  assumes K: "stream_kernel K (impl_socket impl) sent pending" and impl: "blocking_stream impl"
  shows "\<exists>bytes ec n1. write_some K impl (consuming_prepare default_max_transfer_size c) (m, n) = Some ((bytes, ec), (m, n1)) \<and>
    0 \<le> bytes \<and> nat bytes \<le> total_size (remaining c) \<and> sent n1 = sent n @ take (nat bytes) (bytes_in m (remaining c)) \<and>
    (failed ec \<longrightarrow> bytes = 0) \<and> (front_full (remaining c) \<and> remaining c \<noteq> [] \<and> \<not> failed ec \<longrightarrow> 0 < bytes)"
proof -
  let ?s = "impl_socket impl" and ?st = "impl_state impl"
  define bufs where "bufs = take max_buffers (limited default_max_transfer_size (remaining c))"
  have unfold: "write_some K impl (consuming_prepare default_max_transfer_size c) = sync_send K ?s ?st bufs 0 (all_empty bufs)"
    by (simp add: write_some_def socket_send_def adapter_limited bufs_def Let_def)
  note impl = impl [unfolded blocking_stream_def]
  have le: "total_size bufs \<le> total_size (remaining c)" unfolding bufs_def by (rule total_adapter_le)
  have bytes: "bytes_in m bufs = take (total_size bufs) (bytes_in m (remaining c))"
    unfolding bufs_def by (rule bytes_adapter)
  show ?thesis
  proof (cases "total_size bufs = 0")
    case True
    then have "\<not> (front_full (remaining c) \<and> remaining c \<noteq> [])"
      using adapter_progress [of "remaining c" max_buffers default_max_transfer_size]
      by (auto simp: bufs_def max_buffers_def default_max_transfer_size_def)
    then show ?thesis
      using True impl by (simp add: unfold sync_send_def all_empty_total no_error_def failed_def)
  next
    case False
    let ?data = "map (load m) bufs"
    have cat: "concat ?data = bytes_in m bufs" by (simp add: bytes_in_def)
    then have ne: "concat ?data \<noteq> []" using False length_bytes_in [of m bufs] by (metis list.size(3))
    obtain r n1 where r: "K (Sys_sendmsg ?s ?data None (0 OR MSG_NOSIGNAL)) n = (r, n1)" by fastforce
    have send: "so_send K ?s bufs 0 (m, n) = ((ret r, nonneg_ok r), (m, n1))"
      using r by (simp add: so_send_def)
    from stream_kernel_send [OF K ne r] show ?thesis
    proof (elim disjE conjE)
      assume "0 < ret r" "nat (ret r) \<le> length (concat ?data)" "sent n1 = sent n @ take (nat (ret r)) (concat ?data)"
      moreover have "length (concat ?data) = total_size bufs" by (simp add: cat)
      ultimately have "sent n1 = sent n @ take (nat (ret r)) (bytes_in m (remaining c)) \<and> nat (ret r) \<le> total_size (remaining c)"
        using le by (simp add: cat bytes)
      moreover have "send_loop K ?s ?st bufs 0 (m, n) = Some ((ret r, no_error), (m, n1))"
        using \<open>0 < ret r\<close> by (subst send_loop.simps) (simp add: send nonneg_ok_def)
      ultimately show ?thesis
        using \<open>0 < ret r\<close> False impl
        by (simp add: unfold sync_send_def all_empty_total no_error_def failed_def)
    next
      assume e: "ret r < 0" "errno r \<noteq> 0" "errno r \<noteq> 11" "sent n1 = sent n"
      have "send_loop K ?s ?st bufs 0 (m, n) = Some ((0, error_wrapper r), (m, n1))"
        using e by (subst send_loop.simps)
          (simp add: send nonneg_ok_def gives_up_def error_wrapper_def would_block_def try_again_def system_error_def)
      moreover have "failed (error_wrapper r)" using e by (simp add: failed_def error_wrapper_def system_error_def)
      ultimately show ?thesis using False impl e(4) by (simp add: unfold sync_send_def all_empty_total)
    qed
  qed
qed

lemma read_step:
  assumes K: "stream_kernel K (impl_socket impl) sent pending" and impl: "blocking_stream impl"
  shows "\<exists>bytes ec n1. read_some K impl (consuming_prepare default_max_transfer_size c) (m, n) =
      Some ((bytes, ec), (scatter (take (nat bytes) (pending n)) (remaining c) m, n1)) \<and>
    0 \<le> bytes \<and> nat bytes \<le> total_size (remaining c) \<and> nat bytes \<le> length (pending n) \<and>
    (\<not> failed ec \<longrightarrow> pending n1 = drop (nat bytes) (pending n)) \<and>
    (failed ec \<longrightarrow> bytes = 0 \<and> pending n = []) \<and>
    (front_full (remaining c) \<and> remaining c \<noteq> [] \<and> \<not> failed ec \<longrightarrow> 0 < bytes)"
proof -
  let ?s = "impl_socket impl" and ?st = "impl_state impl"
  define bufs where "bufs = take max_buffers (limited default_max_transfer_size (remaining c))"
  have unfold: "read_some K impl (consuming_prepare default_max_transfer_size c) = sync_recv K ?s ?st bufs 0 (all_empty bufs)"
    by (simp add: read_some_def socket_receive_def adapter_limited bufs_def Let_def)
  note impl = impl [unfolded blocking_stream_def]
  have le: "total_size bufs \<le> total_size (remaining c)" unfolding bufs_def by (rule total_adapter_le)
  have sum: "sum_list (map iov_len bufs) = total_size bufs" by (simp add: total_size_def)
  show ?thesis
  proof (cases "total_size bufs = 0")
    case True
    then have "\<not> (front_full (remaining c) \<and> remaining c \<noteq> [])"
      using adapter_progress [of "remaining c" max_buffers default_max_transfer_size]
      by (auto simp: bufs_def max_buffers_def default_max_transfer_size_def)
    then show ?thesis
      using True impl by (simp add: unfold sync_recv_def all_empty_total no_error_def failed_def)
  next
    case False
    obtain r n1 where r: "K (Sys_recvmsg ?s (map iov_len bufs) 0) n = (r, n1)" by fastforce
    have recv: "so_recv K ?s bufs 0 (m, n) = ((ret r, nonneg_ok r), (received r bufs m, n1))"
      using r by (simp add: so_recv_def)
    have k: "if pending n = [] then ret r = 0 \<or> (ret r < 0 \<and> errno r \<noteq> 0 \<and> errno r \<noteq> 11)
      else 0 < ret r \<and> nat (ret r) \<le> total_size bufs \<and> nat (ret r) \<le> length (pending n) \<and>
        out_bytes r = take (nat (ret r)) (pending n) \<and> pending n1 = drop (nat (ret r)) (pending n)"
      using stream_kernel_recv [OF K _ r, unfolded sum] False by simp
    show ?thesis
    proof (cases "pending n = []")
      case True
      have none: "received r bufs m = m" using k True by (auto simp: received_def)
      have "\<exists>ec. recv_loop K ?s ?st bufs 0 (m, n) = Some ((0, ec), (m, n1)) \<and> failed ec"
        using k True impl by (subst recv_loop.simps)
          (auto simp: recv none nonneg_ok_def gives_up_def error_wrapper_def would_block_def try_again_def
            system_error_def failed_def eof_def)
      then show ?thesis using False impl True by (auto simp: unfold sync_recv_def all_empty_total)
    next
      case pending: False
      have "received r bufs m = scatter (take (nat (ret r)) (pending n)) (remaining c) m"
        unfolding received_def bufs_def
        using k pending by (simp add: bufs_def [symmetric] scatter_adapter [folded bufs_def])
          (simp add: bufs_def scatter_adapter)
      then have "recv_loop K ?s ?st bufs 0 (m, n) =
          Some ((ret r, no_error), (scatter (take (nat (ret r)) (pending n)) (remaining c) m, n1))"
        using k pending by (subst recv_loop.simps) (simp add: recv nonneg_ok_def)
      then show ?thesis
        using k pending False impl le by (simp add: unfold sync_recv_def all_empty_total no_error_def failed_def)
    qed
  qed
qed

section \<open>The loops\<close>

lemma write_loop_done:
  "k = 0 \<or> remaining c = [] \<Longrightarrow> write_loop K impl cond (consuming_prepare k c) t ec w = Some ((t, ec), w)"
  by (subst write_loop.simps) (auto simp: at_end_begin)

lemma write_loop_more:
  assumes "remaining c \<noteq> []" and "write_some K impl (consuming_prepare default_max_transfer_size c) w = Some ((bytes, ec1), w1)"
  shows "write_loop K impl transfer_all (consuming_prepare default_max_transfer_size c) t ec w =
    write_loop K impl transfer_all
      (consuming_prepare (transfer_all ec1 (t + nat bytes)) (consume (nat bytes) (consuming_prepare default_max_transfer_size c)))
      (t + nat bytes) ec1 w1"
  using assms by (subst write_loop.simps) (simp add: at_end_begin default_max_transfer_size_def Let_def)

text \<open>Behind the first turn the view starts with a buffer that has bytes, and every turn takes some.\<close>

lemma write_loop_front:
  assumes K: "stream_kernel K (impl_socket impl) sent pending" and impl: "blocking_stream impl"
    and "front_full (remaining c)" and "\<not> failed ec0"
  shows "\<exists>count ec' n'. write_loop K impl transfer_all (consuming_prepare default_max_transfer_size c) t ec0 (m, n) =
      Some ((t + count, ec'), (m, n')) \<and> count \<le> total_size (remaining c) \<and>
    sent n' = sent n @ take count (bytes_in m (remaining c)) \<and> (\<not> failed ec' \<longrightarrow> count = total_size (remaining c))"
  using assms(3,4)
proof (induction "total_size (remaining c)" arbitrary: c t n ec0 rule: less_induct)
  case less
  show ?case
  proof (cases "remaining c = []")
    case True
    then show ?thesis using less.prems by (simp add: write_loop_done)
  next
    case False
    obtain bytes ec n1 where step:
        "write_some K impl (consuming_prepare default_max_transfer_size c) (m, n) = Some ((bytes, ec), (m, n1))"
        "0 \<le> bytes" "nat bytes \<le> total_size (remaining c)"
        "sent n1 = sent n @ take (nat bytes) (bytes_in m (remaining c))" "failed ec \<longrightarrow> bytes = 0"
        "front_full (remaining c) \<and> remaining c \<noteq> [] \<and> \<not> failed ec \<longrightarrow> 0 < bytes"
      using write_step [OF K impl, of c m n] by blast
    note more = write_loop_more [OF False step(1), of t ec0]
    show ?thesis
    proof (cases "failed ec")
      case True
      then have "transfer_all ec (t + nat bytes) = 0" by (simp add: transfer_all_def)
      then show ?thesis using step True by (simp add: more write_loop_done)
    next
      case ok: False
      let ?c = "consume (nat bytes) (consuming_prepare default_max_transfer_size c)"
      have left: "remaining ?c = dropped (nat bytes) (remaining c)" by (simp add: remaining_consume)
      have full: "front_full (remaining ?c)" unfolding left by (rule front_full_dropped)
      have all: "transfer_all ec (t + nat bytes) = default_max_transfer_size" using ok by (simp add: transfer_all_def)
      have "total_size (remaining ?c) < total_size (remaining c)"
        using step(3,6) less.prems False ok unfolding left total_dropped by linarith
      from less.hyps [OF this full ok, of "t + nat bytes" n1]
      obtain count ec' n' where rec:
          "write_loop K impl transfer_all (consuming_prepare default_max_transfer_size ?c) (t + nat bytes) ec (m, n1) =
            Some ((t + nat bytes + count, ec'), (m, n'))"
          "count \<le> total_size (remaining ?c)" "sent n' = sent n1 @ take count (bytes_in m (remaining ?c))"
          "\<not> failed ec' \<longrightarrow> count = total_size (remaining ?c)"
        by blast
      have "sent n' = sent n @ take (nat bytes + count) (bytes_in m (remaining c))"
        using rec(3) step(4) unfolding left bytes_dropped by (simp add: take_add)
      then show ?thesis
        using rec(1,2,4) step(3) unfolding more all left total_dropped
        by (intro exI [of _ "nat bytes + count"] exI [of _ ec'] exI [of _ n']) (auto simp: add.assoc)
    qed
  qed
qed

lemma sync_write_ok:
  assumes K: "stream_kernel K (impl_socket impl) sent pending" and impl: "blocking_stream impl"
  shows "\<exists>count ec n'. sync_write K impl bufs transfer_all (m, n) = Some ((count, ec), (m, n')) \<and>
    count \<le> total_size bufs \<and> sent n' = sent n @ take count (bytes_in m bufs) \<and>
    (\<not> failed ec \<longrightarrow> count = total_size bufs)"
proof -
  let ?c = "consuming_new bufs"
  have ok: "\<not> failed no_error" by (simp add: failed_def no_error_def)
  have start: "sync_write K impl bufs transfer_all =
      write_loop K impl transfer_all (consuming_prepare default_max_transfer_size ?c) 0 no_error"
    using ok by (simp add: sync_write_def transfer_all_def)
  show ?thesis
  proof (cases "bufs = []")
    case True
    then have "remaining ?c = []" by (simp add: remaining_new)
    then have "sync_write K impl bufs transfer_all (m, n) = Some ((0, no_error), (m, n))"
      unfolding start by (intro write_loop_done disjI2)
    then show ?thesis using True by simp
  next
    case False
    then have ne: "remaining ?c \<noteq> []" by (simp add: remaining_new)
    obtain bytes ec n1 where step:
        "write_some K impl (consuming_prepare default_max_transfer_size ?c) (m, n) = Some ((bytes, ec), (m, n1))"
        "nat bytes \<le> total_size bufs" "sent n1 = sent n @ take (nat bytes) (bytes_in m bufs)"
        "failed ec \<longrightarrow> bytes = 0"
      using write_step [OF K impl, of ?c m n] by (auto simp: remaining_new)
    note more = write_loop_more [OF ne step(1), of 0 no_error]
    let ?c1 = "consume (nat bytes) (consuming_prepare default_max_transfer_size ?c)"
    have left: "remaining ?c1 = dropped (nat bytes) bufs" by (simp add: remaining_consume remaining_new)
    show ?thesis
    proof (cases "failed ec")
      case True
      then have "transfer_all ec (0 + nat bytes) = 0" by (simp add: transfer_all_def)
      then show ?thesis using step True by (simp add: start more write_loop_done)
    next
      case False
      then have all: "transfer_all ec (0 + nat bytes) = default_max_transfer_size" by (simp add: transfer_all_def)
      obtain count ec' n' where rec:
          "write_loop K impl transfer_all (consuming_prepare default_max_transfer_size ?c1) (0 + nat bytes) ec (m, n1) =
            Some ((0 + nat bytes + count, ec'), (m, n'))"
          "count \<le> total_size (remaining ?c1)" "sent n' = sent n1 @ take count (bytes_in m (remaining ?c1))"
          "\<not> failed ec' \<longrightarrow> count = total_size (remaining ?c1)"
        using write_loop_front [OF K impl _ False, of ?c1 "0 + nat bytes" m n1] front_full_dropped left by metis
      have "sent n' = sent n @ take (nat bytes + count) (bytes_in m bufs)"
        using rec(3) step(3) unfolding left bytes_dropped by (simp add: take_add)
      then show ?thesis
        using rec(1,2,4) step(2) unfolding start more all left total_dropped
        by (intro exI [of _ "nat bytes + count"] exI [of _ ec'] exI [of _ n']) auto
    qed
  qed
qed

lemma read_loop_done:
  "k = 0 \<or> remaining c = [] \<Longrightarrow> read_loop K impl cond (consuming_prepare k c) t ec w = Some ((t, ec), w)"
  by (subst read_loop.simps) (auto simp: at_end_begin)

lemma read_loop_more:
  assumes "remaining c \<noteq> []" and "read_some K impl (consuming_prepare default_max_transfer_size c) w = Some ((bytes, ec1), w1)"
  shows "read_loop K impl transfer_all (consuming_prepare default_max_transfer_size c) t ec w =
    read_loop K impl transfer_all
      (consuming_prepare (transfer_all ec1 (t + nat bytes)) (consume (nat bytes) (consuming_prepare default_max_transfer_size c)))
      (t + nat bytes) ec1 w1"
  using assms by (subst read_loop.simps) (simp add: at_end_begin default_max_transfer_size_def Let_def)

text \<open>What a read has done when it ends: \<open>left\<close> were the buffers to fill.\<close>

definition read_result ::
    "('n \<Rightarrow> byte list) \<Rightarrow> asio_buffer list \<Rightarrow> 'n world \<Rightarrow> nat \<Rightarrow> error_code \<Rightarrow> 'n world \<Rightarrow> bool" where
  "read_result pending left w count ec w' \<longleftrightarrow>
    (case (w, w') of ((m, n), (m', n')) \<Rightarrow>
      count \<le> total_size left \<and> count \<le> length (pending n) \<and> m' = scatter (take count (pending n)) left m \<and>
      (if failed ec then length (pending n) = count \<and> count < total_size left
       else count = total_size left \<and> pending n' = drop count (pending n)))"

lemma read_result_step:
  assumes "k \<le> total_size left" and "k \<le> length (pending n)" and "pending n1 = drop k (pending n)"
    and "read_result pending (dropped k left) (scatter (take k (pending n)) left m, n1) count ec w'"
  shows "read_result pending left (m, n) (k + count) ec w'"
proof -
  obtain m' n' where w': "w' = (m', n')" by fastforce
  from assms(4) [unfolded read_result_def w' prod.case total_dropped assms(3) length_drop]
  have r: "count \<le> total_size left - k" "count \<le> length (pending n) - k"
      "m' = scatter (take count (drop k (pending n))) (dropped k left) (scatter (take k (pending n)) left m)"
      "if failed ec then length (pending n) - k = count \<and> count < total_size left - k
       else count = total_size left - k \<and> pending n' = drop count (drop k (pending n))"
    by simp_all
  have "m' = scatter (take (k + count) (pending n)) left m"
    using r(3) assms(2) scatter_split [of "take k (pending n)" "take count (drop k (pending n))" left m]
    by (simp add: take_add)
  then show ?thesis using r(1,2,4) assms(1,2) by (auto simp: read_result_def w' add.commute split: if_splits)
qed

lemma read_loop_front:
  assumes K: "stream_kernel K (impl_socket impl) sent pending" and impl: "blocking_stream impl"
    and "front_full (remaining c)" and "\<not> failed ec0"
  shows "\<exists>count ec' w'. read_loop K impl transfer_all (consuming_prepare default_max_transfer_size c) t ec0 (m, n) =
      Some ((t + count, ec'), w') \<and> read_result pending (remaining c) (m, n) count ec' w'"
  using assms(3,4)
proof (induction "total_size (remaining c)" arbitrary: c t m n ec0 rule: less_induct)
  case less
  show ?case
  proof (cases "remaining c = []")
    case True
    then show ?thesis using less.prems by (simp add: read_loop_done read_result_def)
  next
    case False
    then have pos: "0 < total_size (remaining c)" using front_full_total [OF less.prems(1)] by simp
    obtain bytes ec n1 where step:
        "read_some K impl (consuming_prepare default_max_transfer_size c) (m, n) =
          Some ((bytes, ec), (scatter (take (nat bytes) (pending n)) (remaining c) m, n1))"
        "nat bytes \<le> total_size (remaining c)" "nat bytes \<le> length (pending n)"
        "\<not> failed ec \<longrightarrow> pending n1 = drop (nat bytes) (pending n)" "failed ec \<longrightarrow> bytes = 0 \<and> pending n = []"
        "front_full (remaining c) \<and> remaining c \<noteq> [] \<and> \<not> failed ec \<longrightarrow> 0 < bytes"
      using read_step [OF K impl, of c m n] by blast
    note more = read_loop_more [OF False step(1), of t ec0]
    show ?thesis
    proof (cases "failed ec")
      case True
      then have "transfer_all ec (t + nat bytes) = 0" by (simp add: transfer_all_def)
      then show ?thesis using step True pos by (simp add: more read_loop_done read_result_def)
    next
      case ok: False
      let ?c = "consume (nat bytes) (consuming_prepare default_max_transfer_size c)"
      let ?m = "scatter (take (nat bytes) (pending n)) (remaining c) m"
      have left: "remaining ?c = dropped (nat bytes) (remaining c)" by (simp add: remaining_consume)
      have full: "front_full (remaining ?c)" unfolding left by (rule front_full_dropped)
      have all: "transfer_all ec (t + nat bytes) = default_max_transfer_size" using ok by (simp add: transfer_all_def)
      have "total_size (remaining ?c) < total_size (remaining c)"
        using step(2,6) less.prems False ok unfolding left total_dropped by linarith
      from less.hyps [OF this full ok, of "t + nat bytes" ?m n1]
      obtain count ec' w' where rec:
          "read_loop K impl transfer_all (consuming_prepare default_max_transfer_size ?c) (t + nat bytes) ec (?m, n1) =
            Some ((t + nat bytes + count, ec'), w')"
          "read_result pending (remaining ?c) (?m, n1) count ec' w'"
        by blast
      have "read_result pending (remaining c) (m, n) (nat bytes + count) ec' w'"
        by (rule read_result_step [OF _ _ _ rec(2) [unfolded left]]) (use step ok in simp_all)
      then show ?thesis using rec(1) unfolding more all
        by (intro exI [of _ "nat bytes + count"] exI [of _ ec'] exI [of _ w']) (simp add: add.assoc)
    qed
  qed
qed

text \<open>Buffers without room need no call: the first turn reads nothing and leaves nothing to fill.\<close>

lemma read_nothing:
  assumes impl: "blocking_stream impl" and "total_size (remaining c) = 0"
  shows "read_loop K impl transfer_all (consuming_prepare default_max_transfer_size c) 0 no_error w = Some ((0, no_error), w)"
proof (cases "remaining c = []")
  case True
  then show ?thesis by (simp add: read_loop_done)
next
  case False
  define bufs where "bufs = take max_buffers (limited default_max_transfer_size (remaining c))"
  have "total_size bufs = 0" unfolding bufs_def using total_adapter_le [of max_buffers _ "remaining c"] assms(2) by simp
  then have step: "read_some K impl (consuming_prepare default_max_transfer_size c) w = Some ((0, no_error), w)"
    using impl by (simp add: read_some_def socket_receive_def adapter_limited bufs_def [symmetric] Let_def sync_recv_def
        all_empty_total blocking_stream_def)
  have "total_size (dropped 0 (remaining c)) = 0" using assms(2) by (simp add: total_dropped)
  then have "dropped 0 (remaining c) = []" by (simp add: front_full_total [OF front_full_dropped])
  then show ?thesis
    using read_loop_more [OF False step, of 0 no_error] by (simp add: read_loop_done remaining_consume)
qed

lemma sync_read_ok:
  assumes K: "stream_kernel K (impl_socket impl) sent pending" and impl: "blocking_stream impl"
  shows "\<exists>count ec w'. sync_read K impl bufs transfer_all (m, n) = Some ((count, ec), w') \<and>
    read_result pending bufs (m, n) count ec w'"
proof -
  let ?c = "consuming_new bufs"
  have ok: "\<not> failed no_error" by (simp add: failed_def no_error_def)
  have start: "sync_read K impl bufs transfer_all =
      read_loop K impl transfer_all (consuming_prepare default_max_transfer_size ?c) 0 no_error"
    using ok by (simp add: sync_read_def transfer_all_def)
  show ?thesis
  proof (cases "total_size bufs = 0")
    case True
    then have "sync_read K impl bufs transfer_all (m, n) = Some ((0, no_error), (m, n))"
      unfolding start by (intro read_nothing [OF impl]) (simp add: remaining_new)
    then show ?thesis using True ok by (simp add: read_result_def)
  next
    case False
    then have ne: "remaining ?c \<noteq> []" by (auto simp: remaining_new total_size_def)
    obtain bytes ec n1 where step:
        "read_some K impl (consuming_prepare default_max_transfer_size ?c) (m, n) =
          Some ((bytes, ec), (scatter (take (nat bytes) (pending n)) bufs m, n1))"
        "nat bytes \<le> total_size bufs" "nat bytes \<le> length (pending n)"
        "\<not> failed ec \<longrightarrow> pending n1 = drop (nat bytes) (pending n)" "failed ec \<longrightarrow> bytes = 0 \<and> pending n = []"
      using read_step [OF K impl, of ?c m n] by (auto simp: remaining_new)
    note more = read_loop_more [OF ne step(1), of 0 no_error]
    let ?c1 = "consume (nat bytes) (consuming_prepare default_max_transfer_size ?c)"
    let ?m = "scatter (take (nat bytes) (pending n)) bufs m"
    have left: "remaining ?c1 = dropped (nat bytes) bufs" by (simp add: remaining_consume remaining_new)
    show ?thesis
    proof (cases "failed ec")
      case True
      then have "transfer_all ec (0 + nat bytes) = 0" by (simp add: transfer_all_def)
      then show ?thesis using step True False by (simp add: start more read_loop_done read_result_def)
    next
      case False
      then have all: "transfer_all ec (0 + nat bytes) = default_max_transfer_size" by (simp add: transfer_all_def)
      have full: "front_full (remaining ?c1)" unfolding left by (rule front_full_dropped)
      from read_loop_front [OF K impl full False, of "0 + nat bytes" ?m n1]
      obtain count ec' w' where rec:
          "read_loop K impl transfer_all (consuming_prepare default_max_transfer_size ?c1) (0 + nat bytes) ec (?m, n1) =
            Some ((0 + nat bytes + count, ec'), w')"
          "read_result pending (remaining ?c1) (?m, n1) count ec' w'"
        by blast
      have "read_result pending bufs (m, n) (nat bytes + count) ec' w'"
        by (rule read_result_step [OF _ _ _ rec(2) [unfolded left]]) (use step False in simp_all)
      then show ?thesis using rec(1) unfolding start more all by auto
    qed
  qed
qed

section \<open>The promise of the transport\<close>

lemma transport_keeps_promise:
  assumes K: "stream_kernel K (impl_socket impl) sent pending" and impl: "blocking_stream impl"
  shows "asio_stream (transport_send K impl) (transport_receive K impl) sent pending"
proof -
  have send: "sent (snd (transport_send K impl b n)) = sent n @ b" if ok: "fst (transport_send K impl b n)" for b n
  proof -
    let ?m = "store_at 0 b (\<lambda>_. 0)"
    obtain count ec n' where w: "sync_write K impl [buffer_of 0 (length b)] transfer_all (?m, n) = Some ((count, ec), (?m, n'))"
        "sent n' = sent n @ take count (bytes_in ?m [buffer_of 0 (length b)])"
        "\<not> failed ec \<longrightarrow> count = total_size [buffer_of 0 (length b)]"
      using sync_write_ok [OF K impl, of "[buffer_of 0 (length b)]" ?m n] by blast
    have "bytes_in ?m [buffer_of 0 (length b)] = b" by (simp add: buffer_of_def load_store_at)
    moreover have "\<not> failed ec" using ok w(1) by (simp add: transport_send_def)
    ultimately show ?thesis using w by (simp add: transport_send_def buffer_of_def)
  qed
  have recv: "(k \<le> length (pending n) \<longrightarrow>
      fst (transport_receive K impl k n) = Some (take k (pending n)) \<and> pending (snd (transport_receive K impl k n)) = drop k (pending n)) \<and>
    (length (pending n) < k \<longrightarrow> fst (transport_receive K impl k n) = None)" for k n
  proof -
    obtain count ec m' n' where r: "sync_read K impl [buffer_of 0 k] transfer_all (\<lambda>_. 0, n) = Some ((count, ec), (m', n'))"
        "read_result pending [buffer_of 0 k] (\<lambda>_. 0, n) count ec (m', n')"
      using sync_read_ok [OF K impl, of "[buffer_of 0 k]" "\<lambda>_. 0" n] by auto
    have le: "count \<le> k" "count \<le> length (pending n)" "m' = store_at 0 (take count (pending n)) (\<lambda>_. 0)"
      "if failed ec then length (pending n) = count \<and> count < k else count = k \<and> pending n' = drop count (pending n)"
      using r(2) [unfolded read_result_def prod.case] by (simp_all add: buffer_of_def split: if_splits)
    have "load m' (buffer_of 0 k) = take k (pending n)" if "\<not> failed ec"
      using le that load_store_at [of 0 "take k (pending n)" "\<lambda>_. 0"] by (simp add: buffer_of_def)
    then show ?thesis using r(1) le by (auto simp: transport_receive_def split: if_splits)
  qed
  show ?thesis using send recv by (simp add: asio_stream_def)
qed

end
