(* ===== verification/Asio_Address.thy ===== *)
theory Asio_Address
  imports Asio_Kernel Binary_Storage "HOL-Library.List_Lexorder"
begin

unbundle bit_operations_syntax

text \<open>
  Addresses of asio (\<open>asio/ip/address_v4.hpp\<close>, \<open>asio/ip/impl/address_v4.ipp\<close>,
  \<open>asio/ip/impl/address_v6.ipp\<close>, \<open>asio/ip/impl/address.ipp\<close>). An address of the old family is the number
  \<open>to_ulong\<close> gives, whose bytes in network order the object holds; one of the new family is its sixteen
  bytes and the scope. The scope is an \<open>unsigned long\<close>, of which an endpoint keeps 32 bits. The conversion
  of texts by the system is a parameter.
\<close>

datatype ip_address = Address_v4 "32 word" | Address_v6 "byte list" "64 word"

text \<open>\<open>htons\<close> and \<open>htonl\<close> on a little endian machine, as the bytes they put into memory.\<close>

definition network_short :: "16 word \<Rightarrow> byte list" where
  "network_short value = rev (bytes_of_word value)"

definition network_long :: "32 word \<Rightarrow> byte list" where
  "network_long value = rev (bytes_of_word value)"

definition host_short :: "byte list \<Rightarrow> 16 word" where
  "host_short bs = word_of_bytes (rev bs)"

definition host_long :: "byte list \<Rightarrow> 32 word" where
  "host_long bs = word_of_bytes (rev bs)"

lemma host_network [simp]: "host_short (network_short p) = p" "host_long (network_long a) = a"
  by (simp_all add: host_short_def network_short_def host_long_def network_long_def word_of_bytes_of_word)

lemma network_lengths [simp]: "length (network_short p) = 2" "length (network_long a) = 4"
  by (simp_all add: network_short_def network_long_def)

section \<open>The old family\<close>

definition v4_of_bytes :: "byte list \<Rightarrow> 32 word" where
  "v4_of_bytes bytes = host_long (take 4 bytes)"

definition v4_of_ulong :: "64 word \<Rightarrow> 32 word outcome" where
  "v4_of_ulong addr = (if addr > 0xFFFFFFFF then Inl (Throw Std_Exception) else Inr (ucast addr))"

definition v4_to_bytes :: "32 word \<Rightarrow> byte list" where
  "v4_to_bytes a = network_long a"

definition v4_is_loopback :: "32 word \<Rightarrow> bool" where
  "v4_is_loopback a \<longleftrightarrow> a AND 0xFF000000 = 0x7F000000"

definition v4_is_unspecified :: "32 word \<Rightarrow> bool" where
  "v4_is_unspecified a \<longleftrightarrow> a = 0"

definition v4_is_class_a :: "32 word \<Rightarrow> bool" where
  "v4_is_class_a a \<longleftrightarrow> a AND 0x80000000 = 0"

definition v4_is_class_b :: "32 word \<Rightarrow> bool" where
  "v4_is_class_b a \<longleftrightarrow> a AND 0xC0000000 = 0x80000000"

definition v4_is_class_c :: "32 word \<Rightarrow> bool" where
  "v4_is_class_c a \<longleftrightarrow> a AND 0xE0000000 = 0xC0000000"

definition v4_is_multicast :: "32 word \<Rightarrow> bool" where
  "v4_is_multicast a \<longleftrightarrow> a AND 0xF0000000 = 0xE0000000"

definition v4_broadcast :: "32 word \<Rightarrow> 32 word \<Rightarrow> 32 word" where
  "v4_broadcast addr netmask = addr OR (netmask XOR 0xFFFFFFFF)"

definition v4_netmask :: "32 word \<Rightarrow> 32 word" where
  "v4_netmask addr =
    (if v4_is_class_a addr then 0xFF000000
     else if v4_is_class_b addr then 0xFFFF0000
     else if v4_is_class_c addr then 0xFFFFFF00
     else 0xFFFFFFFF)"

definition v4_any :: "32 word" where "v4_any = 0"
definition v4_loopback :: "32 word" where "v4_loopback = 0x7F000001"
definition v4_all :: "32 word" where "v4_all = 0xFFFFFFFF"

lemma unat_below: "unat (a :: 32 word) < 2 ^ 32"
  using unsigned_less [of a, where ?'a = nat] by simp

lemma unat_wide: "unat (a :: 32 word) < 2 ^ 64"
  using unat_below [of a] by simp

lemma v4_bytes_roundtrip: "v4_of_bytes (v4_to_bytes a) = a"
  by (simp add: v4_of_bytes_def v4_to_bytes_def)

lemma v4_of_ulong_ok: "v4_of_ulong (ucast (a :: 32 word)) = Inr a"
proof -
  have "unat (ucast a :: 64 word) = unat a" by (simp add: unsigned_ucast_eq take_bit_nat_eq_self [OF unat_wide])
  then have "\<not> (ucast a :: 64 word) > 0xFFFFFFFF" using unat_below [of a] by (simp add: word_less_nat_alt)
  moreover have "(ucast (ucast a :: 64 word) :: 32 word) = a" by (rule bit_word_eqI) (simp add: bit_simps)
  ultimately show ?thesis by (simp add: v4_of_ulong_def)
qed

text \<open>A test of the highest bits says in which range the number lies.\<close>

lemma high_bits: "(a :: 32 word) AND push_bit k (mask (32 - k)) = push_bit k (drop_bit k a)"
  by (rule bit_word_eqI) (auto simp: bit_simps)

lemma unat_low: "n < 2 ^ 32 \<Longrightarrow> unat (of_nat n :: 32 word) = n"
  by (simp add: unat_of_nat)

lemma prefix_iff:
  assumes "k \<le> 32" and "c < 2 ^ (32 - k)"
  shows "(a :: 32 word) AND push_bit k (mask (32 - k)) = push_bit k (of_nat c) \<longleftrightarrow> unat a div 2 ^ k = c"
proof -
  have "2 ^ k * 2 ^ (32 - k) = (2 ^ 32 :: nat)" using assms(1) by (metis le_add_diff_inverse power_add)
  then have c: "2 ^ k * c < 2 ^ 32"
    using mult_less_mono2 [OF assms(2), of "2 ^ k"] by (metis zero_less_numeral zero_less_power)
  have "push_bit k (of_nat c) = (of_nat (2 ^ k * c) :: 32 word)" by (simp add: push_bit_eq_mult mult.commute)
  then have C: "unat (push_bit k (of_nat c) :: 32 word) = 2 ^ k * c" using unat_low [OF c] by metis
  have u: "unat (drop_bit k a) = unat a div 2 ^ k"
    using unat_below [of a] by (simp only: unsigned_drop_bit_eq take_bit_nat_eq_self len_num1 len_bit0 drop_bit_eq_div [where 'a = nat]) (simp add: take_bit_nat_eq_self)
  have d: "drop_bit k a = of_nat (unat a div 2 ^ k)" unfolding u [symmetric] by (rule word_nat_cases [of "drop_bit k a"]) (simp add: unat_low)
  have "2 ^ k * (unat a div 2 ^ k) \<le> unat a" by (rule times_div_less_eq_dividend)
  then have m: "2 ^ k * (unat a div 2 ^ k) < 2 ^ 32" using unat_below [of a] by (rule le_less_trans)
  have "push_bit k (drop_bit k a) = (of_nat (2 ^ k * (unat a div 2 ^ k)) :: 32 word)"
    unfolding d push_bit_eq_mult by (metis mult.commute of_nat_mult of_nat_numeral of_nat_power)
  then have A: "unat (push_bit k (drop_bit k a)) = 2 ^ k * (unat a div 2 ^ k)" using unat_low [OF m] by metis
  have "2 ^ k * (unat a div 2 ^ k) = 2 ^ k * c \<longleftrightarrow> unat a div 2 ^ k = c" by simp
  then show ?thesis unfolding high_bits using A C by (metis word_unat_eq_iff)
qed
lemma v4_ranges:
  "v4_is_class_a a \<longleftrightarrow> unat a div 2 ^ 31 = 0" "v4_is_class_b a \<longleftrightarrow> unat a div 2 ^ 30 = 2"
  "v4_is_class_c a \<longleftrightarrow> unat a div 2 ^ 29 = 6" "v4_is_multicast a \<longleftrightarrow> unat a div 2 ^ 28 = 14"
  "v4_is_loopback a \<longleftrightarrow> unat a div 2 ^ 24 = 127"
proof -
  have m: "(0x80000000 :: 32 word) = push_bit 31 (mask (32 - 31))" "(0xC0000000 :: 32 word) = push_bit 30 (mask (32 - 30))"
    "(0xE0000000 :: 32 word) = push_bit 29 (mask (32 - 29))" "(0xF0000000 :: 32 word) = push_bit 28 (mask (32 - 28))"
    "(0xFF000000 :: 32 word) = push_bit 24 (mask (32 - 24))"
    by code_simp+
  have c: "(0 :: 32 word) = push_bit 31 (of_nat 0)" "(0x80000000 :: 32 word) = push_bit 30 (of_nat 2)"
    "(0xC0000000 :: 32 word) = push_bit 29 (of_nat 6)" "(0xE0000000 :: 32 word) = push_bit 28 (of_nat 14)"
    "(0x7F000000 :: 32 word) = push_bit 24 (of_nat 127)"
    by code_simp+
  note p = prefix_iff [of 31 0 a] prefix_iff [of 30 2 a] prefix_iff [of 29 6 a] prefix_iff [of 28 14 a]
    prefix_iff [of 24 127 a]
  show "v4_is_class_a a \<longleftrightarrow> unat a div 2 ^ 31 = 0"
    unfolding v4_is_class_a_def m(1) c(1) by (rule p(1)) simp_all
  show "v4_is_class_b a \<longleftrightarrow> unat a div 2 ^ 30 = 2"
    unfolding v4_is_class_b_def m(2) c(2) by (rule p(2)) simp_all
  show "v4_is_class_c a \<longleftrightarrow> unat a div 2 ^ 29 = 6"
    unfolding v4_is_class_c_def m(3) c(3) by (rule p(3)) simp_all
  show "v4_is_multicast a \<longleftrightarrow> unat a div 2 ^ 28 = 14"
    unfolding v4_is_multicast_def m(4) c(4) by (rule p(4)) simp_all
  show "v4_is_loopback a \<longleftrightarrow> unat a div 2 ^ 24 = 127"
    unfolding v4_is_loopback_def m(5) c(5) by (rule p(5)) simp_all
qed

text \<open>So every address is of one of the classes A, B and C, a multicast address or reserved, and of no two.\<close>

lemma quotient_is: "0 < d \<Longrightarrow> n div d = q \<longleftrightarrow> q * d \<le> n \<and> n < Suc q * d" for n d q :: nat
  by (metis Suc_eq_plus1 div_nat_eqI dividend_less_times_div less_Suc_eq_le mult.commute times_div_less_eq_dividend
      mult_Suc add.commute)

lemma v4_classes:
  "v4_is_class_a a \<longleftrightarrow> unat a < 2 ^ 31" "v4_is_class_b a \<longleftrightarrow> 2 ^ 31 \<le> unat a \<and> unat a < 3 * 2 ^ 30"
  "v4_is_class_c a \<longleftrightarrow> 3 * 2 ^ 30 \<le> unat a \<and> unat a < 7 * 2 ^ 29"
  "v4_is_multicast a \<longleftrightarrow> 7 * 2 ^ 29 \<le> unat a \<and> unat a < 15 * 2 ^ 28"
  unfolding v4_ranges by (subst quotient_is, simp, simp)+

lemma v4_netmask_loopback:
  assumes "v4_is_loopback a"
  shows "v4_netmask a = 0xFF000000"
proof -
  have "unat a < 128 * 2 ^ 24" using assms unfolding v4_ranges quotient_is [OF zero_less_power [OF zero_less_numeral]] by simp
  then have "v4_is_class_a a" unfolding v4_classes by simp
  then show ?thesis by (simp add: v4_netmask_def)
qed

text \<open>The broadcast address of a network is in it, and has all bits of the host set.\<close>

lemma v4_broadcast_ok:
  "v4_broadcast a m AND m = a AND m" "v4_broadcast a m OR m = v4_all"
proof -
  have all: "v4_all = mask 32" by code_simp
  have b: "v4_broadcast a m = a OR (m XOR mask 32)" using all by (simp add: v4_broadcast_def v4_all_def)
  show "v4_broadcast a m AND m = a AND m" unfolding b by (rule bit_word_eqI) (auto simp: bit_simps)
  show "v4_broadcast a m OR m = v4_all" unfolding b all by (rule bit_word_eqI) (auto simp: bit_simps)
qed

section \<open>The new family\<close>

definition v6_new :: "byte list \<times> 64 word" where
  "v6_new = (replicate 16 0, 0)"

definition v6_of_bytes :: "byte list \<Rightarrow> 64 word \<Rightarrow> byte list \<times> 64 word" where
  "v6_of_bytes bytes scope = (take 16 bytes, scope)"

definition v6_to_bytes :: "byte list \<times> 64 word \<Rightarrow> byte list" where
  "v6_to_bytes a = take 16 (fst a)"

definition v6_is_loopback :: "byte list \<Rightarrow> bool" where
  "v6_is_loopback b \<longleftrightarrow> (\<forall>i < 15. b ! i = 0) \<and> b ! 15 = 1"

definition v6_is_unspecified :: "byte list \<Rightarrow> bool" where
  "v6_is_unspecified b \<longleftrightarrow> (\<forall>i < 16. b ! i = 0)"

definition v6_is_link_local :: "byte list \<Rightarrow> bool" where
  "v6_is_link_local b \<longleftrightarrow> b ! 0 = 0xfe \<and> b ! 1 AND 0xc0 = 0x80"

definition v6_is_site_local :: "byte list \<Rightarrow> bool" where
  "v6_is_site_local b \<longleftrightarrow> b ! 0 = 0xfe \<and> b ! 1 AND 0xc0 = 0xc0"

definition v6_is_v4_mapped :: "byte list \<Rightarrow> bool" where
  "v6_is_v4_mapped b \<longleftrightarrow> (\<forall>i < 10. b ! i = 0) \<and> b ! 10 = 0xff \<and> b ! 11 = 0xff"

definition v6_is_v4_compatible :: "byte list \<Rightarrow> bool" where
  "v6_is_v4_compatible b \<longleftrightarrow> (\<forall>i < 12. b ! i = 0) \<and>
    \<not> (b ! 12 = 0 \<and> b ! 13 = 0 \<and> b ! 14 = 0 \<and> (b ! 15 = 0 \<or> b ! 15 = 1))"

definition v6_is_multicast :: "byte list \<Rightarrow> bool" where
  "v6_is_multicast b \<longleftrightarrow> b ! 0 = 0xff"

definition v6_is_multicast_global :: "byte list \<Rightarrow> bool" where
  "v6_is_multicast_global b \<longleftrightarrow> b ! 0 = 0xff \<and> b ! 1 AND 0x0f = 0x0e"

definition v6_is_multicast_link_local :: "byte list \<Rightarrow> bool" where
  "v6_is_multicast_link_local b \<longleftrightarrow> b ! 0 = 0xff \<and> b ! 1 AND 0x0f = 0x02"

definition v6_is_multicast_node_local :: "byte list \<Rightarrow> bool" where
  "v6_is_multicast_node_local b \<longleftrightarrow> b ! 0 = 0xff \<and> b ! 1 AND 0x0f = 0x01"

definition v6_is_multicast_org_local :: "byte list \<Rightarrow> bool" where
  "v6_is_multicast_org_local b \<longleftrightarrow> b ! 0 = 0xff \<and> b ! 1 AND 0x0f = 0x08"

definition v6_is_multicast_site_local :: "byte list \<Rightarrow> bool" where
  "v6_is_multicast_site_local b \<longleftrightarrow> b ! 0 = 0xff \<and> b ! 1 AND 0x0f = 0x05"

definition v6_to_v4 :: "byte list \<Rightarrow> 32 word outcome" where
  "v6_to_v4 b =
    (if \<not> v6_is_v4_mapped b \<and> \<not> v6_is_v4_compatible b then Inl (Throw Std_Exception)
     else Inr (v4_of_bytes [b ! 12, b ! 13, b ! 14, b ! 15]))"

definition v6_loopback :: "byte list \<times> 64 word" where
  "v6_loopback = ((fst v6_new)[15 := 1], snd v6_new)"

definition v6_v4_mapped :: "32 word \<Rightarrow> byte list \<times> 64 word" where
  "v6_v4_mapped addr = v6_of_bytes (replicate 10 0 @ [0xff, 0xff] @ v4_to_bytes addr) 0"

definition v6_v4_compatible :: "32 word \<Rightarrow> byte list \<times> 64 word" where
  "v6_v4_compatible addr = v6_of_bytes (replicate 12 0 @ v4_to_bytes addr) 0"

lemma v4_tail:
  assumes "length p = 12"
  shows "v4_of_bytes [(p @ v4_to_bytes a) ! 12, (p @ v4_to_bytes a) ! 13, (p @ v4_to_bytes a) ! 14, (p @ v4_to_bytes a) ! 15] = a"
proof -
  have len: "length (v4_to_bytes a) = 4" by (simp add: v4_to_bytes_def)
  have "[(p @ v4_to_bytes a) ! 12, (p @ v4_to_bytes a) ! 13, (p @ v4_to_bytes a) ! 14, (p @ v4_to_bytes a) ! 15] = v4_to_bytes a"
    by (rule nth_equalityI) (auto simp: assms len nth_append less_Suc_eq numeral_eq_Suc)
  then show ?thesis by (simp only: v4_bytes_roundtrip)
qed

text \<open>
  A mapped address gives back the address of the old family. A compatible one does, except for the two
  that are the unspecified and the loopback address of the new family.
\<close>

lemma v4_mapped_roundtrip: "v6_is_v4_mapped (fst (v6_v4_mapped a)) \<and> v6_to_v4 (fst (v6_v4_mapped a)) = Inr a"
proof -
  let ?b = "(replicate 10 0 @ [0xff, 0xff]) @ v4_to_bytes a"
  have b: "fst (v6_v4_mapped a) = ?b" by (simp add: v6_v4_mapped_def v6_of_bytes_def v4_to_bytes_def)
  have "v6_is_v4_mapped ?b" by (auto simp: v6_is_v4_mapped_def nth_append)
  moreover have "v4_of_bytes [?b ! 12, ?b ! 13, ?b ! 14, ?b ! 15] = a" by (rule v4_tail) simp
  ultimately show ?thesis unfolding b v6_to_v4_def by simp
qed

lemma v4_compatible_roundtrip:
  assumes "a \<noteq> 0" and "a \<noteq> 1"
  shows "v6_is_v4_compatible (fst (v6_v4_compatible a)) \<and> v6_to_v4 (fst (v6_v4_compatible a)) = Inr a"
proof -
  let ?b = "replicate 12 0 @ v4_to_bytes a"
  have b: "fst (v6_v4_compatible a) = ?b" by (simp add: v6_v4_compatible_def v6_of_bytes_def v4_to_bytes_def)
  have again: "v4_of_bytes [?b ! 12, ?b ! 13, ?b ! 14, ?b ! 15] = a" by (rule v4_tail) simp
  have "v4_of_bytes [0, 0, 0, 0] = 0" "v4_of_bytes [0, 0, 0, 1] = 1" by code_simp+
  then have "\<not> (?b ! 12 = 0 \<and> ?b ! 13 = 0 \<and> ?b ! 14 = 0 \<and> (?b ! 15 = 0 \<or> ?b ! 15 = 1))"
    using again assms by metis
  then have "v6_is_v4_compatible ?b" unfolding v6_is_v4_compatible_def by (simp add: nth_append)
  then show ?thesis unfolding b v6_to_v4_def using again by simp
qed

lemma v4_compatible_lost: "v6_to_v4 (fst (v6_v4_compatible 1)) = Inl (Throw Std_Exception)"
  by code_simp

section \<open>Addresses of either family\<close>

definition address_new :: ip_address where "address_new = Address_v4 v4_any"

definition address_to_v4 :: "ip_address \<Rightarrow> 32 word outcome" where
  "address_to_v4 addr = (case addr of Address_v4 a \<Rightarrow> Inr a | Address_v6 _ _ \<Rightarrow> Inl (Throw Std_Exception))"

definition address_to_v6 :: "ip_address \<Rightarrow> (byte list \<times> 64 word) outcome" where
  "address_to_v6 addr = (case addr of Address_v4 _ \<Rightarrow> Inl (Throw Std_Exception) | Address_v6 b s \<Rightarrow> Inr (b, s))"

definition address_is_loopback :: "ip_address \<Rightarrow> bool" where
  "address_is_loopback addr = (case addr of Address_v4 a \<Rightarrow> v4_is_loopback a | Address_v6 b _ \<Rightarrow> v6_is_loopback b)"

definition address_is_unspecified :: "ip_address \<Rightarrow> bool" where
  "address_is_unspecified addr =
    (case addr of Address_v4 a \<Rightarrow> v4_is_unspecified a | Address_v6 b _ \<Rightarrow> v6_is_unspecified b)"

definition address_is_multicast :: "ip_address \<Rightarrow> bool" where
  "address_is_multicast addr =
    (case addr of Address_v4 a \<Rightarrow> v4_is_multicast a | Address_v6 b _ \<Rightarrow> v6_is_multicast b)"

text \<open>\<open>pton4\<close> and \<open>pton6\<close> are \<open>inet_pton\<close> for either family: the address and the error code.\<close>

definition address_from_string ::
    "(string \<Rightarrow> 32 word \<times> error_code) \<Rightarrow> (string \<Rightarrow> (byte list \<times> 64 word) \<times> error_code) \<Rightarrow> string \<Rightarrow>
      ip_address \<times> error_code" where
  "address_from_string pton4 pton6 str =
    (case pton6 str of ((b, s), ec) \<Rightarrow>
     if \<not> failed ec then (Address_v6 b s, ec)
     else case pton4 str of (a, ec1) \<Rightarrow>
       if \<not> failed ec1 then (Address_v4 a, ec1) else (address_new, ec1))"

section \<open>The order of addresses\<close>

text \<open>\<open>memcmp\<close> compares byte by byte, the first difference decides.\<close>

definition memcmp :: "byte list \<Rightarrow> byte list \<Rightarrow> int" where
  "memcmp a b = (if a < b then -1 else if b < a then 1 else 0)"

definition v6_equal :: "byte list \<times> 64 word \<Rightarrow> byte list \<times> 64 word \<Rightarrow> bool" where
  "v6_equal a1 a2 \<longleftrightarrow> memcmp (fst a1) (fst a2) = 0 \<and> snd a1 = snd a2"

definition v6_less :: "byte list \<times> 64 word \<Rightarrow> byte list \<times> 64 word \<Rightarrow> bool" where
  "v6_less a1 a2 =
    (let memcmp_result = memcmp (fst a1) (fst a2) in
     if memcmp_result < 0 then True
     else if memcmp_result > 0 then False
     else snd a1 < snd a2)"

definition address_equal :: "ip_address \<Rightarrow> ip_address \<Rightarrow> bool" where
  "address_equal a1 a2 =
    (case (a1, a2) of
       (Address_v4 x, Address_v4 y) \<Rightarrow> x = y
     | (Address_v6 b s, Address_v6 c t) \<Rightarrow> v6_equal (b, s) (c, t)
     | _ \<Rightarrow> False)"

definition address_less :: "ip_address \<Rightarrow> ip_address \<Rightarrow> bool" where
  "address_less a1 a2 =
    (case (a1, a2) of
       (Address_v4 x, Address_v4 y) \<Rightarrow> x < y
     | (Address_v6 b s, Address_v6 c t) \<Rightarrow> v6_less (b, s) (c, t)
     | (Address_v4 _, Address_v6 _ _) \<Rightarrow> True
     | (Address_v6 _ _, Address_v4 _) \<Rightarrow> False)"

lemma v6_equal_iff: "v6_equal a b \<longleftrightarrow> a = b"
  by (cases a; cases b) (auto simp: v6_equal_def memcmp_def)

lemma v6_less_iff: "v6_less a b \<longleftrightarrow> fst a < fst b \<or> fst a = fst b \<and> snd a < snd b"
  by (auto simp: v6_less_def memcmp_def Let_def)

lemma address_equal_iff: "address_equal a b \<longleftrightarrow> a = b"
  by (auto simp: address_equal_def v6_equal_iff split: ip_address.splits)

text \<open>The comparisons make the addresses a linear order, so that they may be keys of ordered containers.\<close>

instantiation ip_address :: linorder
begin

definition less_ip_address :: "ip_address \<Rightarrow> ip_address \<Rightarrow> bool" where
  "less_ip_address a b = address_less a b"

definition less_eq_ip_address :: "ip_address \<Rightarrow> ip_address \<Rightarrow> bool" where
  "less_eq_ip_address a b \<longleftrightarrow> address_less a b \<or> a = b"

instance
proof
  fix a b c :: ip_address
  show "a < b \<longleftrightarrow> a \<le> b \<and> \<not> b \<le> a"
    by (cases a; cases b) (auto simp: less_ip_address_def less_eq_ip_address_def address_less_def v6_less_iff)
  show "a \<le> a" by (simp add: less_eq_ip_address_def)
  show "a \<le> b \<Longrightarrow> b \<le> c \<Longrightarrow> a \<le> c"
    by (cases a; cases b; cases c) (auto simp: less_eq_ip_address_def address_less_def v6_less_iff)
  show "a \<le> b \<Longrightarrow> b \<le> a \<Longrightarrow> a = b"
    by (cases a; cases b) (auto simp: less_eq_ip_address_def address_less_def v6_less_iff)
  show "a \<le> b \<or> b \<le> a"
    by (cases a; cases b) (auto simp: less_eq_ip_address_def address_less_def v6_less_iff)
qed

end

end
