(* ===== verification/Asio_Endpoint.thy ===== *)
theory Asio_Endpoint
  imports Asio_Address
begin

text \<open>
  Endpoints of asio (\<open>asio/ip/detail/impl/endpoint.ipp\<close>): the bytes of a \<open>sockaddr_in\<close> or a
  \<open>sockaddr_in6\<close> in one union. The family and the scope are numbers of the host, little endian; the port
  and the address are in network order.
\<close>

type_synonym endpoint = "byte list"

definition AF_INET :: int where "AF_INET = 2"
definition AF_INET6 :: int where "AF_INET6 = 10"

definition family_bytes :: "int \<Rightarrow> byte list" where
  "family_bytes af = bytes_of_word (word_of_int af :: 16 word)"

definition field :: "nat \<Rightarrow> nat \<Rightarrow> endpoint \<Rightarrow> byte list" where
  "field p n e = take n (drop p e)"

text \<open>The union is the 28 bytes of the longer structure, all zero at first.\<close>

definition endpoint_zero :: endpoint where "endpoint_zero = replicate 28 0"

definition is_v4 :: "endpoint \<Rightarrow> bool" where
  "is_v4 e \<longleftrightarrow> field 0 2 e = family_bytes AF_INET"

definition endpoint_any :: "int \<Rightarrow> 16 word \<Rightarrow> endpoint" where
  "endpoint_any family port_num =
    (if family = AF_INET
     then memcpy_at 0 (family_bytes AF_INET @ network_short port_num @ network_long 0) endpoint_zero
     else memcpy_at 0 (family_bytes AF_INET6 @ network_short port_num @ bytes_of_word (0 :: 32 word) @
            replicate 16 0 @ bytes_of_word (0 :: 32 word)) endpoint_zero)"

definition endpoint_new :: endpoint where
  "endpoint_new = memcpy_at 0 (family_bytes AF_INET @ network_short 0 @ network_long 0) endpoint_zero"

definition endpoint_of :: "ip_address \<Rightarrow> 16 word \<Rightarrow> endpoint" where
  "endpoint_of addr port_num =
    (case addr of
       Address_v4 a \<Rightarrow> memcpy_at 0 (family_bytes AF_INET @ network_short port_num @ network_long a) endpoint_zero
     | Address_v6 bytes scope_id \<Rightarrow>
         memcpy_at 0 (family_bytes AF_INET6 @ network_short port_num @ bytes_of_word (0 :: 32 word) @
           take 16 bytes @ bytes_of_word (ucast scope_id :: 32 word)) endpoint_zero)"

definition endpoint_resize :: "nat \<Rightarrow> unit outcome" where
  "endpoint_resize new_size = (if 128 < new_size then Inl (Throw Std_Exception) else Inr ())"

text \<open>The port stands at the same place in both structures.\<close>

definition endpoint_port :: "endpoint \<Rightarrow> 16 word" where
  "endpoint_port e = (if is_v4 e then host_short (field 2 2 e) else host_short (field 2 2 e))"

definition set_endpoint_port :: "16 word \<Rightarrow> endpoint \<Rightarrow> endpoint" where
  "set_endpoint_port port_num e =
    (if is_v4 e then memcpy_at 2 (network_short port_num) e else memcpy_at 2 (network_short port_num) e)"

definition endpoint_address :: "endpoint \<Rightarrow> ip_address" where
  "endpoint_address e =
    (if is_v4 e then Address_v4 (host_long (field 4 4 e))
     else Address_v6 (field 8 16 e) (ucast (word_of_bytes (field 24 4 e) :: 32 word)))"

definition set_endpoint_address :: "ip_address \<Rightarrow> endpoint \<Rightarrow> endpoint" where
  "set_endpoint_address addr e = endpoint_of addr (endpoint_port e)"

definition endpoint_size :: "endpoint \<Rightarrow> nat" where
  "endpoint_size e = (if is_v4 e then 16 else 28)"

definition endpoint_data :: "endpoint \<Rightarrow> socket_addr" where
  "endpoint_data e = take (endpoint_size e) e"

definition endpoint_equal :: "endpoint \<Rightarrow> endpoint \<Rightarrow> bool" where
  "endpoint_equal e1 e2 \<longleftrightarrow> endpoint_address e1 = endpoint_address e2 \<and> endpoint_port e1 = endpoint_port e2"

definition endpoint_less :: "endpoint \<Rightarrow> endpoint \<Rightarrow> bool" where
  "endpoint_less e1 e2 =
    (if endpoint_address e1 < endpoint_address e2 then True
     else if endpoint_address e1 \<noteq> endpoint_address e2 then False
     else endpoint_port e1 < endpoint_port e2)"

section \<open>What is put in is read back\<close>

text \<open>
  An address of the second family has sixteen bytes (an array). Its scope is an \<open>unsigned long\<close>, of which
  the structure holds 32 bits: what an endpoint keeps of an address.
\<close>

definition valid_address :: "ip_address \<Rightarrow> bool" where
  "valid_address addr = (case addr of Address_v4 _ \<Rightarrow> True | Address_v6 bytes scope \<Rightarrow> length bytes = 16)"

definition kept_address :: "ip_address \<Rightarrow> ip_address" where
  "kept_address addr =
    (case addr of Address_v4 a \<Rightarrow> Address_v4 a | Address_v6 bytes scope \<Rightarrow> Address_v6 bytes (take_bit 32 scope))"

lemma family_length [simp]:
  "length (family_bytes af) = 2"
  by (simp add: family_bytes_def)

lemma family_values: "family_bytes AF_INET = [2, 0]" "family_bytes AF_INET6 = [10, 0]" "network_long 0 = replicate 4 0"
  by code_simp+

lemma families_differ: "family_bytes AF_INET6 \<noteq> family_bytes AF_INET"
  by (simp add: family_values)

lemma field_here: "length a = p \<Longrightarrow> length b = n \<Longrightarrow> field p n (a @ b @ c) = b"
  by (simp add: field_def)

lemma endpoint_of_v4:
  "endpoint_of (Address_v4 a) p = family_bytes AF_INET @ network_short p @ network_long a @ replicate 20 0"
  by (simp add: endpoint_of_def memcpy_at_def endpoint_zero_def)

lemma endpoint_of_v6:
  "length bytes = 16 \<Longrightarrow> endpoint_of (Address_v6 bytes scope) p =
    family_bytes AF_INET6 @ network_short p @ bytes_of_word (0 :: 32 word) @ bytes @ bytes_of_word (ucast scope :: 32 word)"
  by (simp add: endpoint_of_def memcpy_at_def endpoint_zero_def)

lemma ucast_back: "(ucast (ucast (s :: 64 word) :: 32 word) :: 64 word) = take_bit 32 s"
  by (rule bit_word_eqI) (auto simp: bit_simps)

lemma endpoint_of_ok:
  assumes "valid_address addr"
  shows "endpoint_address (endpoint_of addr p) = kept_address addr" and "endpoint_port (endpoint_of addr p) = p"
    and "length (endpoint_of addr p) = 28"
proof -
  have "endpoint_address (endpoint_of addr p) = kept_address addr \<and> endpoint_port (endpoint_of addr p) = p \<and>
      length (endpoint_of addr p) = 28"
  proof (cases addr)
    case (Address_v4 a)
    let ?e = "endpoint_of addr p"
    have e: "?e = family_bytes AF_INET @ network_short p @ network_long a @ replicate 20 0"
      unfolding Address_v4 by (rule endpoint_of_v4)
    have "field 0 2 ?e = family_bytes AF_INET" "field 2 2 ?e = network_short p" "field 4 4 ?e = network_long a"
      unfolding e by (simp_all add: field_def)
    then show ?thesis
      using e Address_v4 by (simp add: endpoint_address_def endpoint_port_def is_v4_def kept_address_def)
  next
    case (Address_v6 bytes scope)
    let ?e = "endpoint_of addr p"
    have len: "length bytes = 16"
      using assms Address_v6 by (simp add: valid_address_def)
    have e: "?e = family_bytes AF_INET6 @ network_short p @ bytes_of_word (0 :: 32 word) @ bytes @ bytes_of_word (ucast scope :: 32 word)"
      unfolding Address_v6 by (rule endpoint_of_v6 [OF len])
    have "field 0 2 ?e = family_bytes AF_INET6" "field 2 2 ?e = network_short p" "field 8 16 ?e = bytes"
      "field 24 4 ?e = bytes_of_word (ucast scope :: 32 word)"
      unfolding e using len by (simp_all add: field_def)
    then show ?thesis
      using e len Address_v6 families_differ ucast_back [of scope]
      by (simp add: endpoint_address_def endpoint_port_def is_v4_def kept_address_def word_of_bytes_of_word)
  qed
  then show "endpoint_address (endpoint_of addr p) = kept_address addr" "endpoint_port (endpoint_of addr p) = p"
    "length (endpoint_of addr p) = 28"
    by simp_all
qed

lemma set_endpoint_port_ok:
  assumes "length e = 28"
  shows "endpoint_port (set_endpoint_port p e) = p" and "endpoint_address (set_endpoint_port p e) = endpoint_address e"
proof -
  let ?e = "set_endpoint_port p e"
  have e: "?e = take 2 e @ network_short p @ drop 4 e"
    by (simp add: set_endpoint_port_def memcpy_at_def)
  have f: "field 0 2 ?e = field 0 2 e" "field 2 2 ?e = network_short p" "field 4 4 ?e = field 4 4 e"
    "field 8 16 ?e = field 8 16 e" "field 24 4 ?e = field 24 4 e"
    unfolding e using assms by (simp_all add: field_def)
  then show "endpoint_port ?e = p" "endpoint_address ?e = endpoint_address e"
    by (simp_all add: endpoint_port_def endpoint_address_def is_v4_def)
qed

lemma endpoint_any_ok:
  "endpoint_any AF_INET p = endpoint_of (Address_v4 0) p"
  "endpoint_any AF_INET6 p = endpoint_of (Address_v6 (replicate 16 0) 0) p"
  by (simp_all add: endpoint_any_def endpoint_of_def AF_INET_def AF_INET6_def)

lemma endpoint_any_data:
  "endpoint_data (endpoint_any AF_INET p) = [2, 0] @ network_short p @ replicate 12 0"
proof -
  have "is_v4 (endpoint_any AF_INET p)"
    by (simp add: endpoint_any_def is_v4_def field_def memcpy_at_def)
  moreover have "replicate 4 0 @ replicate 8 (0 :: byte) = replicate 12 0" by (simp add: replicate_add [symmetric])
  ultimately show ?thesis
    by (simp add: endpoint_data_def endpoint_size_def endpoint_any_ok endpoint_of_v4 family_values)
qed

text \<open>A scope of more than 32 bits does not come back.\<close>

lemma scope_truncated:
  "endpoint_address (endpoint_of (Address_v6 (replicate 16 0) 0x100000001) p) = Address_v6 (replicate 16 0) 1"
proof -
  have "take_bit 32 (0x100000001 :: 64 word) = 1" by code_simp
  then show ?thesis by (simp add: endpoint_of_ok(1) valid_address_def kept_address_def)
qed

text \<open>Endpoints are ordered by address, then by port.\<close>

lemma endpoint_less_iff:
  "endpoint_less e1 e2 \<longleftrightarrow> endpoint_address e1 < endpoint_address e2 \<or>
    endpoint_address e1 = endpoint_address e2 \<and> endpoint_port e1 < endpoint_port e2"
  by (auto simp: endpoint_less_def)

lemma endpoint_order:
  "\<not> endpoint_less e e" "endpoint_less e1 e2 \<Longrightarrow> endpoint_less e2 e3 \<Longrightarrow> endpoint_less e1 e3"
  "endpoint_less e1 e2 \<or> endpoint_equal e1 e2 \<or> endpoint_less e2 e1"
  by (auto simp: endpoint_less_iff endpoint_equal_def)

end
