(* ===== verification/Asio_Connect.thy ===== *)
theory Asio_Connect
  imports Asio_Stream Asio_Endpoint
begin

text \<open>
  Opening and closing connections: asio's socket objects
  (\<open>asio/detail/impl/reactive_socket_service_base.ipp\<close>, \<open>asio/detail/reactive_socket_service.hpp\<close>), the
  acceptor (\<open>asio/basic_socket_acceptor.hpp\<close>), the trial of one endpoint after another
  (\<open>asio/impl/connect.hpp\<close>), and what \<open>ipc/transport.h\<close> makes of them: the \<open>init\<close> of either side and
  the destructor. The resolver is a parameter.
\<close>

section \<open>Socket objects\<close>

definition construct :: base_implementation where
  "construct = \<lparr> impl_socket = invalid_socket, impl_state = 0 \<rparr>"

definition is_open :: "base_implementation \<Rightarrow> bool" where
  "is_open impl \<longleftrightarrow> impl_socket impl \<noteq> invalid_socket"

text \<open>
  The reactor watches every open socket (\<open>asio/detail/impl/epoll_reactor.ipp\<close>): opening registers the
  descriptor, closing takes it out again, unless the close of the descriptor does that. An object with a
  socket always has the reactor's data, and no operations wait there, since the program makes
  synchronous calls only.
\<close>

definition register_descriptor :: "'n kernel \<Rightarrow> socket_type \<Rightarrow> 'n \<Rightarrow> int \<times> 'n" where
  "register_descriptor K descriptor n =
    (case K (Sys_epoll_ctl EPOLL_CTL_ADD descriptor (EPOLLIN OR EPOLLERR OR EPOLLHUP OR EPOLLPRI OR EPOLLET)) n of
       (r, n1) \<Rightarrow> (if ret r \<noteq> 0 then errno r else 0, n1))"

definition deregister_descriptor :: "'n kernel \<Rightarrow> socket_type \<Rightarrow> bool \<Rightarrow> 'n \<Rightarrow> 'n" where
  "deregister_descriptor K descriptor closing n =
    (if closing then n else snd (K (Sys_epoll_ctl EPOLL_CTL_DEL descriptor 0) n))"

definition destroy :: "'n kernel \<Rightarrow> base_implementation \<Rightarrow> 'n \<Rightarrow> 'n" where
  "destroy K impl n =
    (if impl_socket impl = invalid_socket then n
     else snd (so_close K (impl_socket impl) (impl_state impl) True
       (deregister_descriptor K (impl_socket impl) (\<not> has_flag (impl_state impl) possible_dup) n)))"

definition impl_close :: "'n kernel \<Rightarrow> base_implementation \<Rightarrow> 'n \<Rightarrow> (base_implementation \<times> error_code) \<times> 'n" where
  "impl_close K impl n =
    (let n1 = (if is_open impl
               then deregister_descriptor K (impl_socket impl) (\<not> has_flag (impl_state impl) possible_dup) n else n)
     in case so_close K (impl_socket impl) (impl_state impl) False n1 of ((_, ec), n2) \<Rightarrow> ((construct, ec), n2))"

definition state_of_type :: "int \<Rightarrow> state_type" where
  "state_of_type type = (if type = SOCK_STREAM then stream_oriented else if type = SOCK_DGRAM then datagram_oriented else 0)"

text \<open>The descriptor just opened is closed again when the reactor does not take it.\<close>

definition socket_holder_end :: "'n kernel \<Rightarrow> socket_type \<Rightarrow> 'n \<Rightarrow> 'n" where
  "socket_holder_end K s n = (if s \<noteq> invalid_socket then snd (so_close K s 0 True n) else n)"

definition do_open ::
    "'n kernel \<Rightarrow> base_implementation \<Rightarrow> int \<Rightarrow> int \<Rightarrow> int \<Rightarrow> 'n \<Rightarrow> (base_implementation \<times> error_code) \<times> 'n" where
  "do_open K impl af type protocol n =
    (if is_open impl then ((impl, already_open), n)
     else case so_socket K af type protocol n of ((s, ec), n1) \<Rightarrow>
     if s = invalid_socket then ((impl, ec), n1)
     else case register_descriptor K s n1 of (err, n2) \<Rightarrow>
     if err \<noteq> 0 then ((impl, system_error err), socket_holder_end K s n2)
     else ((\<lparr> impl_socket = s, impl_state = state_of_type type \<rparr>, no_error), n2))"

definition do_assign ::
    "'n kernel \<Rightarrow> base_implementation \<Rightarrow> int \<Rightarrow> socket_type \<Rightarrow> 'n \<Rightarrow> (base_implementation \<times> error_code) \<times> 'n" where
  "do_assign K impl type native_socket n =
    (if is_open impl then ((impl, already_open), n)
     else case register_descriptor K native_socket n of (err, n1) \<Rightarrow>
     if err \<noteq> 0 then ((impl, system_error err), n1)
     else ((\<lparr> impl_socket = native_socket, impl_state = state_of_type type OR possible_dup \<rparr>, no_error), n1))"

section \<open>The stream protocol\<close>

definition IPPROTO_TCP :: int where "IPPROTO_TCP = 6"

definition tcp_family :: "endpoint \<Rightarrow> int" where
  "tcp_family e = (if is_v4 e then AF_INET else AF_INET6)"

definition impl_open ::
    "'n kernel \<Rightarrow> base_implementation \<Rightarrow> int \<Rightarrow> 'n \<Rightarrow> (base_implementation \<times> error_code) \<times> 'n" where
  "impl_open K impl family = do_open K impl family SOCK_STREAM IPPROTO_TCP"

definition impl_bind :: "'n kernel \<Rightarrow> base_implementation \<Rightarrow> endpoint \<Rightarrow> 'n \<Rightarrow> error_code \<times> 'n" where
  "impl_bind K impl e n = (case so_bind K (impl_socket impl) (endpoint_data e) n of ((_, ec), n1) \<Rightarrow> (ec, n1))"

definition impl_listen :: "'n kernel \<Rightarrow> base_implementation \<Rightarrow> int \<Rightarrow> 'n \<Rightarrow> error_code \<times> 'n" where
  "impl_listen K impl backlog n = (case so_listen K (impl_socket impl) backlog n of ((_, ec), n1) \<Rightarrow> (ec, n1))"

definition impl_set_option ::
    "'n kernel \<Rightarrow> base_implementation \<Rightarrow> int \<Rightarrow> int \<Rightarrow> byte list \<Rightarrow> 'n \<Rightarrow> (base_implementation \<times> error_code) \<times> 'n" where
  "impl_set_option K impl level optname value n =
    (case so_setsockopt K (impl_socket impl) (impl_state impl) level optname value n of
       (((_, state), ec), n1) \<Rightarrow> ((impl\<lparr>impl_state := state\<rparr>, ec), n1))"

definition impl_connect :: "'n kernel \<Rightarrow> base_implementation \<Rightarrow> endpoint \<Rightarrow> 'n \<Rightarrow> error_code \<times> 'n" where
  "impl_connect K impl e = sync_connect K (impl_socket impl) (endpoint_data e)"

definition impl_shutdown :: "'n kernel \<Rightarrow> base_implementation \<Rightarrow> int \<Rightarrow> 'n \<Rightarrow> error_code \<times> 'n" where
  "impl_shutdown K impl what n = (case so_shutdown K (impl_socket impl) what n of ((_, ec), n1) \<Rightarrow> (ec, n1))"

text \<open>The new connection goes to the peer's object; if that does not take it, it is closed.\<close>

definition impl_accept ::
    "'n kernel \<Rightarrow> base_implementation \<Rightarrow> base_implementation \<Rightarrow> 'n \<Rightarrow> ((base_implementation \<times> error_code) \<times> 'n) option" where
  "impl_accept K impl peer n =
    (if is_open peer then Some ((peer, already_open), n)
     else Option.bind (sync_accept K (impl_socket impl) (impl_state impl) n) (\<lambda>(((new_socket, _), ec), n1).
       if new_socket = invalid_socket then Some ((peer, ec), n1)
       else case do_assign K peer SOCK_STREAM new_socket n1 of ((peer1, ec1), n2) \<Rightarrow>
         if failed ec1 then Some ((peer1, ec1), socket_holder_end K new_socket n2)
         else Some ((peer1, ec1), n2)))"

section \<open>The acceptor\<close>

text \<open>The steps of the constructor; the first error is thrown, and the object destroyed.\<close>

definition acceptor_setup ::
    "'n kernel \<Rightarrow> endpoint \<Rightarrow> int \<Rightarrow> 'n \<Rightarrow> (base_implementation \<times> error_code) \<times> 'n" where
  "acceptor_setup K e max_connections n =
    (case impl_open K construct (tcp_family e) n of ((impl, ec), n1) \<Rightarrow>
     if failed ec then ((impl, ec), n1)
     else case impl_set_option K impl SOL_SOCKET SO_REUSEADDR (int_bytes 1) n1 of ((impl1, ec1), n2) \<Rightarrow>
     if failed ec1 then ((impl1, ec1), n2)
     else case impl_bind K impl1 e n2 of (ec2, n3) \<Rightarrow>
     if failed ec2 then ((impl1, ec2), n3)
     else case impl_listen K impl1 max_connections n3 of (ec3, n4) \<Rightarrow> ((impl1, ec3), n4))"

definition acceptor_new ::
    "'n kernel \<Rightarrow> endpoint \<Rightarrow> int \<Rightarrow> 'n \<Rightarrow> base_implementation outcome \<times> 'n" where
  "acceptor_new K e max_connections n =
    (case acceptor_setup K e max_connections n of ((impl, ec), n1) \<Rightarrow>
     if failed ec then (Inl (Throw Std_Exception), destroy K impl n1) else (Inr impl, n1))"

section \<open>Connecting to one of several endpoints\<close>

definition socket_connect ::
    "'n kernel \<Rightarrow> base_implementation \<Rightarrow> endpoint \<Rightarrow> 'n \<Rightarrow> (base_implementation \<times> error_code) \<times> 'n" where
  "socket_connect K impl e n =
    (case (if is_open impl then ((impl, no_error), n) else impl_open K impl (tcp_family e) n) of ((impl1, ec), n1) \<Rightarrow>
     if failed ec then ((impl1, ec), n1)
     else case impl_connect K impl1 e n1 of (ec1, n2) \<Rightarrow> ((impl1, ec1), n2))"

fun connect_range ::
    "'n kernel \<Rightarrow> base_implementation \<Rightarrow> endpoint list \<Rightarrow> error_code \<Rightarrow> 'n \<Rightarrow> (base_implementation \<times> error_code) \<times> 'n" where
  "connect_range K impl [] ec n = ((impl, if failed ec then ec else not_found), n)"
| "connect_range K impl (e # es) ec n =
    (case impl_close K impl n of ((impl1, _), n1) \<Rightarrow>
     case socket_connect K impl1 e n1 of ((impl2, ec2), n2) \<Rightarrow>
     if \<not> failed ec2 then ((impl2, ec2), n2) else connect_range K impl2 es ec2 n2)"

section \<open>The transport\<close>

text \<open>\<open>resolver.resolve\<close> gives the endpoints of a host and a port, or throws.\<close>

type_synonym 'n asio_resolve = "string \<Rightarrow> string \<Rightarrow> 'n \<Rightarrow> endpoint list outcome \<times> 'n"

definition client_init ::
    "'n kernel \<Rightarrow> 'n asio_resolve \<Rightarrow> string \<Rightarrow> string \<Rightarrow> base_implementation \<Rightarrow> 'n \<Rightarrow>
      unit outcome \<times> base_implementation \<times> 'n" where
  "client_init K resolve host port sock n =
    (case resolve host port n of
       (Inl e, n1) \<Rightarrow> (Inl e, sock, n1)
     | (Inr endpoints, n1) \<Rightarrow>
         case connect_range K sock endpoints no_error n1 of ((sock1, ec), n2) \<Rightarrow>
           (if failed ec then Inl (Throw Std_Exception) else Inr (), sock1, n2))"

definition server_init ::
    "'n kernel \<Rightarrow> int \<Rightarrow> 16 word \<Rightarrow> base_implementation \<Rightarrow> 'n \<Rightarrow> (unit outcome \<times> base_implementation \<times> 'n) option" where
  "server_init K max_connections port sock n =
    (case acceptor_new K (endpoint_any AF_INET port) max_connections n of
       (Inl e, n1) \<Rightarrow> Some (Inl e, sock, n1)
     | (Inr acceptor, n1) \<Rightarrow>
         Option.bind (impl_accept K acceptor sock n1) (\<lambda>((sock1, ec), n2).
           Some (if failed ec then Inl (Throw Std_Exception) else Inr (), sock1, destroy K acceptor n2)))"

definition SHUT_RDWR :: int where "SHUT_RDWR = 2"

definition transport_end :: "'n kernel \<Rightarrow> base_implementation \<Rightarrow> 'n \<Rightarrow> 'n" where
  "transport_end K sock n =
    (case impl_shutdown K sock SHUT_RDWR n of (ec, n1) \<Rightarrow>
     case impl_close K sock n1 of ((sock1, ec1), n2) \<Rightarrow> destroy K sock1 n2)"

section \<open>Starting an operation on the reactor\<close>

text \<open>
  What the reactor is asked to do: to start an operation, with its two flags, or to post one that is
  complete, with its error code.
\<close>

datatype reactor_op = Read_op | Write_op | Connect_op

datatype reactor_call =
    Start_op reactor_op socket_type bool bool
  | Post_immediate_completion error_code bool

definition start_op ::
    "'n kernel \<Rightarrow> base_implementation \<Rightarrow> reactor_op \<Rightarrow> error_code \<Rightarrow> bool \<Rightarrow> bool \<Rightarrow> bool \<Rightarrow> 'n \<Rightarrow>
      (base_implementation \<times> reactor_call) \<times> 'n" where
  "start_op K impl op_type op_ec is_continuation is_non_blocking noop n =
    (if noop then ((impl, Post_immediate_completion op_ec is_continuation), n)
     else if has_flag (impl_state impl) non_blocking then
       ((impl, Start_op op_type (impl_socket impl) is_continuation is_non_blocking), n)
     else case set_internal_non_blocking K (impl_socket impl) (impl_state impl) True n of (((ok, state), ec), n1) \<Rightarrow>
       if ok then ((impl\<lparr>impl_state := state\<rparr>, Start_op op_type (impl_socket impl) is_continuation is_non_blocking), n1)
       else ((impl, Post_immediate_completion ec is_continuation), n1))"

text \<open>The two flags are passed in the other order.\<close>

definition start_accept_op ::
    "'n kernel \<Rightarrow> base_implementation \<Rightarrow> error_code \<Rightarrow> bool \<Rightarrow> bool \<Rightarrow> 'n \<Rightarrow> (base_implementation \<times> reactor_call) \<times> 'n" where
  "start_accept_op K impl op_ec is_continuation peer_is_open n =
    (if \<not> peer_is_open then start_op K impl Read_op op_ec True is_continuation False n
     else ((impl, Post_immediate_completion already_open is_continuation), n))"

definition start_connect_op ::
    "'n kernel \<Rightarrow> base_implementation \<Rightarrow> error_code \<Rightarrow> bool \<Rightarrow> socket_addr \<Rightarrow> 'n \<Rightarrow>
      (base_implementation \<times> reactor_call) \<times> 'n" where
  "start_connect_op K impl op_ec is_continuation addr n =
    (case (if has_flag (impl_state impl) non_blocking then (((True, impl_state impl), op_ec), n)
           else set_internal_non_blocking K (impl_socket impl) (impl_state impl) True n) of (((ok, state), ec), n1) \<Rightarrow>
     let impl1 = impl\<lparr>impl_state := state\<rparr> in
     if \<not> ok then ((impl1, Post_immediate_completion ec is_continuation), n1)
     else case so_connect K (impl_socket impl) addr n1 of ((result, ec1), n2) \<Rightarrow>
       if result \<noteq> 0 \<and> (ec1 = in_progress \<or> ec1 = would_block)
       then ((impl1, Start_op Connect_op (impl_socket impl) is_continuation False), n2)
       else ((impl1, Post_immediate_completion ec1 is_continuation), n2))"

text \<open>An accept that starts a new chain of handlers asks the reactor for a blocking attempt.\<close>

lemma accept_flags_swapped:
  assumes "set_internal_non_blocking K (impl_socket impl) (impl_state impl) True n = (((True, state), ec), n1)"
    and "\<not> has_flag (impl_state impl) non_blocking"
  shows "start_accept_op K impl op_ec False False n =
    ((impl\<lparr>impl_state := state\<rparr>, Start_op Read_op (impl_socket impl) True False), n1)"
  using assms by (simp add: start_accept_op_def start_op_def)

end
