(* ===== verification/Asio_Sessions.thy ===== *)
theory Asio_Sessions
  imports Asio_Connect
begin

text \<open>
  The life of a connection's descriptors. The kernel is watched: the set of the descriptors that a call
  of \<open>socket\<close> or \<open>accept\<close> handed out and no \<open>close\<close> took back goes along with its state. On every
  path through \<open>init\<close>, exceptions included, nothing stays open but the socket of the transport, and that
  goes with the transport.
\<close>

section \<open>Watching the kernel\<close>

definition track :: "syscall \<Rightarrow> sysret \<Rightarrow> socket_type set \<Rightarrow> socket_type set" where
  "track c r fds =
    (case c of
       Sys_socket _ _ _ \<Rightarrow> (if ret r = invalid_socket then fds else insert (ret r) fds)
     | Sys_accept _ \<Rightarrow> (if ret r = invalid_socket then fds else insert (ret r) fds)
     | Sys_close s \<Rightarrow> fds - {s}
     | _ \<Rightarrow> fds)"

definition watched :: "'n kernel \<Rightarrow> (socket_type set \<times> 'n) kernel" where
  "watched K c w = (case w of (fds, n) \<Rightarrow> case K c n of (r, n1) \<Rightarrow> (r, (track c r fds, n1)))"

lemma watched_fds: "watched K c w = (r, w1) \<Longrightarrow> fst w1 = track c r (fst w)"
  by (cases w) (auto simp: watched_def split: prod.splits)

named_theorems fds_kept

lemma watched_track [simp]: "fst (snd (watched K c w)) = track c (fst (watched K c w)) (fst w)"
  by (cases "watched K c w") (auto dest: watched_fds)

lemma register_fds [fds_kept]: "fst (snd (register_descriptor (watched K) s w)) = fst w"
  by (auto simp: register_descriptor_def track_def dest: watched_fds split: prod.splits)

lemma deregister_fds [fds_kept]: "fst (deregister_descriptor (watched K) s closing w) = fst w"
  by (simp add: deregister_descriptor_def track_def)

lemma so_setsockopt_fds [fds_kept]: "fst (snd (so_setsockopt (watched K) s st level name v w)) = fst w"
  by (auto simp: so_setsockopt_def setsockopt_call_def Let_def track_def dest: watched_fds split: prod.splits)

lemma so_bind_fds [fds_kept]: "fst (snd (so_bind (watched K) s a w)) = fst w"
  by (auto simp: so_bind_def track_def dest: watched_fds split: prod.splits)

lemma so_listen_fds [fds_kept]: "fst (snd (so_listen (watched K) s b w)) = fst w"
  by (auto simp: so_listen_def track_def dest: watched_fds split: prod.splits)

lemma so_shutdown_fds [fds_kept]: "fst (snd (so_shutdown (watched K) s b w)) = fst w"
  by (auto simp: so_shutdown_def track_def dest: watched_fds split: prod.splits)

lemma so_poll_fds [fds_kept]: "fst (snd (so_poll (watched K) ev s st w)) = fst w"
  by (auto simp: so_poll_def track_def dest: watched_fds split: prod.splits)

lemma poll_connect_fds [fds_kept]: "fst (snd (poll_connect (watched K) s w)) = fst w"
  by (auto simp: poll_connect_def track_def dest: watched_fds split: prod.splits)

lemma so_connect_fds [fds_kept]: "fst (snd (so_connect (watched K) s a w)) = fst w"
  by (auto simp: so_connect_def track_def dest: watched_fds split: prod.splits)

lemma so_getsockopt_fds [fds_kept]: "fst (snd (so_getsockopt (watched K) s st level name v w)) = fst w"
  by (auto simp: so_getsockopt_def getsockopt_call_def call_getsockopt_def Let_def track_def dest: watched_fds
      split: prod.splits)

lemma sync_connect_fds [fds_kept]: "fst (snd (sync_connect (watched K) s a w)) = fst w"
proof -
  obtain result ec w1 where 1: "so_connect (watched K) s a w = ((result, ec), w1)" by (metis prod.exhaust)
  obtain ready ec1 w2 where 2: "poll_connect (watched K) s w1 = ((ready, ec1), w2)" by (metis prod.exhaust)
  obtain got v ec2 w3 where 3: "so_getsockopt (watched K) s 0 SOL_SOCKET SO_ERROR (int_bytes 0) w2 = (((got, v), ec2), w3)"
    by (metis prod.exhaust)
  have "fst w1 = fst w" "fst w2 = fst w1" "fst w3 = fst w2"
    using 1 2 3 so_connect_fds [of K s a w] poll_connect_fds [of K s w1]
      so_getsockopt_fds [of K s 0 SOL_SOCKET SO_ERROR "int_bytes 0" w2]
    by simp_all
  then show ?thesis by (simp add: sync_connect_def 1 2 3)
qed

lemma so_close_fds:
  assumes "s \<noteq> invalid_socket"
  shows "fst (snd (so_close (watched K) s st d w)) = fst w - {s}"
proof -
  obtain st1 w1 where 1: "(if d \<and> has_flag st user_set_linger
          then case so_setsockopt (watched K) s st SOL_SOCKET SO_LINGER (int_bytes 0 @ int_bytes 0) w of
                 (((result, state1), ignored_ec), n1) \<Rightarrow> (state1, n1)
          else (st, w)) = (st1, w1)" by (metis prod.exhaust)
  have w1: "fst w1 = fst w"
    using 1 so_setsockopt_fds [of K s st SOL_SOCKET SO_LINGER "int_bytes 0 @ int_bytes 0" w]
    by (auto split: if_splits prod.splits)
  obtain r w2 where 2: "watched K (Sys_close s) w1 = (r, w2)" by (metis prod.exhaust)
  obtain r' w3 where 3: "watched K (Sys_ioctl s FIONBIO 0) w2 = (r', w3)" by (metis prod.exhaust)
  obtain r1 w4 where 4: "watched K (Sys_close s) w3 = (r1, w4)" by (metis prod.exhaust)
  have "fst w2 = fst w - {s}" "fst w3 = fst w2" "fst w4 = fst w3 - {s}"
    using watched_fds [OF 2] watched_fds [OF 3] watched_fds [OF 4] w1 by (simp_all add: track_def)
  then show ?thesis using assms by (simp add: so_close_def 1 2 3 4)
qed

section \<open>Objects\<close>

text \<open>What is open besides \<open>fds\<close>: the object's socket, when it has one.\<close>

definition held :: "base_implementation \<Rightarrow> socket_type set" where
  "held impl = (if is_open impl then {impl_socket impl} else {})"

lemma held_construct [simp]: "held construct = {}"
  by (simp add: held_def is_open_def construct_def)

lemma destroy_fds: "fst (destroy (watched K) impl w) = fst w - held impl"
  by (simp add: destroy_def held_def is_open_def so_close_fds deregister_fds)

lemma impl_close_fds: "impl_close (watched K) impl w = ((impl1, ec), w1) \<Longrightarrow> impl1 = construct \<and> fst w1 = fst w - held impl"
proof -
  assume a: "impl_close (watched K) impl w = ((impl1, ec), w1)"
  let ?w = "if is_open impl
     then deregister_descriptor (watched K) (impl_socket impl) (\<not> has_flag (impl_state impl) possible_dup) w else w"
  have w: "fst ?w = fst w" by (simp add: deregister_fds)
  have "impl1 = construct \<and> w1 = snd (so_close (watched K) (impl_socket impl) (impl_state impl) False ?w)"
    using a by (auto simp: impl_close_def Let_def split: prod.splits)
  moreover have "fst (snd (so_close (watched K) (impl_socket impl) (impl_state impl) False ?w)) = fst ?w - held impl"
  proof (cases "is_open impl")
    case True
    then show ?thesis using so_close_fds [of "impl_socket impl" K "impl_state impl" False ?w] by (simp add: held_def is_open_def)
  next
    case False
    then show ?thesis by (simp add: held_def is_open_def so_close_def)
  qed
  ultimately show ?thesis using w by simp
qed

lemma stream_bits:
  "has_flag stream_oriented stream_oriented" "has_flag (stream_oriented OR possible_dup) stream_oriented"
  "\<not> has_flag stream_oriented user_set_non_blocking" "\<not> has_flag (stream_oriented OR possible_dup) user_set_non_blocking"
  by (simp_all add: state_flag_defs)

lemma impl_open_fds:
  assumes "impl_open (watched K) construct family w = ((impl, ec), w1)"
  shows "fst w1 \<subseteq> fst w \<union> held impl" and "\<not> failed ec \<Longrightarrow> blocking_stream impl \<or> impl = construct"
    and "failed ec \<Longrightarrow> impl = construct"
proof -
  obtain s e w2 where 1: "so_socket (watched K) family SOCK_STREAM IPPROTO_TCP w = ((s, e), w2)" by (metis prod.exhaust)
  obtain err w3 where 2: "register_descriptor (watched K) s w2 = (err, w3)" by (metis prod.exhaust)
  obtain r0 w0 where 0: "watched K (Sys_socket family SOCK_STREAM IPPROTO_TCP) w = (r0, w0)" by (metis prod.exhaust)
  have w2: "fst w2 \<subseteq> fst w \<union> {s}" "s = invalid_socket \<longrightarrow> fst w2 = fst w"
    using 1 watched_fds [OF 0] by (auto simp: so_socket_def 0 track_def)
  have w3: "fst w3 = fst w2" using register_fds [of K s w2] by (simp add: 2)
  have closed: "\<not> is_open construct" by (simp add: is_open_def construct_def)
  show "fst w1 \<subseteq> fst w \<union> held impl" "\<not> failed ec \<Longrightarrow> blocking_stream impl \<or> impl = construct"
    "failed ec \<Longrightarrow> impl = construct"
    using assms 1 2 w2 w3 closed stream_bits
    by (auto simp: impl_open_def do_open_def socket_holder_end_def so_close_fds held_def is_open_def state_of_type_def
        blocking_stream_def failed_def no_error_def system_error_def split: if_splits)
qed

section \<open>The acceptor\<close>

text \<open>A call that fails says why.\<close>

definition errno_set :: "'n kernel \<Rightarrow> bool" where
  "errno_set K \<longleftrightarrow> (\<forall>c n. ret (fst (K c n)) < 0 \<longrightarrow> errno (fst (K c n)) \<noteq> 0)"

lemma errno_watched: "errno_set K \<Longrightarrow> errno_set (watched K)"
  by (simp add: errno_set_def watched_def split: prod.splits) (metis fst_conv)

lemma failed_wrapper: "failed (error_wrapper r) \<longleftrightarrow> errno r \<noteq> 0"
  by (simp add: failed_def error_wrapper_def system_error_def)

lemma failed_system: "failed (system_error e) \<longleftrightarrow> e \<noteq> 0"
  by (simp add: failed_def system_error_def)

lemma ok_not_failed [simp]: "\<not> failed no_error" "failed bad_descriptor" "failed already_open" "failed not_found"
  "failed would_block"
  by (simp_all add: error_code_defs)

lemma impl_set_option_fds:
  "impl_set_option (watched K) impl level name v w = ((impl1, ec), w1) \<Longrightarrow>
    fst w1 = fst w \<and> impl_socket impl1 = impl_socket impl"
  using so_setsockopt_fds [of K "impl_socket impl" "impl_state impl" level name v w]
  by (auto simp: impl_set_option_def split: prod.splits)

lemma impl_bind_fds: "impl_bind (watched K) impl e w = (ec, w1) \<Longrightarrow> fst w1 = fst w"
  using so_bind_fds [of K "impl_socket impl" "endpoint_data e" w] by (auto simp: impl_bind_def split: prod.splits)

lemma impl_listen_fds: "impl_listen (watched K) impl b w = (ec, w1) \<Longrightarrow> fst w1 = fst w"
  using so_listen_fds [of K "impl_socket impl" b w] by (auto simp: impl_listen_def split: prod.splits)

lemma acceptor_setup_fds:
  assumes "acceptor_setup (watched K) e mc w = ((impl, ec), w1)"
  shows "fst w1 \<subseteq> fst w \<union> held impl"
proof -
  obtain i0 e0 w0 where 0: "impl_open (watched K) construct (tcp_family e) w = ((i0, e0), w0)" by (metis prod.exhaust)
  obtain i1 e1 w1' where 1: "impl_set_option (watched K) i0 SOL_SOCKET SO_REUSEADDR (int_bytes 1) w0 = ((i1, e1), w1')"
    by (metis prod.exhaust)
  obtain e2 w2 where 2: "impl_bind (watched K) i1 e w1' = (e2, w2)" by (metis prod.exhaust)
  obtain e3 w3 where 3: "impl_listen (watched K) i1 mc w2 = (e3, w3)" by (metis prod.exhaust)
  have "fst w0 \<subseteq> fst w \<union> held i0" by (rule impl_open_fds(1) [OF 0])
  moreover have "held i1 = held i0" using impl_set_option_fds [OF 1] by (simp add: held_def is_open_def)
  ultimately show ?thesis
    using assms impl_set_option_fds [OF 1] impl_bind_fds [OF 2] impl_listen_fds [OF 3]
    by (auto simp: acceptor_setup_def 0 1 2 3 split: if_splits)
qed

lemma acceptor_new_fds:
  assumes "acceptor_new (watched K) e mc w = (r, w1)"
  shows "fst w1 \<subseteq> fst w \<union> (case r of Inl _ \<Rightarrow> {} | Inr impl \<Rightarrow> held impl)"
proof -
  obtain impl ec w0 where 0: "acceptor_setup (watched K) e mc w = ((impl, ec), w0)" by (metis prod.exhaust)
  show ?thesis
    using assms acceptor_setup_fds [OF 0] destroy_fds [of K impl w0] by (auto simp: acceptor_new_def 0 split: if_splits)
qed

lemma so_accept_fds:
  assumes "errno_set K" and "so_accept (watched K) s w = (((new, a), ec), w1)"
  shows "fst w1 \<subseteq> fst w \<union> {x. x = new \<and> new \<noteq> invalid_socket} \<and> (failed ec \<longleftrightarrow> new = invalid_socket)"
proof -
  obtain r w0 where 0: "watched K (Sys_accept s) w = (r, w0)" by (metis prod.exhaust)
  have "ret r < 0 \<longrightarrow> errno r \<noteq> 0" using errno_watched [OF assms(1)] 0 unfolding errno_set_def by (metis fst_conv)
  then show ?thesis
    using assms(2) watched_fds [OF 0]
    by (auto simp: so_accept_def 0 track_def failed_wrapper invalid_socket_def split: if_splits)
qed

lemma so_poll_negative:
  assumes "errno_set K" and "so_poll (watched K) ev s st w = ((ready, ec), w1)" and "ready < 0"
  shows "failed ec"
proof -
  obtain r w0 where 0: "watched K (Sys_poll s ev (if has_flag st user_set_non_blocking then 0 else -1)) w = (r, w0)"
    by (metis prod.exhaust)
  have "ret r < 0 \<longrightarrow> errno r \<noteq> 0" using errno_watched [OF assms(1)] 0 unfolding errno_set_def by (metis fst_conv)
  then show ?thesis using assms(2,3) by (auto simp: so_poll_def 0 failed_wrapper split: if_splits)
qed

definition accept_good :: "(socket_type set \<times> 'n) \<Rightarrow> ((socket_type \<times> socket_addr) \<times> error_code) \<times> (socket_type set \<times> 'n) \<Rightarrow> bool" where
  "accept_good w y \<longleftrightarrow> (case y of (((new, a), ec), w1) \<Rightarrow>
    fst w1 \<subseteq> fst w \<union> {x. x = new \<and> new \<noteq> invalid_socket} \<and> (failed ec \<longleftrightarrow> new = invalid_socket))"

lemma sync_accept_fds:
  assumes K: "errno_set K" and "sync_accept (watched K) s st w = Some y"
  shows "accept_good w y"
proof -
  have "K' = watched K \<longrightarrow> accept_good w y" if "sync_accept K' s st w = Some y" for K' s st w y
  proof (rule sync_accept.raw_induct [OF _ that, where P = "\<lambda>K' s st w y. K' = watched K \<longrightarrow> accept_good w y"], intro impI)
    fix rec :: "(socket_type set \<times> 'a) kernel \<Rightarrow> socket_type \<Rightarrow> state_type \<Rightarrow> socket_type set \<times> 'a \<Rightarrow>
        (((socket_type \<times> socket_addr) \<times> error_code) \<times> (socket_type set \<times> 'a)) option"
      and K' s st w y
    assume rec: "\<And>K' s st w y. rec K' s st w = Some y \<Longrightarrow> K' = watched K \<longrightarrow> accept_good w y" and K': "K' = watched K"
      and body: "(case so_accept K' s w of (((new_socket, addr), ec), n1) \<Rightarrow>
        if new_socket \<noteq> invalid_socket then Some (((new_socket, addr), ec), n1)
        else if \<not> accept_retries st ec then Some (((invalid_socket, addr), ec), n1)
        else case poll_read K' s 0 n1 of ((ready, ec1), n2) \<Rightarrow>
          if ready < 0 then Some (((invalid_socket, addr), ec1), n2) else rec K' s st n2) = Some y"
    obtain new a ec w1 where 2: "so_accept (watched K) s w = (((new, a), ec), w1)" by (metis prod.exhaust)
    obtain ready ec1 w2 where 3: "poll_read (watched K) s 0 w1 = ((ready, ec1), w2)" by (metis prod.exhaust)
    note good = so_accept_fds [OF K 2]
    have w2: "fst w2 = fst w1" using so_poll_fds [of K Poll_In s 0 w1] 3 by (simp add: poll_read_def)
    show "accept_good w y"
    proof (cases "new \<noteq> invalid_socket \<or> \<not> accept_retries st ec")
      case True
      then show ?thesis using body good by (auto simp: K' 2 accept_good_def split: if_splits)
    next
      case again: False
      show ?thesis
      proof (cases "ready < 0")
        case True
        then have "failed ec1" using so_poll_negative [OF K, of Poll_In s 0 w1 ready ec1 w2] 3 by (simp add: poll_read_def)
        then show ?thesis using body again True good w2 by (auto simp: K' 2 3 accept_good_def)
      next
        case False
        then have "rec K' s st w2 = Some y" using body again by (simp add: K' 2 3)
        from rec [OF this] K' show ?thesis
          using again good w2 by (auto simp: accept_good_def)
      qed
    qed
  qed
  then show ?thesis using assms(2) by blast
qed

lemma impl_accept_fds:
  assumes K: "errno_set K" and "impl_accept (watched K) impl construct w = Some ((peer, ec), w1)"
  shows "fst w1 \<subseteq> fst w \<union> held peer" and "failed ec \<Longrightarrow> peer = construct" and "\<not> failed ec \<Longrightarrow> blocking_stream peer"
proof -
  have closed: "\<not> is_open construct" by (simp add: is_open_def construct_def)
  obtain new a ec0 w0 where 0: "sync_accept (watched K) (impl_socket impl) (impl_state impl) w = Some (((new, a), ec0), w0)"
    using assms(2) closed by (cases "sync_accept (watched K) (impl_socket impl) (impl_state impl) w") (auto simp: impl_accept_def)
  have good: "fst w0 \<subseteq> fst w \<union> {x. x = new \<and> new \<noteq> invalid_socket}" "failed ec0 \<longleftrightarrow> new = invalid_socket"
    using sync_accept_fds [OF K 0] by (simp_all add: accept_good_def)
  obtain err w2 where 2: "register_descriptor (watched K) new w0 = (err, w2)" by (metis prod.exhaust)
  have w2: "fst w2 = fst w0" using register_fds [of K new w0] by (simp add: 2)
  have "fst w1 \<subseteq> fst w \<union> held peer \<and> (failed ec \<longrightarrow> peer = construct) \<and> (\<not> failed ec \<longrightarrow> blocking_stream peer)"
  proof (cases "new = invalid_socket")
    case True
    then show ?thesis using assms(2) good closed by (auto simp: impl_accept_def 0)
  next
    case new: False
    show ?thesis
    proof (cases "err = 0")
      case True
      then have "peer = \<lparr> impl_socket = new, impl_state = stream_oriented OR possible_dup \<rparr> \<and> ec = no_error \<and> w1 = w2"
        using assms(2) new closed by (simp add: impl_accept_def 0 do_assign_def 2 state_of_type_def)
      then show ?thesis
        using good w2 new stream_bits by (auto simp: held_def is_open_def blocking_stream_def)
    next
      case False
      then have "peer = construct \<and> failed ec \<and> w1 = snd (so_close (watched K) new 0 True w2)"
        using assms(2) new closed by (auto simp: impl_accept_def 0 do_assign_def 2 socket_holder_end_def failed_system)
      then show ?thesis using so_close_fds [OF new, of K 0 True w2] good w2 by auto
    qed
  qed
  then show "fst w1 \<subseteq> fst w \<union> held peer" "failed ec \<Longrightarrow> peer = construct" "\<not> failed ec \<Longrightarrow> blocking_stream peer"
    by simp_all
qed

section \<open>The server\<close>

lemma server_init_ok:
  assumes K: "errno_set K" and "server_init (watched K) mc port construct w = Some (r, sock, w1)"
  shows "fst w1 \<subseteq> fst w \<union> held sock" and "r = Inr () \<Longrightarrow> blocking_stream sock" and "r \<noteq> Inr () \<Longrightarrow> sock = construct"
proof -
  obtain r0 w0 where 0: "acceptor_new (watched K) (endpoint_any AF_INET port) mc w = (r0, w0)" by (metis prod.exhaust)
  have "fst w1 \<subseteq> fst w \<union> held sock \<and> (r = Inr () \<longrightarrow> blocking_stream sock) \<and> (r \<noteq> Inr () \<longrightarrow> sock = construct)"
  proof (cases r0)
    case (Inl e)
    then show ?thesis using assms(2) acceptor_new_fds [OF 0] by (auto simp: server_init_def 0)
  next
    case (Inr acceptor)
    obtain ec w2 where 2: "impl_accept (watched K) acceptor construct w0 = Some ((sock, ec), w2)"
        "r = (if failed ec then Inl (Throw Std_Exception) else Inr ())" "w1 = destroy (watched K) acceptor w2"
      using assms(2) Inr by (cases "impl_accept (watched K) acceptor construct w0") (auto simp: server_init_def 0)
    have "fst w1 = fst w2 - held acceptor" using destroy_fds [of K acceptor w2] 2(3) by simp
    then show ?thesis
      using acceptor_new_fds [OF 0] Inr impl_accept_fds [OF K 2(1)] 2(2) by (auto split: if_splits)
  qed
  then show "fst w1 \<subseteq> fst w \<union> held sock" "r = Inr () \<Longrightarrow> blocking_stream sock" "r \<noteq> Inr () \<Longrightarrow> sock = construct"
    by simp_all
qed

section \<open>The client\<close>

lemma impl_open_socket:
  assumes "errno_set K" and "impl_open (watched K) construct family w = ((impl, ec), w1)" and "\<not> failed ec"
  shows "blocking_stream impl"
proof -
  obtain r w0 where 0: "watched K (Sys_socket family SOCK_STREAM IPPROTO_TCP) w = (r, w0)" by (metis prod.exhaust)
  have neg: "ret r < 0 \<longrightarrow> errno r \<noteq> 0" using errno_watched [OF assms(1)] 0 unfolding errno_set_def by (metis fst_conv)
  obtain err w2 where 2: "register_descriptor (watched K) (ret r) w0 = (err, w2)" by (metis prod.exhaust)
  have closed: "\<not> is_open construct" by (simp add: is_open_def construct_def)
  show ?thesis
    using assms(2,3) neg stream_bits
    by (auto simp: impl_open_def do_open_def closed so_socket_def 0 2 nonneg_ok_def failed_wrapper invalid_socket_def
        blocking_stream_def state_of_type_def failed_system split: if_splits)
qed

lemma impl_connect_fds: "impl_connect (watched K) impl e w = (ec, w1) \<Longrightarrow> fst w1 = fst w"
  using sync_connect_fds [of K "impl_socket impl" "endpoint_data e" w] by (simp add: impl_connect_def)

lemma socket_connect_fds:
  assumes K: "errno_set K" and "socket_connect (watched K) construct e w = ((impl, ec), w1)"
  shows "fst w1 \<subseteq> fst w \<union> held impl" and "\<not> failed ec \<Longrightarrow> blocking_stream impl"
proof -
  have closed: "\<not> is_open construct" by (simp add: is_open_def construct_def)
  obtain i0 e0 w0 where 0: "impl_open (watched K) construct (tcp_family e) w = ((i0, e0), w0)" by (metis prod.exhaust)
  obtain e1 w2 where 1: "impl_connect (watched K) i0 e w0 = (e1, w2)" by (metis prod.exhaust)
  show "fst w1 \<subseteq> fst w \<union> held impl" "\<not> failed ec \<Longrightarrow> blocking_stream impl"
    using assms(2) closed impl_open_fds(1) [OF 0] impl_open_socket [OF K 0] impl_connect_fds [OF 1]
    by (auto simp: socket_connect_def 0 1 split: if_splits)
qed

lemma connect_range_fds:
  assumes K: "errno_set K"
  shows "connect_range (watched K) impl es ec w = ((impl1, ec1), w1) \<Longrightarrow> fst w \<subseteq> fds \<union> held impl \<Longrightarrow>
    fst w1 \<subseteq> fds \<union> held impl1 \<and> (\<not> failed ec1 \<longrightarrow> blocking_stream impl1)"
proof (induction es arbitrary: impl ec w)
  case Nil
  then show ?case by (cases "failed ec") auto
next
  case (Cons e es)
  obtain i0 e0 w0 where 0: "impl_close (watched K) impl w = ((i0, e0), w0)" by (metis prod.exhaust)
  have closed: "i0 = construct" "fst w0 \<subseteq> fds" using impl_close_fds [OF 0] Cons.prems(2) by auto
  obtain i2 e2 w2 where 2: "socket_connect (watched K) construct e w0 = ((i2, e2), w2)" by (metis prod.exhaust)
  have w2: "fst w2 \<subseteq> fds \<union> held i2" using socket_connect_fds(1) [OF K 2] closed(2) by auto
  show ?case
  proof (cases "failed e2")
    case True
    then have "connect_range (watched K) i2 es e2 w2 = ((impl1, ec1), w1)"
      using Cons.prems(1) by (simp add: 0 closed(1) 2)
    from Cons.IH [OF this w2] show ?thesis .
  next
    case False
    then show ?thesis using Cons.prems(1) w2 socket_connect_fds(2) [OF K 2] by (auto simp: 0 closed(1) 2)
  qed
qed

text \<open>The resolver opens nothing that stays.\<close>

definition resolve_watched :: "'n asio_resolve \<Rightarrow> (socket_type set \<times> 'n) asio_resolve" where
  "resolve_watched resolve host port w =
    (case w of (fds, n) \<Rightarrow> case resolve host port n of (r, n1) \<Rightarrow> (r, (fds, n1)))"

lemma client_init_ok:
  assumes K: "errno_set K" and "client_init (watched K) (resolve_watched resolve) host port construct w = (r, sock, w1)"
  shows "fst w1 \<subseteq> fst w \<union> held sock" and "r = Inr () \<Longrightarrow> blocking_stream sock"
proof -
  obtain x w0 where 0: "resolve_watched resolve host port w = (x, w0)" by (metis prod.exhaust)
  have w0: "fst w0 = fst w" using 0 by (auto simp: resolve_watched_def split: prod.splits)
  have "fst w1 \<subseteq> fst w \<union> held sock \<and> (r = Inr () \<longrightarrow> blocking_stream sock)"
  proof (cases x)
    case (Inl e)
    then show ?thesis using assms(2) w0 by (auto simp: client_init_def 0)
  next
    case (Inr es)
    obtain ec w2 where 2: "connect_range (watched K) construct es no_error w0 = ((sock, ec), w2)" "w1 = w2"
        "r = (if failed ec then Inl (Throw Std_Exception) else Inr ())"
      using assms(2) Inr by (auto simp: client_init_def 0 split: prod.splits)
    then show ?thesis
      using connect_range_fds [OF K 2(1), of "fst w"] w0 by (auto split: if_splits)
  qed
  then show "fst w1 \<subseteq> fst w \<union> held sock" "r = Inr () \<Longrightarrow> blocking_stream sock" by simp_all
qed

section \<open>The end of a transport\<close>

lemma transport_end_fds: "fst (transport_end (watched K) sock w) = fst w - held sock"
proof -
  obtain ec w0 where 0: "impl_shutdown (watched K) sock SHUT_RDWR w = (ec, w0)" by (metis prod.exhaust)
  have w0: "fst w0 = fst w"
    using so_shutdown_fds [of K "impl_socket sock" SHUT_RDWR w] 0 by (auto simp: impl_shutdown_def split: prod.splits)
  obtain i e w2 where 2: "impl_close (watched K) sock w0 = ((i, e), w2)" by (metis prod.exhaust)
  show ?thesis using impl_close_fds [OF 2] destroy_fds [of K i w2] w0 by (simp add: transport_end_def 0 2)
qed

end
