(* ===== verification/Asio_Claims.thy ===== *)
theory Asio_Claims
  imports Asio_Sessions Service_Main
begin

text \<open>
  The properties of the connection below the message layer, each on a kernel that does what it promises:
  a connection to oneself that takes over at most three bytes and delivers at most two at a time.
\<close>

section \<open>A kernel\<close>

definition ret_of :: "int \<Rightarrow> sysret" where
  "ret_of k = \<lparr> ret = k, errno = 0, out_bytes = [], out_addr = [], out_num = 0, out_pair = (0, 0) \<rparr>"

definition loop_kernel :: "byte list kernel" where
  "loop_kernel c n =
    (case c of
       Sys_sendmsg s bufs addr flags \<Rightarrow>
         let k = min 3 (length (concat bufs)) in (ret_of (int k), n @ take k (concat bufs))
     | Sys_recvmsg s lens flags \<Rightarrow>
         let k = min 2 (min (sum_list lens) (length n)) in ((ret_of (int k))\<lparr>out_bytes := take k n\<rparr>, drop k n)
     | Sys_socket af type protocol \<Rightarrow> (ret_of 3, n)
     | Sys_accept s \<Rightarrow> (ret_of 4, n)
     | _ \<Rightarrow> (ret_of 0, n))"

lemma loop_stream: "stream_kernel loop_kernel s id id"
  by (auto simp: stream_kernel_def loop_kernel_def ret_of_def Let_def)

lemma loop_errno: "errno_set loop_kernel"
  by (auto simp: errno_set_def loop_kernel_def ret_of_def Let_def split: syscall.splits)

definition loop_impl :: base_implementation where
  "loop_impl = \<lparr> impl_socket = 4, impl_state = stream_oriented OR possible_dup \<rparr>"

lemma loop_blocking: "blocking_stream loop_impl"
  using stream_bits by (simp add: blocking_stream_def loop_impl_def invalid_socket_def)

section \<open>The stream\<close>

text \<open>
  C11. On sockets in blocking mode the transport keeps the promise every property of the messages rests
  on: a \<open>send\<close> that succeeds has put all of its bytes behind those sent before, however few of them the
  kernel takes over at a time, and a \<open>receive\<close> takes exactly the bytes asked for from those pending, or
  fails when the stream ends before.
\<close>

theorem transport_promise_kept:
  assumes "stream_kernel K (impl_socket impl) sent pending0" and "blocking_stream impl"
    and "stream_kernel K' (impl_socket impl') sent0 pending" and "blocking_stream impl'"
  shows "asio_stream (transport_send K impl) (transport_receive K' impl') sent pending"
  using transport_keeps_promise [OF assms(1,2)] transport_keeps_promise [OF assms(3,4)]
  by (simp add: asio_stream_def)

theorem transport_promise_kept_witness:
  "asio_stream (transport_send loop_kernel loop_impl) (transport_receive loop_kernel loop_impl) id id"
  by (rule transport_promise_kept [OF loop_stream loop_blocking loop_stream loop_blocking])

text \<open>
  C28. With a kernel that keeps the promise \<open>stream_kernel\<close> (a call with bytes to move moves some of
  them or fails for another reason than having to wait) and sockets in blocking mode, \<open>asio::write\<close> and
  \<open>asio::read\<close> return for every sequence of buffers, empty sequences and buffers without room included:
  a write has sent the bytes it counts, all of them unless it reports an error; a read without an error
  has filled every buffer and taken exactly those bytes off the stream, and one with an error had too
  little to read and has stored all there was.
\<close>

theorem transfers_return:
  assumes "stream_kernel K (impl_socket impl) sent pending" and "blocking_stream impl"
  shows "(\<exists>count ec n'. sync_write K impl bufs transfer_all (m, n) = Some ((count, ec), (m, n')) \<and>
      sent n' = sent n @ take count (bytes_in m bufs) \<and> (\<not> failed ec \<longrightarrow> count = buffer_size bufs)) \<and>
    (\<exists>count ec m' n'. sync_read K impl bufs transfer_all (m, n) = Some ((count, ec), (m', n')) \<and>
      m' = scatter (take count (pending n)) bufs m \<and>
      (if failed ec then count = length (pending n) \<and> count < buffer_size bufs
       else count = buffer_size bufs \<and> count \<le> length (pending n) \<and> pending n' = drop count (pending n)))"
proof (intro conjI)
  show "\<exists>count ec n'. sync_write K impl bufs transfer_all (m, n) = Some ((count, ec), (m, n')) \<and>
      sent n' = sent n @ take count (bytes_in m bufs) \<and> (\<not> failed ec \<longrightarrow> count = buffer_size bufs)"
    unfolding buffer_size_total using sync_write_ok [OF assms, of bufs m n] by blast
next
  obtain count ec w' where r: "sync_read K impl bufs transfer_all (m, n) = Some ((count, ec), w')"
      "read_result pending bufs (m, n) count ec w'"
    using sync_read_ok [OF assms, of bufs m n] by blast
  obtain m' n' where "w' = (m', n')" by fastforce
  then show "\<exists>count ec m' n'. sync_read K impl bufs transfer_all (m, n) = Some ((count, ec), (m', n')) \<and>
      m' = scatter (take count (pending n)) bufs m \<and>
      (if failed ec then count = length (pending n) \<and> count < buffer_size bufs
       else count = buffer_size bufs \<and> count \<le> length (pending n) \<and> pending n' = drop count (pending n))"
    unfolding buffer_size_total using r by (auto simp: read_result_def split: if_splits)
qed

theorem transfers_return_witness:
  "(\<exists>count ec n'. sync_write loop_kernel loop_impl [buffer_of 0 5, buffer_of 9 0, buffer_of 20 7] transfer_all (\<lambda>a. of_nat a, [1]) =
      Some ((count, ec), (\<lambda>a. of_nat a, n')) \<and> (failed ec \<or> count = 12)) \<and>
    (\<exists>count ec w'. sync_read loop_kernel loop_impl [buffer_of 0 0] transfer_all (\<lambda>a. of_nat a, [1]) = Some ((count, ec), w') \<and> count = 0)"
  using transfers_return [OF loop_stream loop_blocking, of "[buffer_of 0 5, buffer_of 9 0, buffer_of 20 7]" "\<lambda>a. of_nat a" "[1]"]
    transfers_return [OF loop_stream loop_blocking, of "[buffer_of 0 0]" "\<lambda>a. of_nat a" "[1]"]
  by (auto simp: buffer_size_def buffer_of_def split: if_splits)

section \<open>Descriptors\<close>

text \<open>
  C27. Whether \<open>init\<close> of either side succeeds or throws, no descriptor it opened stays open but the
  transport's own, the one of the acceptor included; a successful \<open>init\<close> leaves a connected stream socket
  in blocking mode, and the destructor of the transport closes what is left.
\<close>

theorem descriptors_closed:
  assumes "errno_set K"
    and "server_init (watched K) max_connections port construct w = Some (r, sock, w1) \<or>
      client_init (watched K) (resolve_watched resolve) host service construct w = (r, sock, w1)"
  shows "fst w1 \<subseteq> fst w \<union> held sock \<and> (r = Inr () \<longrightarrow> blocking_stream sock) \<and>
    fst (transport_end (watched K) sock w1) \<subseteq> fst w"
proof -
  have "fst w1 \<subseteq> fst w \<union> held sock \<and> (r = Inr () \<longrightarrow> blocking_stream sock)"
    using assms(2)
  proof
    assume "server_init (watched K) max_connections port construct w = Some (r, sock, w1)"
    from server_init_ok(1,2) [OF assms(1) this] show ?thesis by blast
  next
    assume "client_init (watched K) (resolve_watched resolve) host service construct w = (r, sock, w1)"
    from client_init_ok [OF assms(1) this] show ?thesis by blast
  qed
  then show ?thesis using transport_end_fds [of K sock w1] by auto
qed

theorem descriptors_closed_witness:
  "\<exists>sock w1. server_init (watched loop_kernel) 128 8080 construct ({}, []) = Some (Inr (), sock, w1) \<and>
    fst w1 \<subseteq> {4} \<and> blocking_stream sock \<and> fst (transport_end (watched loop_kernel) sock w1) = {}"
proof -
  let ?acceptor = "\<lparr> impl_socket = 3, impl_state = stream_oriented \<rparr>"
  have K: "watched loop_kernel (Sys_socket af ty pr) (fds, n) = (ret_of 3, (insert 3 fds, n))"
    "watched loop_kernel (Sys_accept s) (fds, n) = (ret_of 4, (insert 4 fds, n))"
    "watched loop_kernel (Sys_close s) (fds, n) = (ret_of 0, (fds - {s}, n))"
    "watched loop_kernel (Sys_epoll_ctl b s ev) (fds, n) = (ret_of 0, (fds, n))"
    "watched loop_kernel (Sys_setsockopt s l na v) (fds, n) = (ret_of 0, (fds, n))"
    "watched loop_kernel (Sys_bind s a) (fds, n) = (ret_of 0, (fds, n))"
    "watched loop_kernel (Sys_listen s l) (fds, n) = (ret_of 0, (fds, n))" for af ty pr s b ev l na v a fds n
    by (simp_all add: watched_def loop_kernel_def track_def ret_of_def invalid_socket_def)
  have ret: "ret (ret_of k) = k" for k by (simp add: ret_of_def)
  have level: "SOL_SOCKET \<noteq> custom_socket_option_level" by code_simp
  have linger: "SO_REUSEADDR \<noteq> SO_LINGER" by (simp add: SO_REUSEADDR_def SO_LINGER_def)
  have "acceptor_new (watched loop_kernel) (endpoint_any AF_INET 8080) 128 ({}, []) = (Inr ?acceptor, ({3}, []))"
    using level linger
    by (simp add: acceptor_new_def acceptor_setup_def impl_open_def do_open_def register_descriptor_def so_socket_def K ret construct_def is_open_def
        invalid_socket_def state_of_type_def impl_set_option_def so_setsockopt_def setsockopt_call_def zero_ok_def
        impl_bind_def so_bind_def impl_listen_def so_listen_def nonneg_ok_def)
  moreover have "impl_accept (watched loop_kernel) ?acceptor construct ({3}, []) = Some ((loop_impl, no_error), ({3, 4}, []))"
    by (simp add: impl_accept_def sync_accept.simps so_accept_def K ret construct_def is_open_def invalid_socket_def
        do_assign_def register_descriptor_def state_of_type_def loop_impl_def insert_commute)
  moreover have "destroy (watched loop_kernel) ?acceptor ({3, 4}, []) = ({4}, [])"
    by (simp add: destroy_def deregister_descriptor_def K invalid_socket_def so_close_def ret state_flag_defs)
  ultimately have s: "server_init (watched loop_kernel) 128 8080 construct ({}, []) = Some (Inr (), loop_impl, ({4}, []))"
    by (simp add: server_init_def)
  from descriptors_closed [OF loop_errno disjI1 [OF s]] show ?thesis using s by auto
qed

section \<open>Endpoints\<close>

lemma network_short_nat:
  assumes "p < 2 ^ 16"
  shows "network_short (of_nat p) = [of_nat (p div 256), of_nat (p mod 256)]"
proof -
  have p: "unat (of_nat p :: 16 word) = p" using assms by (simp add: unat_of_nat)
  have "unat (of_nat p div 256 :: 16 word) = p div 256" by (simp add: unat_div p)
  then have "ucast (drop_bit 8 (of_nat p :: 16 word)) = (of_nat (p div 256) :: byte)"
    by (intro word_unat_eq_iff [THEN iffD2])
       (simp add: unsigned_ucast_eq drop_bit_eq_div take_bit_eq_mod unat_of_nat)
  moreover have "ucast (of_nat p :: 16 word) = (of_nat (p mod 256) :: byte)"
    using assms by (intro word_unat_eq_iff [THEN iffD2]) (simp add: unsigned_ucast_eq take_bit_eq_mod unat_of_nat)
  moreover have "[0..<LENGTH(16) div 8] = [0, 1]" by (simp add: upt_rec)
  ultimately show ?thesis by (simp add: network_short_def bytes_of_word_def)
qed

text \<open>The kernel with a log of the calls made.\<close>

definition logged :: "'n kernel \<Rightarrow> (syscall list \<times> 'n) kernel" where
  "logged K c w = (case w of (calls, n) \<Rightarrow> case K c n of (r, n1) \<Rightarrow> (r, (calls @ [c], n1)))"

text \<open>The acceptor that is not given up has asked for a socket, its reuse, its address and a queue.\<close>

lemma acceptor_calls:
  assumes "acceptor_new (logged K) e max_connections (calls, n) = (Inr acceptor, (calls1, n1))"
  shows "calls1 = calls @
    [Sys_socket (tcp_family e) SOCK_STREAM IPPROTO_TCP,
     Sys_epoll_ctl EPOLL_CTL_ADD (impl_socket acceptor) (EPOLLIN OR EPOLLERR OR EPOLLHUP OR EPOLLPRI OR EPOLLET),
     Sys_setsockopt (impl_socket acceptor) SOL_SOCKET SO_REUSEADDR (int_bytes 1),
     Sys_bind (impl_socket acceptor) (endpoint_data e),
     Sys_listen (impl_socket acceptor) max_connections]"
proof -
  have closed: "\<not> is_open construct" by (simp add: is_open_def construct_def)
  have level: "SOL_SOCKET \<noteq> custom_socket_option_level" by code_simp
  obtain r a where 0: "K (Sys_socket (tcp_family e) SOCK_STREAM IPPROTO_TCP) n = (r, a)" by fastforce
  let ?s = "ret r"
  obtain r1 b where 1: "K (Sys_epoll_ctl EPOLL_CTL_ADD ?s (EPOLLIN OR EPOLLERR OR EPOLLHUP OR EPOLLPRI OR EPOLLET)) a = (r1, b)"
    by fastforce
  obtain r2 c where 2: "K (Sys_setsockopt ?s SOL_SOCKET SO_REUSEADDR (int_bytes 1)) b = (r2, c)" by fastforce
  obtain r3 d where 3: "K (Sys_bind ?s (endpoint_data e)) c = (r3, d)" by fastforce
  obtain r4 f where 4: "K (Sys_listen ?s max_connections) d = (r4, f)" by fastforce
  note calls = acceptor_new_def acceptor_setup_def impl_open_def do_open_def so_socket_def register_descriptor_def
    impl_set_option_def so_setsockopt_def setsockopt_call_def impl_bind_def so_bind_def impl_listen_def so_listen_def
    logged_def closed level Let_def 0 1 2 3 4
  show ?thesis
  proof (cases "?s = invalid_socket")
    case True
    then have s: "\<not> ?s \<noteq> invalid_socket" by simp
    then show ?thesis
      using assms by (auto simp: calls construct_def failed_system split: if_splits)
  next
    case False
    then show ?thesis
      using assms by (auto simp: calls failed_system split: if_splits)
  qed
qed

text \<open>
  C39. An endpoint made of an address and a port gives the port back and the address, of either family,
  with its scope cut to the 32 bits the structure has (\<open>kept_address\<close>, which is the address itself for the
  first family and for every scope below 2^32); a port set later leaves the address alone; endpoints are
  ordered by the addresses they keep, then by port. And the acceptor the service makes for the port of its
  command line, on any kernel, when it does not throw, has made five calls and no other: one of them binds
  its socket to the bytes of \<open>sockaddr_in\<close> with that port in network order and the address of every
  interface.
\<close>

theorem endpoint_roundtrip:
  assumes "valid_address addr" and "valid_address addr'" and "service_main argv = Run_On_Port p"
    and "acceptor_new (logged K) (endpoint_any AF_INET (of_nat p)) max_connections ([], n) = (Inr acceptor, (calls, n1))"
  shows "endpoint_address (endpoint_of addr q) = kept_address addr \<and> endpoint_port (endpoint_of addr q) = q \<and>
    endpoint_port (set_endpoint_port q' (endpoint_of addr q)) = q' \<and>
    endpoint_address (set_endpoint_port q' (endpoint_of addr q)) = kept_address addr \<and>
    (endpoint_less (endpoint_of addr q) (endpoint_of addr' q') \<longleftrightarrow>
      kept_address addr < kept_address addr' \<or> kept_address addr = kept_address addr' \<and> q < q') \<and>
    calls =
      [Sys_socket AF_INET SOCK_STREAM IPPROTO_TCP,
       Sys_epoll_ctl EPOLL_CTL_ADD (impl_socket acceptor) (EPOLLIN OR EPOLLERR OR EPOLLHUP OR EPOLLPRI OR EPOLLET),
       Sys_setsockopt (impl_socket acceptor) SOL_SOCKET SO_REUSEADDR (int_bytes 1),
       Sys_bind (impl_socket acceptor) ([2, 0, of_nat (p div 256), of_nat (p mod 256)] @ replicate 12 0),
       Sys_listen (impl_socket acceptor) max_connections]"
proof (intro conjI)
  note ok = endpoint_of_ok [OF assms(1), of q]
  show "endpoint_address (endpoint_of addr q) = kept_address addr" "endpoint_port (endpoint_of addr q) = q"
    "endpoint_port (set_endpoint_port q' (endpoint_of addr q)) = q'"
    "endpoint_address (set_endpoint_port q' (endpoint_of addr q)) = kept_address addr"
    using ok set_endpoint_port_ok [OF ok(3), of q'] by simp_all
  show "endpoint_less (endpoint_of addr q) (endpoint_of addr' q') \<longleftrightarrow>
      kept_address addr < kept_address addr' \<or> kept_address addr = kept_address addr' \<and> q < q'"
    using ok endpoint_of_ok [OF assms(2), of q'] by (simp add: endpoint_less_iff)
  have "p < 2 ^ 16" using assms(3) by (auto simp: service_main_def split: if_splits option.splits)
  then have "endpoint_data (endpoint_any AF_INET (of_nat p)) =
      [2, 0, of_nat (p div 256), of_nat (p mod 256)] @ replicate 12 0"
    by (simp add: endpoint_any_data network_short_nat)
  moreover have "tcp_family (endpoint_any AF_INET (of_nat p)) = AF_INET"
    by (simp add: tcp_family_def endpoint_any_def is_v4_def field_def memcpy_at_def)
  ultimately show "calls =
      [Sys_socket AF_INET SOCK_STREAM IPPROTO_TCP,
       Sys_epoll_ctl EPOLL_CTL_ADD (impl_socket acceptor) (EPOLLIN OR EPOLLERR OR EPOLLHUP OR EPOLLPRI OR EPOLLET),
       Sys_setsockopt (impl_socket acceptor) SOL_SOCKET SO_REUSEADDR (int_bytes 1),
       Sys_bind (impl_socket acceptor) ([2, 0, of_nat (p div 256), of_nat (p mod 256)] @ replicate 12 0),
       Sys_listen (impl_socket acceptor) max_connections]"
    using acceptor_calls [OF assms(4)] by simp
qed

theorem endpoint_roundtrip_witness:
  "endpoint_address (endpoint_of (Address_v6 (replicate 16 1) 0x100000001) 80) = Address_v6 (replicate 16 1) 1 \<and>
    (\<exists>acceptor calls n1.
      acceptor_new (logged loop_kernel) (endpoint_any AF_INET (of_nat 8080)) 128 ([], []) = (Inr acceptor, (calls, n1)) \<and>
      Sys_bind 3 ([2, 0, of_nat (8080 div 256), of_nat (8080 mod 256)] @ replicate 12 0) \<in> set calls)"
proof -
  let ?acceptor = "\<lparr> impl_socket = 3, impl_state = stream_oriented \<rparr>"
  have main: "service_main [''service'', decimal 8080 @ []] = Run_On_Port 8080"
    using extract_decimal [of 8080 "[]"] by (simp add: service_main_def USHRT_MAX_def INT_MAX_def)
  have "take_bit 32 (0x100000001 :: 64 word) = 1" by code_simp
  then have kept: "kept_address (Address_v6 (replicate 16 1) 0x100000001) = Address_v6 (replicate 16 1) 1"
    by (simp add: kept_address_def)
  have level: "SOL_SOCKET \<noteq> custom_socket_option_level" by code_simp
  have linger: "SO_REUSEADDR \<noteq> SO_LINGER" by (simp add: SO_REUSEADDR_def SO_LINGER_def)
  have ret: "ret (ret_of k) = k" for k by (simp add: ret_of_def)
  have K: "loop_kernel (Sys_socket af ty pr) n = (ret_of 3, n)" "loop_kernel (Sys_epoll_ctl b s ev) n = (ret_of 0, n)"
    "loop_kernel (Sys_setsockopt s l na v) n = (ret_of 0, n)" "loop_kernel (Sys_bind s a) n = (ret_of 0, n)"
    "loop_kernel (Sys_listen s l) n = (ret_of 0, n)" for af ty pr s b ev l na v a n
    by (simp_all add: loop_kernel_def)
  have "\<exists>calls. acceptor_new (logged loop_kernel) (endpoint_any AF_INET (of_nat 8080)) 128 ([], []) = (Inr ?acceptor, (calls, []))"
    using level linger
    by (simp add: acceptor_new_def acceptor_setup_def impl_open_def do_open_def register_descriptor_def so_socket_def logged_def
        K ret construct_def is_open_def invalid_socket_def state_of_type_def impl_set_option_def so_setsockopt_def
        setsockopt_call_def zero_ok_def impl_bind_def so_bind_def impl_listen_def so_listen_def nonneg_ok_def)
  then obtain calls where new:
      "acceptor_new (logged loop_kernel) (endpoint_any AF_INET (of_nat 8080)) 128 ([], []) = (Inr ?acceptor, (calls, []))"
    by blast
  have v: "valid_address (Address_v6 (replicate 16 1) 0x100000001)" by (simp add: valid_address_def)
  from endpoint_roundtrip [OF v v main new, of 80 0] show ?thesis
    using new by (intro conjI exI [of _ ?acceptor] exI [of _ calls] exI [of _ "[]"]) (simp_all only: kept, simp)
qed

end
