(* ===== verification/Answer_Path.thy ===== *)
theory Answer_Path
  imports Client_Claims Asio_Claims
begin

text \<open>
  The whole way of an answer: a worker thread of \<open>service/worker_pool.cpp\<close>, the transports of
  \<open>ipc/transport.h\<close> over asio's blocking calls at both ends, and the response thread of
  \<open>test/strategy.cpp\<close> with the check of \<open>test/storage.cpp\<close>.
\<close>

section \<open>From a promise to the verdict\<close>

text \<open>
  C6. The whole way of an answer: a worker that takes the promise for a user of the rating from its queue
  sends, over any two kernels that carry bytes in order, what the client at the other end receives,
  reads, finds to agree with its own rating and counts as valid, with no failure; the alternative is the
  recoverable error of the transport.
\<close>

theorem promise_to_verdict:
  assumes "serving c" and "cached c bd" and "answer_position c p = Some pos" and "in_int (fst p)"
    and "stream_kernel K (impl_socket impl) sent pending0" and "blocking_stream impl"
    and "stream_kernel K' (impl_socket impl') sent0 pending" and "blocking_stream impl'"
    and "client_wf s" and "mirrors s c" and "client_at s (fst p) a u"
    and "cu_rating u = int pos \<or> cu_rating u = invalidRating \<and> pos = length (rating_vector c)"
    and "0 \<le> fst p" and "fst p < int (length (st_index s))"
  shows "(\<exists>bd' n'. processRatingPromise (transport_send K impl) c p bd n = (Inr (True, bd'), n') \<and> cached c bd' \<and>
      (\<forall>m rest. pending m = drop (length (sent n)) (sent n') @ rest \<longrightarrow>
        (\<exists>b m' s'. layer_receive (transport_receive K' impl') m = (Inr b, m') \<and> pending m' = rest \<and>
          process_response (Inr b) s = Inr s' \<and> client_wf s' \<and>
          validRatings (st_report s') = validRatings (st_report s) + 1 \<and>
          failures (st_report s') = failures (st_report s)))) \<or>
    (\<exists>n'. processRatingPromise (transport_send K impl) c p bd n = (Inl (Throw Transport_Error_Recoverable), n'))"
proof -
  have wire: "asio_stream (transport_send K impl) (transport_receive K' impl') sent pending"
    using transport_keeps_promise [OF assms(5,6)] transport_keeps_promise [OF assms(7,8)] by (simp add: asio_stream_def)
  have pos: "pos \<le> length (rating_vector c)"
    using processRatingPromise_ok [OF assms(1,2) wire, of p n] assms(3) by simp
  have "\<exists>b m' s'. layer_receive (transport_receive K' impl') m = (Inr b, m') \<and> pending m' = rest \<and>
      process_response (Inr b) s = Inr s' \<and> client_wf s' \<and>
      validRatings (st_report s') = validRatings (st_report s) + 1 \<and> failures (st_report s') = failures (st_report s)"
    if "sent n' = sent n @ frame (rating_body c (fst p) pos)" and "pending m = drop (length (sent n)) (sent n') @ rest"
    for n' m rest
    by (rule rating_checked [OF assms(1) pos assms(4) wire _ assms(9-14)]) (simp add: that)
  then show ?thesis using processRatingPromise_ok [OF assms(1,2) wire, of p n] assms(3) by fastforce
qed

theorem promise_to_verdict_witness:
  "\<exists>bd n'. cached (pair_core 7) bd \<and>
    (processRatingPromise (transport_send loop_kernel loop_impl) (pair_core 7) (1, True) bd [] =
        (Inl (Throw Transport_Error_Recoverable), n') \<or>
     (\<exists>bd' b m' s'. processRatingPromise (transport_send loop_kernel loop_impl) (pair_core 7) (1, True) bd [] =
          (Inr (True, bd'), n') \<and>
        layer_receive (transport_receive loop_kernel loop_impl) n' = (Inr b, m') \<and>
        process_response (Inr b) pair_client = Inr s' \<and> validRatings (st_report s') = 1 \<and> failures (st_report s') = 0))"
proof -
  obtain bd where bd: "cached (pair_core 7) bd"
    using cacheTopRatings_fresh [OF serving_wire [OF pair_ready(1)]] by blast
  let ?p = "(1 :: int, True)"
  have p: "answer_position (pair_core 7) ?p = Some 1" "in_int (fst ?p)"
    by (simp_all add: in_int_1 answer_position_def pair_core_def hmap_find_def userExists_def)
  have c: "client_at pair_client (fst ?p) 2 (pair_user 1 [98] 60 5 1)" "0 \<le> fst ?p" "fst ?p < int (length (st_index pair_client))"
    using pair_ready(3,5,6) by simp_all
  from promise_to_verdict [OF pair_ready(1) bd p loop_stream loop_blocking loop_stream loop_blocking pair_client_wf
      pair_mirrors c(1) pair_ready(4) c(2,3), of "[]"]
  show ?thesis
  proof
    assume "\<exists>n'. processRatingPromise (transport_send loop_kernel loop_impl) (pair_core 7) ?p bd [] =
        (Inl (Throw Transport_Error_Recoverable), n')"
    then show ?thesis using bd by blast
  next
    assume "\<exists>bd' n'. processRatingPromise (transport_send loop_kernel loop_impl) (pair_core 7) ?p bd [] = (Inr (True, bd'), n') \<and>
      cached (pair_core 7) bd' \<and> (\<forall>m rest. id m = drop (length (id ([] :: byte list))) (id n') @ rest \<longrightarrow>
        (\<exists>b m' s'. layer_receive (transport_receive loop_kernel loop_impl) m = (Inr b, m') \<and> id m' = rest \<and>
          process_response (Inr b) pair_client = Inr s' \<and> client_wf s' \<and>
          validRatings (st_report s') = validRatings (st_report pair_client) + 1 \<and>
          failures (st_report s') = failures (st_report pair_client)))"
    then obtain bd' n' where r: "processRatingPromise (transport_send loop_kernel loop_impl) (pair_core 7) ?p bd [] = (Inr (True, bd'), n')"
      "\<And>m rest. id m = drop (length (id ([] :: byte list))) (id n') @ rest \<Longrightarrow>
        \<exists>b m' s'. layer_receive (transport_receive loop_kernel loop_impl) m = (Inr b, m') \<and> id m' = rest \<and>
          process_response (Inr b) pair_client = Inr s' \<and> client_wf s' \<and>
          validRatings (st_report s') = validRatings (st_report pair_client) + 1 \<and>
          failures (st_report s') = failures (st_report pair_client)" by blast
    have "id n' = drop (length (id ([] :: byte list))) (id n') @ []" by simp
    from r(2) [OF this] show ?thesis using r(1) bd unfolding pair_ready(7,8) by fastforce
  qed
qed

end
