(* ===== verification/Queue_Interleaving.thy ===== *)
theory Queue_Interleaving
  imports MPSC_Queue
begin

text \<open>
  The queue of \<open>service/job_queue.cpp\<close> with several producers at work at once. A producer is a thread with
  a list of values to push and a program counter among the three actions of \<open>push\<close>; the consumer has a
  program counter among the two of \<open>tryPop\<close>, the load of the pointer behind the head and the taking of
  the node found. A schedule is a list of the threads to make their next step, each step being one
  atomic access to the queue.

  Two fields of the state are no part of the program: \<open>exchanged\<close> collects the values, each with its
  producer, in the order of the exchanges of the tail, \<open>popped\<close> the values \<open>tryPop\<close> has returned.
\<close>

section \<open>The steps\<close>

datatype producer_pc = P_Idle | P_Made addr | P_Exchanged addr addr

datatype consumer_pc = C_Idle | C_Found addr

record 'a queue_run =
  run_queue :: "'a mpsc_queue"
  to_push :: "nat \<Rightarrow> 'a list"
  producer_pcs :: "nat \<Rightarrow> producer_pc"
  consumer_pc :: consumer_pc
  exchanged :: "(nat \<times> 'a) list"
  popped :: "'a list"

definition queue_run_new :: "'a \<Rightarrow> (nat \<Rightarrow> 'a list) \<Rightarrow> 'a queue_run" where
  "queue_run_new d prog =
    \<lparr> run_queue = mpsc_new d, to_push = prog, producer_pcs = (\<lambda>_. P_Idle), consumer_pc = C_Idle,
      exchanged = [], popped = [] \<rparr>"

text \<open>
  A value leaves the list of its producer when it is exchanged into the queue; a producer with nothing to
  push does nothing.
\<close>

definition producer_step :: "nat \<Rightarrow> 'a queue_run \<Rightarrow> 'a queue_run outcome" where
  "producer_step t s =
    (case producer_pcs s t of
       P_Idle \<Rightarrow>
         (case to_push s t of
            [] \<Rightarrow> Inr s
          | v # vs \<Rightarrow> let (newNode, q) = push_make v (run_queue s) in
              Inr (s\<lparr>run_queue := q, producer_pcs := (producer_pcs s)(t := P_Made newNode)\<rparr>))
     | P_Made newNode \<Rightarrow>
         let (prev, q) = push_exchange newNode (run_queue s) in
         Inr (s\<lparr>run_queue := q, producer_pcs := (producer_pcs s)(t := P_Exchanged prev newNode),
                to_push := (to_push s)(t := tl (to_push s t)),
                exchanged := exchanged s @ [(t, hd (to_push s t))]\<rparr>)
     | P_Exchanged prev newNode \<Rightarrow>
         bind_outcome (push_link prev newNode (run_queue s)) (\<lambda>q.
           Inr (s\<lparr>run_queue := q, producer_pcs := (producer_pcs s)(t := P_Idle)\<rparr>)))"

text \<open>The two halves of \<open>tryPop\<close>; nobody but the consumer touches the head.\<close>

definition pop_find :: "'a mpsc_queue \<Rightarrow> addr outcome" where
  "pop_find q = bind_outcome (deref (nodes q) (mpsc_head q)) (\<lambda>h. Inr (node_next h))"

definition pop_take :: "addr \<Rightarrow> 'a mpsc_queue \<Rightarrow> ('a \<times> 'a mpsc_queue) outcome" where
  "pop_take nxt q =
    bind_outcome (deref (nodes q) nxt) (\<lambda>n.
      Inr (node_value n, q\<lparr>mpsc_head := nxt, nodes := (nodes q)(mpsc_head q := None)\<rparr>))"

lemma tryPop_halves:
  "tryPop q = bind_outcome (pop_find q) (\<lambda>nxt.
    if nxt \<noteq> nullptr then bind_outcome (pop_take nxt q) (\<lambda>(v, q1). Inr (Some v, q1)) else Inr (None, q))"
  by (simp add: tryPop_def pop_find_def pop_take_def Let_def bind_outcome_def split: sum.splits)

definition consumer_step :: "'a queue_run \<Rightarrow> 'a queue_run outcome" where
  "consumer_step s =
    (case consumer_pc s of
       C_Idle \<Rightarrow>
         bind_outcome (pop_find (run_queue s)) (\<lambda>nxt.
           Inr (if nxt \<noteq> nullptr then s\<lparr>consumer_pc := C_Found nxt\<rparr> else s))
     | C_Found nxt \<Rightarrow>
         bind_outcome (pop_take nxt (run_queue s)) (\<lambda>(v, q).
           Inr (s\<lparr>run_queue := q, consumer_pc := C_Idle, popped := popped s @ [v]\<rparr>)))"

datatype queue_thread = Producer nat | Consumer

fun queue_step :: "queue_thread \<Rightarrow> 'a queue_run \<Rightarrow> 'a queue_run outcome" where
  "queue_step (Producer t) s = producer_step t s"
| "queue_step Consumer s = consumer_step s"

section \<open>The invariant\<close>

text \<open>
  \<open>L\<close> lists the nodes from the head to the tail in the order of the exchanges. The pointer of a node to its
  successor is still null while the producer of the successor is between its exchange and its link.
\<close>

definition unlinked :: "'a queue_run \<Rightarrow> addr \<Rightarrow> bool" where
  "unlinked s a \<longleftrightarrow> (\<exists>t n. producer_pcs s t = P_Exchanged a n)"

definition successor :: "'a queue_run \<Rightarrow> addr list \<Rightarrow> nat \<Rightarrow> addr" where
  "successor s L i = (if Suc i < length L \<and> \<not> unlinked s (L ! i) then L ! Suc i else nullptr)"

definition nodes_inv :: "addr list \<Rightarrow> 'a queue_run \<Rightarrow> bool" where
  "nodes_inv L s \<longleftrightarrow>
    L \<noteq> [] \<and> distinct L \<and> hd L = mpsc_head (run_queue s) \<and> last L = mpsc_tail (run_queue s) \<and>
    (\<forall>a \<in> set L. a \<noteq> nullptr \<and> a < next_node (run_queue s)) \<and>
    0 < next_node (run_queue s) \<and>
    (\<forall>i < length L. \<exists>nd. nodes (run_queue s) (L ! i) = Some nd \<and> node_next nd = successor s L i) \<and>
    dom (nodes (run_queue s)) = set L \<union> {n. \<exists>t. producer_pcs s t = P_Made n}"

definition values_inv :: "addr list \<Rightarrow> 'a queue_run \<Rightarrow> bool" where
  "values_inv L s \<longleftrightarrow>
    map snd (exchanged s) = popped s @ map (\<lambda>a. node_value (the (nodes (run_queue s) a))) (tl L)"

definition producers_inv :: "addr list \<Rightarrow> 'a queue_run \<Rightarrow> bool" where
  "producers_inv L s \<longleftrightarrow>
    (\<forall>t n. producer_pcs s t = P_Made n \<longrightarrow>
      n \<noteq> nullptr \<and> n < next_node (run_queue s) \<and> n \<notin> set L \<and> to_push s t \<noteq> [] \<and>
      nodes (run_queue s) n = Some \<lparr> node_next = nullptr, node_value = hd (to_push s t) \<rparr> \<and>
      (\<forall>t'. producer_pcs s t' = P_Made n \<longrightarrow> t' = t)) \<and>
    (\<forall>t a n. producer_pcs s t = P_Exchanged a n \<longrightarrow>
      (\<exists>i. Suc i < length L \<and> a = L ! i \<and> n = L ! Suc i) \<and>
      (\<forall>t' n'. producer_pcs s t' = P_Exchanged a n' \<longrightarrow> t' = t))"

definition consumer_inv :: "addr list \<Rightarrow> 'a queue_run \<Rightarrow> bool" where
  "consumer_inv L s \<longleftrightarrow>
    (\<forall>n. consumer_pc s = C_Found n \<longrightarrow> Suc 0 < length L \<and> n = L ! Suc 0 \<and> \<not> unlinked s (hd L))"

definition run_inv :: "addr list \<Rightarrow> 'a queue_run \<Rightarrow> bool" where
  "run_inv L s \<longleftrightarrow> nodes_inv L s \<and> values_inv L s \<and> producers_inv L s \<and> consumer_inv L s"

text \<open>What a producer has put into the queue and what it still has to push is its program.\<close>

definition program_kept :: "(nat \<Rightarrow> 'a list) \<Rightarrow> 'a queue_run \<Rightarrow> bool" where
  "program_kept prog s \<longleftrightarrow>
    (\<forall>t. map snd (filter (\<lambda>p. fst p = t) (exchanged s)) @ to_push s t = prog t)"


lemma nodes_invD:
  assumes "nodes_inv L s"
  shows "L \<noteq> []" "distinct L" "hd L = mpsc_head (run_queue s)" "last L = mpsc_tail (run_queue s)"
    "\<And>a. a \<in> set L \<Longrightarrow> a \<noteq> nullptr \<and> a < next_node (run_queue s)"
    "\<And>i. i < length L \<Longrightarrow> \<exists>nd. nodes (run_queue s) (L ! i) = Some nd \<and> node_next nd = successor s L i"
    "dom (nodes (run_queue s)) = set L \<union> {n. \<exists>t. producer_pcs s t = P_Made n}"
  using assms by (simp_all add: nodes_inv_def)

lemma producers_invD:
  assumes "producers_inv L s"
  shows "\<And>t n. producer_pcs s t = P_Made n \<Longrightarrow>
      n \<noteq> nullptr \<and> n < next_node (run_queue s) \<and> n \<notin> set L \<and> to_push s t \<noteq> [] \<and>
      nodes (run_queue s) n = Some \<lparr> node_next = nullptr, node_value = hd (to_push s t) \<rparr>"
    "\<And>t t' n. producer_pcs s t = P_Made n \<Longrightarrow> producer_pcs s t' = P_Made n \<Longrightarrow> t' = t"
    "\<And>t a n. producer_pcs s t = P_Exchanged a n \<Longrightarrow> \<exists>i. Suc i < length L \<and> a = L ! i \<and> n = L ! Suc i"
    "\<And>t t' a n n'. producer_pcs s t = P_Exchanged a n \<Longrightarrow> producer_pcs s t' = P_Exchanged a n' \<Longrightarrow> t' = t"
  using assms unfolding producers_inv_def by blast+

lemma run_inv_new: "run_inv [1] (queue_run_new d prog)"
  by (auto simp: run_inv_def nodes_inv_def values_inv_def producers_inv_def consumer_inv_def successor_def
      queue_run_new_def mpsc_new_def nullptr_def)

section \<open>The steps of a producer\<close>

lemma made_again:
  assumes "pcs t = P_Idle"
  shows "{n. \<exists>u. (pcs(t := P_Made c)) u = P_Made n} = insert c {n. \<exists>u. pcs u = P_Made n}"
proof (rule set_eqI)
  fix n
  have "(\<exists>u. (pcs(t := P_Made c)) u = P_Made n) \<longleftrightarrow> n = c \<or> (\<exists>u. u \<noteq> t \<and> pcs u = P_Made n)"
    by (metis fun_upd_apply producer_pc.inject(1))
  also have "\<dots> \<longleftrightarrow> n = c \<or> (\<exists>u. pcs u = P_Made n)" using assms by (metis producer_pc.distinct(1))
  finally show "n \<in> {n. \<exists>u. (pcs(t := P_Made c)) u = P_Made n} \<longleftrightarrow> n \<in> insert c {n. \<exists>u. pcs u = P_Made n}"
    by simp
qed

lemma make_keeps:
  assumes "run_inv L s" and "producer_pcs s t = P_Idle" and "to_push s t = v # vs"
    and "push_make v (run_queue s) = (c, q)"
  shows "run_inv L (s\<lparr>run_queue := q, producer_pcs := (producer_pcs s)(t := P_Made c)\<rparr>)"
proof -
  let ?s = "s\<lparr>run_queue := q, producer_pcs := (producer_pcs s)(t := P_Made c)\<rparr>"
  have nd: "nodes_inv L s" and vl: "values_inv L s" and pr: "producers_inv L s" and co: "consumer_inv L s"
    using assms(1) by (simp_all add: run_inv_def)
  note N = nodes_invD [OF nd] and P = producers_invD [OF pr]
  have q: "c = next_node (run_queue s)"
    "q = (run_queue s)\<lparr>nodes := (nodes (run_queue s))(c \<mapsto> \<lparr> node_next = nullptr, node_value = v \<rparr>), next_node := c + 1\<rparr>"
    using assms(4) by (auto simp: push_make_def Let_def)
  have pos: "0 < c" using nd q(1) by (simp add: nodes_inv_def)
  have fresh: "c \<notin> set L" using N(5) q(1) by blast
  have new: "producer_pcs s u \<noteq> P_Made c" for u using P(1) [of u c] q(1) by auto
  have ex: "producer_pcs ?s u = P_Exchanged a n \<longleftrightarrow> producer_pcs s u = P_Exchanged a n" for u a n
    using assms(2) by auto
  then have un: "unlinked ?s = unlinked s" unfolding unlinked_def by simp
  have succ: "successor ?s L = successor s L" unfolding successor_def un by simp
  have same: "nodes q a = nodes (run_queue s) a" if "a \<noteq> c" for a using that by (simp add: q(2))
  have "nodes_inv L ?s"
  proof -
    have "\<exists>x. nodes q (L ! i) = Some x \<and> node_next x = successor s L i" if "i < length L" for i
      using N(6) [OF that] same [of "L ! i"] fresh that nth_mem by metis
    moreover have "dom (nodes q) = set L \<union> {n. \<exists>u. producer_pcs ?s u = P_Made n}"
    proof -
      have "{n. \<exists>u. producer_pcs ?s u = P_Made n} = insert c {n. \<exists>u. producer_pcs s u = P_Made n}"
        using made_again [of "producer_pcs s" t c, OF assms(2)] by simp
      then show ?thesis using N(7) by (simp add: q(2))
    qed
    moreover have "a \<noteq> nullptr \<and> a < next_node q" if "a \<in> set L" for a using N(5) [OF that] by (simp add: q)
    ultimately show ?thesis using N(1-4) pos unfolding nodes_inv_def succ by (simp add: q(2))
  qed
  moreover have "values_inv L ?s"
  proof -
    have "map (\<lambda>a. node_value (the (nodes q a))) (tl L) = map (\<lambda>a. node_value (the (nodes (run_queue s) a))) (tl L)"
      using fresh same list.set_sel(2) [OF N(1)] by (intro map_cong) (auto simp: q(2))
    then show ?thesis using vl by (simp add: values_inv_def)
  qed
  moreover have "producers_inv L ?s"
    unfolding producers_inv_def
  proof (intro conjI allI impI)
    fix u n assume u: "producer_pcs ?s u = P_Made n"
    show "n \<noteq> nullptr" "n < next_node (run_queue ?s)" "n \<notin> set L" "to_push ?s u \<noteq> []"
        "nodes (run_queue ?s) n = Some \<lparr> node_next = nullptr, node_value = hd (to_push ?s u) \<rparr>"
      using u P(1) [of u n] new [of u] fresh pos assms(3) q(1)
      by (auto simp: q(2) nullptr_def split: if_splits)
    fix u' assume "producer_pcs ?s u' = P_Made n"
    then show "u' = u" using u new P(2) [of u n u'] by (auto split: if_splits)
  next
    fix u a n assume u: "producer_pcs ?s u = P_Exchanged a n"
    show "\<exists>i. Suc i < length L \<and> a = L ! i \<and> n = L ! Suc i" using P(3) u unfolding ex by blast
    fix u' n' assume "producer_pcs ?s u' = P_Exchanged a n'"
    then show "u' = u" using u P(4) unfolding ex by blast
  qed
  moreover have "consumer_inv L ?s" using co unfolding consumer_inv_def un by simp
  ultimately show ?thesis by (simp add: run_inv_def)
qed

lemma exchange_keeps:
  assumes "run_inv L s" and "producer_pcs s t = P_Made c" and "push_exchange c (run_queue s) = (prev, q)"
  shows "run_inv (L @ [c]) (s\<lparr>run_queue := q, producer_pcs := (producer_pcs s)(t := P_Exchanged prev c),
    to_push := (to_push s)(t := tl (to_push s t)), exchanged := exchanged s @ [(t, hd (to_push s t))]\<rparr>)"
    (is "run_inv ?L ?s")
proof -
  have nd: "nodes_inv L s" and vl: "values_inv L s" and pr: "producers_inv L s" and co: "consumer_inv L s"
    using assms(1) by (simp_all add: run_inv_def)
  note N = nodes_invD [OF nd] and P = producers_invD [OF pr]
  have q: "prev = last L" "q = (run_queue s)\<lparr>mpsc_tail := c\<rparr>"
    using assms(3) N(4) by (auto simp: push_exchange_def)
  have made: "c \<noteq> nullptr" "c < next_node (run_queue s)" "c \<notin> set L"
    "nodes (run_queue s) c = Some \<lparr> node_next = nullptr, node_value = hd (to_push s t) \<rparr>"
    using P(1) [OF assms(2)] by blast+
  have prev: "prev = L ! (length L - 1)" using q(1) N(1) by (simp add: last_conv_nth)
  have idle: "producer_pcs s u \<noteq> P_Exchanged prev n" for u n
  proof
    assume "producer_pcs s u = P_Exchanged prev n"
    then obtain i where "Suc i < length L" "prev = L ! i" using P(3) by blast
    then show False using prev N(2) by (auto simp: nth_eq_iff_index_eq)
  qed
  have idle_c: "producer_pcs s u \<noteq> P_Exchanged c n" for u n
    using P(3) [of u c n] made(3) by (metis Suc_lessD nth_mem)
  have un: "unlinked ?s a \<longleftrightarrow> unlinked s a \<or> a = prev" for a
  proof
    assume "unlinked ?s a"
    then show "unlinked s a \<or> a = prev" by (auto simp: unlinked_def split: if_splits)
  next
    assume "unlinked s a \<or> a = prev"
    then show "unlinked ?s a"
    proof
      assume "unlinked s a"
      then obtain u n where u: "producer_pcs s u = P_Exchanged a n" by (auto simp: unlinked_def)
      then have "u \<noteq> t" using assms(2) by auto
      then show ?thesis using u unfolding unlinked_def by (intro exI [of _ u] exI [of _ n]) simp
    qed (auto simp: unlinked_def intro!: exI [of _ t])
  qed
  have succ: "successor ?s ?L i = successor s L i" if "i < length L" for i
  proof (cases "Suc i < length L")
    case True
    then have "L ! i \<noteq> prev" using N(2) prev by (simp add: nth_eq_iff_index_eq)
    then show ?thesis using True by (simp add: successor_def un nth_append)
  next
    case False
    then have "i = length L - 1" using that by simp
    then have "L ! i = prev" using prev by simp
    then show ?thesis using False that by (simp add: successor_def un nth_append)
  qed
  have "nodes_inv ?L ?s"
  proof -
    have "\<exists>x. nodes q (?L ! i) = Some x \<and> node_next x = successor ?s ?L i" if "i < length ?L" for i
    proof (cases "i < length L")
      case True
      then show ?thesis using N(6) [OF True] succ [OF True] by (simp add: q(2) nth_append)
    next
      case False
      then have "i = length L" using that by simp
      then show ?thesis using made(4) by (simp add: q(2) successor_def)
    qed
    moreover have "dom (nodes q) = set ?L \<union> {n. \<exists>u. producer_pcs ?s u = P_Made n}"
    proof -
      have "{n. \<exists>u. producer_pcs s u = P_Made n} = insert c {n. \<exists>u. producer_pcs ?s u = P_Made n}"
      proof (rule set_eqI, rule iffI)
        fix n assume "n \<in> {n. \<exists>u. producer_pcs s u = P_Made n}"
        then obtain u where u: "producer_pcs s u = P_Made n" by blast
        show "n \<in> insert c {n. \<exists>u. producer_pcs ?s u = P_Made n}"
          using u assms(2) by (cases "u = t") auto
      qed (use assms(2) in \<open>auto split: if_splits\<close>)
      then show ?thesis using N(7) by (auto simp: q(2))
    qed
    ultimately show ?thesis
      using N(1-5) made nd unfolding nodes_inv_def by (auto simp: q(2))
  qed
  moreover have "values_inv ?L ?s" using vl N(1) made(4) by (simp add: values_inv_def q(2))
  moreover have "producers_inv ?L ?s"
    unfolding producers_inv_def
  proof (intro conjI allI impI)
    fix u n assume u: "producer_pcs ?s u = P_Made n"
    then have u': "u \<noteq> t" "producer_pcs s u = P_Made n" by (auto split: if_splits)
    have "n \<noteq> c" using P(2) [OF assms(2), of u] u' by auto
    then show "n \<noteq> nullptr" "n < next_node (run_queue ?s)" "n \<notin> set ?L" "to_push ?s u \<noteq> []"
        "nodes (run_queue ?s) n = Some \<lparr> node_next = nullptr, node_value = hd (to_push ?s u) \<rparr>"
      using P(1) [OF u'(2)] u'(1) by (simp_all add: q(2))
    fix w assume "producer_pcs ?s w = P_Made n"
    then show "w = u" using P(2) [OF u'(2), of w] by (auto split: if_splits)
  next
    fix u a n assume u: "producer_pcs ?s u = P_Exchanged a n"
    show "\<exists>i. Suc i < length ?L \<and> a = ?L ! i \<and> n = ?L ! Suc i"
    proof (cases "u = t")
      case True
      then have "a = prev" "n = c" using u by auto
      then show ?thesis using prev N(1) by (intro exI [of _ "length L - 1"]) (simp add: nth_append)
    next
      case False
      then obtain i where "Suc i < length L" "a = L ! i" "n = L ! Suc i" using P(3) u by fastforce
      then show ?thesis by (intro exI [of _ i]) (simp add: nth_append)
    qed
    fix w n' assume "producer_pcs ?s w = P_Exchanged a n'"
    then show "w = u" using u idle P(4) [of u a n w n'] by (auto split: if_splits)
  qed
  moreover have "consumer_inv ?L ?s"
    unfolding consumer_inv_def
  proof (intro allI impI)
    fix n assume "consumer_pc ?s = C_Found n"
    then have c: "Suc 0 < length L" "n = L ! Suc 0" "\<not> unlinked s (hd L)" using co by (simp_all add: consumer_inv_def)
    have "hd L \<noteq> prev" using c(1) N(1,2) prev by (simp add: hd_conv_nth nth_eq_iff_index_eq)
    then show "Suc 0 < length ?L \<and> n = ?L ! Suc 0 \<and> \<not> unlinked ?s (hd ?L)"
      using c N(1) un by (simp add: nth_append)
  qed
  ultimately show ?thesis by (simp add: run_inv_def)
qed

lemma link_keeps:
  assumes "run_inv L s" and "producer_pcs s t = P_Exchanged prev c"
  shows "\<exists>q. push_link prev c (run_queue s) = Inr q \<and>
    run_inv L (s\<lparr>run_queue := q, producer_pcs := (producer_pcs s)(t := P_Idle)\<rparr>)"
proof -
  have nd: "nodes_inv L s" and vl: "values_inv L s" and pr: "producers_inv L s" and co: "consumer_inv L s"
    using assms(1) by (simp_all add: run_inv_def)
  note N = nodes_invD [OF nd] and P = producers_invD [OF pr]
  obtain i where i: "Suc i < length L" "prev = L ! i" "c = L ! Suc i" using P(3) [OF assms(2)] by blast
  then have i': "i < length L" by simp
  obtain x where x: "nodes (run_queue s) prev = Some x" using N(6) [OF i'] i(2) by blast
  let ?x = "x\<lparr>node_next := c\<rparr>"
  define q where "q = (run_queue s)\<lparr>nodes := (nodes (run_queue s))(prev \<mapsto> ?x)\<rparr>"
  let ?s = "s\<lparr>run_queue := q, producer_pcs := (producer_pcs s)(t := P_Idle)\<rparr>"
  have prev: "prev \<in> set L" "prev \<noteq> nullptr" using i(2) i' N(5) [OF nth_mem [OF i']] by simp_all
  then have link: "push_link prev c (run_queue s) = Inr q" by (simp add: push_link_def deref_def x q_def)
  have un: "unlinked ?s a \<longleftrightarrow> unlinked s a \<and> a \<noteq> prev" for a
  proof
    assume "unlinked ?s a"
    then obtain u n where u: "u \<noteq> t" "producer_pcs s u = P_Exchanged a n" by (auto simp: unlinked_def split: if_splits)
    then show "unlinked s a \<and> a \<noteq> prev" using P(4) [OF assms(2), of u] by (auto simp: unlinked_def)
  next
    assume "unlinked s a \<and> a \<noteq> prev"
    then obtain u n where u: "producer_pcs s u = P_Exchanged a n" "a \<noteq> prev" by (auto simp: unlinked_def)
    then have "u \<noteq> t" using assms(2) by auto
    then show "unlinked ?s a" using u(1) unfolding unlinked_def by (intro exI [of _ u] exI [of _ n]) simp
  qed
  have same: "nodes q a = nodes (run_queue s) a" if "a \<noteq> prev" for a using that by (simp add: q_def)
  have ex: "producer_pcs ?s u = P_Exchanged a n \<longleftrightarrow> u \<noteq> t \<and> producer_pcs s u = P_Exchanged a n"
    and made: "producer_pcs ?s u = P_Made n \<longleftrightarrow> producer_pcs s u = P_Made n" for u a n
    using assms(2) by auto
  have "nodes_inv L ?s"
  proof -
    have "\<exists>y. nodes q (L ! j) = Some y \<and> node_next y = successor ?s L j" if j: "j < length L" for j
    proof (cases "j = i")
      case True
      have "\<not> unlinked ?s (L ! i)" using un [of "L ! i"] i(2) by simp
      then have "successor ?s L i = c" using i(1,3) by (simp only: successor_def if_P simp_thms)
      then show ?thesis using True i(2) by (simp add: q_def)
    next
      case False
      then have "L ! j \<noteq> prev" using N(2) i(2) i' j by (simp add: nth_eq_iff_index_eq)
      then show ?thesis using N(6) [OF j] by (simp add: same successor_def un)
    qed
    moreover have "dom (nodes q) = set L \<union> {n. \<exists>u. producer_pcs ?s u = P_Made n}"
      using N(7) x unfolding made by (auto simp: q_def)
    ultimately show ?thesis using nd unfolding nodes_inv_def by (simp add: q_def)
  qed
  moreover have "values_inv L ?s"
  proof -
    have "node_value (the (nodes q a)) = node_value (the (nodes (run_queue s) a))" for a
      using x by (simp add: q_def)
    then show ?thesis using vl by (simp add: values_inv_def)
  qed
  moreover have "producers_inv L ?s"
    unfolding producers_inv_def ex made
  proof (intro conjI allI impI)
    fix u n assume u: "producer_pcs s u = P_Made n"
    note M = P(1) [OF u]
    have "n \<noteq> prev" using M prev by blast
    then show "n \<noteq> nullptr" "n < next_node (run_queue ?s)" "n \<notin> set L" "to_push ?s u \<noteq> []"
        "nodes (run_queue ?s) n = Some \<lparr> node_next = nullptr, node_value = hd (to_push ?s u) \<rparr>"
      using M by (simp_all add: q_def)
  qed (use P(2-4) in blast)+
  moreover have "consumer_inv L ?s" using co by (simp add: consumer_inv_def un)
  ultimately show ?thesis using link by (simp add: run_inv_def)
qed

lemma producer_step_keeps:
  assumes "run_inv L s" and "program_kept prog s"
  shows "\<exists>s' L'. producer_step t s = Inr s' \<and> run_inv L' s' \<and> program_kept prog s'"
proof (cases "producer_pcs s t")
  case P_Idle
  show ?thesis
  proof (cases "to_push s t")
    case Nil
    then show ?thesis using assms P_Idle by (auto simp: producer_step_def)
  next
    case (Cons v vs)
    obtain c q where m: "push_make v (run_queue s) = (c, q)" by (metis prod.exhaust)
    show ?thesis
      using make_keeps [OF assms(1) P_Idle Cons m] assms(2) P_Idle Cons m
      by (auto simp: producer_step_def program_kept_def)
  qed
next
  case (P_Made c)
  obtain prev q where m: "push_exchange c (run_queue s) = (prev, q)" by (metis prod.exhaust)
  have "to_push s t \<noteq> []" using assms(1) P_Made producers_invD(1) by (fastforce simp: run_inv_def)
  then have "program_kept prog (s\<lparr>run_queue := q, producer_pcs := (producer_pcs s)(t := P_Exchanged prev c),
      to_push := (to_push s)(t := tl (to_push s t)), exchanged := exchanged s @ [(t, hd (to_push s t))]\<rparr>)"
    using assms(2) by (auto simp: program_kept_def)
  then show ?thesis using exchange_keeps [OF assms(1) P_Made m] P_Made m by (auto simp: producer_step_def)
next
  case (P_Exchanged prev c)
  then show ?thesis
    using link_keeps [OF assms(1) P_Exchanged] assms(2) by (auto simp: producer_step_def program_kept_def)
qed

section \<open>The steps of the consumer\<close>

lemma find_ok:
  assumes "run_inv L s"
  shows "pop_find (run_queue s) = Inr (successor s L 0)"
proof -
  have nd: "nodes_inv L s" using assms by (simp add: run_inv_def)
  note N = nodes_invD [OF nd]
  have "0 < length L" using N(1) by simp
  then obtain x where x: "nodes (run_queue s) (L ! 0) = Some x" "node_next x = successor s L 0" using N(6) by blast
  moreover have "mpsc_head (run_queue s) = L ! 0" using N(1,3) by (simp add: hd_conv_nth)
  moreover have "L ! 0 \<noteq> nullptr" using N(1) N(5) [of "L ! 0"] by simp
  ultimately show ?thesis by (simp add: pop_find_def deref_def)
qed

lemma take_keeps:
  assumes "run_inv L s" and "consumer_pc s = C_Found nxt"
  shows "\<exists>v q. pop_take nxt (run_queue s) = Inr (v, q) \<and>
    run_inv (tl L) (s\<lparr>run_queue := q, consumer_pc := C_Idle, popped := popped s @ [v]\<rparr>)"
proof -
  have nd: "nodes_inv L s" and vl: "values_inv L s" and pr: "producers_inv L s" and co: "consumer_inv L s"
    using assms(1) by (simp_all add: run_inv_def)
  note N = nodes_invD [OF nd] and P = producers_invD [OF pr]
  have c: "Suc 0 < length L" "nxt = L ! Suc 0" "\<not> unlinked s (hd L)"
    using co assms(2) by (simp_all add: consumer_inv_def)
  then obtain h K where L: "L = h # nxt # K" by (cases L; cases "tl L") auto
  have h: "mpsc_head (run_queue s) = h" using N(3) L by simp
  have dis: "h \<notin> set (nxt # K)" "distinct (nxt # K)" using N(2) L by simp_all
  obtain x where x: "nodes (run_queue s) nxt = Some x" using N(6) [of "Suc 0"] c(1,2) by blast
  define q where "q = (run_queue s)\<lparr>mpsc_head := nxt, nodes := (nodes (run_queue s))(h := None)\<rparr>"
  let ?s = "s\<lparr>run_queue := q, consumer_pc := C_Idle, popped := popped s @ [node_value x]\<rparr>"
  have take: "pop_take nxt (run_queue s) = Inr (node_value x, q)"
    using N(5) [of nxt] L x h by (simp add: pop_take_def deref_def q_def)
  have un: "unlinked ?s = unlinked s" by (simp add: unlinked_def [abs_def])
  have notmade: "producer_pcs s t \<noteq> P_Made h" for t using P(1) [of t h] L by auto
  have "nodes_inv (nxt # K) ?s"
  proof -
    have "\<exists>y. nodes q ((nxt # K) ! i) = Some y \<and> node_next y = successor ?s (nxt # K) i"
      if i: "i < length (nxt # K)" for i
    proof -
      have "successor ?s (nxt # K) i = successor s L (Suc i)" by (simp add: successor_def un L)
      moreover have "(nxt # K) ! i \<noteq> h" using dis(1) nth_mem [OF i] by metis
      ultimately show ?thesis using N(6) [of "Suc i"] i L by (simp add: q_def)
    qed
    moreover have "dom (nodes q) = set (nxt # K) \<union> {n. \<exists>t. producer_pcs ?s t = P_Made n}"
      using N(7) dis(1) notmade L by (auto simp: q_def)
    ultimately show ?thesis using nd dis L unfolding nodes_inv_def by (simp add: q_def)
  qed
  moreover have "values_inv (nxt # K) ?s"
  proof -
    have "map (\<lambda>a. node_value (the (nodes q a))) K = map (\<lambda>a. node_value (the (nodes (run_queue s) a))) K"
      using dis(1) by (intro map_cong) (auto simp: q_def)
    then show ?thesis using vl x L by (simp add: values_inv_def)
  qed
  moreover have "producers_inv (nxt # K) ?s"
    unfolding producers_inv_def
  proof (intro conjI allI impI)
    fix t n assume "producer_pcs ?s t = P_Made n"
    then have t: "producer_pcs s t = P_Made n" by simp
    show "n \<noteq> nullptr" "n < next_node (run_queue ?s)" "n \<notin> set (nxt # K)" "to_push ?s t \<noteq> []"
        "nodes (run_queue ?s) n = Some \<lparr> node_next = nullptr, node_value = hd (to_push ?s t) \<rparr>"
      using P(1) [OF t] t notmade L by (auto simp: q_def)
    fix t' assume "producer_pcs ?s t' = P_Made n"
    then show "t' = t" using P(2) [OF t] by simp
  next
    fix t a n assume "producer_pcs ?s t = P_Exchanged a n"
    then have t: "producer_pcs s t = P_Exchanged a n" by simp
    then obtain i where i: "Suc i < length L" "a = L ! i" "n = L ! Suc i" using P(3) by blast
    have "i \<noteq> 0"
    proof
      assume "i = 0"
      then have "unlinked s (hd L)" unfolding unlinked_def using t i(2) L by (intro exI [of _ t] exI [of _ n]) simp
      then show False using c(3) by simp
    qed
    then obtain j where "i = Suc j" by (cases i) auto
    then show "\<exists>i. Suc i < length (nxt # K) \<and> a = (nxt # K) ! i \<and> n = (nxt # K) ! Suc i"
      using i L by (intro exI [of _ j]) simp
    fix t' n' assume "producer_pcs ?s t' = P_Exchanged a n'"
    then show "t' = t" using P(4) [OF t] by simp
  qed
  moreover have "consumer_inv (nxt # K) ?s" by (simp add: consumer_inv_def)
  ultimately show ?thesis using take L by (simp add: run_inv_def)
qed

lemma consumer_step_keeps:
  assumes "run_inv L s" and "program_kept prog s"
  shows "\<exists>s' L'. consumer_step s = Inr s' \<and> run_inv L' s' \<and> program_kept prog s'"
proof (cases "consumer_pc s")
  case C_Idle
  let ?n = "successor s L 0"
  have L: "L \<noteq> []" using assms(1) by (simp add: run_inv_def nodes_inv_def)
  have "run_inv L (s\<lparr>consumer_pc := C_Found ?n\<rparr>)" if "?n \<noteq> nullptr"
  proof -
    have un: "unlinked (s\<lparr>consumer_pc := C\<rparr>) = unlinked s" for C by (simp add: unlinked_def [abs_def])
    have "Suc 0 < length L" "\<not> unlinked s (hd L)" "?n = L ! Suc 0"
      using that L by (auto simp: successor_def hd_conv_nth split: if_splits)
    then have "consumer_inv L (s\<lparr>consumer_pc := C_Found ?n\<rparr>)" by (simp add: consumer_inv_def un)
    moreover have "nodes_inv L (s\<lparr>consumer_pc := C_Found ?n\<rparr>) = nodes_inv L s"
      by (simp add: nodes_inv_def successor_def un)
    ultimately show ?thesis using assms(1) by (simp add: run_inv_def values_inv_def producers_inv_def)
  qed
  then show ?thesis
    using find_ok [OF assms(1)] assms C_Idle by (auto simp: consumer_step_def program_kept_def)
next
  case (C_Found n)
  then show ?thesis
    using take_keeps [OF assms(1) C_Found] assms(2) by (auto simp: consumer_step_def program_kept_def)
qed

lemma queue_run_keeps:
  "run_inv L s \<Longrightarrow> program_kept prog s \<Longrightarrow>
    \<exists>s' L'. fold_outcome queue_step sched s = Inr s' \<and> run_inv L' s' \<and> program_kept prog s'"
proof (induction sched arbitrary: L s)
  case (Cons x sched)
  obtain s1 L1 where "queue_step x s = Inr s1" "run_inv L1 s1" "program_kept prog s1"
    using producer_step_keeps [OF Cons.prems] consumer_step_keeps [OF Cons.prems] by (cases x) fastforce+
  then show ?case using Cons.IH by simp
qed auto

section \<open>The queue at rest\<close>

definition at_rest :: "'a queue_run \<Rightarrow> bool" where
  "at_rest s \<longleftrightarrow> (\<forall>t. producer_pcs s t = P_Idle)"

lemma linked_chain:
  "L \<noteq> [] \<Longrightarrow> (\<And>i. i < length L \<Longrightarrow> \<exists>x. h (L ! i) = Some x \<and>
      node_next x = (if Suc i < length L then L ! Suc i else nullptr)) \<Longrightarrow>
    \<forall>a \<in> set L. a \<noteq> nullptr \<Longrightarrow> chain h (hd L) (tl L)"
proof (induction L)
  case (Cons a L)
  obtain x where x: "h a = Some x" "node_next x = (if L \<noteq> [] then L ! 0 else nullptr)"
    using Cons.prems(2) [of 0] by auto
  show ?case
  proof (cases L)
    case Nil
    then show ?thesis using x by (cases x) simp
  next
    case (Cons b K)
    have "chain h (hd L) (tl L)"
    proof (rule Cons.IH)
      fix i assume "i < length L"
      then show "\<exists>x. h (L ! i) = Some x \<and> node_next x = (if Suc i < length L then L ! Suc i else nullptr)"
        using Cons.prems(2) [of "Suc i"] by (cases "Suc i < length L") simp_all
    qed (use Cons Cons.prems in auto)
    then show ?thesis using x Cons Cons.prems(3) by (cases x) auto
  qed
qed simp

lemma at_rest_ok:
  assumes "run_inv L s" and "at_rest s"
  shows "mpsc_wf (run_queue s) \<and> map snd (exchanged s) = popped s @ mpsc_contents (run_queue s)"
proof -
  let ?q = "run_queue s"
  have nd: "nodes_inv L s" and vl: "values_inv L s" using assms(1) by (simp_all add: run_inv_def)
  note N = nodes_invD [OF nd]
  have L: "L = mpsc_head ?q # tl L" using N(1,3) by (cases L) auto
  have un: "\<not> unlinked s a" for a using assms(2) by (simp add: unlinked_def at_rest_def)
  have made: "{n. \<exists>t. producer_pcs s t = P_Made n} = {}" using assms(2) by (simp add: at_rest_def)
  have "chain (nodes ?q) (hd L) (tl L)"
    by (rule linked_chain [OF N(1)]) (use N(5,6) in \<open>auto simp: successor_def un\<close>)
  then have ch: "chain (nodes ?q) (mpsc_head ?q) (tl L)" unfolding N(3) .
  have wf: "mpsc_wf ?q" "mpsc_cells ?q = tl L"
    using mpsc_wfI [OF ch] N(2,4,5,7) L made by (metis Un_empty_right list.set_intros(1))+
  have "nodes ?q a \<noteq> None" if "a \<in> set (tl L)" for a
    using that N(1,7) by (metis UnI1 domD list.set_sel(2) option.distinct(1))
  then have "\<forall>a \<in> set (tl L). nodes ?q a \<noteq> None" by blast
  then have "mpsc_contents ?q = map (\<lambda>a. node_value (the (nodes ?q a))) (tl L)"
    unfolding mpsc_contents_def wf(2) by (intro map_cong) (auto split: option.splits)
  then show ?thesis using wf(1) vl by (simp add: values_inv_def)
qed

section \<open>Any schedule\<close>

text \<open>
  C24. Whatever the order in which the producers and the consumer make their steps, no step dereferences a
  null pointer or a deleted node; the values popped are the first ones of those exchanged into the queue,
  in that order, every producer's values get into the queue in the order of its program, and when no push
  is under way the queue is in order and holds exactly the values that are in and not yet popped.
\<close>

theorem queue_linearised:
  "\<exists>s. fold_outcome queue_step sched (queue_run_new d prog) = Inr s \<and>
    (\<exists>left. map snd (exchanged s) = popped s @ left) \<and>
    (\<forall>t. map snd (filter (\<lambda>p. fst p = t) (exchanged s)) @ to_push s t = prog t) \<and>
    (at_rest s \<longrightarrow> mpsc_wf (run_queue s) \<and> map snd (exchanged s) = popped s @ mpsc_contents (run_queue s))"
proof -
  have "program_kept prog (queue_run_new d prog)" by (simp add: program_kept_def queue_run_new_def)
  from queue_run_keeps [OF run_inv_new this] obtain s L where
    s: "fold_outcome queue_step sched (queue_run_new d prog) = Inr s" "run_inv L s" "program_kept prog s"
    by blast
  have "\<exists>left. map snd (exchanged s) = popped s @ left" using s(2) by (auto simp: run_inv_def values_inv_def)
  then show ?thesis using s at_rest_ok [OF s(2)] by (auto simp: program_kept_def)
qed

text \<open>Two producers whose pushes overlap: the second is complete, but hidden until the first has linked.\<close>

definition overlap :: "queue_thread list" where
  "overlap = [Producer 0, Producer 1, Producer 0, Producer 1, Producer 1, Consumer, Consumer]"

definition two_values :: "nat \<Rightarrow> int list" where
  "two_values t = (if t = 0 then [7] else if t = 1 then [8] else [])"

lemma stalled_push_hides:
  "\<exists>s. fold_outcome queue_step overlap (queue_run_new 0 two_values) = Inr s \<and>
    map snd (exchanged s) = [7, 8] \<and> producer_pcs s 1 = P_Idle \<and> popped s = []"
  by (simp add: overlap_def queue_run_new_def two_values_def mpsc_new_def producer_step_def consumer_step_def
      push_make_def push_exchange_def push_link_def pop_find_def deref_def nullptr_def)

theorem queue_linearised_witness:
  "\<exists>s. fold_outcome queue_step (overlap @ [Producer 0, Consumer, Consumer]) (queue_run_new 0 two_values) = Inr s \<and>
    popped s = [7] \<and> mpsc_contents (run_queue s) = [8]"
proof -
  let ?run = "fold_outcome queue_step (overlap @ [Producer 0, Consumer, Consumer]) (queue_run_new 0 two_values)"
  have "\<exists>s. ?run = Inr s \<and> map snd (exchanged s) = [7, 8] \<and> popped s = [7] \<and> at_rest s"
    by (simp add: overlap_def queue_run_new_def two_values_def mpsc_new_def producer_step_def consumer_step_def
        push_make_def push_exchange_def push_link_def pop_find_def pop_take_def deref_def nullptr_def at_rest_def)
  then show ?thesis
    using queue_linearised [of "overlap @ [Producer 0, Consumer, Consumer]" 0 two_values] by auto
qed

end
