(* ===== verification/Spec2Isabelle.thy ===== *)
theory Spec2Isabelle
  imports Service_Minute Samples Rating_Loss Worker_Thread Overseer Service_Main Writer_Lock Rating_Announcer Thread_Joins Answer_Path Queue_Interleaving
begin

text \<open>
  A verification library for a rating service in C++, its test client, and the part of the networking
  library under both that they use. Definitions are translated from the sources under \<open>src/\<close>; names are
  those of the sources where Isabelle allows them.

  \<^bold>\<open>The program.\<close> Clients report registrations, renamings, connections, disconnections and won deals of
  users over one TCP connection. The service collects them minute by minute and keeps a rating of the
  users by the amount won in the week. At the turn of a minute the rating is recalculated; then, second
  by second, every connected user is sent the top of the rating and his surroundings. Threads: the
  listener (\<open>Overseer::run\<close>) fills one of two incoming buffers; the announcer
  (\<open>service/rating_announcer.cpp\<close>) starts the recalculations and hands out users; the workers
  (\<open>service/worker_pool.cpp\<close>) take jobs from lock-free queues (\<open>service/job_queue.cpp\<close>) and write to the
  connection. The test client (\<open>test/\<close>) produces random events, keeps its own rating and compares what
  comes back.

  \<^bold>\<open>Theories and sources.\<close> Foundations:
  \<^item> \<open>Prelude\<close>: outcomes (exceptions and faults as values), machine integers, list lemmas,
    the locales \<open>safe_step\<close> and \<open>simulated_step\<close> for loops over the entries of a container;
  \<^item> \<open>Containers\<close>: the maps and sets of the standard library, the locale \<open>dictionary\<close>;
  \<^item> \<open>Binary_Storage\<close> (\<open>utils/binary_storage.h\<close>): the byte streams, the locale \<open>codec\<close>;
  \<^item> \<open>Protocol\<close>, \<open>Rating_Message\<close> (\<open>ipc/protocol.h\<close>, \<open>test/message_interpreter.h\<close>): the messages;
  \<^item> \<open>Transport\<close>, \<open>Writer_Lock\<close> (\<open>ipc/transport.h\<close>, \<open>utils/spinlock.h\<close>): frames, handshake; the spinlock, the
    sections of the client it guards, and the service's writers, whom it does not;
  \<^item> \<open>Date_Time\<close> (\<open>utils/date_time.h\<close>), \<open>Core_Data\<close> (\<open>service/core_data.h\<close>): clock and data, the latter as a store
    of objects with addresses, so that dangling pointers are faults.

  The rating (\<open>service/rating_calculator.cpp\<close>):
  \<^item> \<open>Rating_Rebuild\<close> (patches, search, the block moving loop), \<open>Rating_Merge\<close> (the loop is a merge),
    \<open>Rating_Plan\<close> (the patches of a run of deals are a plan the loop carries out);
  \<^item> \<open>Rating_Calculator\<close> (the operations, the invariant, the abstract view), \<open>Calculator_Events\<close>,
    \<open>Calculator_Deals\<close> (the phases, through the locale \<open>simulated_step\<close>), \<open>Recalculation\<close> (the whole), \<open>Rating_Loss\<close> (a deal that
    takes money).

  The threads of the service:
  \<^item> \<open>MPSC_Queue\<close>, \<open>Queue_Interleaving\<close>, \<open>Job_Queue\<close> (\<open>service/job_queue.cpp\<close>): the linked queue at node level with
    the locale \<open>fifo_queue\<close>, the same queue under every interleaving of producers and consumer, the
    dealing of jobs in turn;
  \<^item> \<open>Message_Dispatcher\<close>, \<open>Minute_Log\<close>, \<open>Overseer\<close> (\<open>service/message_builder.h\<close>, \<open>service/message_dispatcher.cpp\<close>,
    \<open>service/overseer.cpp\<close>): from bytes to the buffer of the minute, sessions and recovery;
  \<^item> \<open>Worker_Pool\<close>, \<open>Worker_Jobs\<close>, \<open>Worker_Thread\<close> (\<open>service/worker_pool.cpp\<close>): an answer, the three loops with the
    locale \<open>draining\<close>, the life of a thread;
  \<^item> \<open>Rating_Announcer\<close> (\<open>service/rating_announcer.cpp\<close>), \<open>Service_Main\<close> (\<open>service/main.cpp\<close>);
  \<^item> \<open>Refresh_Sync\<close>, \<open>Refresh_Safety\<close>, \<open>Refresh_Waits\<close>: flags, counters, lock and condition variable of all threads as
    a transition system, what it excludes and what it waits for; \<open>Thread_Joins\<close>: what the end of a session
    waits for;
  \<^item> \<open>Service_Minute\<close>, \<open>Samples\<close>: the components joined over a minute, and concrete data.

  The test client:
  \<^item> \<open>Client_Storage\<close>, \<open>Client_Validation\<close> (\<open>test/storage.cpp\<close>): the operations; \<open>Client_Invariant\<close>, \<open>Client_Rating\<close>,
    \<open>Client_Minute\<close>, \<open>Client_Check\<close>: the order they keep, the client's rating, the turn of the minute, what
    the check of a message means;
  \<^item> \<open>Name_Generator\<close> (\<open>test/name_generator.cpp\<close>), \<open>Client_Strategy\<close> (\<open>test/strategy.cpp\<close>, \<open>test/main.cpp\<close>), and
    \<open>Strategy_Groups\<close>, \<open>Strategy_Steps\<close>, \<open>Strategy_Messages\<close>, \<open>Strategy_Run\<close>, \<open>Strategy_Minutes\<close>, \<open>Strategy_Whole\<close>: the main
    thread from one message to a whole run, with the response thread in between;
  \<^item> \<open>Client_Ties\<close>, \<open>Client_Claims\<close>: users of the same amount, and the properties of the client.

  The networking library (\<open>lib/asio-1.10.8\<close>), as compiled on Linux:
  \<^item> \<open>Asio_Kernel\<close>, \<open>Asio_Socket_Ops\<close>, \<open>Asio_Transfer\<close> (\<open>asio/detail/impl/socket_ops.ipp\<close>): system calls, their
    wrappers and waiting loops;
  \<^item> \<open>Asio_Buffers\<close>, \<open>Asio_Stream\<close> (\<open>asio/buffer.hpp\<close>, \<open>asio/impl/write.hpp\<close>, \<open>asio/impl/read.hpp\<close>): sequences of
    buffers, composed transfers, and the derivation of \<open>asio_stream\<close>, the promise \<open>Transport\<close> relies on;
  \<^item> \<open>Asio_Address\<close>, \<open>Asio_Endpoint\<close> (\<open>asio/ip/\<close>): addresses of both families with their order, endpoints as bytes;
  \<^item> \<open>Asio_Connect\<close>, \<open>Asio_Sessions\<close>: opening and closing with the registration of every
    descriptor at the kernel's \<open>epoll\<close>, the life of the descriptors;
  \<^item> \<open>Asio_Claims\<close>, \<open>Answer_Path\<close>: the properties of that layer, and the way of an answer from the worker's
    promise to the client's verdict.

  \<^bold>\<open>What the lemmas show.\<close> For each component: its data stays in order (\<open>core_wf\<close>, \<open>job_queue_wf\<close>, \<open>mpsc_wf\<close>,
  \<open>client_wf\<close>, \<open>run_inv\<close>), no operation meets a failed assertion or a bad access on data in order, and the
  result is that of a specification: \<open>spec_recalculate\<close> for the rating, \<open>merge_rating\<close> for the rebuilding of
  the vector, \<open>rating_good\<close> for the client's check, the list of exchanged values for the queue, encoders
  for the messages. The theorems marked C with a number are the properties proper; where one has
  hypotheses a theorem with the suffix \<open>_witness\<close> applies it to concrete data. Several state faults of
  the code: a deal that takes money aborts the service when it leaves the user with no more than one
  ranked behind him, the promise for the user -1 is dropped, a size field below two ends the service,
  frames of two writers can mix, a failed launch dereferences null, a worker that left on the stop flag is
  waited for for ever, a worker may read the rating while the next recalculation changes it, the client
  rejects right ratings of users who tie; so do the lemmas \<open>failed_recalculation_hangs\<close> (workers asleep behind
  a recalculation that threw are waited for for ever), \<open>mpsc_destructor_leaves_node\<close>, \<open>stalled_push_hides\<close>,
  \<open>strict_build_faults\<close>, \<open>scope_truncated\<close> and \<open>accept_flags_swapped\<close>.

  \<^bold>\<open>Parameters.\<close> Code that is not in the repository comes in as an argument: the kernel (a function from a
  system call and the state of the world to a result), the resolver, the draws of the random generator
  and the rounding of \<open>double\<close> in the client, the readings of the clock. What is asked of them stands in
  named predicates: \<open>stream_kernel\<close> and \<open>errno_set\<close> for the kernel, \<open>draws_between\<close>, \<open>rounding_ok\<close>. What other
  threads do to the data a thread reads is an input of its model (\<open>round_input\<close>, \<open>listener_turn\<close>,
  \<open>sg_replies\<close>), and so is whether the threads of a session end (\<open>sa_joined\<close>, of which \<open>Thread_Joins\<close> speaks); the interleaving itself is the matter of \<open>Refresh_Sync\<close>, \<open>Queue_Interleaving\<close> and \<open>Writer_Lock\<close>.

  \<^bold>\<open>Fuel and partial functions.\<close> The loops of a worker over its queues take fuel, since other threads may
  refill them; one unit more than there are jobs is enough, and the theorems ask for it. The destructor
  of the queue takes one unit more than there are values. The waiting loops of the socket operations may run for
  ever and are \<open>partial_function (option)\<close>; for blocking sockets \<open>Asio_Claims\<close> proves that they return.
  All other loops are recursive functions with a termination proof.

  \<^bold>\<open>Integers.\<close> \<open>int\<close> has 32 bits, \<open>long\<close> and \<open>size_t\<close> 64 (LP64). Fields of messages are words; sums of amounts are
  checked additions whose overflow is a fault; conversions to unsigned types wrap.

  \<^bold>\<open>Not modelled.\<close> Text that is only printed; the weak orders of the atomic accesses (interleavings are
  sequentially consistent); the start of the threads beyond \<open>Refresh_Sync\<close>, where the first buffer is held
  from before the threads start, so that there is no race. Of asio: the asynchronous operations with the
  reactors, timers and strands, SSL, serial ports, the Windows and kqueue branches, \<open>select\<close>, the
  conversions between addresses and texts and \<open>getaddrinfo\<close>, \<open>streambuf\<close> and \<open>read_until\<close>: the program
  makes synchronous calls only and never runs the event loop, so none of it is on its way.

  The theory below holds the properties of the service; those of the locks, the sessions, the command
  line, the client and the sockets are in the theories named.
\<close>

section \<open>The rating\<close>

text \<open>
  C1. From data in order, on a buffer whose connection changes are seconds of the minute (or the mark
  for a disconnection) and whose deals raise the winnings of the users in the rating, the recalculation
  runs to its end without an exception, a failed assertion or an access outside an object; it leaves
  the data in order and the buffer empty, and what it does to names, connections, winnings and reported
  errors is what the abstract specification says: registrations, then renames, connection changes and
  deals, each applied to the user it names or answered with an error.
\<close>

theorem recalculate_refines:
  assumes "calc_inv b s" and "minute_ok dropOld (calc_view s) b"
  shows "\<exists>s'. recalculate dropOld s = Inr s' \<and> core_wf (cs_core s') (cs_online s') \<and>
    job_queue_wf (cs_jobs s') \<and> buffer_empty (cs_incoming s') \<and>
    calc_view s' = spec_recalculate dropOld b (calc_view s)"
  using recalculate_ok [OF assms] by blast

theorem recalculate_refines_witness:
  "\<exists>s'. recalculate False sample_calc = Inr s' \<and> core_wf (cs_core s') (cs_online s') \<and>
    buffer_empty (cs_incoming s') \<and>
    calc_view s' = spec_recalculate False sample_buffer (calc_view sample_calc)"
proof -
  have "calc_inv sample_buffer sample_calc"
    unfolding sample_calc_def by (rule sample_inv) (simp add: sample_buffer_def)
  from recalculate_refines [OF this sample_minute_ok] show ?thesis by blast
qed

text \<open>
  C2. After a recalculation the rating is a ranking: the position stored with a user is between 0 and
  the number of rated users less one and is the index at which the rating vector holds the user, no two
  users share a position, and a user who has won more than another stands before him.
\<close>

theorem recalculate_ranks:
  assumes "calc_inv b s" and "minute_ok dropOld (calc_view s) b"
  shows "\<exists>s'. recalculate dropOld s = Inr s' \<and>
    (\<forall>a u. objects (cs_core s') a = Some u \<longrightarrow>
      0 \<le> user_rating u \<and> user_rating u < int (card (dom (objects (cs_core s')))) \<and>
      rating_vector (cs_core s') ! nat (user_rating u) = a) \<and>
    (\<forall>a u a' u'. objects (cs_core s') a = Some u \<longrightarrow> objects (cs_core s') a' = Some u' \<longrightarrow>
      (user_rating u = user_rating u' \<longrightarrow> a = a') \<and>
      (amountWon u > amountWon u' \<longrightarrow> user_rating u < user_rating u'))"
proof -
  obtain s' where s': "recalculate dropOld s = Inr s'" "core_wf (cs_core s') (cs_online s')"
    using recalculate_ok [OF assms] by blast
  note pos = positions_correct [OF s'(2)]
  have one: "0 \<le> user_rating u \<and> user_rating u < int (card (dom (objects (cs_core s')))) \<and>
      rating_vector (cs_core s') ! nat (user_rating u) = a" if "objects (cs_core s') a = Some u" for a u
    using pos(1-3) [OF that that] by blast
  have two: "(user_rating u = user_rating u' \<longrightarrow> a = a') \<and> (amountWon u > amountWon u' \<longrightarrow> user_rating u < user_rating u')"
    if "objects (cs_core s') a = Some u" "objects (cs_core s') a' = Some u'" for a u a' u'
    using pos(4,5) [OF that] by blast
  show ?thesis using s'(1) one two by (intro exI [of _ s']) simp
qed

theorem recalculate_ranks_witness:
  "\<exists>s'. recalculate True sample_calc = Inr s' \<and>
    (\<forall>a u. objects (cs_core s') a = Some u \<longrightarrow>
      0 \<le> user_rating u \<and> user_rating u < int (card (dom (objects (cs_core s')))) \<and>
      rating_vector (cs_core s') ! nat (user_rating u) = a)"
proof -
  have "calc_inv sample_buffer sample_calc"
    unfolding sample_calc_def by (rule sample_inv) (simp add: sample_buffer_def)
  moreover have "minute_ok True (calc_view sample_calc) sample_buffer"
    using sample_minute_ok by (simp add: minute_ok_def)
  ultimately show ?thesis using recalculate_ranks by blast
qed

text \<open>
  C3. A service started empty goes through any run of minutes whose events meet the conditions of C1 at
  their time: no minute fails, the data is in order after each, and at the end every user and every
  report is as the specification of the minutes, one after the other, says.
\<close>

theorem service_minutes:
  assumes "0 < n" and "n \<le> INT_MAX"
    and "minutes_ok ms (core_rating_data_new, iteration_data_new, job_queue_new n)"
  shows "\<exists>d. fold_outcome minute_step ms (core_rating_data_new, iteration_data_new, job_queue_new n) = Inr d \<and>
    data_wf d \<and> data_view d = fold spec_minute ms (Map.empty, {#})"
  using minutes_run [OF data_wf_new [OF assms(1,2)] assms(3)] data_view_new [OF assms(1)] by simp

theorem service_minutes_witness:
  "\<exists>d. fold_outcome minute_step
      [(False, incoming_data_buffer_new\<lparr>usersRegistered := [(1, [97])], dealsWon := [(1, 9), (2, 4)]\<rparr>)]
      (core_rating_data_new, iteration_data_new, job_queue_new 2) = Inr d \<and> data_wf d"
proof -
  let ?b = "incoming_data_buffer_new\<lparr>usersRegistered := [(1, [97])], dealsWon := [(1, 9), (2, 4)]\<rparr>"
  have "minute_ok False (data_view (core_rating_data_new, iteration_data_new, job_queue_new 2)) ?b"
    using data_view_new [of 2]
    by (auto simp: minute_ok_def incoming_data_buffer_new_def tmap_wf_def deal_ok_def)
  moreover have "room_for (core_rating_data_new, iteration_data_new, job_queue_new 2) ?b"
    by (simp add: room_for_def core_rating_data_new_def INT_MAX_def)
  ultimately have "minutes_ok [(False, ?b)] (core_rating_data_new, iteration_data_new, job_queue_new 2)"
    by (auto split: sum.split)
  from service_minutes [OF _ _ this] show ?thesis by (auto simp: INT_MAX_def)
qed

text \<open>
  C4. The in-place rebuilding of the rating vector (blocks moved by \<open>memmove\<close>, from the end, one patch
  at a time) passes all its assertions and gives what merging gives: the users without a deal in their
  order, merged with the users of the deals by amount.
\<close>

theorem rebuild_is_merge:
  assumes "plan_ok R idx amt amt' U" and "deal_plan R idx amt amt' U ps"
    and "\<forall>u \<in> set U. u \<noteq> nullptr \<and> u \<in> dom h"
    and "fresh = length (filter (\<lambda>u. u \<notin> set R) U)"
    and "int (length R + fresh) \<le> INT_MAX"
  shows "\<exists>s. rebuild_rating fresh ps h R = Inr s \<and>
    rb_vector s = merge_rating amt' (filter (\<lambda>r. r \<notin> set U) R) (rev (sort_key amt' U)) \<and>
    ranked amt' (rb_vector s) \<and> distinct (rb_vector s) \<and> set (rb_vector s) = set R \<union> set U \<and>
    rb_objects s = new_amounts amt' U h"
proof -
  have "\<And>u. u \<in> set U \<Longrightarrow> u \<noteq> nullptr \<and> u \<in> dom h" using assms(3) by blast
  from deal_plan_rebuild [OF assms(1,2) this assms(4,5)] show ?thesis
    using ranked_new_rating [OF assms(1)] distinct_new_rating [OF assms(1)] set_new_rating
    by (auto simp: new_rating_def)
qed

theorem rebuild_is_merge_witness:
  "\<exists>s. rebuild_rating 1
      (patch_emplace (new_patch 3 1 NewPosition 60)
        (patch_emplace (new_patch 1 2 NewPosition 90) (patch_emplace (old_patch 0) [])))
      [1 \<mapsto> sample_user10, 2 \<mapsto> sample_user20, 3 \<mapsto> sample_user10] [2, 1] = Inr s \<and>
    rb_vector s = [1, 2, 3]"
proof -
  let ?idx = "(\<lambda>_. 0)(1 := 1) :: nat \<Rightarrow> nat" and ?amt = "(\<lambda>_. 0)(1 := 50, 2 := 70) :: nat \<Rightarrow> int"
  let ?amt' = "(\<lambda>_. 0)(1 := 90, 2 := 70, 3 := 60) :: nat \<Rightarrow> int"
  let ?ps = "patch_emplace (new_patch 3 1 NewPosition 60)
        (patch_emplace (new_patch 1 2 NewPosition 90) (patch_emplace (old_patch 0) []))"
  have ok: "plan_ok [2, 1] ?idx ?amt ?amt' [1, 3]" by (simp add: plan_ok_def ranked_def)
  have "deal_plan [2, 1] ?idx ?amt ?amt' ([] @ [1]) (patch_emplace (new_patch 1 2 NewPosition 90) (patch_emplace (old_patch 0) []))"
    using deal_plan_snoc [OF deal_plan_Nil, of "[2, 1]" ?idx ?amt ?amt' 1] by (simp add: place_def)
  from deal_plan_snoc [OF this, of 3] have plan: "deal_plan [2, 1] ?idx ?amt ?amt' [1, 3] ?ps"
    by (simp add: place_def)
  have "\<exists>s. rebuild_rating 1 ?ps [1 \<mapsto> sample_user10, 2 \<mapsto> sample_user20, 3 \<mapsto> sample_user10] [2, 1] = Inr s \<and>
      rb_vector s = merge_rating ?amt' (filter (\<lambda>r. r \<notin> set [1, 3]) [2, 1]) (rev (sort_key ?amt' [1, 3]))"
    using rebuild_is_merge [OF ok plan, of "[1 \<mapsto> sample_user10, 2 \<mapsto> sample_user20, 3 \<mapsto> sample_user10]" 1]
    by (auto simp: nullptr_def INT_MAX_def)
  then show ?thesis by simp
qed

text \<open>
  The search for the place of an amount (\<open>std::upper_bound\<close> over the pointers of the rating) reads
  only objects that are there and yields the number of rated users who have won less.
\<close>

theorem elements_after_counts:
  assumes "rating_wf h v" and "\<forall>a \<in> set v. a \<noteq> nullptr"
  shows "ratingElementsAfter h v w = Inr (int (length (filter (\<lambda>a. amount_in h a < w) v)))"
proof -
  have "amounts_of h v (amount_in h)"
    using assms rating_wfD(1) [OF assms(1)] by (auto simp: amounts_of_def amount_in_def)
  then obtain p where p: "is_place (amount_in h) v w p" "ratingElementsAfter h v w = Inr (int (length v) - int p)"
    using ratingElementsAfter_correct rating_wfD(3,4) [OF assms(1)] by blast
  have pl: "p \<le> length v" using p(1) by (simp add: is_place_def)
  have "filter (\<lambda>a. amount_in h a < w) (take p v) = []"
    using p(1) by (auto simp: is_place_def filter_empty_conv in_set_conv_nth not_less)
  moreover have "filter (\<lambda>a. amount_in h a < w) (drop p v) = drop p v"
    using p(1) by (auto simp: is_place_def filter_id_conv in_set_conv_nth)
  ultimately have "filter (\<lambda>a. amount_in h a < w) (take p v @ drop p v) = drop p v"
    by (simp only: filter_append) simp
  then have "length (filter (\<lambda>a. amount_in h a < w) v) = length v - p" by simp
  then show ?thesis using p(2) pl by (simp add: of_nat_diff)
qed

theorem elements_after_counts_witness:
  "ratingElementsAfter (objects sample_core) (rating_vector sample_core) 60 = Inr 1"
proof -
  have "\<forall>a \<in> set (rating_vector sample_core). a \<noteq> nullptr" by (simp add: sample_core_def nullptr_def)
  from elements_after_counts [OF sample_rating this, of 60] show ?thesis
    by (simp add: sample_core_def sample_users amount_in_def)
qed

text \<open>
  C30. Amounts are not checked, and a deal that takes money from a user of the rating may end the service:
  from data in order, in a minute whose only event is a deal of a user of the rating, with a sum that fits
  a \<open>long\<close>, the recalculation stops in a failed assertion exactly when someone ranked behind the user has
  at least the user's new amount. The loop then comes to the user's new position before his old one is
  free, and the assertion of \<open>ratingMoveBlock\<close> sees a negative offset. A deal of nothing is enough where
  users tie.
\<close>

theorem loss_aborts:
  assumes "calc_inv b s" and "usersRegistered b = []" and "usersRenamed b = []" and "connectionChanges b = []"
    and "dealsWon b = [(k, x)]"
    and "hmap_find k (activeUsers (cs_core s)) = Some a" and "objects (cs_core s) a = Some u"
    and "in_long (amountWon u + x)"
  shows "recalculate False s = Inl (Fault Assertion_Failed) \<longleftrightarrow>
    (\<exists>i < length (rating_vector (cs_core s)). user_rating u < int i \<and>
      amountWon u + x \<le> amount_in (objects (cs_core s)) (rating_vector (cs_core s) ! i))"
  by (rule one_deal_aborts [OF assms])

theorem loss_aborts_witness:
  "recalculate False (calc_start sample_core sample_online (loss_buffer 30) (job_queue_new 2)) =
      Inl (Fault Assertion_Failed) \<and>
    recalculate False (calc_start sample_core sample_online (loss_buffer 10) (job_queue_new 2)) \<noteq>
      Inl (Fault Assertion_Failed)"
proof -
  have loss: "recalculate False (calc_start sample_core sample_online (loss_buffer x) (job_queue_new 2)) =
      Inl (Fault Assertion_Failed) \<longleftrightarrow> 20 \<le> x" if "x \<le> 100" "0 \<le> x" for x
  proof -
    have inv: "calc_inv (loss_buffer x) (calc_start sample_core sample_online (loss_buffer x) (job_queue_new 2))"
      by (rule sample_inv) (simp add: loss_buffer_def)
    have buf: "usersRegistered (loss_buffer x) = []" "usersRenamed (loss_buffer x) = []"
        "connectionChanges (loss_buffer x) = []" "dealsWon (loss_buffer x) = [(20, - x)]"
      by (simp_all add: loss_buffer_def incoming_data_buffer_new_def)
    have core: "cs_core (calc_start sample_core sample_online (loss_buffer x) (job_queue_new 2)) = sample_core"
      by (simp add: calc_start_def)
    have user: "hmap_find 20 (activeUsers sample_core) = Some 2" "objects sample_core 2 = Some sample_user20"
      by (simp_all add: sample_core_def hmap_find_def)
    have "in_long (amountWon sample_user20 + - x)" using that by (simp add: sample_users in_long_def)
    from loss_aborts [OF inv buf, unfolded core, OF user this]
    have "recalculate False (calc_start sample_core sample_online (loss_buffer x) (job_queue_new 2)) =
        Inl (Fault Assertion_Failed) \<longleftrightarrow>
      (\<exists>i < length (rating_vector sample_core). user_rating sample_user20 < int i \<and>
        amountWon sample_user20 + - x \<le> amount_in (objects sample_core) (rating_vector sample_core ! i))" .
    moreover have "length (rating_vector sample_core) = 2" "user_rating sample_user20 = 0"
        "amountWon sample_user20 = 70" "amount_in (objects sample_core) (rating_vector sample_core ! 1) = 50"
      by (simp_all add: sample_core_def sample_users amount_in_def)
    moreover have "(\<exists>i < (2::nat). 0 < int i \<and> P i) \<longleftrightarrow> P 1" for P
      by (auto dest!: less_2_cases intro: exI [of _ 1])
    ultimately show ?thesis by simp
  qed
  show ?thesis using loss [of 30] loss [of 10] by simp
qed

section \<open>The messages to the client\<close>

text \<open>
  C5. What a worker sends for a user at a position of the rating reaches the client as meant: the
  client's transport takes exactly the bytes of this message from the connection, and its reader makes
  of them the rating message with the user's identifier, the length of the rating, the position, and
  the entries of the top ten and of ten positions to either side, each once and in order. The
  worker's buffer is back in the cached state for the next message.
\<close>

theorem rating_message_received:
  assumes "serving c" and "cached c bd" and "pos \<le> length (rating_vector c)" and "in_int uid"
    and "asio_stream wr rd sent pending"
    and "processRatingImpl wr c uid (int pos) bd n = (Inr bd', n')"
    and "pending m = drop (length (sent n)) (sent n') @ rest"
  shows "cached c bd' \<and>
    (\<exists>s s' m'. layer_receive rd m = (Inr s, m') \<and> pending m' = rest \<and>
      interpretIncomingData s = Inr (Rating_Message (pack_for c uid pos), s'))"
proof -
  note wire = serving_wire [OF assms(1)]
  from processRatingImpl_ok [OF wire assms(2,3,5), of uid n] assms(6)
  have bd': "cached c bd'" "sent n' = sent n @ frame (rating_body c uid pos)" by auto
  have "pending m = frame (rating_body c uid pos) @ rest" using assms(7) bd'(2) by simp
  from layer_receive_frame [OF assms(5) this rating_body_small [OF wire assms(3)]] show ?thesis
    using rating_body_read [OF wire assms(3,4)] bd'(1) by blast
qed

theorem rating_message_received_witness:
  "\<exists>bd bd' n'. cached sample_core bd \<and> processRatingImpl link_write sample_core 10 1 bd [] = (Inr bd', n') \<and>
    (\<exists>s s' m'. layer_receive link_read n' = (Inr s, m') \<and>
      interpretIncomingData s = Inr (Rating_Message (pack_for sample_core 10 1), s'))"
proof -
  obtain bd where bd: "cached sample_core bd"
    using cacheTopRatings_fresh [OF serving_wire [OF sample_serving]] by blast
  have pos: "1 \<le> length (rating_vector sample_core)" by (simp add: sample_core_def)
  have uid: "in_int 10" by (simp add: in_int_def)
  from processRatingImpl_runs [OF serving_wire [OF sample_serving] bd pos asio_stream_link, of 10 "[]"]
  obtain bd' n' where run: "processRatingImpl link_write sample_core 10 (int 1) bd [] = (Inr bd', n')"
    by (auto simp: link_write_def)
  have "id n' = drop (length (id ([] :: buffer_t))) (id n') @ []" by simp
  from rating_message_received [OF sample_serving bd pos uid asio_stream_link run this] show ?thesis
    using bd run by auto
qed

text \<open>
  A worker's answer never fails in another way than by the recoverable transport error: storing
  the entries, overwriting the header and the assertions on position and buffer all succeed.
\<close>

theorem rating_message_no_fault:
  assumes "serving c" and "cached c bd" and "asio_stream wr rd sent pending"
    and "answer_position c p = Some pos"
  shows "(\<exists>bd' n'. processRatingPromise wr c p bd n = (Inr (True, bd'), n') \<and> cached c bd' \<and>
      sent n' = sent n @ frame (rating_body c (fst p) pos)) \<or>
    (\<exists>n'. processRatingPromise wr c p bd n = (Inl (Throw Transport_Error_Recoverable), n'))"
  using processRatingPromise_ok [OF assms(1-3), of p n] assms(4) by simp

theorem rating_message_no_fault_witness:
  "\<exists>bd. cached sample_core bd \<and>
    ((\<exists>bd' n'. processRatingPromise link_write sample_core (30, False) bd [] = (Inr (True, bd'), n') \<and>
        n' = frame (rating_body sample_core 30 2)) \<or>
     (\<exists>n'. processRatingPromise link_write sample_core (30, False) bd [] =
        (Inl (Throw Transport_Error_Recoverable), n')))"
proof -
  obtain bd where bd: "cached sample_core bd"
    using cacheTopRatings_fresh [OF serving_wire [OF sample_serving]] by blast
  have "answer_position sample_core (30, False) = Some 2"
    by (simp add: answer_position_def sample_core_def hmap_find_def userExists_def)
  from rating_message_no_fault [OF sample_serving bd asio_stream_link this, of "[]"] bd show ?thesis by auto
qed

text \<open>
  The reader computes the number of entries from the length of the rating and the position alone;
  for every position of a rating, the place past the end included, that is the number of positions the
  worker tells.
\<close>

theorem entry_count_agrees:
  assumes "pos \<le> n"
  shows "ratingEntryCount (int n) (int pos) =
    int (length (filter (\<lambda>i. i < 10 \<or> pos \<le> i + 10 \<and> i \<le> pos + 10) [0..<n]))"
  using length_told_positions [OF assms] by (simp add: told_positions_def)

theorem entry_count_agrees_witness: "ratingEntryCount 40 25 = 31"
  using entry_count_agrees [of 25 40] by (simp add: ratingEntryCount_def topPositions_def competitionDistance_def)

text \<open>
  Every rating message fits the two bytes of its size field, whatever the names.
\<close>

theorem rating_frame_bound:
  assumes "serving c" and "pos \<le> length (rating_vector c)"
  shows "length (frame (rating_body c uid pos)) < 2 ^ 16"
  using rating_body_small [OF serving_wire [OF assms(1)] assms(2), of uid] by (simp add: frame_def)

theorem rating_frame_bound_witness: "length (frame (rating_body sample_core 10 1)) < 2 ^ 16"
  by (rule rating_frame_bound [OF sample_serving]) (simp add: sample_core_def)

text \<open>
  C17. One round of a worker answers every job that waits in its three queues, once and in the order of
  arrival, errors before promises before user data, leaves these queues empty and the other workers'
  queues alone, and reports whether there was a job. The alternative is the recoverable transport error.
\<close>

theorem worker_round_answers:
  assumes "job_queue_wf q" and "c < length (packs q)" and "lane_ok core q c"
    and "ratings_inv wr rd sent pending core bd" and "errors_inv wr rd sent pending eb"
    and "length (error_lanes q ! c) < fuel" and "length (promise_lanes q ! c) < fuel"
    and "length (user_data_lanes q ! c) < fuel"
  shows "(\<exists>new q' bd' eb' n'. serve_jobs fuel wr 3 core c q bd eb n = (Inr (Some (new, q', bd', eb')), n') \<and>
      (new \<longleftrightarrow> error_lanes q ! c \<noteq> [] \<or> promise_lanes q ! c \<noteq> [] \<or> user_data_lanes q ! c \<noteq> []) \<and>
      job_queue_wf q' \<and> error_lanes q' = (error_lanes q)[c := []] \<and>
      promise_lanes q' = (promise_lanes q)[c := []] \<and> user_data_lanes q' = (user_data_lanes q)[c := []] \<and>
      sent n' = sent n @ concat (map error_answer (error_lanes q ! c)) @
        concat (map (promise_answer core) (promise_lanes q ! c)) @
        concat (map (user_data_answer core) (user_data_lanes q ! c))) \<or>
    (\<exists>n'. serve_jobs fuel wr 3 core c q bd eb n = (Inl (Throw Transport_Error_Recoverable), n'))"
  using serve_jobs_ok [OF assms, of n] unfolding round_answers_def by blast

theorem worker_round_answers_witness:
  "\<exists>q bd. enqueueUserData Announcer 1 (job_queue_new 2) = Inr q \<and>
    ((\<exists>new q' bd' eb' n'. serve_jobs 2 link_write 3 sample_core 0 q bd createAdaptedErrorBuffer [] =
        (Inr (Some (new, q', bd', eb')), n') \<and> new \<and> n' = user_data_answer sample_core 1) \<or>
     (\<exists>n'. serve_jobs 2 link_write 3 sample_core 0 q bd createAdaptedErrorBuffer [] =
        (Inl (Throw Transport_Error_Recoverable), n')))"
proof -
  obtain bd where bd: "cached sample_core bd"
    using cacheTopRatings_fresh [OF serving_wire [OF sample_serving]] by blast
  from enqueueUserData_ok [OF sample_queue_wf, of Announcer 1] obtain q where
    q: "enqueueUserData Announcer 1 (job_queue_new 2) = Inr q" "job_queue_wf q"
      "user_data_lanes q = [[1], []]" "error_lanes q = [[], []]" "promise_lanes q = [[], []]"
    by (auto simp: numeral_2_eq_2) (simp add: job_queue_new_def)
  have len: "length (packs q) = 2" using lanes_length(1) [of q] q(4) by simp
  have ok: "lane_ok sample_core q 0" using q(3-5) by (simp add: lane_ok_def sample_core_def)
  have inv: "ratings_inv link_write link_read id id sample_core bd"
    "errors_inv link_write link_read id id createAdaptedErrorBuffer"
    using bd sample_serving asio_stream_link error_ready_fresh by (simp_all add: ratings_inv_def errors_inv_def)
  from worker_round_answers [OF q(2) _ ok inv, of 2 "[]"] q len show ?thesis
    by (intro exI [of _ q] exI [of _ bd]) auto
qed

text \<open>
  C7. A worker's thread answers, round after round, every job that arrives in its lanes, before a refresh
  from the old rating and behind it from the new; it never meets a fault, and the only exception that
  leaves it is the recoverable transport error, which it has signalled as such.
\<close>

theorem worker_thread_answers:
  fixes wr :: "'n asio_write" and rd :: "'n asio_read"
  assumes "serving core" and "asio_stream wr rd sent pending" and "job_queue_wf q" and "c < length (packs q)"
    and "error_lanes q ! c = []" "promise_lanes q ! c = []" "user_data_lanes q ! c = []"
    and "rounds_fit fuel (length (packs q)) c core rxs"
  shows "(\<exists>st n'. doWork fuel wr c core q (map fst rxs) sig n = (Finished (Some st), n') \<and>
      sent n' = sent n @ rounds_output core rxs) \<or>
    (\<exists>n'. doWork fuel wr c core q (map fst rxs) sig n =
      (Rethrown Transport_Error_Recoverable (signalError False sig) (-1), n'))"
proof -
  obtain bd where bd: "cacheTopRatings core (rating_buffer_make createAdaptedRatingBuffer) = Inr bd" "cached core bd"
    using cacheTopRatings_fresh [OF serving_wire [OF assms(1)]] by blast
  have base: "getPos createAdaptedErrorBuffer = 3"
    by (simp add: adapted_buffers getPos_sized del: service_code.simps)
  let ?st = "\<lparr> ws_core = core, ws_queue = q, ws_rating = bd, ws_error = createAdaptedErrorBuffer \<rparr>"
  have "worker_ready wr rd sent pending (length (packs q)) c ?st"
    using assms bd(2) error_ready_fresh by (simp add: worker_ready_def ratings_inv_def errors_inv_def)
  from worker_rounds_serve [OF this, of fuel rxs n] assms(8) show ?thesis
    using bd(1) base by (auto simp: doWork_def worker_body_def io_bind_def Let_def)
qed

theorem worker_thread_answers_witness:
  "\<exists>f. brings 2 0 f ([], [], [1]) \<and>
    ((\<exists>st n'. doWork 2 link_write 0 sample_core (job_queue_new 2)
        [\<lparr> ri_badFlag = False, ri_refreshed = Some sample_core, ri_arrived = f \<rparr>] stop_signals_new [] =
        (Finished (Some st), n') \<and> n' = user_data_answer sample_core 1) \<or>
     (\<exists>n'. doWork 2 link_write 0 sample_core (job_queue_new 2)
        [\<lparr> ri_badFlag = False, ri_refreshed = Some sample_core, ri_arrived = f \<rparr>] stop_signals_new [] =
        (Rethrown Transport_Error_Recoverable (signalError False stop_signals_new) (-1), n')))"
proof -
  define f where "f = (\<lambda>q. case enqueueUserData Announcer 1 (q\<lparr>user_data_cursor := (\<lambda>_. 0)\<rparr>) of
      Inr q' \<Rightarrow> q' | Inl _ \<Rightarrow> q)"
  have f: "brings 2 0 f ([], [], [1])"
    unfolding brings_def
  proof (intro allI impI)
    fix q assume q: "job_queue_wf q" "length (packs q) = 2"
    let ?q = "q\<lparr>user_data_cursor := (\<lambda>_. 0)\<rparr>"
    have "job_queue_wf ?q" using q by (simp add: job_queue_wf_def cursors_wf_def)
    from enqueueUserData_ok [OF this, of Announcer 1] obtain q' where q': "enqueueUserData Announcer 1 ?q = Inr q'"
        "job_queue_wf q'" "user_data_lanes q' = (user_data_lanes q)[0 := user_data_lanes q ! 0 @ [1]]"
        "error_lanes q' = error_lanes q" "promise_lanes q' = promise_lanes q"
      by (auto simp: lanes_defs)
    have "length (packs q') = 2" using q'(4) q(2) by (metis lanes_length(1))
    moreover have "0 < length (user_data_lanes q)" using q(2) by simp
    ultimately show "job_queue_wf (f q) \<and> length (packs (f q)) = 2 \<and>
        error_lanes (f q) ! 0 = error_lanes q ! 0 @ fst ([], [], [1]) \<and>
        promise_lanes (f q) ! 0 = promise_lanes q ! 0 @ fst (snd ([], [], [1])) \<and>
        user_data_lanes (f q) ! 0 = user_data_lanes q ! 0 @ snd (snd ([], [], [1]))"
      using q' by (simp add: f_def)
  qed
  let ?r = "\<lparr> ri_badFlag = False, ri_refreshed = Some sample_core, ri_arrived = f \<rparr>"
  let ?rxs = "[(?r, ([], [], [1]) :: arrivals)]"
  have q: "length (packs (job_queue_new 2)) = 2" by (simp add: job_queue_new_def)
  have "rounds_fit 2 (length (packs (job_queue_new 2))) 0 sample_core ?rxs"
    unfolding q using f sample_serving by (simp add: round_fits_def core_after_def sample_core_def)
  from worker_thread_answers [OF sample_serving asio_stream_link sample_queue_wf _ _ _ _ this, of stop_signals_new "[]"]
  show ?thesis
    using f q by (intro exI [of _ f]) (simp add: round_output_def core_after_def numeral_2_eq_2)
qed

text \<open>
  An error object a worker sends is read back by the client as the same error with the same user.
\<close>

theorem error_message_received:
  assumes "error_ready b" and "valid_error e" and "asio_stream wr rd sent pending"
    and "processError wr 3 (Some e) b n = (Inr b', n')"
    and "pending m = drop (length (sent n)) (sent n') @ rest"
  shows "error_ready b' \<and>
    (\<exists>s s' m'. layer_receive rd m = (Inr s, m') \<and> pending m' = rest \<and>
      interpretIncomingData s = Inr (Error_Message e, s'))"
proof -
  from processError_ok [OF assms(1-3), of n] assms(4)
  have b': "error_ready b'" "sent n' = sent n @ frame (error_body e)" by auto
  have "pending m = frame (error_body e) @ rest" using assms(5) b'(2) by simp
  moreover have "length (error_body e) + 2 < 2 ^ 16" by (simp add: error_body_def)
  ultimately show ?thesis
    using layer_receive_frame [OF assms(3)] error_body_read [OF assms(2)] b'(1) by blast
qed

theorem error_message_received_witness:
  "\<exists>b' n'. processError link_write 3 (Some (UserUnrecognizedError 7)) createAdaptedErrorBuffer [] = (Inr b', n') \<and>
    (\<exists>s s' m'. layer_receive link_read n' = (Inr s, m') \<and>
      interpretIncomingData s = Inr (Error_Message (UserUnrecognizedError 7), s'))"
proof -
  have valid: "valid_error (UserUnrecognizedError 7)" by (simp add: in_int_def)
  from processError_ok [OF error_ready_fresh valid asio_stream_link, of "[]"] obtain b' n' where
    run: "processError link_write 3 (Some (UserUnrecognizedError 7)) createAdaptedErrorBuffer [] = (Inr b', n')"
    by (auto simp: processError_def blockedWriteMessage_def writeMessage_def layer_send_def link_write_def
        io_bind_def io_return_def Let_def)
  have "id n' = drop (length (id ([] :: buffer_t))) (id n') @ []" by simp
  from error_message_received [OF error_ready_fresh valid asio_stream_link run this] show ?thesis
    using run by auto
qed

section \<open>The queues\<close>

text \<open>
  C23. The jobs a thread enqueues, errors, promises and user data in any order, are dealt to the workers in
  turn, each kind with a cursor of its own: from a queue in order every job is taken, worker \<open>i\<close> finds
  behind what it had of a kind exactly the jobs of that kind whose number, counted from the thread's cursor
  for it, leaves \<open>i\<close> modulo the number of workers, in order, and over all workers no job is lost or doubled.
\<close>

theorem jobs_dealt_in_turn:
  assumes "job_queue_wf q"
  shows "\<exists>q'. fold_outcome (enqueue_job t) js q = Inr q' \<and> job_queue_wf q' \<and>
    dealt (error_lanes q) (nat (error_cursor q t)) (errors_in js) (error_lanes q') \<and>
    dealt (promise_lanes q) (nat (promise_cursor q t)) (promises_in js) (promise_lanes q') \<and>
    dealt (user_data_lanes q) (nat (user_data_cursor q t)) (user_data_in js) (user_data_lanes q')"
  by (rule enqueue_jobs_dealt [OF assms])

theorem jobs_dealt_in_turn_witness:
  "\<exists>q'. fold_outcome (enqueue_job Announcer)
      [Error_Job None, User_Data_Job 3, Error_Job (Some (UserUnrecognizedError 4)), User_Data_Job 5, User_Data_Job 7]
      (job_queue_new 2) = Inr q' \<and>
    error_lanes q' = [[None], [Some (UserUnrecognizedError 4)]] \<and> user_data_lanes q' = [[3, 7], [5]]"
proof -
  let ?js = "[Error_Job None, User_Data_Job 3, Error_Job (Some (UserUnrecognizedError 4)), User_Data_Job 5, User_Data_Job 7]"
  have cursors: "error_cursor (job_queue_new 2) t = 0" "user_data_cursor (job_queue_new 2) t = 0" for t
    by (simp_all add: job_queue_new_def)
  from jobs_dealt_in_turn [OF sample_queue_wf, of Announcer ?js] obtain q' where
    q': "fold_outcome (enqueue_job Announcer) ?js (job_queue_new 2) = Inr q'"
      "dealt [[], []] 0 [None, Some (UserUnrecognizedError 4)] (error_lanes q')"
      "dealt [[], []] 0 [3, 5, 7] (user_data_lanes q')"
    by (auto simp: cursors numeral_2_eq_2)
  have two: "xs = [xs ! 0, xs ! 1]" if "length xs = 2" for xs :: "'a list list"
    using that by (auto simp: length_Suc_conv numeral_2_eq_2)
  have "error_lanes q' = [[None], [Some (UserUnrecognizedError 4)]]"
    using q'(2) by (subst two) (simp_all add: dealt_def numeral_2_eq_2 less_Suc_eq all_conj_distrib upt_rec)
  moreover have "user_data_lanes q' = [[3, 7], [5]]"
    using q'(3) by (subst two) (simp_all add: dealt_def numeral_2_eq_2 less_Suc_eq all_conj_distrib upt_rec)
  ultimately show ?thesis using q'(1) by blast
qed

text \<open>
  A queue of the job queue is first in, first out: after any values were pushed on a new queue, no
  push having failed, as many calls of \<open>tryPop\<close> return them in the order of the pushes, and further
  calls return nothing.
\<close>

theorem mpsc_first_in_first_out:
  "\<exists>q q'. fold_outcome mpsc_push vs (mpsc_new d) = Inr q \<and>
    pop_times (length vs + k) q = Inr (map Some vs @ replicate k None, q')"
proof -
  from mpsc.push_all [OF mpsc_new_wf, of vs d] obtain q where
    q: "fold_outcome mpsc_push vs (mpsc_new d) = Inr q" "mpsc_wf q" "mpsc_contents q = vs" by auto
  then show ?thesis using pop_times_ok [OF q(2), of "length vs + k"] by auto
qed

text \<open>
  The destructor's loop ends after at most one round more than there are values, and leaves the
  queue empty but for one node, the one the head points to, which is never deleted.
\<close>

theorem mpsc_destructor_leaves_node:
  assumes "mpsc_wf q" and "length (mpsc_contents q) < fuel"
  shows "\<exists>q'. mpsc_drain fuel q = Inr (Some q') \<and> mpsc_contents q' = [] \<and>
    dom (nodes q') = {mpsc_head q'}"
proof -
  have "dom (nodes q) = set (mpsc_head q # mpsc_cells q)" "distinct (mpsc_head q # mpsc_cells q)"
    by (rule mpsc_wfE [OF assms(1)], assumption)+
  then have "card (dom (nodes q)) = length (mpsc_head q # mpsc_cells q)" by (metis distinct_card)
  then have "card (dom (nodes q)) \<le> fuel" using assms(2) by (simp add: mpsc_contents_def)
  from mpsc_drain_stops [OF assms(1) this] show ?thesis by blast
qed

theorem mpsc_destructor_leaves_node_witness:
  "\<exists>q'. mpsc_drain 1 (mpsc_new (0::nat)) = Inr (Some q') \<and> dom (nodes q') = {mpsc_head q'}"
  using mpsc_destructor_leaves_node [OF mpsc_new_wf, of 0 1] by auto

text \<open>
  C34. A promise for the user with the identifier -1 is taken for the end of the queue: wherever it comes to
  the front the loop over the promises stops, so that it is never answered, neither with a rating nor
  with an error, and the promises behind it wait for the next round.
\<close>

theorem promise_minus_one_dropped:
  assumes "job_queue_wf q" and "c < length (packs q)" and "promise_lanes q ! c = (-1, b) # rest"
  shows "\<exists>q'. promises_loop (Suc fuel) wr base core c newJobs q s n = (Inr (Some (newJobs, q', s)), n) \<and>
    job_queue_wf q' \<and> promise_lanes q' = (promise_lanes q)[c := rest]"
  using dequeueUserIdPromise_ok [OF assms(1,2)] assms(3)
  by (auto simp: promises_loop_def io_bind_def io_lift_def io_return_def invalidId_def invalidUserId_def)

theorem promise_minus_one_dropped_witness:
  "\<exists>q. enqueueUserIdPromise Listener (-1, True) (job_queue_new 2) = Inr q \<and>
    (\<forall>s. \<exists>q'. promises_loop 5 link_write 3 sample_core 0 False q s [] = (Inr (Some (False, q', s)), []) \<and>
      promise_lanes q' = [[], []])"
proof -
  from enqueueUserIdPromise_ok [OF sample_queue_wf, of Listener "(-1, True)"] obtain q where
    q: "enqueueUserIdPromise Listener (-1, True) (job_queue_new 2) = Inr q" "job_queue_wf q"
      "promise_lanes q = [[(-1, True)], []]"
    by (auto simp: numeral_2_eq_2) (simp add: job_queue_new_def)
  have "length (packs q) = 2" using lanes_length(2) [of q] q(3) by simp
  then have c: "0 < length (packs q)" by simp
  have "promise_lanes q ! 0 = (-1, True) # []" using q(3) by simp
  from promise_minus_one_dropped [OF q(2) c this, of 4 link_write 3 sample_core False _ "[]"] q
  show ?thesis by (auto simp: eval_nat_numeral)
qed

section \<open>The messages from the client\<close>

text \<open>
  C8. The listener understands what the client may send: for the bytes of any registration, renaming,
  connection, disconnection or deal, whatever its message objects held before, one turn of its loop does
  to the buffer and the job queue what the event says, and fails only where that does.
\<close>

theorem listener_enters_event:
  assumes "valid_event e"
  shows "\<exists>bat'. listen now (istream_of (enc_event e)) bat b q =
    bind_outcome (enter_event now e (b, q)) (\<lambda>(b1, q1). Inr (bat', b1, q1))"
  by (rule listen_event [OF assms])

theorem listener_enters_event_witness:
  "\<exists>bat'. listen 0 (istream_of (enc_event (Renamed 3 [97, 98]))) message_battery_new
      incoming_data_buffer_new (job_queue_new 2) =
    Inr (bat', incoming_data_buffer_new\<lparr>usersRenamed := [(3, [97, 98])]\<rparr>, job_queue_new 2)"
  using listener_enters_event [of "Renamed 3 [97, 98]" 0 message_battery_new incoming_data_buffer_new "job_queue_new 2"]
  by (simp add: in_int_def UCHAR_MAX_def incoming_data_buffer_new_def)

text \<open>
  C9. The listener, on the messages of any run of valid events with deals whose amounts are not negative
  and whose sums for each user fit a \<open>long\<close>, runs without an exception, whatever its message objects held,
  and leaves in an empty buffer, for each user, the first registered name, the first new name, the last
  change of connection (the second of the minute, or the mark for a disconnection) and the sum of the
  deals.
\<close>

theorem minute_log:
  assumes "job_queue_wf q" and "\<forall>(now, e) \<in> set evs. valid_event e"
    and "deals_fit evs incoming_data_buffer_new"
  shows "\<exists>bat' b' q'. fold_outcome
      (\<lambda>(now, e) (bat, b, q). listen now (istream_of (enc_event e)) bat b q) evs
      (bat, incoming_data_buffer_new, q) = Inr (bat', b', q') \<and> job_queue_wf q' \<and>
    (\<forall>k. tmap_find k (usersRegistered b') = map_of (List.map_filter registration_of evs) k) \<and>
    (\<forall>k. tmap_find k (usersRenamed b') = map_of (List.map_filter rename_of evs) k) \<and>
    (\<forall>k. tmap_find k (connectionChanges b') = map_of (rev (List.map_filter connection_of evs)) k) \<and>
    (\<forall>k. tmap_find k (dealsWon b') =
      (if deals_of k evs = [] then None else Some (sum_list (deals_of k evs))))"
proof -
  have "listening (incoming_data_buffer_new, q)" using assms(1) buffer_wf_new by (simp add: listening_def)
  from enter_all_ok [OF this assms(3)] obtain b' q' where
    run: "enter_all evs (incoming_data_buffer_new, q) = Inr (b', q')" "listening (b', q')"
      "usersRegistered b' = fold (\<lambda>(k, v). tmap_emplace k v) (List.map_filter registration_of evs) []"
      "usersRenamed b' = fold (\<lambda>(k, v). tmap_emplace k v) (List.map_filter rename_of evs) []"
      "connectionChanges b' = fold (\<lambda>(k, v). tmap_assign k v) (List.map_filter connection_of evs) []"
      "\<forall>k. tmap_find k (dealsWon b') = (if deals_of k evs = [] then None else Some (sum_list (deals_of k evs)))"
    by (auto simp: incoming_data_buffer_new_def tmap_at_def)
  have last: "tmap_find k (fold (\<lambda>(k, v). tmap_assign k v) kvs []) = map_of (rev kvs) k"
    for k :: int and kvs :: "(int \<times> connect_time_t) list"
    using tmap.assign_all_last [OF tmap_wf_Nil, of k kvs] by (simp split: option.splits)
  have first: "tmap_find k (fold (\<lambda>(k, v). tmap_emplace k v) kvs []) = map_of kvs k"
    for k :: int and kvs :: "(int \<times> buffer_t) list"
    using tmap.emplace_all_first [OF tmap_wf_Nil, of k kvs] by simp
  obtain bat' where "listen_all evs (bat, incoming_data_buffer_new, q) = Inr (bat', b', q')"
    using listen_all_enters [OF assms(2) run(1)] by blast
  then show ?thesis
    using run(2,6) first last
    by (intro exI [of _ bat'] exI [of _ b'] exI [of _ q']) (simp add: listening_def run(3-5) listen_all_def)
qed

theorem minute_log_witness:
  "\<exists>bat' b' q'. fold_outcome
      (\<lambda>(now, e) (bat, b, q). listen now (istream_of (enc_event e)) bat b q)
      [(0, Renamed 1 [97]), (5, Deal_Won 1 4), (9, Renamed 1 [98]), (9, Deal_Won 1 3)]
      (message_battery_new, incoming_data_buffer_new, job_queue_new 2) = Inr (bat', b', q') \<and>
    tmap_find 1 (usersRenamed b') = Some [97] \<and> tmap_find 1 (dealsWon b') = Some 7"
proof -
  let ?evs = "[(0, Renamed 1 [97]), (5, Deal_Won 1 4), (9, Renamed 1 [98]), (9, Deal_Won 1 3)]"
  have "deals_fit ?evs incoming_data_buffer_new"
    by (auto simp: deals_fit_def deals_of_def List.map_filter_simps incoming_data_buffer_new_def tmap_at_def)
  moreover have "\<forall>(now, e) \<in> set ?evs. valid_event e" by (simp add: in_int_def in_long_def UCHAR_MAX_def)
  ultimately show ?thesis
    using minute_log [OF sample_queue_wf, of ?evs message_battery_new]
    by (auto simp: deals_of_def List.map_filter_simps)
qed

text \<open>
  From the connection to the rating: if the deals of a minute raise the winnings and keep the sums
  in range, the buffer the listener fills makes the next recalculation run to its end, with the rating
  data doing what the specification says of that buffer.
\<close>

theorem minute_from_messages:
  assumes "core_wf c us" and "job_queue_wf q" and "deals_raise evs (users_view c, r)"
    and "enter_all evs (incoming_data_buffer_new, q) = Inr (b, q')"
    and "int (length (rating_vector c) + length (dealsWon b)) \<le> INT_MAX"
  shows "\<exists>s'. recalculate dropOld (calc_start c us b q') = Inr s' \<and>
    core_wf (cs_core s') (cs_online s') \<and>
    users_view (cs_core s') = fst (spec_recalculate dropOld b (users_view c, reported q'))"
proof -
  have raise: "deals_raise evs (users_view c, reported q')" using assms(3) by (simp add: deals_raise_def)
  have q': "job_queue_wf q'" by (rule messages_minute_ok(2) [OF assms(2,3,4)])
  let ?s = "calc_start c us b q'"
  have "calc_inv b ?s" using assms(1,5) q' by (simp add: calc_inv_def calc_start_def)
  moreover have view: "calc_view ?s = (users_view c, reported q')" by (simp add: calc_view_def calc_start_def)
  moreover have "minute_ok dropOld (calc_view ?s) b"
    unfolding view by (rule messages_minute_ok(1) [OF assms(2) raise assms(4)])
  ultimately obtain s' where s': "recalculate dropOld ?s = Inr s'" "core_wf (cs_core s') (cs_online s')"
      "calc_view s' = spec_recalculate dropOld b (users_view c, reported q')"
    using recalculate_ok by metis
  have "users_view (cs_core s') = fst (calc_view s')" by (simp add: calc_view_def)
  then show ?thesis using s' by auto
qed

theorem minute_from_messages_witness:
  "\<exists>b q' s'. enter_all [(5, Deal_Won 20 30), (9, Deal_Won 30 3)]
      (incoming_data_buffer_new, job_queue_new 2) = Inr (b, q') \<and>
    recalculate False (calc_start sample_core sample_online b q') = Inr s' \<and>
    core_wf (cs_core s') (cs_online s')"
proof -
  let ?evs = "[(5, Deal_Won 20 30), (9, Deal_Won 30 3)]"
  have raise: "deals_raise ?evs (users_view sample_core, {#})"
    using sample_winnings by (fastforce simp: deals_raise_def deals_of_def List.map_filter_simps split: option.splits)
  obtain b q' where run: "enter_all ?evs (incoming_data_buffer_new, job_queue_new 2) = Inr (b, q')"
      "dealsWon b = [(20, 30), (30, 3)]"
    by (simp add: enter_all_def incoming_data_buffer_new_def tmap_at_def in_long_def)
  have "int (length (rating_vector sample_core) + length (dealsWon b)) \<le> INT_MAX"
    using run(2) by (simp add: sample_core_def INT_MAX_def)
  from minute_from_messages [OF sample_core_wf sample_queue_wf raise run(1) this] run(1) show ?thesis by blast
qed

section \<open>The transport\<close>

text \<open>
  C16. Framing is lossless: a buffer whose body fits the size field is, once written and arrived,
  received as exactly that body, and what follows in the connection is untouched.
\<close>

theorem framing_lossless:
  assumes "asio_stream wr rd sent pending" and "length body + 2 < 2 ^ 16"
    and "writeMessage wr (sized body) n = (Inr buffer, n')"
    and "pending m = drop (length (sent n)) (sent n') @ rest"
  shows "\<exists>m'. layer_receive rd m = (Inr (istream_of body), m') \<and> pending m' = rest"
proof -
  have "sent n' = sent n @ frame body" by (rule writeMessage_sized(1) [OF assms(1,3)])
  then have "pending m = frame body @ rest" using assms(4) by simp
  from layer_receive_frame [OF assms(1) this assms(2)] show ?thesis .
qed

theorem framing_lossless_witness:
  "\<exists>buffer n' m'. writeMessage link_write (sized [1, 2, 3]) [] = (Inr buffer, n') \<and>
    layer_receive link_read (n' @ [9]) = (Inr (istream_of [1, 2, 3]), m') \<and> m' = [9]"
proof -
  obtain buffer n' where run: "writeMessage link_write (sized [1, 2, 3]) [] = (Inr buffer, n')"
    by (simp add: writeMessage_def layer_send_def link_write_def io_bind_def io_return_def Let_def)
  have "id (n' @ [9]) = drop (length (id ([] :: buffer_t))) (id n') @ [9]" by simp
  from framing_lossless [OF asio_stream_link _ run this] show ?thesis using run by auto
qed

text \<open>
  C35. A size field of less than two makes the subtraction of the field's own size wrap around: the
  receiver asks for a vector of nearly \<open>2 ^ 64\<close> bytes and throws an exception that is not the
  recoverable one, so a single such message ends the service.
\<close>

theorem short_size_throws:
  fixes ms :: message_size_t
  assumes "asio_stream wr rd sent pending" and "ms < 2"
    and "pending m = bytes_of_word ms @ rest"
  shows "fst (layer_receive rd m) = Inl (Throw Std_Exception)"
proof -
  have "fst (rd 2 m) = Some (bytes_of_word (ms :: message_size_t))"
    using assms(1,3) unfolding asio_stream_def by simp
  moreover have ms: "word_of_bytes (bytes_of_word ms) = ms" by (rule word_of_bytes_of_word) simp
  moreover have "unat ms < 2" using assms(2) by (simp add: word_less_nat_alt)
  then have "size_t_of (int (unat ms) - 2) > 2 ^ 63 - 1"
    by (cases "unat ms"; cases "unat ms - 1") (auto simp: size_t_of_def)
  ultimately show ?thesis
    by (cases "rd 2 m") (simp add: layer_receive_def sizeof_def Let_def)
qed

theorem short_size_throws_witness: "fst (layer_receive link_read [1, 0, 5]) = Inl (Throw Std_Exception)"
  by (rule short_size_throws [OF asio_stream_link, of 1 _ "[5]"]) (simp_all add: bytes_of_word_def upt_rec)

text \<open>
  C29. The handshake is accepted for exactly the messages that start with the handshake code and the
  service's version of the protocol.
\<close>

theorem handshake_accepts:
  "fst (server_handshake wr (istream_of body) n) = Inr () \<longleftrightarrow>
    (\<exists>rest. body = bytes_of_word (client_code HANDSHAKE) @ bytes_of_word proto_version @ rest)"
  by (rule server_handshake_iff)

text \<open>
  Once a connection is accepted and its first message received, everything that goes wrong in the
  handshake (a short message, another code, another version, a broken connection while the error is
  sent) is the recoverable transport error.
\<close>

theorem launch_failures_recoverable:
  assumes "accept n = (Inr (), n1)" and "layer_receive rd n1 = (Inr buffer, n2)"
    and "fst (server_launch accept rd wr n) = Inl e"
  shows "e = Throw Transport_Error_Recoverable"
  by (rule server_launch_failures [OF assms])

theorem launch_failures_recoverable_witness:
  "fst (server_launch (\<lambda>n. (Inr (), n)) link_read link_write (frame [7])) =
    Inl (Throw Transport_Error_Recoverable)"
proof -
  obtain n2 where rec: "layer_receive link_read (frame [7]) = (Inr (istream_of [7]), n2)"
    using layer_receive_frame [OF asio_stream_link, of "frame [7]" "[7]" "[]"] by auto
  have "fst (server_launch (\<lambda>n. (Inr (), n)) link_read link_write (frame [7])) \<noteq> Inr ()"
    using rec server_handshake_iff [of link_write "[7]" n2]
    by (auto simp: server_launch_def io_catch_all_def bytes_of_word_def split: prod.splits sum.splits failure.splits)
  then obtain e where e: "fst (server_launch (\<lambda>n. (Inr (), n)) link_read link_write (frame [7])) = Inl e"
    by (cases "fst (server_launch (\<lambda>n. (Inr (), n)) link_read link_write (frame [7]))") auto
  have "e = Throw Transport_Error_Recoverable"
    by (rule launch_failures_recoverable [of "\<lambda>n. (Inr (), n)" "frame [7]" "frame [7]" link_read _ n2 link_write, OF _ rec e]) simp
  then show ?thesis using e by simp
qed

section \<open>The announcer\<close>

text \<open>
  C19. In a full minute without a stop signal the announcer recalculates the rating as specified and then
  hands every user of the rating who is connected to the workers exactly once, and nobody else.
\<close>

theorem every_connected_user_announced:
  assumes "data_wf d" and "minute_ok (dropOldRating s) (data_view d) inc" and "room_for d inc"
    and "chronoSetIndex s = 0" and "\<forall>i < 60. \<not> flagSeen rd i"
  shows "\<exists>s' d'. announcer_minute rd inc (s, d) = Inr (True, s', d') \<and> data_wf d' \<and>
    data_view d' = spec_minute (dropOldRating s, inc) (data_view d) \<and>
    mset (concat (user_data_lanes (snd (snd d')))) = mset (concat (user_data_lanes (snd (snd d)))) +
      mset_set {a. \<exists>u. objects (fst d') a = Some u \<and> secondConnected u < 60}"
  by (rule minute_announces [OF assms])

theorem every_connected_user_announced_witness:
  "\<exists>s' d'. announcer_minute
      \<lparr> updateTime = 0, weekTime = 0, syncTime = 0, flagSeen = (\<lambda>_. False) \<rparr>
      (incoming_data_buffer_new\<lparr>usersRegistered := [(1, [97])], connectionChanges := [(1, 5)], dealsWon := [(1, 9)]\<rparr>)
      (announcer_init 0 0 0, core_rating_data_new, iteration_data_new, job_queue_new 2) = Inr (True, s', d') \<and>
    data_wf d'"
proof -
  let ?b = "incoming_data_buffer_new\<lparr>usersRegistered := [(1, [97])], connectionChanges := [(1, 5)], dealsWon := [(1, 9)]\<rparr>"
  let ?d = "(core_rating_data_new, iteration_data_new, job_queue_new 2)"
  let ?rd = "\<lparr> updateTime = 0, weekTime = 0, syncTime = 0, flagSeen = (\<lambda>_. False) \<rparr>"
  have s: "\<not> dropOldRating (announcer_init 0 0 0)" "chronoSetIndex (announcer_init 0 0 0) = 0"
    by (simp_all add: announcer_init_def Let_def currentSecondIndex_def chrono_floor_def)
  have ok: "minute_ok (dropOldRating (announcer_init 0 0 0)) (data_view ?d) ?b"
    using s(1) data_view_new [of 2]
    by (auto simp: minute_ok_def incoming_data_buffer_new_def tmap_wf_def deal_ok_def connection_ok_def)
  have room: "room_for ?d ?b" by (simp add: room_for_def core_rating_data_new_def INT_MAX_def)
  have wf: "data_wf ?d" by (rule data_wf_new) (simp_all add: INT_MAX_def)
  from every_connected_user_announced [OF wf ok room s(2), of ?rd] show ?thesis by auto
qed

text \<open>
  C21. When the announcer finds that a week has begun it serves the old rating for one more minute and
  drops it once, in the minute after: the first two minutes apply their events to the data as they are,
  the third drops the winnings first, so that afterwards a user's winnings are what he won in that minute
  and nobody else has any; it takes over the date of the new week there and clears the flag. The minutes
  start from data in order and keep to what is asked of their events.
\<close>

theorem rating_dropped_once_a_week:
  assumes "announcer_minute rd1 b1 (s, d) = Inr (True, s1, d1)"
    and "\<not> dropOldRating s" and "\<not> weekJustTurned s"
    and "ratingExpirationDate s < currentWeekStart (weekTime rd1)"
    and "announcer_minute rd2 b2 (s1, d1) = Inr (True, s2, d2)"
    and "announcer_minute rd3 b3 (s2, d2) = Inr (go, s3, d3)"
    and "data_wf d" and "minute_ok False (data_view d) b1" and "room_for d b1"
    and "minute_ok False (data_view d1) b2" and "room_for d1 b2"
    and "minute_ok True (data_view d2) b3" and "room_for d2 b3"
  shows "\<not> dropOldRating s1 \<and> dropOldRating s2 \<and> \<not> dropOldRating s3 \<and>
    ratingExpirationDate s2 = ratingExpirationDate s \<and>
    ratingExpirationDate s3 = currentWeekStart (updateTime rd3) \<and>
    data_view d2 = spec_minute (False, b2) (spec_minute (False, b1) (data_view d)) \<and>
    data_view d3 = spec_minute (True, b3) (data_view d2) \<and>
    (\<forall>k x. fst (data_view d3) k = Some x \<longrightarrow> view_winnings x = tmap_find k (dealsWon b3))"
  using week_turn_steps [OF assms(1-6)] week_turn_data [OF assms] by blast

theorem rating_dropped_once_a_week_witness:
  "\<exists>s s1 s2 s3 d1 d2 d3.
    announcer_minute \<lparr> updateTime = 0, weekTime = week_ns, syncTime = 0, flagSeen = (\<lambda>_. False) \<rparr>
      incoming_data_buffer_new (s, core_rating_data_new, iteration_data_new, job_queue_new 2) = Inr (True, s1, d1) \<and>
    announcer_minute \<lparr> updateTime = 0, weekTime = week_ns, syncTime = 0, flagSeen = (\<lambda>_. False) \<rparr>
      incoming_data_buffer_new (s1, d1) = Inr (True, s2, d2) \<and>
    announcer_minute \<lparr> updateTime = week_ns, weekTime = week_ns, syncTime = 0, flagSeen = (\<lambda>_. False) \<rparr>
      incoming_data_buffer_new (s2, d2) = Inr (True, s3, d3) \<and>
    \<not> dropOldRating s1 \<and> dropOldRating s2 \<and> \<not> dropOldRating s3 \<and>
    data_view d3 = spec_minute (True, incoming_data_buffer_new) (data_view d2)"
proof -
  let ?rd = "\<lparr> updateTime = 0, weekTime = week_ns, syncTime = 0, flagSeen = (\<lambda>_. False) \<rparr>"
  let ?rd3 = "\<lparr> updateTime = week_ns, weekTime = week_ns, syncTime = 0, flagSeen = (\<lambda>_. False) \<rparr>"
  let ?s = "\<lparr> dropOldRating = False, weekJustTurned = False, chronoSetIndex = 0, ratingExpirationDate = 0 \<rparr>"
  let ?b = incoming_data_buffer_new
  have ok: "minute_ok k v ?b" for k v
    by (auto simp: minute_ok_def incoming_data_buffer_new_def tmap_wf_def)
  have room: "room_for d ?b" if "data_wf d" for d
    using that by (auto simp: room_for_def data_wf_def core_wf_def rating_wf_def incoming_data_buffer_new_def)
  have wf: "data_wf (core_rating_data_new, iteration_data_new, job_queue_new 2)"
    by (rule data_wf_new) (simp_all add: INT_MAX_def)
  have sec: "currentSecondIndex 0 = 0" by (simp add: currentSecondIndex_def chrono_floor_def)
  obtain s1 d1 where m1: "announcer_minute ?rd ?b (?s, core_rating_data_new, iteration_data_new, job_queue_new 2) =
      Inr (True, s1, d1)" "data_wf d1"
    using minute_announces [OF wf ok room [OF wf], of ?s ?rd] by auto
  have s1: "chronoSetIndex s1 = 0"
    using announcer_minute_state [OF m1(1)] by (auto simp: announcer_turn_def Let_def)
  obtain s2 d2 where m2: "announcer_minute ?rd ?b (s1, d1) = Inr (True, s2, d2)" "data_wf d2"
    using minute_announces [OF m1(2) ok room [OF m1(2)] s1, of ?rd] by auto
  have s2: "chronoSetIndex s2 = 0"
    using announcer_minute_state [OF m2(1)] sec by (auto simp: announcer_turn_def Let_def split: if_splits)
  obtain s3 d3 where m3: "announcer_minute ?rd3 ?b (s2, d2) = Inr (True, s3, d3)"
    using minute_announces [OF m2(2) ok room [OF m2(2)] s2, of ?rd3] by auto
  have "0 < currentWeekStart week_ns"
    using week_start_bounds(2) [of week_ns] by (simp add: currentWeekStart_def chrono_floor_def week_ns_def)
  then have "ratingExpirationDate ?s < currentWeekStart (weekTime ?rd)" by simp
  from rating_dropped_once_a_week [OF m1(1) _ _ this m2(1) m3 wf ok room [OF wf] ok room [OF m1(2)] ok room [OF m2(2)]]
  have "\<not> dropOldRating s1 \<and> dropOldRating s2 \<and> \<not> dropOldRating s3 \<and>
      data_view d3 = spec_minute (True, ?b) (data_view d2)" by simp
  then show ?thesis
    using m1(1) m2(1) m3 by blast
qed

section \<open>The clock\<close>

text \<open>
  \<open>currentWeekStart\<close> is the one midnight from a Sunday to a Monday that is not after the clock's
  reading and less than a week before it, also for readings before the epoch.
\<close>

theorem week_starts_on_monday:
  "m = currentWeekStart now \<longleftrightarrow>
    day_ns dvd m \<and> m div day_ns mod 7 = 4 \<and> m \<le> now \<and> now < m + week_ns"
  using week_start_bounds week_start_monday week_start_unique by metis

text \<open>
  The index under which a connection is filed is the second of the clock's minute, a number from 0
  to 59, so that it selects one of the sixty sets of users on line.
\<close>

theorem second_of_minute:
  "currentSecondIndex now < 60 \<and> int (currentSecondIndex now) = now div second_ns mod 60"
  using second_index_bound [of now] second_index [of now] by simp

end
